(* ===== verification/Prelude.thy ===== *)
theory Prelude
  imports Main "HOL-Library.Word"
begin

text \<open>
  Shared vocabulary of the development: the C integer types, the result type of
  kernel routines, the scan of a C table for its first matching entry, and generic
  facts about lists and words.

  A C \<open>uint\<close> is a \<open>32 word\<close>, so that its arithmetic wraps as the machine's does.
  A C \<open>int\<close> is a HOL \<open>int\<close> (signed overflow is undefined in C), except where
  the code uses it as a bit mask, where it is a \<open>32 word\<close> as well.
\<close>

unbundle bit_operations_syntax

type_synonym uchar = "8 word"
type_synonym ushort = "16 word"
type_synonym uint32 = "32 word"

named_theorems kern_simps "rewriting a kernel routine one call further"
named_theorems frame_simps "state components a routine leaves alone"


section \<open>Results of kernel routines\<close>

text \<open>
  The argument of \<open>sleep\<close> and \<open>wakeup\<close> is an address that is only ever compared.
  The constructors name the objects whose addresses the kernel uses.
\<close>

datatype chan =
    ChanProc nat          \<comment> \<open>a slot of \<open>ptable.proc\<close> (\<open>wait\<close>)\<close>
  | ChanTicks             \<comment> \<open>\<open>&ticks\<close>\<close>
  | ChanBuf nat           \<comment> \<open>a slot of \<open>bcache.buf\<close>\<close>
  | ChanLog               \<comment> \<open>\<open>&log\<close>\<close>
  | ChanInode nat         \<comment> \<open>a slot of \<open>icache.inode\<close>\<close>
  | ChanPipeRead uint32   \<comment> \<open>\<open>&p->nread\<close>\<close>
  | ChanPipeWrite uint32  \<comment> \<open>\<open>&p->nwrite\<close>\<close>
  | ChanInput             \<comment> \<open>\<open>&input.r\<close>\<close>
  | ChanExit              \<comment> \<open>\<open>exit\<close>: the process is never resumed\<close>

text \<open>
  A routine returns (\<open>Ok\<close>), stops the machine (\<open>Panic\<close>, with the message), or
  gives up the processor in \<open>sleep\<close> (\<open>Sleep\<close>, with the channel and the state in
  which the caller is left waiting).
\<close>

datatype ('a, 's) outcome = Ok 'a 's | Panic string | Sleep chan 's

fun mbind :: "('a, 's) outcome \<Rightarrow> ('a \<Rightarrow> 's \<Rightarrow> ('b, 's) outcome) \<Rightarrow> ('b, 's) outcome" where
  "mbind (Ok x s) f = f x s"
| "mbind (Panic m) f = Panic m"
| "mbind (Sleep c s) f = Sleep c s"

lemma mbind_cong [fundef_cong]:
  "m = m' \<Longrightarrow> (\<And>x s. m' = Ok x s \<Longrightarrow> f x s = g x s) \<Longrightarrow> mbind m f = mbind m' g"
  by (cases m') auto

lemma mbind_eq_Ok:
  "mbind m f = Ok y t \<longleftrightarrow> (\<exists>x s. m = Ok x s \<and> f x s = Ok y t)"
  by (cases m) auto

lemma Ok_eq_mbind:
  "Ok y t = mbind m f \<longleftrightarrow> (\<exists>x s. m = Ok x s \<and> f x s = Ok y t)"
  by (cases m) auto

lemma mbind_eq_Panic:
  "mbind m f = Panic e \<longleftrightarrow> m = Panic e \<or> (\<exists>x s. m = Ok x s \<and> f x s = Panic e)"
  by (cases m) auto

lemma mbind_OkE:
  assumes "mbind m f = Ok y t"
  obtains x s where "m = Ok x s" and "f x s = Ok y t"
  using assms by (auto simp: mbind_eq_Ok)

lemma mbind_assoc: "mbind (mbind m f) g = mbind m (\<lambda>x s. mbind (f x s) g)"
  by (cases m) auto

text \<open>The invariant a routine keeps: in every state it returns, or sleeps in.\<close>

definition keeps :: "('s \<Rightarrow> bool) \<Rightarrow> ('a, 's) outcome \<Rightarrow> bool" where
  "keeps I m \<longleftrightarrow> (case m of Ok x s \<Rightarrow> I s | Panic e \<Rightarrow> True | Sleep c s \<Rightarrow> I s)"

lemma keeps_simps [simp]:
  "keeps I (Ok x s) = I s" "keeps I (Panic e)" "keeps I (Sleep c s) = I s"
  by (simp_all add: keeps_def)

lemma keeps_mbind:
  "keeps I m \<Longrightarrow> (\<And>x s. m = Ok x s \<Longrightarrow> I s \<Longrightarrow> keeps I (f x s)) \<Longrightarrow> keeps I (mbind m f)"
  by (cases m) auto


section \<open>Scanning a table\<close>

text \<open>
  \<open>for(p = tab; p < &tab[N]; p++) if(P(p)) goto found;\<close> is \<open>ffind P tab\<close>: the index
  of the first entry with \<open>P\<close>.
\<close>

fun ffind :: "('a \<Rightarrow> bool) \<Rightarrow> 'a list \<Rightarrow> nat option" where
  "ffind P [] = None"
| "ffind P (x # xs) = (if P x then Some 0 else map_option Suc (ffind P xs))"

lemma ffind_None: "ffind P xs = None \<longleftrightarrow> (\<forall>x\<in>set xs. \<not> P x)"
  by (induction xs) auto

lemma ffind_SomeD:
  "ffind P xs = Some i \<Longrightarrow> i < length xs \<and> P (xs ! i) \<and> (\<forall>j<i. \<not> P (xs ! j))"
  by (induction xs arbitrary: i) (auto split: if_splits simp: less_Suc_eq_0_disj)

lemma ffind_Some:
  "ffind P xs = Some i \<longleftrightarrow> i < length xs \<and> P (xs ! i) \<and> (\<forall>j<i. \<not> P (xs ! j))"
proof (induction xs arbitrary: i)
  case Nil
  then show ?case by simp
next
  case (Cons x xs)
  then show ?case
    by (cases i) (auto simp: less_Suc_eq_0_disj)
qed

lemma ffind_SomeI:
  "i < length xs \<Longrightarrow> P (xs ! i) \<Longrightarrow> \<exists>j. ffind P xs = Some j \<and> j \<le> i"
  by (induction xs arbitrary: i) (auto simp: nth_Cons split: nat.splits, fastforce)

lemma ffind_ex: "(\<exists>i. ffind P xs = Some i) \<longleftrightarrow> (\<exists>x\<in>set xs. P x)"
  using ffind_None [of P xs] by auto


section \<open>Lists updated in place\<close>

lemma length_filter_update_less:
  "i < length xs \<Longrightarrow> P (xs ! i) \<Longrightarrow> \<not> P y \<Longrightarrow>
   length (filter P xs) = Suc (length (filter P (xs[i := y])))"
proof (induction xs arbitrary: i)
  case Nil
  then show ?case by simp
next
  case (Cons x xs)
  then show ?case by (cases i) auto
qed

lemma length_filter_update_same:
  "i < length xs \<Longrightarrow> P (xs ! i) = P y \<Longrightarrow>
   length (filter P (xs[i := y])) = length (filter P xs)"
proof (induction xs arbitrary: i)
  case Nil
  then show ?case by simp
next
  case (Cons x xs)
  then show ?case by (cases i) auto
qed

lemma list_update_eq_iff_nth:
  "i < length xs \<Longrightarrow>
   ys = xs[i := y] \<longleftrightarrow>
     length ys = length xs \<and> ys ! i = y \<and> (\<forall>j<length xs. j \<noteq> i \<longrightarrow> ys ! j = xs ! j)"
  by (auto simp: list_eq_iff_nth_eq nth_list_update)

lemma map_update_same:
  "i < length xs \<Longrightarrow> f y = f (xs ! i) \<Longrightarrow> map f (xs[i := y]) = map f xs"
  by (simp add: map_update list_update_same_conv)


section \<open>Allocating a slot of a table\<close>

text \<open>
  Several tables of the kernel (open files, descriptors, processes) hand out their
  first free slot. The contract: the slot was free and is not any more, every slot
  before it was taken, the others are untouched, and allocation fails only when no
  slot is free.
\<close>

locale slot_table =
  fixes slots :: "'s \<Rightarrow> 'x list"
    and free :: "'x \<Rightarrow> bool"
    and alloc :: "'s \<Rightarrow> (nat \<times> 's) option"
  assumes alloc_None: "alloc s = None \<longleftrightarrow> (\<forall>x\<in>set (slots s). \<not> free x)"
    and alloc_Some: "alloc s = Some (i, s') \<Longrightarrow>
      i < length (slots s) \<and> free (slots s ! i) \<and> (\<forall>j<i. \<not> free (slots s ! j)) \<and>
      (\<exists>y. \<not> free y \<and> slots s' = (slots s)[i := y])"
begin

definition nfree :: "'s \<Rightarrow> nat" where
  "nfree s = length (filter free (slots s))"

fun alloc_many :: "nat \<Rightarrow> 's \<Rightarrow> (nat list \<times> 's) option" where
  "alloc_many 0 s = Some ([], s)"
| "alloc_many (Suc n) s =
     (case alloc s of None \<Rightarrow> None
      | Some (i, s1) \<Rightarrow> (case alloc_many n s1 of None \<Rightarrow> None
                          | Some (is, s2) \<Rightarrow> Some (i # is, s2)))"

lemma alloc_succeeds: "(\<exists>r. alloc s = Some r) \<longleftrightarrow> 0 < nfree s"
proof -
  have "(alloc s = None) = (nfree s = 0)"
    unfolding nfree_def by (simp add: alloc_None filter_empty_conv)
  then show ?thesis by auto
qed

lemma alloc_nfree:
  assumes "alloc s = Some (i, s')"
  shows "nfree s = Suc (nfree s')"
proof -
  from alloc_Some [OF assms] obtain y where
      "i < length (slots s)" "free (slots s ! i)" "\<not> free y" "slots s' = (slots s)[i := y]"
    by auto
  then show ?thesis
    unfolding nfree_def using length_filter_update_less [of i "slots s" free y] by simp
qed

lemma alloc_first:
  assumes "alloc s = Some (i, s')" and "free (slots s ! j)" and "j < length (slots s)"
  shows "i \<le> j"
  using alloc_Some [OF assms(1)] assms(2) by (meson not_le)

lemma alloc_frame:
  assumes "alloc s = Some (i, s')" and "j \<noteq> i"
  shows "slots s' ! j = slots s ! j"
  using alloc_Some [OF assms(1)] assms(2) by auto

text \<open>The table hands out exactly its free slots: \<open>n\<close> allocations succeed iff \<open>n\<close> are free.\<close>

lemma alloc_many_succeeds: "(\<exists>r. alloc_many n s = Some r) \<longleftrightarrow> n \<le> nfree s"
proof (induction n arbitrary: s)
  case 0
  then show ?case by simp
next
  case (Suc n)
  show ?case
  proof (cases "alloc s")
    case None
    then show ?thesis using alloc_succeeds [of s] by auto
  next
    case (Some r)
    obtain i s1 where r: "r = (i, s1)" by force
    have "nfree s = Suc (nfree s1)" using Some r alloc_nfree by simp
    moreover have "(\<exists>q. alloc_many (Suc n) s = Some q) \<longleftrightarrow> (\<exists>q. alloc_many n s1 = Some q)"
      using Some r by (auto split: option.splits)
    ultimately show ?thesis using Suc.IH [of s1] by simp
  qed
qed

lemma alloc_many_free:
  "alloc_many n s = Some (is, s') \<Longrightarrow> j \<in> set is \<Longrightarrow> j < length (slots s) \<and> free (slots s ! j)"
proof (induction n arbitrary: s "is" s')
  case 0
  then show ?case by simp
next
  case (Suc n)
  from Suc.prems obtain i s1 is1 where
      a: "alloc s = Some (i, s1)" and m: "alloc_many n s1 = Some (is1, s')" and i: "is = i # is1"
    by (auto split: option.splits)
  from alloc_Some [OF a] obtain y where
      y: "i < length (slots s)" "free (slots s ! i)" "\<not> free y" "slots s1 = (slots s)[i := y]"
    by auto
  show ?case
  proof (cases "j = i")
    case True
    then show ?thesis using y by simp
  next
    case False
    then have "j \<in> set is1" using Suc.prems(2) i by simp
    from Suc.IH [OF m this] show ?thesis using y False by simp
  qed
qed

text \<open>No slot is handed out twice.\<close>

lemma alloc_many_distinct: "alloc_many n s = Some (is, s') \<Longrightarrow> distinct is"
proof (induction n arbitrary: s "is" s')
  case 0
  then show ?case by simp
next
  case (Suc n)
  from Suc.prems obtain i s1 is1 where
      a: "alloc s = Some (i, s1)" and m: "alloc_many n s1 = Some (is1, s')" and i: "is = i # is1"
    by (auto split: option.splits)
  from alloc_Some [OF a] obtain y where "i < length (slots s)" "\<not> free y" "slots s1 = (slots s)[i := y]"
    by auto
  then have "\<not> free (slots s1 ! i)" by simp
  then have "i \<notin> set is1" using alloc_many_free [OF m] by blast
  then show ?case using Suc.IH [OF m] i by simp
qed

end


section \<open>Words\<close>

lemma unat_sub_less:
  fixes a b :: "'w::len word"
  shows "b \<le> a \<Longrightarrow> unat (a - b) = unat a - unat b"
  by (simp add: unat_sub)

lemma unat_add_no_wrap:
  fixes a b :: uint32
  shows "unat a + unat b < 2 ^ 32 \<Longrightarrow> unat (a + b) = unat a + unat b"
  by (simp add: unat_word_ariths)

lemma unat_less_32 [simp]: "unat (a :: uint32) < 4294967296"
  using unsigned_less [of a, where 'a = nat] by simp

lemma sint_small: "n < 2 ^ 31 \<Longrightarrow> sint (of_nat n :: uint32) = int n"
  by (simp add: signed_of_nat signed_take_bit_int_eq_self)

lemma unat_of_nat_32: "n < 2 ^ 32 \<Longrightarrow> unat (of_nat n :: uint32) = n"
  by (simp add: unat_of_nat take_bit_nat_eq_self)

lemma unat_sub_wraps:
  fixes a b :: uint32
  assumes "a < b"
  shows "unat (a - b) = 2 ^ 32 - (unat b - unat a)"
proof -
  have ab: "unat a < unat b" using assms by (simp add: word_less_nat_alt)
  have "unat (a - b) = unat a + 2 ^ 32 - unat b"
    unfolding unat_sub_if' using ab by (simp add: word_size)
  then show ?thesis using ab unat_less_32 [of b] by simp
qed

lemma word_add_wraps_iff:
  fixes a b :: uint32
  shows "a + b < a \<longleftrightarrow> 2 ^ 32 \<le> unat a + unat b"
  unfolding word_less_nat_alt unat_plus_if'
  using unat_less_32 [of a] unat_less_32 [of b] by (auto simp del: unat_less_32)

end
