(* ===== verification/Bytes.thy ===== *)
theory Bytes
  imports Prelude
begin

text \<open>
  Byte arrays: a disk block, a page of memory or a pipe buffer is a list of bytes.
  The kernel reads and writes 16-bit and 32-bit fields of such arrays through casts
  (\<open>(struct dinode*)bp->data\<close>, \<open>(uint*)bp->data\<close>, \<open>pgdir[i]\<close>); on the x86 these are
  little-endian. This theory has the accessors, the copy of a byte range into an array
  (the effect of \<open>memmove\<close> between distinct arrays), and the laws both obey.
\<close>

definition get_u16 :: "uchar list \<Rightarrow> nat \<Rightarrow> ushort" where
  "get_u16 xs i = ucast (xs ! i) OR push_bit 8 (ucast (xs ! (i + 1)))"

definition get_u32 :: "uchar list \<Rightarrow> nat \<Rightarrow> uint32" where
  "get_u32 xs i =
     ucast (xs ! i) OR push_bit 8 (ucast (xs ! (i + 1))) OR
     push_bit 16 (ucast (xs ! (i + 2))) OR push_bit 24 (ucast (xs ! (i + 3)))"

definition put_u16 :: "uchar list \<Rightarrow> nat \<Rightarrow> ushort \<Rightarrow> uchar list" where
  "put_u16 xs i w = xs[i := ucast w, i + 1 := ucast (drop_bit 8 w)]"

definition put_u32 :: "uchar list \<Rightarrow> nat \<Rightarrow> uint32 \<Rightarrow> uchar list" where
  "put_u32 xs i w =
     xs[i := ucast w, i + 1 := ucast (drop_bit 8 w),
        i + 2 := ucast (drop_bit 16 w), i + 3 := ucast (drop_bit 24 w)]"

text \<open>\<open>memmove(xs + off, ys, length ys)\<close>, the arrays being distinct.\<close>

definition splice :: "'a list \<Rightarrow> nat \<Rightarrow> 'a list \<Rightarrow> 'a list" where
  "splice xs off ys = take off xs @ ys @ drop (off + length ys) xs"

text \<open>The \<open>n\<close> bytes at offset \<open>off\<close>.\<close>

definition slice :: "'a list \<Rightarrow> nat \<Rightarrow> nat \<Rightarrow> 'a list" where
  "slice xs off n = take n (drop off xs)"


section \<open>Field access\<close>

lemma length_put [simp]:
  "length (put_u16 xs i v) = length xs" "length (put_u32 xs i w) = length xs"
  by (simp_all add: put_u16_def put_u32_def)

lemma join_u16:
  "ucast (ucast w :: uchar) OR push_bit 8 (ucast (ucast (drop_bit 8 w) :: uchar)) = (w :: ushort)"
  by (rule bit_word_eqI) (auto simp: bit_simps)

lemma join_u32:
  "ucast (ucast w :: uchar) OR push_bit 8 (ucast (ucast (drop_bit 8 w) :: uchar)) OR
   push_bit 16 (ucast (ucast (drop_bit 16 w) :: uchar)) OR
   push_bit 24 (ucast (ucast (drop_bit 24 w) :: uchar)) = (w :: uint32)"
proof (rule bit_word_eqI)
  fix n
  assume n: "n < LENGTH(32)"
  consider "n < 8" | "8 \<le> n \<and> n < 16" | "16 \<le> n \<and> n < 24" | "24 \<le> n" by linarith
  then show "bit (ucast (ucast w :: uchar) OR push_bit 8 (ucast (ucast (drop_bit 8 w) :: uchar)) OR
    push_bit 16 (ucast (ucast (drop_bit 16 w) :: uchar)) OR
    push_bit 24 (ucast (ucast (drop_bit 24 w) :: uchar)) :: uint32) n = bit w n"
    using n by cases (auto simp: bit_simps)
qed

lemma get_put_u16 [simp]: "i + 1 < length xs \<Longrightarrow> get_u16 (put_u16 xs i w) i = w"
  by (simp add: get_u16_def put_u16_def join_u16)

lemma get_put_u32 [simp]: "i + 3 < length xs \<Longrightarrow> get_u32 (put_u32 xs i w) i = w"
  by (simp add: get_u32_def put_u32_def join_u32)

lemma nth_put_u32_other: "j < i \<or> i + 4 \<le> j \<Longrightarrow> put_u32 xs i w ! j = xs ! j"
  by (auto simp: put_u32_def)

lemma nth_put_u16_other: "j < i \<or> i + 2 \<le> j \<Longrightarrow> put_u16 xs i w ! j = xs ! j"
  by (auto simp: put_u16_def)

lemma get_u32_cong:
  "(\<And>j. i \<le> j \<Longrightarrow> j < i + 4 \<Longrightarrow> xs ! j = ys ! j) \<Longrightarrow> get_u32 xs i = get_u32 ys i"
  by (simp add: get_u32_def)

lemma get_u16_cong:
  "(\<And>j. i \<le> j \<Longrightarrow> j < i + 2 \<Longrightarrow> xs ! j = ys ! j) \<Longrightarrow> get_u16 xs i = get_u16 ys i"
  by (simp add: get_u16_def)

text \<open>A store leaves every field it does not overlap.\<close>

lemma get_u32_put_u32_other:
  "j + 4 \<le> i \<or> i + 4 \<le> j \<Longrightarrow> get_u32 (put_u32 xs i w) j = get_u32 xs j"
  by (rule get_u32_cong) (auto intro!: nth_put_u32_other)

lemma get_u32_put_u16_other:
  "j + 4 \<le> i \<or> i + 2 \<le> j \<Longrightarrow> get_u32 (put_u16 xs i w) j = get_u32 xs j"
  by (rule get_u32_cong) (auto intro!: nth_put_u16_other)

lemma get_u16_put_u32_other:
  "j + 2 \<le> i \<or> i + 4 \<le> j \<Longrightarrow> get_u16 (put_u32 xs i w) j = get_u16 xs j"
  by (rule get_u16_cong) (auto intro!: nth_put_u32_other)

lemma get_u16_put_u16_other:
  "j + 2 \<le> i \<or> i + 2 \<le> j \<Longrightarrow> get_u16 (put_u16 xs i w) j = get_u16 xs j"
  by (rule get_u16_cong) (auto intro!: nth_put_u16_other)

lemmas get_put_other =
  get_u32_put_u32_other get_u32_put_u16_other get_u16_put_u32_other get_u16_put_u16_other

text \<open>Entry \<open>i\<close> of an array of 32-bit words.\<close>

lemma get_u32_entry:
  "4 * i + 3 < length xs \<Longrightarrow>
   get_u32 (put_u32 xs (4 * i) w) (4 * j) = (if i = j then w else get_u32 xs (4 * j))"
  by (cases i j rule: linorder_cases) (simp_all add: get_u32_put_u32_other)

lemma get_u32_replicate_0 [simp]: "i + 3 < n \<Longrightarrow> get_u32 (replicate n 0) i = 0"
  by (simp add: get_u32_def)

lemma get_u16_replicate_0 [simp]: "i + 1 < n \<Longrightarrow> get_u16 (replicate n 0) i = 0"
  by (simp add: get_u16_def)


section \<open>Byte ranges\<close>

lemma length_splice [simp]:
  "off + length ys \<le> length xs \<Longrightarrow> length (splice xs off ys) = length xs"
  by (simp add: splice_def)

lemma length_slice [simp]: "off + n \<le> length xs \<Longrightarrow> length (slice xs off n) = n"
  by (simp add: slice_def)

lemma nth_splice:
  "off + length ys \<le> length xs \<Longrightarrow> j < length xs \<Longrightarrow>
   splice xs off ys ! j = (if off \<le> j \<and> j < off + length ys then ys ! (j - off) else xs ! j)"
  by (auto simp: splice_def nth_append min_def)

lemma nth_slice: "off + n \<le> length xs \<Longrightarrow> j < n \<Longrightarrow> slice xs off n ! j = xs ! (off + j)"
  by (simp add: slice_def)

lemma slice_splice [simp]:
  "off + length ys \<le> length xs \<Longrightarrow> slice (splice xs off ys) off (length ys) = ys"
  by (simp add: slice_def splice_def)

lemma slice_splice_other:
  assumes "off + length ys \<le> length xs" and "i + n \<le> length xs"
    and "i + n \<le> off \<or> off + length ys \<le> i"
  shows "slice (splice xs off ys) i n = slice xs i n"
  by (rule nth_equalityI) (use assms in \<open>auto simp: nth_slice nth_splice\<close>)

lemma splice_slice [simp]: "off + n \<le> length xs \<Longrightarrow> splice xs off (slice xs off n) = xs"
  by (rule nth_equalityI) (auto simp: nth_slice nth_splice)

lemma slice_all [simp]: "slice xs 0 (length xs) = xs"
  by (simp add: slice_def)

lemma slice_0 [simp]: "slice xs off 0 = []"
  by (simp add: slice_def)

lemma splice_Nil [simp]: "splice xs off [] = xs"
  by (simp add: splice_def)

lemma splice_all [simp]: "length ys = length xs \<Longrightarrow> splice xs 0 ys = ys"
  by (simp add: splice_def)

end
