(* ===== verification/Layout.thy ===== *)
theory Layout
  imports Bytes
begin

text \<open>
  The constants of \<open>param.h\<close> and the address arithmetic of \<open>mmu.h\<close> and
  \<open>memlayout.h\<close>: splitting a virtual address into page-directory index, page-table index
  and offset, rounding to page boundaries, and the kernel's linear map of physical memory.
\<close>

section \<open>Constants\<close>

abbreviation (input) NPROC :: nat where "NPROC \<equiv> 64"
abbreviation (input) KSTACKSIZE :: uint32 where "KSTACKSIZE \<equiv> 4096"
abbreviation (input) NOFILE :: nat where "NOFILE \<equiv> 16"
abbreviation (input) NFILE :: nat where "NFILE \<equiv> 100"
abbreviation (input) NINODE :: nat where "NINODE \<equiv> 50"
abbreviation (input) NDEV :: nat where "NDEV \<equiv> 10"
abbreviation (input) ROOTDEV :: uint32 where "ROOTDEV \<equiv> 1"
abbreviation (input) MAXARG :: nat where "MAXARG \<equiv> 32"
abbreviation (input) MAXOPBLOCKS :: nat where "MAXOPBLOCKS \<equiv> 10"
abbreviation (input) LOGSIZE :: nat where "LOGSIZE \<equiv> 30"
abbreviation (input) NBUF :: nat where "NBUF \<equiv> 30"
abbreviation (input) FSSIZE :: nat where "FSSIZE \<equiv> 1000"

abbreviation (input) EXTMEM :: uint32 where "EXTMEM \<equiv> 0x100000"
abbreviation (input) PHYSTOP :: uint32 where "PHYSTOP \<equiv> 0xE000000"
abbreviation (input) DEVSPACE :: uint32 where "DEVSPACE \<equiv> 0xFE000000"
abbreviation (input) KERNBASE :: uint32 where "KERNBASE \<equiv> 0x80000000"
abbreviation (input) KERNLINK :: uint32 where "KERNLINK \<equiv> 0x80100000"

abbreviation (input) PGSIZE :: uint32 where "PGSIZE \<equiv> 4096"
abbreviation (input) NPDENTRIES :: nat where "NPDENTRIES \<equiv> 1024"
abbreviation (input) NPTENTRIES :: nat where "NPTENTRIES \<equiv> 1024"

abbreviation (input) PTE_P :: uint32 where "PTE_P \<equiv> 1"
abbreviation (input) PTE_W :: uint32 where "PTE_W \<equiv> 2"
abbreviation (input) PTE_U :: uint32 where "PTE_U \<equiv> 4"

abbreviation (input) FL_IF :: uint32 where "FL_IF \<equiv> 0x200"


section \<open>Address arithmetic\<close>

definition v2p :: "uint32 \<Rightarrow> uint32" where
  "v2p a = a - KERNBASE"

definition p2v :: "uint32 \<Rightarrow> uint32" where
  "p2v a = a + KERNBASE"

definition PDX :: "uint32 \<Rightarrow> nat" where
  "PDX va = unat (drop_bit 22 va AND 0x3FF)"

definition PTX :: "uint32 \<Rightarrow> nat" where
  "PTX va = unat (drop_bit 12 va AND 0x3FF)"

definition PGADDR :: "uint32 \<Rightarrow> uint32 \<Rightarrow> uint32 \<Rightarrow> uint32" where
  "PGADDR d t off = push_bit 22 d OR push_bit 12 t OR off"

definition PGROUNDUP :: "uint32 \<Rightarrow> uint32" where
  "PGROUNDUP sz = (sz + PGSIZE - 1) AND NOT (PGSIZE - 1)"

definition PGROUNDDOWN :: "uint32 \<Rightarrow> uint32" where
  "PGROUNDDOWN a = a AND NOT (PGSIZE - 1)"

definition PTE_ADDR :: "uint32 \<Rightarrow> uint32" where
  "PTE_ADDR pte = pte AND NOT 0xFFF"

definition PTE_FLAGS :: "uint32 \<Rightarrow> uint32" where
  "PTE_FLAGS pte = pte AND 0xFFF"

lemma p2v_v2p [simp]: "p2v (v2p a) = a" "v2p (p2v a) = a"
  by (simp_all add: p2v_def v2p_def)

lemma p2v_inj [simp]: "p2v a = p2v b \<longleftrightarrow> a = b"
  by (simp add: p2v_def)

lemma mask_12: "(0xFFF :: uint32) = mask 12"
  by (simp add: mask_eq_exp_minus_1)

lemma mask_10: "(0x3FF :: uint32) = mask 10"
  by (simp add: mask_eq_exp_minus_1)

lemma round_down_unat: "unat (a AND NOT (mask n) :: uint32) = unat a - unat a mod 2 ^ n"
proof -
  have "a AND NOT (mask n) = push_bit n (drop_bit n a)"
    by (rule bit_word_eqI) (auto simp: bit_simps)
  moreover have "unat (push_bit n (drop_bit n a)) = unat a div 2 ^ n * 2 ^ n"
  proof -
    have "unat a div 2 ^ n * 2 ^ n \<le> unat a" by (rule div_times_less_eq_dividend)
    then have "unat a div 2 ^ n * 2 ^ n < 2 ^ 32"
      by (rule le_less_trans) (simp add: unat_less_32)
    then show ?thesis
      unfolding unsigned_push_bit_eq unat_drop_bit_eq
      by (simp add: drop_bit_eq_div push_bit_eq_mult take_bit_nat_eq_self)
  qed
  ultimately show ?thesis by (simp add: minus_mod_eq_div_mult)
qed

lemma PGROUNDDOWN_unat: "unat (PGROUNDDOWN a) = unat a - unat a mod 4096"
  using round_down_unat [of a 12] by (simp add: PGROUNDDOWN_def mask_eq_exp_minus_1)

lemma PGROUNDDOWN_le: "PGROUNDDOWN a \<le> a"
  by (simp add: word_le_nat_alt PGROUNDDOWN_unat)

lemma PGROUNDDOWN_aligned: "unat (PGROUNDDOWN a) mod 4096 = 0"
  by (simp add: PGROUNDDOWN_unat minus_mod_eq_div_mult)

lemma PGROUNDDOWN_offset: "unat (a - PGROUNDDOWN a) = unat a mod 4096"
  by (simp add: unat_sub PGROUNDDOWN_le PGROUNDDOWN_unat)

lemma PGROUNDUP_down: "PGROUNDUP a = PGROUNDDOWN (a + 4095)"
  by (simp add: PGROUNDUP_def PGROUNDDOWN_def add.commute)

lemma PGROUNDUP_unat:
  assumes "unat a \<le> 2 ^ 32 - 4096"
  shows "unat (PGROUNDUP a) = (unat a + 4095) div 4096 * 4096"
proof -
  have "unat (a + 4095) = unat a + 4095"
    using assms unat_add_no_wrap [of a 4095] by simp
  then show ?thesis
    by (simp add: PGROUNDUP_down PGROUNDDOWN_unat minus_mod_eq_div_mult)
qed

lemma PGROUNDUP_bounds:
  assumes "unat a \<le> 2 ^ 32 - 4096"
  shows "a \<le> PGROUNDUP a" "unat (PGROUNDUP a) < unat a + 4096" "unat (PGROUNDUP a) mod 4096 = 0"
  using assms PGROUNDUP_unat [OF assms] by (simp_all add: word_le_nat_alt)

lemma PDX_less: "PDX va < 1024" and PTX_less: "PTX va < 1024"
proof -
  have "unat (x AND 0x3FF) < 1024" for x :: uint32
    unfolding mask_10 take_bit_eq_mask [symmetric] unsigned_take_bit_eq by (simp add: take_bit_eq_mod)
  then show "PDX va < 1024" "PTX va < 1024"
    by (simp_all add: PDX_def PTX_def)
qed

text \<open>The three parts of a virtual address determine it.\<close>

lemma va_split: "PGADDR (of_nat (PDX va)) (of_nat (PTX va)) (PTE_FLAGS va) = va"
  unfolding PGADDR_def PDX_def PTX_def PTE_FLAGS_def mask_12 mask_10
proof (rule bit_word_eqI)
  fix n :: nat
  assume "n < LENGTH(32)"
  then consider "n < 12" | "12 \<le> n" "n < 22" | "22 \<le> n" "n < 32" by fastforce
  then show "bit (push_bit 22 (of_nat (unat (drop_bit 22 va AND mask 10))) OR
         push_bit 12 (of_nat (unat (drop_bit 12 va AND mask 10))) OR va AND mask 12) n = bit va n"
    by cases (auto simp: bit_simps)
qed

lemma pte_split: "PTE_ADDR pte OR PTE_FLAGS pte = pte"
  unfolding PTE_ADDR_def PTE_FLAGS_def by (rule bit_word_eqI) (auto simp: bit_simps)

lemma PTE_ADDR_or:
  assumes "unat pa mod 4096 = 0" and "fl AND NOT 0xFFF = 0"
  shows "PTE_ADDR (pa OR fl) = pa" "PTE_FLAGS (pa OR fl) = fl"
proof -
  have z: "pa AND 0xFFF = 0"
  proof -
    have "pa AND 0xFFF = take_bit 12 pa" by (simp add: take_bit_eq_mask mask_12)
    moreover have "unat (take_bit 12 pa) = 0"
      unfolding unsigned_take_bit_eq using assms(1) by (simp add: take_bit_eq_mod)
    then have "take_bit 12 pa = 0" by (simp only: unsigned_eq_0_iff)
    ultimately show ?thesis by simp
  qed
  have pab: "\<not> bit pa n" if "n < 12" for n
  proof -
    have "bit (pa AND 0xFFF) n = bit pa n" using that by (simp add: mask_12 bit_simps)
    then show ?thesis using z by simp
  qed
  have flb: "\<not> bit fl n" if "12 \<le> n" for n
  proof (cases "n < 32")
    case True
    then have "bit (fl AND NOT 0xFFF) n = bit fl n" using that unfolding mask_12 by (simp add: bit_simps)
    then show ?thesis using assms(2) by simp
  next
    case False
    then show ?thesis by (auto dest: bit_imp_le_length)
  qed
  have q: "bit pa n \<Longrightarrow> n < 12 \<Longrightarrow> False" "bit fl n \<Longrightarrow> \<not> n < 12 \<Longrightarrow> False" for n
    using pab flb by auto
  show "PTE_ADDR (pa OR fl) = pa" "PTE_FLAGS (pa OR fl) = fl"
    unfolding PTE_ADDR_def PTE_FLAGS_def mask_12
    by (auto intro!: bit_word_eqI simp: bit_simps dest: q)
qed

end
