(* ===== verification/Kalloc.thy ===== *)
theory Kalloc
  imports Layout
begin

text \<open>
  The physical page allocator, \<open>kalloc.c\<close>. Free pages form a singly linked list threaded
  through the pages themselves: the first word of a free page is its \<open>run.next\<close>. The
  model keeps the pages' contents as bytes, so that the list is read from memory exactly as the
  code reads it, and relates it to the stack of free pages it represents.
\<close>

section \<open>State and operations\<close>

text \<open>
  Memory is a map from the kernel virtual address of a page to its bytes. \<open>kend\<close> is the
  linker's \<open>end\<close>, the first address after the kernel image.
\<close>

record kmem =
  use_lock :: bool
  freelist :: uint32
  mem :: "uint32 \<Rightarrow> uchar list"
  kend :: uint32

definition bad_page :: "uint32 \<Rightarrow> 'a kmem_scheme \<Rightarrow> bool" where
  "bad_page v s \<longleftrightarrow> v mod PGSIZE \<noteq> 0 \<or> v < kend s \<or> PHYSTOP \<le> v2p v"

definition kfree :: "uint32 \<Rightarrow> 'a kmem_scheme \<Rightarrow> (unit, 'a kmem_scheme) outcome" where
  "kfree v s =
    (if bad_page v s then Panic ''kfree''
     else let junk = replicate 4096 1; r = put_u32 junk 0 (freelist s)
          in Ok () (s\<lparr>mem := (mem s)(v := r), freelist := v\<rparr>))"

definition kalloc :: "'a kmem_scheme \<Rightarrow> (uint32, 'a kmem_scheme) outcome" where
  "kalloc s =
    (let r = freelist s
     in Ok r (if r \<noteq> 0 then s\<lparr>freelist := get_u32 (mem s r) 0\<rparr> else s))"

lemma not_bad_page_below:
  "\<not> bad_page p s \<Longrightarrow> unat p + 4096 < 2 ^ 32"
proof -
  assume "\<not> bad_page p s"
  then have "p - KERNBASE < PHYSTOP" by (simp add: bad_page_def v2p_def not_le)
  then have "unat (p - KERNBASE) < unat PHYSTOP" by (simp only: word_less_nat_alt)
  then show ?thesis by (simp add: unat_sub_if' split: if_splits)
qed

lemma kfree_Ok: "kfree v s = Ok x t \<Longrightarrow> \<not> bad_page v s"
  by (auto simp: kfree_def split: if_splits)

function freerange_loop :: "uint32 \<Rightarrow> uint32 \<Rightarrow> 'a kmem_scheme \<Rightarrow> (unit, 'a kmem_scheme) outcome" where
  "freerange_loop p vend s =
    (if p + PGSIZE \<le> vend
     then mbind (kfree p s) (\<lambda>_ s. freerange_loop (p + PGSIZE) vend s)
     else Ok () s)"
  by pat_completeness auto
termination
proof (relation "measure (\<lambda>(p, vend, s). unat (vend - p))", goal_cases)
  case (2 p vend s x t)
  then have "unat p + 4096 < 2 ^ 32" by (blast dest: kfree_Ok not_bad_page_below)
  then have "unat (p + PGSIZE) = unat p + 4096" using unat_add_no_wrap [of p PGSIZE] by simp
  then show ?case using 2(1) by (simp add: unat_sub_if' word_le_nat_alt)
qed simp

definition freerange :: "uint32 \<Rightarrow> uint32 \<Rightarrow> 'a kmem_scheme \<Rightarrow> (unit, 'a kmem_scheme) outcome" where
  "freerange vstart vend s = freerange_loop (PGROUNDUP vstart) vend s"

definition kinit1 :: "uint32 \<Rightarrow> uint32 \<Rightarrow> 'a kmem_scheme \<Rightarrow> (unit, 'a kmem_scheme) outcome" where
  "kinit1 vstart vend s = freerange vstart vend (s\<lparr>use_lock := False\<rparr>)"

definition kinit2 :: "uint32 \<Rightarrow> uint32 \<Rightarrow> 'a kmem_scheme \<Rightarrow> (unit, 'a kmem_scheme) outcome" where
  "kinit2 vstart vend s =
    mbind (freerange vstart vend s) (\<lambda>_ s. Ok () (s\<lparr>use_lock := True\<rparr>))"

declare freerange_loop.simps [simp del]


section \<open>The free list as a stack of pages\<close>

fun run_list :: "(uint32 \<Rightarrow> uchar list) \<Rightarrow> uint32 \<Rightarrow> uint32 list \<Rightarrow> bool" where
  "run_list m p [] \<longleftrightarrow> p = 0"
| "run_list m p (v # vs) \<longleftrightarrow> p = v \<and> v \<noteq> 0 \<and> run_list m (get_u32 (m v) 0) vs"

definition kmem_list :: "'a kmem_scheme \<Rightarrow> uint32 list \<Rightarrow> bool" where
  "kmem_list s vs \<longleftrightarrow> run_list (mem s) (freelist s) vs \<and> distinct vs \<and>
     (\<forall>v\<in>set vs. \<not> bad_page v s \<and> length (mem s v) = 4096)"

definition kmem_inv :: "'a kmem_scheme \<Rightarrow> bool" where
  "kmem_inv s \<longleftrightarrow> (\<exists>vs. kmem_list s vs)"

definition free_pages :: "'a kmem_scheme \<Rightarrow> uint32 set" where
  "free_pages s = {v. \<exists>vs. kmem_list s vs \<and> v \<in> set vs}"

lemma run_list_unique: "run_list m p vs \<Longrightarrow> run_list m p ws \<Longrightarrow> vs = ws"
proof (induction vs arbitrary: p ws)
  case Nil
  then show ?case by (cases ws) auto
next
  case (Cons v vs)
  then show ?case by (cases ws) auto
qed

lemma run_list_upd: "p \<notin> set vs \<Longrightarrow> run_list (m(p := x)) q vs = run_list m q vs"
  by (induction vs arbitrary: q) auto

lemma kmem_list_unique: "kmem_list s vs \<Longrightarrow> kmem_list s ws \<Longrightarrow> vs = ws"
  by (auto simp: kmem_list_def intro: run_list_unique)

lemma free_pages_list: "kmem_list s vs \<Longrightarrow> free_pages s = set vs"
  by (auto simp: free_pages_def dest: kmem_list_unique)

lemma bad_page_0 [simp]: "bad_page 0 s"
  by (simp add: bad_page_def v2p_def)

lemma bad_page_cong: "kend s = kend t \<Longrightarrow> bad_page v s = bad_page v t"
  by (simp add: bad_page_def)

lemma kfree_list:
  assumes "kmem_list s vs" "\<not> bad_page v s" "v \<notin> set vs"
  shows "\<exists>t. kfree v s = Ok () t \<and> kmem_list t (v # vs) \<and> kend t = kend s"
  using assms unfolding kmem_list_def
  by (auto simp: kfree_def run_list_upd bad_page_cong [of "s\<lparr>mem := _, freelist := _\<rparr>" s])

lemma kalloc_list_Nil: "kmem_list s [] \<Longrightarrow> kalloc s = Ok 0 s"
  by (simp add: kmem_list_def kalloc_def)

lemma kalloc_list_Cons:
  assumes "kmem_list s (v # vs)"
  shows "\<exists>t. kalloc s = Ok v t \<and> kmem_list t vs \<and> mem t = mem s \<and> kend t = kend s"
  using assms unfolding kmem_list_def
  by (auto simp: kalloc_def bad_page_cong [of "s\<lparr>freelist := _\<rparr>" s])


section \<open>The contract of a page pool\<close>

text \<open>
  What the rest of the kernel relies on: a pool hands out a page it holds, and takes back any
  page it does not hold. A client is a history of such calls, in which it gives back only pages
  it owns.
\<close>

datatype pool_op = Take | Give nat

fun pool_run :: "('s \<Rightarrow> (uint32, 's) outcome) \<Rightarrow> (uint32 \<Rightarrow> 's \<Rightarrow> (unit, 's) outcome) \<Rightarrow>
    pool_op list \<Rightarrow> uint32 list \<Rightarrow> 's \<Rightarrow> (uint32 list, 's) outcome" where
  "pool_run al re [] own s = Ok own s"
| "pool_run al re (Take # ops) own s =
     mbind (al s) (\<lambda>p s. pool_run al re ops (if p = 0 then own else p # own) s)"
| "pool_run al re (Give i # ops) own s =
     (if i < length own
      then mbind (re (own ! i) s) (\<lambda>_ s. pool_run al re ops (take i own @ drop (Suc i) own) s)
      else pool_run al re ops own s)"

lemma drop_nth_distinct:
  assumes "distinct xs" "i < length xs"
  shows "distinct (take i xs @ drop (Suc i) xs)"
    and "set (take i xs @ drop (Suc i) xs) = set xs - {xs ! i}"
proof -
  have "xs = take i xs @ xs ! i # drop (Suc i) xs" using assms(2) by (rule id_take_nth_drop)
  then have "distinct (take i xs @ xs ! i # drop (Suc i) xs)"
    "set xs = set (take i xs @ xs ! i # drop (Suc i) xs)" using assms(1) by simp_all
  then show "distinct (take i xs @ drop (Suc i) xs)"
    and "set (take i xs @ drop (Suc i) xs) = set xs - {xs ! i}" by auto
qed

locale page_pool =
  fixes alloc :: "'s \<Rightarrow> (uint32, 's) outcome"
    and release :: "uint32 \<Rightarrow> 's \<Rightarrow> (unit, 's) outcome"
    and pool :: "'s \<Rightarrow> uint32 set"
    and inv :: "'s \<Rightarrow> bool"
    and ok :: "'s \<Rightarrow> uint32 \<Rightarrow> bool"
  assumes alloc_empty: "inv s \<Longrightarrow> pool s = {} \<Longrightarrow> alloc s = Ok 0 s"
    and alloc_some: "inv s \<Longrightarrow> pool s \<noteq> {} \<Longrightarrow>
      \<exists>p t. alloc s = Ok p t \<and> p \<in> pool s \<and> pool t = pool s - {p} \<and> inv t \<and> ok t = ok s"
    and release_ok: "inv s \<Longrightarrow> ok s p \<Longrightarrow> p \<notin> pool s \<Longrightarrow>
      \<exists>t. release p s = Ok () t \<and> pool t = insert p (pool s) \<and> inv t \<and> ok t = ok s"
    and pool_ok: "inv s \<Longrightarrow> p \<in> pool s \<Longrightarrow> ok s p \<and> p \<noteq> 0"
begin

definition holds :: "uint32 list \<Rightarrow> 's \<Rightarrow> bool" where
  "holds own s \<longleftrightarrow> inv s \<and> distinct own \<and> set own \<inter> pool s = {} \<and> (\<forall>p\<in>set own. ok s p)"

lemma holds_alloc:
  assumes "holds own s"
  obtains p t where "alloc s = Ok p t" "holds (if p = 0 then own else p # own) t"
    "set (if p = 0 then own else p # own) \<union> pool t = set own \<union> pool s"
proof (cases "pool s = {}")
  case True
  then show ?thesis using assms that [of 0 s] by (simp add: holds_def alloc_empty)
next
  case False
  then obtain p t where "alloc s = Ok p t" "p \<in> pool s" "pool t = pool s - {p}" "inv t" "ok t = ok s"
    using assms alloc_some [of s] by (auto simp: holds_def)
  moreover have "p \<noteq> 0" "ok s p" using pool_ok assms \<open>p \<in> pool s\<close> by (auto simp: holds_def)
  ultimately show ?thesis using assms that [of p t] by (auto simp: holds_def)
qed

lemma holds_release:
  assumes "holds own s" "i < length own"
  obtains t where "release (own ! i) s = Ok () t" "holds (take i own @ drop (Suc i) own) t"
    "set (take i own @ drop (Suc i) own) \<union> pool t = set own \<union> pool s"
proof -
  have m: "own ! i \<in> set own" using assms(2) by simp
  then have "inv s" "ok s (own ! i)" "own ! i \<notin> pool s" using assms(1) by (auto simp: holds_def)
  then obtain t where "release (own ! i) s = Ok () t" "pool t = insert (own ! i) (pool s)" "inv t"
    "ok t = ok s"
    using release_ok [of s "own ! i"] by blast
  moreover define own' where "own' = take i own @ drop (Suc i) own"
  moreover have d: "distinct own" using assms(1) by (simp add: holds_def)
  moreover note drop_nth_distinct [OF d assms(2), folded own'_def]
  ultimately show ?thesis
    using assms(1) that [of t] m by (fold own'_def) (auto simp: holds_def)
qed

lemma pool_run_partition:
  "holds own s \<Longrightarrow> \<exists>own' t. pool_run alloc release ops own s = Ok own' t \<and> holds own' t \<and>
     set own' \<union> pool t = set own \<union> pool s"
proof (induction ops arbitrary: own s)
  case Nil
  then show ?case by simp
next
  case (Cons a ops)
  show ?case
  proof (cases a)
    case Take
    obtain p t where t: "alloc s = Ok p t" "holds (if p = 0 then own else p # own) t"
      "set (if p = 0 then own else p # own) \<union> pool t = set own \<union> pool s"
      using holds_alloc [OF Cons.prems] .
    then show ?thesis using Cons.IH [OF t(2)] Take by simp
  next
    case (Give i)
    show ?thesis
    proof (cases "i < length own")
      case True
      obtain t where t: "release (own ! i) s = Ok () t" "holds (take i own @ drop (Suc i) own) t"
        "set (take i own @ drop (Suc i) own) \<union> pool t = set own \<union> pool s"
        using holds_release [OF Cons.prems True] .
      then show ?thesis using Cons.IH [OF t(2)] Give True by simp
    next
      case False
      then show ?thesis using Cons Give by simp
    qed
  qed
qed

end

interpretation kp: page_pool kalloc kfree free_pages kmem_inv "\<lambda>s p. \<not> bad_page p s"
proof (unfold_locales, goal_cases)
  case (1 s)
  then show ?case by (auto simp: kmem_inv_def free_pages_list intro: kalloc_list_Nil)
next
  case (2 s)
  then obtain ws where ws: "kmem_list s ws" by (auto simp: kmem_inv_def)
  with 2 have "ws \<noteq> []" by (auto simp: free_pages_list)
  with ws obtain v vs where vs: "kmem_list s (v # vs)" by (cases ws) auto
  then obtain t where t: "kalloc s = Ok v t" "kmem_list t vs" "kend t = kend s"
    using kalloc_list_Cons by blast
  have "v \<notin> set vs" using vs by (simp add: kmem_list_def)
  with t vs show ?case
    by (intro exI [of _ v] exI [of _ t])
      (auto simp: free_pages_list kmem_inv_def bad_page_cong [OF t(3)])
next
  case (3 s p)
  then obtain vs where vs: "kmem_list s vs" by (auto simp: kmem_inv_def)
  with 3 have "p \<notin> set vs" by (simp add: free_pages_list)
  with 3 vs obtain t where t: "kfree p s = Ok () t" "kmem_list t (p # vs)" "kend t = kend s"
    using kfree_list by blast
  with vs show ?case
    by (intro exI [of _ t]) (auto simp: free_pages_list kmem_inv_def bad_page_cong [OF t(3)])
next
  case (4 s p)
  then show ?case by (auto simp: free_pages_def kmem_list_def)
qed

text \<open>C6. However calls of \<open>kalloc\<close> and \<open>kfree\<close> alternate, as long as the kernel
  frees only pages it was given: none of the calls panics, no page is ever owned twice or both
  owned and free, and no page is lost.\<close>

theorem kalloc_kfree_history:
  assumes "kmem_inv s"
  shows "\<exists>own t. pool_run kalloc kfree ops [] s = Ok own t \<and> kmem_inv t \<and> distinct own \<and>
    set own \<inter> free_pages t = {} \<and> set own \<union> free_pages t = free_pages s"
  using kp.pool_run_partition [of "[]" s ops] assms by (auto simp: kp.holds_def)

lemma kalloc_kfree_history_witness:
  "\<exists>(s :: kmem) own t. kmem_list s [0x80108000] \<and>
    pool_run kalloc kfree [Take, Take, Give 0] [] s = Ok own t \<and> set own \<union> free_pages t = {0x80108000}"
proof -
  let ?s = "\<lparr>use_lock = False, freelist = 0x80108000, mem = (\<lambda>_. replicate 4096 0), kend = 0x80108000\<rparr>"
  have k: "kmem_list ?s [0x80108000]" by (simp add: kmem_list_def bad_page_def v2p_def)
  then have "kmem_inv ?s" by (auto simp: kmem_inv_def)
  from kalloc_kfree_history [OF this, of "[Take, Take, Give 0]"] obtain own t
    where "pool_run kalloc kfree [Take, Take, Give 0] [] ?s = Ok own t"
      "set own \<union> free_pages t = free_pages ?s" by (elim exE conjE) rule
  moreover have "free_pages ?s = {0x80108000}" using free_pages_list [OF k] by simp
  ultimately show ?thesis using k by (intro exI [of _ ?s] exI [of _ own] exI [of _ t] conjI) simp_all
qed


section \<open>Initialisation\<close>

lemma not_bad_pageI:
  assumes "unat p mod 4096 = 0" "kend s \<le> p" "0x80000000 \<le> unat p" "unat p < 0x8E000000"
  shows "\<not> bad_page p s"
proof -
  have "unat (p mod PGSIZE) = 0" using assms(1) by (simp add: unat_mod)
  then have "p mod PGSIZE = 0" by (simp only: unsigned_eq_0_iff)
  moreover have "v2p p < PHYSTOP" using assms(3,4) by (simp add: v2p_def word_less_nat_alt unat_sub_if')
  ultimately show ?thesis using assms(2) by (simp add: bad_page_def not_less not_le)
qed

lemma kmem_list_use_lock: "kmem_list (t\<lparr>use_lock := b\<rparr>) vs = kmem_list t vs"
  by (simp add: kmem_list_def bad_page_def)

lemma freerange_loop_list:
  assumes "kmem_list s vs" "unat p mod 4096 = 0" "kend s \<le> p" "0x80000000 \<le> unat p"
    "unat vend \<le> 0x8E000000" "unat p + n * 4096 \<le> unat vend" "unat vend < unat p + n * 4096 + 4096"
    "\<forall>v\<in>set vs. \<not> (p \<le> v \<and> v < vend)"
  shows "\<exists>t. freerange_loop p vend s = Ok () t \<and> kend t = kend s \<and> use_lock t = use_lock s \<and>
    kmem_list t (rev (map (\<lambda>i. p + of_nat i * PGSIZE) [0..<n]) @ vs)"
  using assms
proof (induction n arbitrary: p s vs)
  case 0
  then have "unat (p + PGSIZE) = unat p + 4096" using unat_add_no_wrap [of p PGSIZE] by simp
  then show ?case using 0 by (simp add: freerange_loop.simps word_le_nat_alt)
next
  case (Suc n)
  have up: "unat (p + PGSIZE) = unat p + 4096" using unat_add_no_wrap [of p PGSIZE] Suc.prems by simp
  have nb: "\<not> bad_page p s" using Suc.prems by (intro not_bad_pageI) simp_all
  have "p < vend" using Suc.prems by (simp add: word_less_nat_alt)
  then have "p \<notin> set vs" using Suc.prems(8) by auto
  then obtain t where t: "kfree p s = Ok () t" "kmem_list t (p # vs)" "kend t = kend s"
    using kfree_list [OF Suc.prems(1) nb] by blast
  have ul: "use_lock t = use_lock s" using t(1) nb by (auto simp: kfree_def Let_def)
  have lt: "p < p + PGSIZE" using up by (simp add: word_less_nat_alt)
  have "\<exists>u. freerange_loop (p + PGSIZE) vend t = Ok () u \<and> kend u = kend t \<and>
    use_lock u = use_lock t \<and>
    kmem_list u (rev (map (\<lambda>i. (p + PGSIZE) + of_nat i * PGSIZE) [0..<n]) @ p # vs)"
  proof (rule Suc.IH [OF t(2)])
    show "kend t \<le> p + PGSIZE" using t(3) Suc.prems(3) lt by (metis less_imp_le order_trans)
    have "p \<le> v" if "p + PGSIZE \<le> v" for v using lt that by (rule less_imp_le [OF less_le_trans])
    then show "\<forall>v\<in>set (p # vs). \<not> (p + PGSIZE \<le> v \<and> v < vend)"
      using Suc.prems(8) leD [of "p + PGSIZE" p] lt by auto
  qed (use up Suc.prems in simp_all)
  moreover have "rev (map (\<lambda>i. p + of_nat i * PGSIZE) [0..<Suc n])
      = rev (map (\<lambda>i. (p + PGSIZE) + of_nat i * PGSIZE) [0..<n]) @ [p]"
    by (simp only: map_upt_Suc) (simp add: algebra_simps)
  moreover have "p + PGSIZE \<le> vend" using up Suc.prems by (simp add: word_le_nat_alt)
  ultimately show ?case using t ul by (simp add: freerange_loop.simps [of p])
qed

text \<open>Handing the allocator a range of memory above the kernel image, none of which it
  holds yet, makes exactly the whole pages inside the range free, on top of those that were, and
  does not panic.\<close>

theorem kinit2_frees_range:
  assumes "kmem_list s vs" and "kend s \<le> vstart" and "0x80000000 \<le> unat vstart"
    and "vstart \<le> vend" and "PGROUNDUP vstart \<le> vend" and "unat vend \<le> 0x8E000000"
    and "\<forall>v\<in>set vs. \<not> (PGROUNDUP vstart \<le> v \<and> v < vend)"
  shows "\<exists>t. kinit2 vstart vend s = Ok () t \<and> use_lock t \<and>
    kmem_list t (rev (map (\<lambda>i. PGROUNDUP vstart + of_nat i * PGSIZE)
      [0..<(unat vend - unat (PGROUNDUP vstart)) div 4096]) @ vs)"
proof -
  have le: "unat vstart \<le> 2 ^ 32 - 4096" using assms(4,6) by (simp add: word_le_nat_alt)
  define p where "p = PGROUNDUP vstart"
  note b = PGROUNDUP_bounds [OF le, folded p_def]
  have "\<exists>t. freerange_loop p vend s = Ok () t \<and> kend t = kend s \<and> use_lock t = use_lock s \<and>
    kmem_list t (rev (map (\<lambda>i. p + of_nat i * PGSIZE) [0..<(unat vend - unat p) div 4096]) @ vs)"
    using b assms(2-7) by (intro freerange_loop_list [OF assms(1)]) (auto simp: word_le_nat_alt p_def)
  then show ?thesis by (auto simp: kinit2_def freerange_def p_def kmem_list_use_lock)
qed


lemma kinit2_frees_range_witness:
  "\<exists>t. kinit2 0x80108010 0x8010B800 \<lparr>use_lock = False, freelist = 0, mem = (\<lambda>_. []), kend = 0x80108004\<rparr>
      = Ok () t \<and> use_lock t \<and> kmem_list t [0x8010A000, 0x80109000]"
proof -
  have "PGROUNDUP 0x80108010 = 0x80109000" by (simp add: PGROUNDUP_def)
  moreover have "[0..<2] = [0, 1::nat]" by (simp add: upt_rec)
  ultimately show ?thesis
    using kinit2_frees_range [of "\<lparr>use_lock = False, freelist = 0, mem = (\<lambda>_. []), kend = 0x80108004\<rparr>" "[]"
        "0x80108010" "0x8010B800"]
    by (simp add: kmem_list_def)
qed

end
