(* ===== verification/Vm.thy ===== *)
theory Vm
  imports Kalloc
begin

text \<open>
  Virtual memory, \<open>vm.c\<close>. Page directories and page tables are pages of the store, read
  and written word by word; a page-table entry pointer is the page it lies in and its index. The
  loops over user pages count in natural numbers: a user address space ends below
  \<open>KERNBASE\<close>, so \<open>a += PGSIZE\<close> does not wrap there. Dereferencing a null pointer
  is the outcome \<open>Panic ''undefined: null dereference''\<close>.
\<close>

section \<open>State and page-table access\<close>

text \<open>\<open>kdata\<close> is the linker's \<open>data\<close>; \<open>cr3\<close> is the register \<open>lcr3\<close> loads.\<close>

record kvm = kmem +
  kdata :: uint32
  kpgdir :: uint32
  cr3 :: uint32

type_synonym pte_ref = "uint32 \<times> nat"

definition read_pte :: "'a kmem_scheme \<Rightarrow> pte_ref \<Rightarrow> uint32" where
  "read_pte s r = get_u32 (mem s (fst r)) (4 * snd r)"

definition write_page :: "uint32 \<Rightarrow> uchar list \<Rightarrow> 'a kmem_scheme \<Rightarrow> 'a kmem_scheme" where
  "write_page p bs s = s\<lparr>mem := (mem s)(p := bs)\<rparr>"

definition write_pte :: "pte_ref \<Rightarrow> uint32 \<Rightarrow> 'a kmem_scheme \<Rightarrow> 'a kmem_scheme" where
  "write_pte r w s = write_page (fst r) (put_u32 (mem s (fst r)) (4 * snd r) w) s"

definition null_deref :: "('x, 's) outcome" where
  "null_deref = Panic ''undefined: null dereference''"

definition walkpgdir :: "uint32 \<Rightarrow> uint32 \<Rightarrow> bool \<Rightarrow> 'a kmem_scheme \<Rightarrow> (pte_ref option, 'a kmem_scheme) outcome" where
  "walkpgdir pgdir va alloc s =
    (let pde = (pgdir, PDX va)
     in if read_pte s pde AND PTE_P \<noteq> 0 then Ok (Some (p2v (PTE_ADDR (read_pte s pde)), PTX va)) s
        else if \<not> alloc then Ok None s
        else mbind (kalloc s) (\<lambda>pgtab s.
          if pgtab = 0 then Ok None s
          else let s = write_page pgtab (replicate 4096 0) s
               in Ok (Some (pgtab, PTX va)) (write_pte pde (v2p pgtab OR PTE_P OR PTE_W OR PTE_U) s)))"

text \<open>
  \<open>a\<close> and \<open>last\<close> are page-aligned, so \<open>a == last\<close> holds after exactly
  \<open>n = (last - a) / PGSIZE\<close> increments; the recursion is on that number. The lemma
  \<open>mappages_loop_step\<close> gives the loop back in its source form.
\<close>

fun mappages_loop :: "nat \<Rightarrow> uint32 \<Rightarrow> uint32 \<Rightarrow> uint32 \<Rightarrow> uint32 \<Rightarrow> 'a kmem_scheme \<Rightarrow> (int, 'a kmem_scheme) outcome" where
  "mappages_loop n pgdir a pa perm s =
    mbind (walkpgdir pgdir a True s) (\<lambda>r s. case r of
      None \<Rightarrow> Ok (- 1) s
    | Some pte \<Rightarrow>
        if read_pte s pte AND PTE_P \<noteq> 0 then Panic ''remap''
        else let s = write_pte pte (pa OR perm OR PTE_P) s
             in case n of 0 \<Rightarrow> Ok 0 s
                | Suc m \<Rightarrow> mappages_loop m pgdir (a + PGSIZE) (pa + PGSIZE) perm s)"

definition mappages :: "uint32 \<Rightarrow> uint32 \<Rightarrow> uint32 \<Rightarrow> uint32 \<Rightarrow> uint32 \<Rightarrow> 'a kmem_scheme \<Rightarrow> (int, 'a kmem_scheme) outcome" where
  "mappages pgdir va sz pa perm s =
    (let a = PGROUNDDOWN va; last = PGROUNDDOWN (va + sz - 1)
     in mappages_loop (unat (last - a) div 4096) pgdir a pa perm s)"

record kmap_entry =
  virt :: uint32
  phys_start :: uint32
  phys_end :: uint32
  kperm :: uint32

definition kmap :: "uint32 \<Rightarrow> kmap_entry list" where
  "kmap data = [
    \<lparr>virt = KERNBASE, phys_start = 0, phys_end = EXTMEM, kperm = PTE_W\<rparr>,
    \<lparr>virt = KERNLINK, phys_start = v2p KERNLINK, phys_end = v2p data, kperm = 0\<rparr>,
    \<lparr>virt = data, phys_start = v2p data, phys_end = PHYSTOP, kperm = PTE_W\<rparr>,
    \<lparr>virt = DEVSPACE, phys_start = DEVSPACE, phys_end = 0, kperm = PTE_W\<rparr>]"

fun setupkvm_loop :: "kmap_entry list \<Rightarrow> uint32 \<Rightarrow> 'a kmem_scheme \<Rightarrow> (uint32, 'a kmem_scheme) outcome" where
  "setupkvm_loop [] pgdir s = Ok pgdir s"
| "setupkvm_loop (k # ks) pgdir s =
    mbind (mappages pgdir (virt k) (phys_end k - phys_start k) (phys_start k) (kperm k) s)
      (\<lambda>r s. if r < 0 then Ok 0 s else setupkvm_loop ks pgdir s)"

definition setupkvm :: "'a kvm_scheme \<Rightarrow> (uint32, 'a kvm_scheme) outcome" where
  "setupkvm s =
    mbind (kalloc s) (\<lambda>pgdir s.
      if pgdir = 0 then Ok 0 s
      else let s = write_page pgdir (replicate 4096 0) s
           in if p2v PHYSTOP > DEVSPACE then Panic ''PHYSTOP too high''
              else setupkvm_loop (kmap (kdata s)) pgdir s)"

definition switchkvm :: "'a kvm_scheme \<Rightarrow> 'a kvm_scheme" where
  "switchkvm s = s\<lparr>cr3 := v2p (kpgdir s)\<rparr>"

definition kvmalloc :: "'a kvm_scheme \<Rightarrow> (unit, 'a kvm_scheme) outcome" where
  "kvmalloc s = mbind (setupkvm s) (\<lambda>pg s. Ok () (switchkvm (s\<lparr>kpgdir := pg\<rparr>)))"

definition inituvm :: "uint32 \<Rightarrow> uchar list \<Rightarrow> uint32 \<Rightarrow> 'a kmem_scheme \<Rightarrow> (unit, 'a kmem_scheme) outcome" where
  "inituvm pgdir init sz s =
    (if sz \<ge> PGSIZE then Panic ''inituvm: more than a page''
     else mbind (kalloc s) (\<lambda>m s.
       if m = 0 then null_deref
       else let s = write_page m (replicate 4096 0) s
            in mbind (mappages pgdir 0 PGSIZE (v2p m) (PTE_W OR PTE_U) s) (\<lambda>_ s.
                 Ok () (write_page m (splice (mem s m) 0 (take (unat sz) init)) s))))"

function deallocuvm_loop :: "uint32 \<Rightarrow> nat \<Rightarrow> uint32 \<Rightarrow> 'a kmem_scheme \<Rightarrow> (unit, 'a kmem_scheme) outcome" where
  "deallocuvm_loop pgdir a oldsz s =
    (if a < unat oldsz then
       mbind (walkpgdir pgdir (of_nat a) False s) (\<lambda>r s. case r of
         None \<Rightarrow> deallocuvm_loop pgdir (a + (NPTENTRIES - 1) * 4096 + 4096) oldsz s
       | Some pte \<Rightarrow>
           if read_pte s pte AND PTE_P \<noteq> 0 then
             let pa = PTE_ADDR (read_pte s pte)
             in if pa = 0 then Panic ''kfree''
                else mbind (kfree (p2v pa) s) (\<lambda>_ s.
                  deallocuvm_loop pgdir (a + 4096) oldsz (write_pte pte 0 s))
           else deallocuvm_loop pgdir (a + 4096) oldsz s)
     else Ok () s)"
  by pat_completeness auto
termination
  by (relation "measure (\<lambda>(pgdir, a, oldsz, s). unat oldsz - a)") auto

definition deallocuvm :: "uint32 \<Rightarrow> uint32 \<Rightarrow> uint32 \<Rightarrow> 'a kmem_scheme \<Rightarrow> (uint32, 'a kmem_scheme) outcome" where
  "deallocuvm pgdir oldsz newsz s =
    (if newsz \<ge> oldsz then Ok oldsz s
     else mbind (deallocuvm_loop pgdir (unat (PGROUNDUP newsz)) oldsz s) (\<lambda>_ s. Ok newsz s))"

text \<open>The result of \<open>mappages\<close> is ignored, as in the source.\<close>

function allocuvm_loop :: "uint32 \<Rightarrow> nat \<Rightarrow> uint32 \<Rightarrow> uint32 \<Rightarrow> 'a kmem_scheme \<Rightarrow> (uint32, 'a kmem_scheme) outcome" where
  "allocuvm_loop pgdir a oldsz newsz s =
    (if a < unat newsz then
       mbind (kalloc s) (\<lambda>m s.
         if m = 0 then mbind (deallocuvm pgdir newsz oldsz s) (\<lambda>_ s. Ok 0 s)
         else let s = write_page m (replicate 4096 0) s
              in mbind (mappages pgdir (of_nat a) PGSIZE (v2p m) (PTE_W OR PTE_U) s) (\<lambda>_ s.
                   allocuvm_loop pgdir (a + 4096) oldsz newsz s))
     else Ok newsz s)"
  by pat_completeness auto
termination
  by (relation "measure (\<lambda>(pgdir, a, oldsz, newsz, s). unat newsz - a)") auto

definition allocuvm :: "uint32 \<Rightarrow> uint32 \<Rightarrow> uint32 \<Rightarrow> 'a kmem_scheme \<Rightarrow> (uint32, 'a kmem_scheme) outcome" where
  "allocuvm pgdir oldsz newsz s =
    (if newsz \<ge> KERNBASE then Ok 0 s
     else if newsz < oldsz then Ok oldsz s
     else allocuvm_loop pgdir (unat (PGROUNDUP oldsz)) oldsz newsz s)"

fun freevm_loop :: "nat list \<Rightarrow> uint32 \<Rightarrow> 'a kmem_scheme \<Rightarrow> (unit, 'a kmem_scheme) outcome" where
  "freevm_loop [] pgdir s = Ok () s"
| "freevm_loop (i # is) pgdir s =
    (if read_pte s (pgdir, i) AND PTE_P \<noteq> 0
     then mbind (kfree (p2v (PTE_ADDR (read_pte s (pgdir, i)))) s) (\<lambda>_ s. freevm_loop is pgdir s)
     else freevm_loop is pgdir s)"

definition freevm :: "uint32 \<Rightarrow> 'a kmem_scheme \<Rightarrow> (unit, 'a kmem_scheme) outcome" where
  "freevm pgdir s =
    (if pgdir = 0 then Panic ''freevm: no pgdir''
     else mbind (deallocuvm pgdir KERNBASE 0 s) (\<lambda>_ s.
       mbind (freevm_loop [0..<NPDENTRIES] pgdir s) (\<lambda>_ s. kfree pgdir s)))"

definition clearpteu :: "uint32 \<Rightarrow> uint32 \<Rightarrow> 'a kmem_scheme \<Rightarrow> (unit, 'a kmem_scheme) outcome" where
  "clearpteu pgdir uva s =
    mbind (walkpgdir pgdir uva False s) (\<lambda>r s. case r of
      None \<Rightarrow> Panic ''clearpteu''
    | Some pte \<Rightarrow> Ok () (write_pte pte (read_pte s pte AND NOT PTE_U) s))"

function copyuvm_loop :: "uint32 \<Rightarrow> uint32 \<Rightarrow> nat \<Rightarrow> uint32 \<Rightarrow> 'a kmem_scheme \<Rightarrow> (uint32, 'a kmem_scheme) outcome" where
  "copyuvm_loop pgdir d i sz s =
    (if i < unat sz then
       mbind (walkpgdir pgdir (of_nat i) False s) (\<lambda>r s. case r of
         None \<Rightarrow> Panic ''copyuvm: pte should exist''
       | Some pte \<Rightarrow>
           if read_pte s pte AND PTE_P = 0 then Panic ''copyuvm: page not present''
           else let pa = PTE_ADDR (read_pte s pte); flags = PTE_FLAGS (read_pte s pte)
                in mbind (kalloc s) (\<lambda>m s.
                     if m = 0 then mbind (freevm d s) (\<lambda>_ s. Ok 0 s)
                     else let s = write_page m (mem s (p2v pa)) s
                          in mbind (mappages d (of_nat i) PGSIZE (v2p m) flags s) (\<lambda>e s.
                               if e < 0 then mbind (freevm d s) (\<lambda>_ s. Ok 0 s)
                               else copyuvm_loop pgdir d (i + 4096) sz s)))
     else Ok d s)"
  by pat_completeness auto
termination
  by (relation "measure (\<lambda>(pgdir, d, i, sz, s). unat sz - i)") auto

definition copyuvm :: "uint32 \<Rightarrow> uint32 \<Rightarrow> 'a kvm_scheme \<Rightarrow> (uint32, 'a kvm_scheme) outcome" where
  "copyuvm pgdir sz s =
    mbind (setupkvm s) (\<lambda>d s. if d = 0 then Ok 0 s else copyuvm_loop pgdir d 0 sz s)"

definition uva2ka :: "uint32 \<Rightarrow> uint32 \<Rightarrow> 'a kmem_scheme \<Rightarrow> (uint32, 'a kmem_scheme) outcome" where
  "uva2ka pgdir uva s =
    mbind (walkpgdir pgdir uva False s) (\<lambda>r s. case r of
      None \<Rightarrow> null_deref
    | Some pte \<Rightarrow>
        if read_pte s pte AND PTE_P = 0 then Ok 0 s
        else if read_pte s pte AND PTE_U = 0 then Ok 0 s
        else Ok (p2v (PTE_ADDR (read_pte s pte))) s)"

text \<open>\<open>buf\<close> is what is left of the bytes to copy; \<open>len\<close> is its length.\<close>

function copyout :: "uint32 \<Rightarrow> uint32 \<Rightarrow> uchar list \<Rightarrow> 'a kmem_scheme \<Rightarrow> (int, 'a kmem_scheme) outcome" where
  "copyout pgdir va buf s =
    (if buf = [] then Ok 0 s
     else let va0 = PGROUNDDOWN va
          in mbind (uva2ka pgdir va0 s) (\<lambda>pa0 s.
               if pa0 = 0 then Ok (- 1) s
               else let n = min (4096 - unat (va - va0)) (length buf)
                    in copyout pgdir (va0 + PGSIZE) (drop n buf)
                         (write_page pa0 (splice (mem s pa0) (unat (va - va0)) (take n buf)) s)))"
  by pat_completeness auto
termination
proof (relation "measure (\<lambda>(pgdir, va, buf, s). length buf)", goal_cases)
  case (2 pgdir va buf s va0 pa0 t n)
  have "unat (va - PGROUNDDOWN va) < 4096" by (simp add: PGROUNDDOWN_offset)
  then show ?case using 2 by simp
qed simp

declare mappages_loop.simps [simp del] deallocuvm_loop.simps [simp del] allocuvm_loop.simps [simp del]
  copyuvm_loop.simps [simp del] copyout.simps [simp del]


section \<open>What a page table maps\<close>

lemma write_page_simps [simp]:
  "mem (write_page p bs s) = (mem s)(p := bs)" "freelist (write_page p bs s) = freelist s"
  "kend (write_page p bs s) = kend s" "use_lock (write_page p bs s) = use_lock s"
  by (simp_all add: write_page_def)

lemma kmem_list_write_page: "p \<notin> set vs \<Longrightarrow> kmem_list (write_page p bs s) vs = kmem_list s vs"
  by (auto simp: kmem_list_def run_list_upd bad_page_def)

lemma write_page_free:
  assumes "kmem_inv s" "p \<notin> free_pages s"
  shows "kmem_inv (write_page p bs s)" "free_pages (write_page p bs s) = free_pages s"
proof -
  obtain vs where "kmem_list s vs" "p \<notin> set vs"
    using assms by (auto simp: kmem_inv_def free_pages_list)
  then have "kmem_list (write_page p bs s) vs" "kmem_list s vs" by (simp_all add: kmem_list_write_page)
  then show "kmem_inv (write_page p bs s)" "free_pages (write_page p bs s) = free_pages s"
    by (auto simp: kmem_inv_def free_pages_list)
qed

lemma read_write_pte [simp]:
  "length (mem s (fst r)) = 4096 \<Longrightarrow> snd r < 1024 \<Longrightarrow> read_pte (write_pte r w s) r = w"
  by (simp add: read_pte_def write_pte_def)

lemma read_write_pte_other:
  "r \<noteq> r' \<Longrightarrow> read_pte (write_pte r w s) r' = read_pte s r'"
proof (cases "fst r = fst r'")
  case True
  moreover assume "r \<noteq> r'"
  ultimately have "4 * snd r' + 4 \<le> 4 * snd r \<or> 4 * snd r + 4 \<le> 4 * snd r'"
    by (cases r; cases r') (auto simp: neq_iff)
  note get_u32_put_u32_other [OF this]
  with True show ?thesis by (simp add: read_pte_def write_pte_def)
qed (simp add: read_pte_def write_pte_def)

text \<open>
  The entry the hardware finds for a virtual address, 0 if there is no page table; and a
  well-formed page table: the directory and the tables are distinct pages, none of them free.
\<close>

definition pgtab_of :: "'a kmem_scheme \<Rightarrow> uint32 \<Rightarrow> nat \<Rightarrow> uint32" where
  "pgtab_of s pgdir i = p2v (PTE_ADDR (read_pte s (pgdir, i)))"

definition pde_present :: "'a kmem_scheme \<Rightarrow> uint32 \<Rightarrow> nat \<Rightarrow> bool" where
  "pde_present s pgdir i \<longleftrightarrow> read_pte s (pgdir, i) AND PTE_P \<noteq> 0"

definition pte_of :: "'a kmem_scheme \<Rightarrow> uint32 \<Rightarrow> uint32 \<Rightarrow> uint32" where
  "pte_of s pgdir va =
    (if pde_present s pgdir (PDX va) then read_pte s (pgtab_of s pgdir (PDX va), PTX va) else 0)"

definition pt_pages :: "'a kmem_scheme \<Rightarrow> uint32 \<Rightarrow> uint32 set" where
  "pt_pages s pgdir = insert pgdir {pgtab_of s pgdir i | i. i < 1024 \<and> pde_present s pgdir i}"

definition pt_ok :: "'a kmem_scheme \<Rightarrow> uint32 \<Rightarrow> bool" where
  "pt_ok s pgdir \<longleftrightarrow>
    (\<forall>p \<in> pt_pages s pgdir. length (mem s p) = 4096) \<and> pt_pages s pgdir \<inter> free_pages s = {} \<and>
    (\<forall>i < 1024. pde_present s pgdir i \<longrightarrow> pgtab_of s pgdir i \<noteq> pgdir) \<and>
    (\<forall>i < 1024. \<forall>j < 1024. pde_present s pgdir i \<longrightarrow> pde_present s pgdir j \<longrightarrow>
       pgtab_of s pgdir i = pgtab_of s pgdir j \<longrightarrow> i = j)"

lemma pt_ok_inj:
  "pt_ok s pgdir \<Longrightarrow> pde_present s pgdir i \<Longrightarrow> pde_present s pgdir j \<Longrightarrow> i < 1024 \<Longrightarrow> j < 1024 \<Longrightarrow>
     pgtab_of s pgdir i = pgtab_of s pgdir j \<longleftrightarrow> i = j"
  unfolding pt_ok_def by blast

lemma pt_ok_page:
  "pt_ok s pgdir \<Longrightarrow> p \<in> pt_pages s pgdir \<Longrightarrow> length (mem s p) = 4096 \<and> p \<notin> free_pages s"
  unfolding pt_ok_def by blast

text \<open>Two addresses are on one page when directory and table index agree.\<close>

definition same_page :: "uint32 \<Rightarrow> uint32 \<Rightarrow> bool" where
  "same_page a b \<longleftrightarrow> PDX a = PDX b \<and> PTX a = PTX b"

lemma same_page_unat: "same_page a b \<longleftrightarrow> unat a div 4096 = unat b div 4096"
proof -
  have d: "PDX a = unat a div 4194304 mod 1024" "PTX a = unat a div 4096 mod 1024" for a
    unfolding PDX_def PTX_def mask_10 take_bit_eq_mask [symmetric] unsigned_take_bit_eq unat_drop_bit_eq
    by (simp_all add: take_bit_eq_mod drop_bit_eq_div)
  have e: "unat a div 4194304 mod 1024 = unat a div 4096 div 1024" for a :: uint32
  proof -
    have "unat a div 4194304 < 1024" by (simp add: div_less_iff_less_mult)
    then show ?thesis by (simp add: div_mult2_eq [symmetric])
  qed
  show ?thesis unfolding same_page_def d e by (metis div_mult_mod_eq)
qed

lemma walkpgdir_noalloc:
  "walkpgdir pgdir va False s = Ok (if pde_present s pgdir (PDX va)
     then Some (pgtab_of s pgdir (PDX va), PTX va) else None) s"
  by (simp add: walkpgdir_def pde_present_def pgtab_of_def Let_def)

lemma walkpgdir_present:
  "pde_present s pgdir (PDX va) \<Longrightarrow>
     walkpgdir pgdir va al s = Ok (Some (pgtab_of s pgdir (PDX va), PTX va)) s"
  by (simp add: walkpgdir_def pde_present_def pgtab_of_def Let_def)

lemma page_pde:
  assumes "\<not> bad_page p s"
  shows "PTE_ADDR (v2p p OR PTE_P OR PTE_W OR PTE_U) = v2p p"
    "(v2p p OR PTE_P OR PTE_W OR PTE_U) AND PTE_P \<noteq> 0"
proof -
  have "unat (p mod PGSIZE) = 0" using assms by (simp add: bad_page_def)
  then have "4096 dvd unat p" by (simp add: unat_mod mod_eq_0_iff_dvd)
  then have "4096 dvd unat (v2p p)"
    unfolding v2p_def unat_sub_if' by (auto intro: dvd_diff_nat dvd_add)
  then have "unat (v2p p) mod 4096 = 0" by simp
  then show "PTE_ADDR (v2p p OR PTE_P OR PTE_W OR PTE_U) = v2p p"
    using PTE_ADDR_or(1) [of "v2p p" "PTE_P OR PTE_W OR PTE_U"] by simp
  have "bit (v2p p OR PTE_P OR PTE_W OR PTE_U) 0" by (simp add: bit_simps)
  then have "odd (v2p p OR PTE_P OR PTE_W OR PTE_U)" by (simp add: bit_0)
  then show "(v2p p OR PTE_P OR PTE_W OR PTE_U) AND PTE_P \<noteq> 0" by (simp add: and_one_eq odd_iff_mod_2_eq_one)
qed


text \<open>
  What building a page table may do to the rest of the store: it takes free pages, and writes
  only the table's own pages and the pages it took.
\<close>

definition pt_step :: "uint32 \<Rightarrow> 'a kmem_scheme \<Rightarrow> 'a kmem_scheme \<Rightarrow> bool" where
  "pt_step pgdir s t \<longleftrightarrow> pt_ok t pgdir \<and> kmem_inv t \<and> kend t = kend s \<and> free_pages t \<subseteq> free_pages s \<and>
    pt_pages t pgdir \<subseteq> pt_pages s pgdir \<union> (free_pages s - free_pages t) \<and>
    (\<forall>p. p \<notin> pt_pages s pgdir \<longrightarrow> p \<notin> free_pages s - free_pages t \<longrightarrow> mem t p = mem s p)"

text \<open>
  How many free pages are left over when every missing page table has been allocated. Building the table does not
  change it.
\<close>

definition spare :: "'a kmem_scheme \<Rightarrow> uint32 \<Rightarrow> int" where
  "spare s pgdir = int (card (free_pages s)) - int (card {i. i < 1024 \<and> \<not> pde_present s pgdir i})"

lemma spare_missing:
  assumes "i < 1024" "\<not> pde_present s pgdir i" "free_pages s = {}"
  shows "spare s pgdir < 0"
proof -
  have "0 < card {i. i < 1024 \<and> \<not> pde_present s pgdir i}" by (rule card_gt_0_iff [THEN iffD2]) (use assms(1,2) in auto)
  then show ?thesis using assms(3) by (simp add: spare_def)
qed

lemma pt_step_refl: "pt_ok s pgdir \<Longrightarrow> kmem_inv s \<Longrightarrow> pt_step pgdir s s"
  by (auto simp: pt_step_def)

lemma pt_step_trans:
  assumes "pt_step pgdir s t" "pt_step pgdir t u"
  shows "pt_step pgdir s u"
proof -
  have "mem u p = mem s p" if "p \<notin> pt_pages s pgdir" "p \<notin> free_pages s - free_pages u" for p
  proof -
    have "mem t p = mem s p" using assms that unfolding pt_step_def by blast
    moreover have "p \<notin> pt_pages t pgdir" "p \<notin> free_pages t - free_pages u"
      using assms that unfolding pt_step_def by blast+
    ultimately show ?thesis using assms(2) unfolding pt_step_def by metis
  qed
  moreover have "kend u = kend s" using assms by (simp add: pt_step_def)
  ultimately show ?thesis using assms unfolding pt_step_def by blast
qed

lemma pt_write:
  fixes s :: "'a kmem_scheme" and w :: uint32
  assumes ok: "pt_ok s pgdir" "kmem_inv s" and pr: "pde_present s pgdir (PDX va)"
  defines "t \<equiv> write_pte (pgtab_of s pgdir (PDX va), PTX va) w s"
  shows "pt_step pgdir s t"
    and "pte_of t pgdir va' = (if same_page va va' then w else pte_of s pgdir va')"
    and "free_pages t = free_pages s" "spare t pgdir = spare s pgdir"
proof -
  let ?pt = "pgtab_of s pgdir (PDX va)"
  have pt: "?pt \<in> pt_pages s pgdir" using pr PDX_less by (auto simp: pt_pages_def)
  have ne: "?pt \<noteq> pgdir" using ok(1) pr PDX_less by (simp add: pt_ok_def)
  have len: "length (mem s ?pt) = 4096" "?pt \<notin> free_pages s" using ok(1) pt by (auto simp: pt_ok_def)
  have dir: "read_pte t (pgdir, i) = read_pte s (pgdir, i)" for i
    using ne by (simp add: t_def read_write_pte_other)
  then have abs: "pde_present t pgdir = pde_present s pgdir" "pgtab_of t pgdir = pgtab_of s pgdir"
    by (auto simp: pde_present_def pgtab_of_def)
  then have pages: "pt_pages t pgdir = pt_pages s pgdir" by (simp add: pt_pages_def)
  have inv: "kmem_inv t" "free_pages t = free_pages s"
    using write_page_free [OF ok(2) len(2)] by (simp_all add: t_def write_pte_def)
  have memt: "mem t = (mem s)(?pt := put_u32 (mem s ?pt) (4 * PTX va) w)"
    by (simp add: t_def write_pte_def)
  then have lens: "length (mem t p) = length (mem s p)" for p by simp
  have "pt_ok t pgdir" using ok(1) unfolding pt_ok_def pages abs inv lens .
  then show "pt_step pgdir s t" using inv pt pages memt
    by (auto simp: pt_step_def t_def write_pte_def)
  show "free_pages t = free_pages s" by (rule inv)
  show "spare t pgdir = spare s pgdir" by (simp add: spare_def abs inv(2))
  show "pte_of t pgdir va' = (if same_page va va' then w else pte_of s pgdir va')"
  proof (cases "pde_present s pgdir (PDX va')")
    case True
    have inj: "?pt = pgtab_of s pgdir (PDX va') \<longleftrightarrow> PDX va = PDX va'"
      using pt_ok_inj [OF ok(1) pr True PDX_less PDX_less] .
    show ?thesis
    proof (cases "same_page va va'")
      case eq: True
      then have "pte_of t pgdir va' = read_pte t (?pt, PTX va)"
        using True by (simp add: pte_of_def abs same_page_def)
      then show ?thesis using eq len PTX_less [of va] by (simp add: t_def)
    next
      case False
      then have "(?pt, PTX va) \<noteq> (pgtab_of s pgdir (PDX va'), PTX va')"
        using inj by (auto simp: same_page_def)
      then show ?thesis using False True
        by (simp add: pte_of_def abs) (simp add: t_def read_write_pte_other)
    qed
  next
    case False
    then show ?thesis using pr by (auto simp: pte_of_def abs same_page_def)
  qed
qed

lemma kalloc_cases:
  assumes "kmem_inv s"
  obtains (empty) "free_pages s = {}" "kalloc s = Ok 0 s"
  | (page) p t where "kalloc s = Ok p t" "p \<in> free_pages s" "free_pages t = free_pages s - {p}"
      "kmem_inv t" "mem t = mem s" "kend t = kend s" "\<not> bad_page p s" "p \<noteq> 0"
proof -
  obtain vs where vs: "kmem_list s vs" using assms by (auto simp: kmem_inv_def)
  show thesis
  proof (cases vs)
    case Nil
    then show ?thesis using vs empty by (simp add: free_pages_list kalloc_list_Nil)
  next
    case (Cons p ws)
    then obtain t where t: "kalloc s = Ok p t" "kmem_list t ws" "mem t = mem s" "kend t = kend s"
      using vs kalloc_list_Cons by blast
    have "p \<notin> set ws" "\<not> bad_page p s" "p \<noteq> 0" using vs Cons by (auto simp: kmem_list_def)
    then show ?thesis
      using page [of p t] t Cons vs by (auto simp: free_pages_list kmem_inv_def)
  qed
qed

lemma walkpgdir_alloc:
  fixes s :: "'a kmem_scheme"
  assumes ok: "pt_ok s pgdir" "kmem_inv s"
  obtains (full) "free_pages s = {}" "walkpgdir pgdir va True s = Ok None s" "spare s pgdir < 0"
  | (found) t where "walkpgdir pgdir va True s = Ok (Some (pgtab_of t pgdir (PDX va), PTX va)) t"
      "pt_step pgdir s t" "pde_present t pgdir (PDX va)" "\<forall>va'. pte_of t pgdir va' = pte_of s pgdir va'"
      "card (free_pages s) \<le> Suc (card (free_pages t))" "spare t pgdir = spare s pgdir"
proof (cases "pde_present s pgdir (PDX va)")
  case True
  then show ?thesis using found [of s] ok by (simp add: walkpgdir_present pt_step_refl)
next
  case False
  show ?thesis using ok(2)
  proof (cases rule: kalloc_cases)
    case empty
    then show ?thesis using full spare_missing [OF PDX_less False] False by (simp add: walkpgdir_def pde_present_def Let_def)
  next
    case (page p s1)
    let ?w = "v2p p OR PTE_P OR PTE_W OR PTE_U"
    define s2 where "s2 = write_page p (replicate 4096 0) s1"
    define t where "t = write_pte (pgdir, PDX va) ?w s2"
    have pg: "pgdir \<notin> free_pages s" "length (mem s pgdir) = 4096" "p \<notin> pt_pages s pgdir"
      using ok(1) page(2) by (auto simp: pt_ok_def pt_pages_def)
    then have ne: "pgdir \<noteq> p" using page(2) by auto
    have memt: "mem t = (mem s)(p := replicate 4096 0,
        pgdir := put_u32 (mem s pgdir) (4 * PDX va) ?w)"
      using ne page(5) by (simp add: t_def s2_def write_pte_def)
    have dir: "read_pte t (pgdir, i) = (if i = PDX va then ?w else read_pte s (pgdir, i))" for i
    proof (cases "i = PDX va")
      case True
      then show ?thesis using pg(2) PDX_less [of va] ne memt by (simp add: read_pte_def)
    next
      case False
      then show ?thesis using ne page(5) by (simp add: t_def read_write_pte_other) (simp add: s2_def read_pte_def)
    qed
    have pd: "pde_present t pgdir i \<longleftrightarrow> i = PDX va \<or> pde_present s pgdir i" for i
      using page_pde(2) [OF page(7)] by (simp add: pde_present_def dir)
    have pt: "pgtab_of t pgdir i = (if i = PDX va then p else pgtab_of s pgdir i)" for i
      using page_pde(1) [OF page(7)] by (simp add: pgtab_of_def dir)
    have pages: "pt_pages t pgdir = insert p (pt_pages s pgdir)"
      using False PDX_less [of va] unfolding pt_pages_def pd pt by auto metis+
    have f2: "kmem_inv s2" "free_pages s2 = free_pages s - {p}"
      using write_page_free [OF page(4)] page(3) by (simp_all add: s2_def)
    have ft: "kmem_inv t" "free_pages t = free_pages s - {p}"
      using write_page_free [OF f2(1)] pg(1) f2(2) by (simp_all add: t_def write_pte_def)
    have "pt_ok t pgdir"
    proof -
      have "length (mem t q) = 4096" if "q \<in> pt_pages t pgdir" for q
        using that pt_ok_page [OF ok(1)] memt pages pg(2) by auto
      moreover have "p \<noteq> pgtab_of s pgdir i" if "i < 1024" "pde_present s pgdir i" for i
        using that pg(3) by (auto simp: pt_pages_def)
      ultimately show ?thesis using ok(1) pages ft(2) ne pg(3) unfolding pt_ok_def pd pt by auto
    qed
    moreover have "kend t = kend s" using page(6) by (simp add: t_def s2_def write_pte_def)
    moreover have "mem t q = mem s q" if "q \<notin> pt_pages s pgdir" "q \<noteq> p" for q
      using that memt by (auto simp: pt_pages_def)
    ultimately have st: "pt_step pgdir s t" using page(2) unfolding pt_step_def pages ft(2)
      by (intro conjI ft(1)) blast+
    have same: "pte_of t pgdir va' = pte_of s pgdir va'" for va'
    proof (cases "PDX va' = PDX va")
      case True
      then show ?thesis using False ne memt PTX_less [of va']
        by (simp add: pte_of_def pd pt read_pte_def)
    next
      case neq: False
      have "pgtab_of s pgdir (PDX va') \<notin> {p, pgdir}" if "pde_present s pgdir (PDX va')"
        using that pg(3) ok(1) PDX_less [of va'] by (auto simp: pt_pages_def pt_ok_def)
      then show ?thesis using neq memt by (auto simp: pte_of_def pd pt read_pte_def)
    qed
    have "walkpgdir pgdir va True s = Ok (Some (p, PTX va)) t"
      using False page(1,8) by (simp add: walkpgdir_def pde_present_def Let_def t_def s2_def)
    moreover have "card (free_pages s) \<le> Suc (card (free_pages t))"
      unfolding ft(2) card_Diff_singleton_if by (cases "p \<in> free_pages s") simp_all
    moreover have "spare t pgdir = spare s pgdir"
    proof -
      have "finite (free_pages s)" using ok(2) by (auto simp: kmem_inv_def free_pages_list)
      then have "card (free_pages s) = Suc (card (free_pages t))" unfolding ft(2) by (rule card_Suc_Diff1 [OF _ page(2), symmetric])
      moreover have "{i. i < 1024 \<and> \<not> pde_present t pgdir i} = {i. i < 1024 \<and> \<not> pde_present s pgdir i} - {PDX va}" using pd by auto
      moreover have "PDX va \<in> {i. i < 1024 \<and> \<not> pde_present s pgdir i}" using False PDX_less [of va] by simp
      then have "card {i. i < 1024 \<and> \<not> pde_present s pgdir i} = Suc (card ({i. i < 1024 \<and> \<not> pde_present s pgdir i} - {PDX va}))"
        by (intro card_Suc_Diff1 [symmetric]) simp_all
      ultimately show ?thesis by (simp add: spare_def)
    qed
    ultimately show ?thesis using found [of t] st same pd pt by simp
  qed
qed



section \<open>Mapping pages\<close>

definition pgoff :: "uint32 \<Rightarrow> uint32 \<Rightarrow> nat" where
  "pgoff a va = unat (va - a) div 4096"

lemma pgoff_less: "pgoff a va < 1048576"
  by (simp add: pgoff_def div_less_iff_less_mult)

lemma aligned_diff: "4096 dvd unat (a :: uint32) \<Longrightarrow> 4096 dvd unat b \<Longrightarrow> 4096 dvd unat (a - b)"
  unfolding unat_sub_if' by (auto intro: dvd_diff_nat dvd_add)

lemma aligned_next: "4096 dvd unat (a :: uint32) \<Longrightarrow> 4096 dvd unat (a + PGSIZE)"
  unfolding unat_plus_if' by (auto intro: dvd_diff_nat dvd_add)

lemma pgoff_same_page:
  assumes "4096 dvd unat a"
  shows "same_page a va \<longleftrightarrow> pgoff a va = 0"
proof -
  obtain k where k: "unat a = 4096 * k" using assms by blast
  have "k < 1048576" using unat_less_32 [of a] unfolding k by simp
  then show ?thesis using unat_less_32 [of va]
    unfolding same_page_unat pgoff_def unat_sub_if' word_le_nat_alt k by auto
qed

lemma pgoff_next:
  assumes "4096 dvd unat a"
  shows "pgoff (a + PGSIZE) va = (if pgoff a va = 0 then 1048575 else pgoff a va - 1)"
proof -
  have e: "va - (a + PGSIZE) = (va - a) - PGSIZE" by simp
  show ?thesis
  proof (cases "PGSIZE \<le> va - a")
    case True
    then have "unat (va - (a + PGSIZE)) = unat (va - a) - 4096" unfolding e by (simp add: unat_sub)
    moreover have "4096 \<le> unat (va - a)" using True by (simp add: word_le_nat_alt)
    ultimately show ?thesis by (simp add: pgoff_def le_div_geq)
  next
    case False
    then have "unat (d - PGSIZE) = unat d + 4294963200" if "d = va - a" for d
      unfolding that [symmetric] by (simp add: unat_sub_if' word_le_nat_alt)
    then have "unat (va - (a + PGSIZE)) = unat (va - a) + 4294963200" unfolding e by blast
    moreover have "unat (va - a) < 4096" using False by (simp add: word_le_nat_alt not_le)
    ultimately show ?thesis by (simp add: pgoff_def)
  qed
qed

lemma mappages_loop_step:
  assumes "4096 dvd unat a" "4096 dvd unat la"
  shows "mappages_loop (unat (la - a) div 4096) pgdir a pa perm s =
    mbind (walkpgdir pgdir a True s) (\<lambda>r s. case r of
      None \<Rightarrow> Ok (- 1) s
    | Some pte \<Rightarrow>
        if read_pte s pte AND PTE_P \<noteq> 0 then Panic ''remap''
        else let s = write_pte pte (pa OR perm OR PTE_P) s
             in if a = la then Ok 0 s
                else mappages_loop (unat (la - (a + PGSIZE)) div 4096) pgdir (a + PGSIZE) (pa + PGSIZE) perm s)"
proof (cases "a = la")
  case True
  then show ?thesis unfolding True by (subst mappages_loop.simps) (simp add: Let_def cong: option.case_cong if_cong)
next
  case False
  have "4096 dvd unat (la - a)" using assms by (rule aligned_diff [rotated])
  moreover have "unat (la - a) \<noteq> 0" using False by (simp add: unsigned_eq_0_iff)
  ultimately have "pgoff a la \<noteq> 0" by (auto simp: pgoff_def dvd_def)
  then have "unat (la - a) div 4096 = Suc (unat (la - (a + PGSIZE)) div 4096)"
    using pgoff_next [OF assms(1), of la] by (simp add: pgoff_def)
  then show ?thesis using False by (subst mappages_loop.simps) (simp add: Let_def cong: option.case_cong if_cong)
qed

lemma mappages_loop_correct:
  assumes "pt_ok s pgdir" "kmem_inv s" "4096 dvd unat a" "n < 1048576"
    and "\<forall>va. pgoff a va \<le> n \<longrightarrow> pte_of s pgdir va AND PTE_P = 0"
  shows "\<exists>r t. mappages_loop n pgdir a pa perm s = Ok r t \<and> pt_step pgdir s t \<and>
    (n < card (free_pages s) \<longrightarrow> r = 0) \<and> (0 \<le> spare s pgdir \<longrightarrow> r = 0) \<and> spare t pgdir = spare s pgdir \<and>
    (if r = 0 then \<forall>va. pte_of t pgdir va = (if pgoff a va \<le> n
         then (pa + of_nat (pgoff a va) * PGSIZE) OR perm OR PTE_P else pte_of s pgdir va)
     else r = - 1 \<and> free_pages t = {})"
  using assms
proof (induction n arbitrary: a pa s)
  case (0 a pa s)
  show ?case using 0(1,2)
  proof (cases rule: walkpgdir_alloc [of s pgdir a])
    case full
    then show ?thesis using 0 by (simp add: mappages_loop.simps pt_step_refl)
  next
    case (found t)
    have "pt_ok t pgdir" "kmem_inv t" using found(2) by (simp_all add: pt_step_def)
    note w = pt_write [OF this found(3), of "pa OR perm OR PTE_P"]
    have "read_pte t (pgtab_of t pgdir (PDX a), PTX a) = pte_of s pgdir a"
      using found(3,4) [unfolded pte_of_def] by (metis pte_of_def)
    moreover have "pte_of s pgdir a AND PTE_P = 0" using 0(5) by (simp add: pgoff_def)
    ultimately show ?thesis
      using found w pt_step_trans [OF found(2) w(1)] 0(3)
      by (auto simp: mappages_loop.simps Let_def pgoff_same_page)
  qed
next
  case (Suc n a pa s)
  show ?case using Suc.prems(1,2)
  proof (cases rule: walkpgdir_alloc [of s pgdir a])
    case full
    then show ?thesis using Suc.prems by (simp add: mappages_loop.simps pt_step_refl)
  next
    case (found t)
    let ?e = "pa OR perm OR PTE_P"
    define u where "u = write_pte (pgtab_of t pgdir (PDX a), PTX a) ?e t"
    have t: "pt_ok t pgdir" "kmem_inv t" using found(2) by (simp_all add: pt_step_def)
    note w = pt_write [OF t found(3), of ?e, folded u_def]
    have rd: "read_pte t (pgtab_of t pgdir (PDX a), PTX a) = pte_of s pgdir a"
      using found(3,4) [unfolded pte_of_def] by (metis pte_of_def)
    have ab: "pte_of s pgdir a AND PTE_P = 0" using Suc.prems(5) by (simp add: pgoff_def)
    have pte_u: "pte_of u pgdir va = (if pgoff a va = 0 then ?e else pte_of s pgdir va)" for va
      using w(2) found(4) pgoff_same_page [OF Suc.prems(3)] by simp
    have nx: "pgoff (a + PGSIZE) va \<le> n \<longleftrightarrow> pgoff a va \<noteq> 0 \<and> pgoff a va \<le> Suc n" for va
      using Suc.prems(4) by (auto simp: pgoff_next [OF Suc.prems(3)])
    have "\<forall>va. pgoff (a + PGSIZE) va \<le> n \<longrightarrow> pte_of u pgdir va AND PTE_P = 0"
      using Suc.prems(5) by (simp add: nx pte_u)
    moreover have "pt_ok u pgdir" "kmem_inv u" using w(1) by (simp_all add: pt_step_def)
    ultimately obtain r v where v: "mappages_loop n pgdir (a + PGSIZE) (pa + PGSIZE) perm u = Ok r v"
      "pt_step pgdir u v" "n < card (free_pages u) \<longrightarrow> r = 0" "0 \<le> spare u pgdir \<longrightarrow> r = 0" "spare v pgdir = spare u pgdir"
      "if r = 0 then \<forall>va. pte_of v pgdir va = (if pgoff (a + PGSIZE) va \<le> n
         then (pa + PGSIZE + of_nat (pgoff (a + PGSIZE) va) * PGSIZE) OR perm OR PTE_P else pte_of u pgdir va)
       else r = - 1 \<and> free_pages v = {}"
      using Suc.IH [of u "a + PGSIZE" "pa + PGSIZE"] Suc.prems(3,4) aligned_next by auto
    have run: "mappages_loop (Suc n) pgdir a pa perm s = Ok r v"
      using found(1) rd ab v(1) by (simp add: mappages_loop.simps [of "Suc n"] Let_def u_def)
    have step: "pt_step pgdir s v" using pt_step_trans found(2) w(1) v(2) by blast
    have "pte_of v pgdir va = (if pgoff a va \<le> Suc n
         then (pa + of_nat (pgoff a va) * PGSIZE) OR perm OR PTE_P else pte_of s pgdir va)" if "r = 0" for va
    proof (cases "pgoff a va")
      case 0
      then show ?thesis using v(6) that nx pte_u by simp
    next
      case (Suc k)
      then have "pgoff (a + PGSIZE) va = k" by (simp add: pgoff_next [OF Suc.prems(3)])
      then show ?thesis using v(6) that nx [of va] pte_u [of va] Suc by (simp add: algebra_simps)
    qed
    then show ?thesis using run step v(3-6) found(5,6) w(3,4) by auto
  qed
qed

lemma PGROUNDDOWN_dvd: "4096 dvd unat (PGROUNDDOWN a)"
  using PGROUNDDOWN_aligned by (simp add: mod_eq_0_iff_dvd)

lemma PGROUNDDOWN_div: "unat (PGROUNDDOWN a) = 4096 * (unat a div 4096)"
  by (simp add: PGROUNDDOWN_unat minus_mod_eq_mult_div)

lemma pgoff_unat:
  assumes "unat a = 4096 * k"
  shows "pgoff a x = (if k \<le> unat x div 4096 then unat x div 4096 - k else unat x div 4096 + 1048576 - k)"
proof -
  have "k < 1048576" using unat_less_32 [of a] unfolding assms by simp
  moreover have "4096 * k \<le> unat x \<longleftrightarrow> k \<le> unat x div 4096"
    by (simp add: less_eq_div_iff_mult_less_eq mult.commute)
  ultimately show ?thesis
    unfolding pgoff_def unat_sub_if' word_le_nat_alt assms by auto
qed

lemma of_nat_pages: "unat (d :: uint32) = 4096 * n \<Longrightarrow> of_nat n * PGSIZE = d"
proof -
  assume "unat d = 4096 * n"
  then have "d = of_nat (4096 * n)" by (metis of_nat_unat ucast_id)
  then show ?thesis by (simp add: mult.commute)
qed

lemma mappages_correct:
  assumes "pt_ok s pgdir" "kmem_inv s" "0 < sz" "unat va + unat sz \<le> 2 ^ 32"
    and "\<forall>x. unat va div 4096 \<le> unat x div 4096 \<longrightarrow>
      unat x div 4096 \<le> (unat va + unat sz - 1) div 4096 \<longrightarrow> pte_of s pgdir x AND PTE_P = 0"
  shows "\<exists>r t. mappages pgdir va sz pa perm s = Ok r t \<and> pt_step pgdir s t \<and>
    (0 \<le> spare s pgdir \<longrightarrow> r = 0) \<and> spare t pgdir = spare s pgdir \<and>
    (if r = 0 then \<forall>x. pte_of t pgdir x =
         (if unat va div 4096 \<le> unat x div 4096 \<and> unat x div 4096 \<le> (unat va + unat sz - 1) div 4096
          then (pa + (PGROUNDDOWN x - PGROUNDDOWN va)) OR perm OR PTE_P else pte_of s pgdir x)
     else r = - 1 \<and> free_pages t = {})"
proof -
  define a where "a = PGROUNDDOWN va"
  define la where "la = PGROUNDDOWN (va + sz - 1)"
  define k where "k = unat va div 4096"
  define m where "m = (unat va + unat sz - 1) div 4096"
  note defs = a_def [symmetric] la_def [symmetric] k_def [symmetric] m_def [symmetric]
  have sz: "0 < unat sz" using assms(3) by (simp add: word_less_nat_alt)
  have "unat (sz - 1) = unat sz - 1" using sz by (simp add: unat_sub_if' word_le_nat_alt)
  then have "unat (va + (sz - 1)) = unat va + (unat sz - 1)"
    using assms(4) sz unat_add_no_wrap [of va "sz - 1"] by simp
  then have e: "unat (va + sz - 1) = unat va + unat sz - 1" using sz by (simp add: add_diff_eq)
  have la: "unat la = 4096 * m" "unat a = 4096 * k"
    unfolding a_def la_def k_def m_def PGROUNDDOWN_div e by simp_all
  have km: "k \<le> m" unfolding k_def m_def using sz by (intro div_le_mono) simp
  have m: "m < 1048576" unfolding m_def using assms(4) sz by (simp add: div_less_iff_less_mult)
  have "unat (la - a) = 4096 * (m - k)"
    using km la by (simp add: unat_sub word_le_nat_alt right_diff_distrib')
  then have n: "unat (la - a) div 4096 = m - k" by simp
  have off: "pgoff a x \<le> m - k \<longleftrightarrow> k \<le> unat x div 4096 \<and> unat x div 4096 \<le> m" for x
    unfolding pgoff_unat [OF la(2)] using km m by auto
  have d: "of_nat (pgoff a x) * PGSIZE = PGROUNDDOWN x - a" if "k \<le> unat x div 4096" for x
    by (rule of_nat_pages)
      (use that la in \<open>simp add: pgoff_unat [OF la(2)] unat_sub word_le_nat_alt PGROUNDDOWN_div right_diff_distrib'\<close>)
  have dv: "4096 dvd unat a" unfolding la by simp
  have mk: "m - k < 1048576" using m by simp
  have ab: "\<forall>x. pgoff a x \<le> m - k \<longrightarrow> pte_of s pgdir x AND PTE_P = 0"
    unfolding off using assms(5) [unfolded defs] by blast
  obtain r t where rt: "mappages_loop (m - k) pgdir a pa perm s = Ok r t" "pt_step pgdir s t"
    "0 \<le> spare s pgdir \<longrightarrow> r = 0" "spare t pgdir = spare s pgdir"
    "if r = 0 then \<forall>x. pte_of t pgdir x = (if pgoff a x \<le> m - k
       then (pa + of_nat (pgoff a x) * PGSIZE) OR perm OR PTE_P else pte_of s pgdir x)
     else r = - 1 \<and> free_pages t = {}"
    using mappages_loop_correct [OF assms(1,2) dv mk ab, of pa perm] by blast
  show ?thesis unfolding mappages_def Let_def defs n
    by (intro exI [of _ r] exI [of _ t] conjI rt) (use rt(5) in \<open>simp add: off d split: if_splits\<close>)
qed

text \<open>C31. A successful \<open>mappages\<close> of a range none of whose pages is mapped yet installs, for
  every address of the pages the range touches, an entry with the physical page at the same
  distance from \<open>pa\<close> and the requested permissions, and leaves the translation of every other
  address alone. It panics never, fails only when the allocator has run dry, and writes only the
  page table and pages it took from the allocator.\<close>

theorem mappages_maps:
  assumes "pt_ok s pgdir" "kmem_inv s" "0 < sz" "unat va + unat sz \<le> 2 ^ 32"
    and "\<forall>x. unat va div 4096 \<le> unat x div 4096 \<longrightarrow>
      unat x div 4096 \<le> (unat va + unat sz - 1) div 4096 \<longrightarrow> pte_of s pgdir x AND PTE_P = 0"
  shows "\<exists>r t. mappages pgdir va sz pa perm s = Ok r t \<and> pt_step pgdir s t \<and>
    (if r = 0 then \<forall>x. pte_of t pgdir x =
         (if unat va div 4096 \<le> unat x div 4096 \<and> unat x div 4096 \<le> (unat va + unat sz - 1) div 4096
          then (pa + (PGROUNDDOWN x - PGROUNDDOWN va)) OR perm OR PTE_P else pte_of s pgdir x)
     else r = - 1 \<and> free_pages t = {})"
  using mappages_correct [OF assms] by blast

text \<open>One page, as the loops over user memory use it.\<close>

lemma mappages_page:
  assumes "pt_ok s pgdir" "kmem_inv s" "4096 dvd unat a" "pte_of s pgdir a AND PTE_P = 0"
  obtains (mapped) t where "mappages pgdir a PGSIZE pa perm s = Ok 0 t" "pt_step pgdir s t"
      "\<forall>x. pte_of t pgdir x = (if same_page a x then pa OR perm OR PTE_P else pte_of s pgdir x)"
      "card (free_pages s) \<le> Suc (card (free_pages t))" "spare t pgdir = spare s pgdir"
  | (full) "mappages pgdir a PGSIZE pa perm s = Ok (- 1) s" "free_pages s = {}" "spare s pgdir < 0"
proof -
  obtain k where k: "unat a = 4096 * k" using assms(3) by blast
  then have ga: "PGROUNDDOWN a = a" by (simp add: word_unat_eq_iff PGROUNDDOWN_div)
  have "unat (a + 4095) = 4096 * k + 4095"
  proof -
    have "k < 1048576" using unat_less_32 [of a] unfolding k by simp
    then show ?thesis using unat_add_no_wrap [of a 4095] k by simp
  qed
  moreover have "a + PGSIZE - 1 = a + 4095" by simp
  ultimately have "PGROUNDDOWN (a + PGSIZE - 1) = a"
    by (simp only: word_unat_eq_iff PGROUNDDOWN_div k) simp
  then have m: "mappages pgdir a PGSIZE pa perm s = mappages_loop 0 pgdir a pa perm s"
    using ga by (simp add: mappages_def Let_def)
  show thesis using assms(1,2)
  proof (cases rule: walkpgdir_alloc [of s pgdir a])
    case full
    then show ?thesis using that(2) m by (simp add: mappages_loop.simps)
  next
    case (found t)
    have t: "pt_ok t pgdir" "kmem_inv t" using found(2) by (simp_all add: pt_step_def)
    note w = pt_write [OF t found(3), of "pa OR perm OR PTE_P"]
    have "read_pte t (pgtab_of t pgdir (PDX a), PTX a) = pte_of s pgdir a"
      using found(3) found(4) [THEN spec, of a, symmetric] by (simp add: pte_of_def [of t])
    then have "mappages pgdir a PGSIZE pa perm s = Ok 0 (write_pte (pgtab_of t pgdir (PDX a), PTX a) (pa OR perm OR PTE_P) t)"
      using found(1) assms(4) m by (simp add: mappages_loop.simps Let_def)
    then show ?thesis using that(1) pt_step_trans [OF found(2) w(1)] w(2-4) found(4-6) by simp
  qed
qed

text \<open>Taking a page for data touches no page table.\<close>

lemma pt_step_cong:
  assumes "pt_ok s pgdir" "mem t pgdir = mem s pgdir"
    and "\<forall>p\<in>pt_pages s pgdir. mem t p = mem s p" "free_pages t \<subseteq> free_pages s" "kmem_inv t"
    "kend t = kend s" "\<forall>p. p \<notin> free_pages s - free_pages t \<longrightarrow> mem t p = mem s p"
  shows "pt_step pgdir s t" "\<forall>x. pte_of t pgdir x = pte_of s pgdir x" "pt_pages t pgdir = pt_pages s pgdir"
proof -
  have dir: "read_pte t (pgdir, i) = read_pte s (pgdir, i)" for i using assms(2) by (simp add: read_pte_def)
  then have abs: "pde_present t pgdir = pde_present s pgdir" "pgtab_of t pgdir = pgtab_of s pgdir"
    by (auto simp: pde_present_def pgtab_of_def)
  then show pages: "pt_pages t pgdir = pt_pages s pgdir" by (simp add: pt_pages_def)
  have "pt_ok t pgdir" using assms(1,3,4) unfolding pt_ok_def pages abs by auto
  then show "pt_step pgdir s t" using assms pages by (auto simp: pt_step_def)
  have "read_pte t (pgtab_of s pgdir (PDX x), PTX x) = read_pte s (pgtab_of s pgdir (PDX x), PTX x)"
    if "pde_present s pgdir (PDX x)" for x
    using assms(3) that PDX_less [of x] by (auto simp: read_pte_def pt_pages_def)
  then show "\<forall>x. pte_of t pgdir x = pte_of s pgdir x" by (simp add: pte_of_def abs)
qed

lemma take_page:
  fixes s :: "'a kmem_scheme" and bs :: "uchar list"
  assumes ok: "pt_ok s pgdir" "kmem_inv s" and p: "kalloc s = Ok p s1" "p \<noteq> 0"
  defines "t \<equiv> write_page p bs s1"
  shows "pt_step pgdir s t" "\<forall>x. pte_of t pgdir x = pte_of s pgdir x" "p \<in> free_pages s"
    "free_pages t = free_pages s - {p}" "mem t = (mem s)(p := bs)" "p \<notin> pt_pages t pgdir" "\<not> bad_page p s" "spare t pgdir = spare s pgdir - 1"
proof -
  have a: "p \<in> free_pages s \<and> free_pages s1 = free_pages s - {p} \<and> kmem_inv s1 \<and> mem s1 = mem s \<and>
    kend s1 = kend s \<and> \<not> bad_page p s"
    using ok(2) p by (cases rule: kalloc_cases) simp_all
  have f: "kmem_inv t" "free_pages t = free_pages s - {p}"
    using write_page_free [of s1 p bs] a by (simp_all add: t_def)
  have m: "mem t = (mem s)(p := bs)" "kend t = kend s" using a by (simp_all add: t_def)
  have np: "p \<notin> pt_pages s pgdir" "pgdir \<noteq> p" using ok(1) a by (auto simp: pt_ok_def pt_pages_def)
  have fr: "\<forall>q. q \<notin> free_pages s - free_pages t \<longrightarrow> mem t q = mem s q" using a m f by auto
  have "mem t pgdir = mem s pgdir" "\<forall>q\<in>pt_pages s pgdir. mem t q = mem s q" "free_pages t \<subseteq> free_pages s"
    using np m f by auto
  note c = pt_step_cong [OF ok(1) this f(1) m(2) fr]
  show "pt_step pgdir s t" "\<forall>x. pte_of t pgdir x = pte_of s pgdir x" by (rule c)+
  show "p \<notin> pt_pages t pgdir" using c(3) np by simp
  show "p \<in> free_pages s" "free_pages t = free_pages s - {p}" "mem t = (mem s)(p := bs)" "\<not> bad_page p s"
    using a f m by simp_all
  have "finite (free_pages s)" using ok(2) by (auto simp: kmem_inv_def free_pages_list)
  then have "card (free_pages s) = Suc (card (free_pages t))" unfolding f(2) by (rule card_Suc_Diff1 [symmetric]) (use a in blast)
  moreover have "pde_present t pgdir = pde_present s pgdir" using np m(1) by (simp add: pde_present_def read_pte_def fun_eq_iff)
  ultimately show "spare t pgdir = spare s pgdir - 1" by (simp add: spare_def)
qed


section \<open>Growing an address space\<close>

text \<open>
  \<open>fresh_map s t pgdir lo hi\<close>: in state \<open>t\<close>, every page of \<open>[lo, hi)\<close> is mapped
  writable for the user to its own zeroed page that was free in state \<open>s\<close>; all other
  translations are those of \<open>s\<close>.
\<close>

definition frame_of :: "'a kmem_scheme \<Rightarrow> uint32 \<Rightarrow> uint32 \<Rightarrow> uint32" where
  "frame_of s pgdir va = p2v (PTE_ADDR (pte_of s pgdir va))"

definition fresh_page :: "'a kmem_scheme \<Rightarrow> 'a kmem_scheme \<Rightarrow> uint32 \<Rightarrow> uint32 \<Rightarrow> bool" where
  "fresh_page s t pgdir x \<longleftrightarrow> PTE_FLAGS (pte_of t pgdir x) = PTE_P OR PTE_W OR PTE_U \<and>
     frame_of t pgdir x \<in> free_pages s - free_pages t \<and> frame_of t pgdir x \<notin> pt_pages t pgdir \<and>
     mem t (frame_of t pgdir x) = replicate 4096 0"

definition fresh_map :: "'a kmem_scheme \<Rightarrow> 'a kmem_scheme \<Rightarrow> uint32 \<Rightarrow> nat \<Rightarrow> nat \<Rightarrow> bool" where
  "fresh_map s t pgdir lo hi \<longleftrightarrow>
    (\<forall>x. if lo \<le> unat x \<and> unat x < hi then fresh_page s t pgdir x else pte_of t pgdir x = pte_of s pgdir x) \<and>
    (\<forall>x y. lo \<le> unat x \<and> unat x < hi \<and> lo \<le> unat y \<and> unat y < hi \<and>
       frame_of t pgdir x = frame_of t pgdir y \<longrightarrow> same_page x y)"

lemma div_page_iff: "j = x div 4096 \<longleftrightarrow> 4096 * j \<le> x \<and> x < 4096 * j + 4096" for x :: nat
proof
  assume "j = x div 4096"
  then show "4096 * j \<le> x \<and> x < 4096 * j + 4096" by simp
next
  assume "4096 * j \<le> x \<and> x < 4096 * j + 4096"
  then show "j = x div 4096" by (intro div_nat_eqI [symmetric]) simp_all
qed

lemma finite_free_pages: "kmem_inv s \<Longrightarrow> finite (free_pages s)"
  by (auto simp: kmem_inv_def free_pages_list)

lemma fresh_page_later:
  assumes "fresh_page s t pgdir x" "pt_step pgdir t u" "pte_of u pgdir x = pte_of t pgdir x"
  shows "fresh_page s u pgdir x"
proof -
  have f: "frame_of u pgdir x = frame_of t pgdir x" using assms(3) by (simp add: frame_of_def)
  have a: "frame_of t pgdir x \<notin> free_pages t" "frame_of t pgdir x \<notin> pt_pages t pgdir"
    using assms(1) by (simp_all add: fresh_page_def)
  then have "frame_of t pgdir x \<notin> free_pages u" "frame_of t pgdir x \<notin> pt_pages u pgdir"
    "mem u (frame_of t pgdir x) = mem t (frame_of t pgdir x)"
    using assms(2) unfolding pt_step_def by blast+
  then show ?thesis using assms(1,3) by (simp add: fresh_page_def f)
qed

lemma page_pte:
  assumes "\<not> bad_page p s"
  shows "p2v (PTE_ADDR (v2p p OR (PTE_W OR PTE_U) OR PTE_P)) = p"
    "PTE_FLAGS (v2p p OR (PTE_W OR PTE_U) OR PTE_P) = PTE_P OR PTE_W OR PTE_U"
proof -
  have "unat (p mod PGSIZE) = 0" using assms by (simp add: bad_page_def)
  then have "4096 dvd unat p" by (simp add: unat_mod mod_eq_0_iff_dvd)
  then have "4096 dvd unat (v2p p)" unfolding v2p_def by (intro aligned_diff) simp_all
  then have "unat (v2p p) mod 4096 = 0" by simp
  note a = PTE_ADDR_or [OF this, of "PTE_P OR PTE_W OR PTE_U"]
  then show "p2v (PTE_ADDR (v2p p OR (PTE_W OR PTE_U) OR PTE_P)) = p"
    "PTE_FLAGS (v2p p OR (PTE_W OR PTE_U) OR PTE_P) = PTE_P OR PTE_W OR PTE_U" by simp_all
qed

text \<open>One iteration: a page is taken, zeroed and mapped.\<close>

lemma grow_page:
  fixes s :: "'a kmem_scheme"
  assumes ok: "pt_ok s pgdir" "kmem_inv s" and a: "4096 dvd unat a" "pte_of s pgdir a AND PTE_P = 0"
    and room: "2 \<le> card (free_pages s)"
  obtains p s1 u where "kalloc s = Ok p s1" "p \<noteq> 0"
    "mappages pgdir a PGSIZE (v2p p) (PTE_W OR PTE_U) (write_page p (replicate 4096 0) s1) = Ok 0 u"
    "pt_step pgdir s u" "card (free_pages s) \<le> card (free_pages u) + 2"
    "fresh_page s u pgdir a" "frame_of u pgdir a \<notin> free_pages u"
    "\<forall>x. pte_of u pgdir x = (if same_page a x then pte_of u pgdir a else pte_of s pgdir x)"
  using ok(2)
proof (cases rule: kalloc_cases)
  case empty
  then show ?thesis using room by simp
next
  case (page p s1)
  define t where "t = write_page p (replicate 4096 0) s1"
  note tk = take_page(1,2,4,5,6) [OF ok page(1,8), of "replicate 4096 0", folded t_def]
  have t: "pt_ok t pgdir" "kmem_inv t" using tk(1) by (simp_all add: pt_step_def)
  have ct: "card (free_pages s) = Suc (card (free_pages t))"
    using card_Suc_Diff1 [OF finite_free_pages [OF ok(2)] page(2)] tk(3) by simp
  have ab: "pte_of t pgdir a AND PTE_P = 0" using tk(2) a(2) by simp
  show ?thesis using t a(1) ab
  proof (cases rule: mappages_page [of t pgdir a "v2p p" "PTE_W OR PTE_U"])
    case (mapped u)
    have pa: "pte_of u pgdir a = v2p p OR (PTE_W OR PTE_U) OR PTE_P"
      using mapped(3) by (simp add: same_page_def)
    have fp: "frame_of u pgdir a = p" using page_pte(1) [OF page(7)] by (simp add: frame_of_def pa)
    have np: "p \<notin> free_pages u" "p \<notin> pt_pages u pgdir" "mem u p = mem t p"
      using mapped(2) tk(3,5) unfolding pt_step_def by blast+
    have "fresh_page s u pgdir a"
      unfolding fresh_page_def fp using page_pte(2) [OF page(7)] np page(2) tk(4) by (simp add: pa)
    then show ?thesis
      using that [OF page(1,8)] mapped(1,3,4) pt_step_trans [OF tk(1) mapped(2)] ct np(1) fp tk(2) pa
      by (simp add: t_def)
  next
    case full
    then show ?thesis using ct room by simp
  qed
qed

lemma allocuvm_loop_correct:
  assumes "pt_ok s pgdir" "kmem_inv s" "4096 dvd a" "unat newsz < 2147483648"
    and "unat newsz \<le> a + 4096 * k" "k \<noteq> 0 \<longrightarrow> a + 4096 * k < unat newsz + 4096"
    and "\<forall>x. a \<le> unat x \<and> unat x < a + 4096 * k \<longrightarrow> pte_of s pgdir x AND PTE_P = 0"
    and "2 * k \<le> card (free_pages s)"
  shows "\<exists>t. allocuvm_loop pgdir a oldsz newsz s = Ok newsz t \<and> pt_step pgdir s t \<and>
    fresh_map s t pgdir a (a + 4096 * k)"
  using assms
proof (induction k arbitrary: a s)
  case 0
  then show ?case by (auto simp: allocuvm_loop.simps fresh_map_def pt_step_refl)
next
  case (Suc k a s)
  let ?a = "of_nat a :: uint32"
  have ua: "unat ?a = a" using Suc.prems(4,6) by (intro unat_of_nat_32) simp
  have alt: "a < unat newsz" using Suc.prems(6) by simp
  have dv: "4096 dvd unat ?a" using Suc.prems(3) ua by simp
  have ab: "pte_of s pgdir ?a AND PTE_P = 0" using Suc.prems(7) ua by simp
  have room: "2 \<le> card (free_pages s)" using Suc.prems(8) by simp
  obtain p s1 u where g: "kalloc s = Ok p s1" "p \<noteq> 0"
    "mappages pgdir ?a PGSIZE (v2p p) (PTE_W OR PTE_U) (write_page p (replicate 4096 0) s1) = Ok 0 u"
    "pt_step pgdir s u" "card (free_pages s) \<le> card (free_pages u) + 2"
    "fresh_page s u pgdir ?a" "frame_of u pgdir ?a \<notin> free_pages u"
    "\<forall>x. pte_of u pgdir x = (if same_page ?a x then pte_of u pgdir ?a else pte_of s pgdir x)"
    using grow_page [OF Suc.prems(1,2) dv ab room] .
  obtain j where j: "a = 4096 * j" using Suc.prems(3) by blast
  have "unat ?a div 4096 = j" unfolding ua by (simp add: j)
  then have sp: "same_page ?a x \<longleftrightarrow> a \<le> unat x \<and> unat x < a + 4096" for x
    unfolding same_page_unat by (simp add: div_page_iff j)
  have u: "pt_ok u pgdir" "kmem_inv u" using g(4) by (simp_all add: pt_step_def)
  have "\<exists>t. allocuvm_loop pgdir (a + 4096) oldsz newsz u = Ok newsz t \<and> pt_step pgdir u t \<and>
    fresh_map u t pgdir (a + 4096) (a + 4096 + 4096 * k)"
  proof (rule Suc.IH [OF u])
    show "\<forall>x. a + 4096 \<le> unat x \<and> unat x < a + 4096 + 4096 * k \<longrightarrow> pte_of u pgdir x AND PTE_P = 0"
      using Suc.prems(7) g(8) sp by auto
  qed (use Suc.prems g(5) in auto)
  then obtain t where t: "allocuvm_loop pgdir (a + 4096) oldsz newsz u = Ok newsz t" "pt_step pgdir u t"
    "fresh_map u t pgdir (a + 4096) (a + 4096 + 4096 * k)" by blast
  have run: "allocuvm_loop pgdir a oldsz newsz s = Ok newsz t"
    using g(1,2,3) t(1) alt by (simp add: allocuvm_loop.simps [of pgdir a])
  have low: "pte_of t pgdir x = pte_of u pgdir x" if "unat x < a + 4096 \<or> a + 4096 + 4096 * k \<le> unat x" for x
    using t(3) that by (auto simp: fresh_map_def)
  have high: "fresh_page u t pgdir x" if "a + 4096 \<le> unat x" "unat x < a + 4096 + 4096 * k" for x
    using t(3) that by (auto simp: fresh_map_def)
  have sub: "free_pages u \<subseteq> free_pages s" using g(4) by (simp add: pt_step_def)
  have fr: "fresh_page s t pgdir x" if "a \<le> unat x" "unat x < a + 4096 * Suc k" for x
  proof (cases "unat x < a + 4096")
    case True
    then have "pte_of u pgdir x = pte_of u pgdir ?a" using g(8) sp that(1) by auto
    then have "fresh_page s u pgdir x" using g(6) by (simp add: fresh_page_def frame_of_def)
    then show ?thesis using fresh_page_later t(2) low True by blast
  next
    case False
    then have "fresh_page u t pgdir x" using high that by simp
    then show ?thesis using sub by (auto simp: fresh_page_def)
  qed
  have first: "frame_of t pgdir x = frame_of u pgdir ?a" if "a \<le> unat x" "unat x < a + 4096" for x
    using low [of x] g(8) sp [of x] that by (auto simp: frame_of_def)
  have rest: "frame_of t pgdir x \<in> free_pages u" if "a + 4096 \<le> unat x" "unat x < a + 4096 + 4096 * k" for x
    using high [OF that] by (simp add: fresh_page_def)
  have apart: "frame_of t pgdir x \<noteq> frame_of t pgdir y"
    if "a \<le> unat x" "unat x < a + 4096" "a + 4096 \<le> unat y" "unat y < a + 4096 + 4096 * k" for x y
    using first [OF that(1,2)] rest [OF that(3,4)] g(7) by auto
  have inj: "same_page x y" if "a \<le> unat x" "unat x < a + 4096 * Suc k" "a \<le> unat y" "unat y < a + 4096 * Suc k"
    "frame_of t pgdir x = frame_of t pgdir y" for x y
  proof (cases "unat x < a + 4096"; cases "unat y < a + 4096")
    assume "unat x < a + 4096" "unat y < a + 4096"
    then show ?thesis using that sp [of x] sp [of y] by (auto simp: same_page_def)
  next
    assume "\<not> unat x < a + 4096" "\<not> unat y < a + 4096"
    then show ?thesis using that t(3) by (auto simp: fresh_map_def)
  next
    assume "unat x < a + 4096" "\<not> unat y < a + 4096"
    then show ?thesis using that apart [of x y] by simp
  next
    assume "\<not> unat x < a + 4096" "unat y < a + 4096"
    then show ?thesis using that apart [of y x] by simp
  qed
  have "fresh_map s t pgdir a (a + 4096 * Suc k)"
    unfolding fresh_map_def using fr inj low g(8) sp by auto
  then show ?case using run pt_step_trans [OF g(4) t(2)] by blast
qed

text \<open>C29. With enough free memory, \<open>allocuvm\<close> grows an address space from \<open>oldsz\<close> to
  \<open>newsz\<close>: it returns \<open>newsz\<close>; every page between the two sizes, rounded up, is mapped
  writable for the user, each to a page of its own that was free and is now zeroed; all other
  translations are unchanged.\<close>

theorem allocuvm_grows:
  assumes "pt_ok s pgdir" "kmem_inv s" "oldsz \<le> newsz" "newsz < KERNBASE"
    and "\<forall>x. PGROUNDUP oldsz \<le> x \<and> x < PGROUNDUP newsz \<longrightarrow> pte_of s pgdir x AND PTE_P = 0"
    and "2 * ((unat (PGROUNDUP newsz) - unat (PGROUNDUP oldsz)) div 4096) \<le> card (free_pages s)"
  shows "\<exists>t. allocuvm pgdir oldsz newsz s = Ok newsz t \<and> pt_step pgdir s t \<and>
    fresh_map s t pgdir (unat (PGROUNDUP oldsz)) (unat (PGROUNDUP newsz))"
proof -
  have n: "unat newsz < 2147483648" "unat oldsz \<le> unat newsz"
    using assms(3,4) by (simp_all add: word_less_nat_alt word_le_nat_alt)
  then have le: "unat oldsz \<le> 2 ^ 32 - 4096" "unat newsz \<le> 2 ^ 32 - 4096" by simp_all
  note bo = PGROUNDUP_bounds [OF le(1)] and bn = PGROUNDUP_bounds [OF le(2)]
  have mono: "unat (PGROUNDUP oldsz) \<le> unat (PGROUNDUP newsz)"
    unfolding PGROUNDUP_unat [OF le(1)] PGROUNDUP_unat [OF le(2)] using n(2)
    by (intro mult_le_mono1 div_le_mono) simp
  define a b k where "a = unat (PGROUNDUP oldsz)" and "b = unat (PGROUNDUP newsz)" and "k = (b - a) div 4096"
  have dv: "4096 dvd a" "4096 dvd b" using bo(3) bn(3) by (simp_all add: a_def b_def mod_eq_0_iff_dvd)
  then have "4096 dvd b - a" by simp
  then have k: "a + 4096 * k = b" using mono unfolding k_def by (simp add: a_def b_def)
  have nb: "unat newsz \<le> b" "b < unat newsz + 4096" using bn by (simp_all add: b_def word_le_nat_alt)
  have "\<exists>t. allocuvm_loop pgdir a oldsz newsz s = Ok newsz t \<and> pt_step pgdir s t \<and>
      fresh_map s t pgdir a (a + 4096 * k)"
  proof (rule allocuvm_loop_correct [OF assms(1,2) dv(1) n(1)])
    show "\<forall>x. a \<le> unat x \<and> unat x < a + 4096 * k \<longrightarrow> pte_of s pgdir x AND PTE_P = 0"
      using assms(5) unfolding k by (simp add: a_def b_def word_le_nat_alt word_less_nat_alt)
    show "2 * k \<le> card (free_pages s)" using assms(6) by (simp add: k_def a_def b_def)
  qed (use k nb in simp_all)
  moreover have "\<not> newsz \<ge> KERNBASE" "\<not> newsz < oldsz" using assms(3,4) by simp_all
  ultimately show ?thesis unfolding allocuvm_def k by (simp add: a_def b_def)
qed

text \<open>\<open>allocuvm\<close> ignores the result of \<open>mappages\<close>. With a single free page and no
  page table for the address, it reports success although nothing was mapped, and the page it
  took is neither free nor mapped any more.\<close>

theorem allocuvm_ignores_mappages_failure:
  assumes "pt_ok s pgdir" "kmem_inv s" "free_pages s = {p}" "\<not> pde_present s pgdir 0"
  shows "\<exists>t. allocuvm pgdir 0 PGSIZE s = Ok PGSIZE t \<and> free_pages t = {} \<and>
    (\<forall>x. pte_of t pgdir x = pte_of s pgdir x) \<and> pte_of t pgdir 0 = 0"
  using assms(2)
proof (cases rule: kalloc_cases)
  case empty
  then show ?thesis using assms(3) by simp
next
  case (page q s1)
  define t where "t = write_page q (replicate 4096 0) s1"
  note tk = take_page(1,2,4) [OF assms(1,2) page(1,8), of "replicate 4096 0", folded t_def]
  have t: "pt_ok t pgdir" "kmem_inv t" "free_pages t = {}"
    using tk(1,3) assms(3) page(2) by (auto simp: pt_step_def)
  have z: "pte_of s pgdir 0 = 0" using assms(4) by (simp add: pte_of_def PDX_def)
  have np: "\<not> pde_present t pgdir (PDX 0)"
    using assms(1,3,4) page(2,5) by (auto simp: pde_present_def read_pte_def t_def PDX_def pt_ok_def pt_pages_def)
  have "walkpgdir pgdir 0 True t = Ok None t"
    using np kp.alloc_empty [OF t(2,3)] by (simp add: walkpgdir_def pde_present_def)
  then have m: "mappages pgdir 0 PGSIZE (v2p q) (PTE_W OR PTE_U) t = Ok (- 1) t"
    by (simp add: mappages_def PGROUNDDOWN_def mappages_loop.simps)
  have "PGROUNDUP 0 = 0" by (simp add: PGROUNDUP_def)
  then have "allocuvm pgdir 0 PGSIZE s = Ok PGSIZE t"
    using page(1,8) m by (simp add: allocuvm_def allocuvm_loop.simps t_def)
  then show ?thesis using t(3) tk(2) z by auto
qed

section \<open>Copying to user memory\<close>

definition user_page :: "'a kmem_scheme \<Rightarrow> uint32 \<Rightarrow> uint32 \<Rightarrow> bool" where
  "user_page s pgdir x \<longleftrightarrow> pte_of s pgdir x AND PTE_P \<noteq> 0 \<and> pte_of s pgdir x AND PTE_U \<noteq> 0"

definition ubyte :: "'a kmem_scheme \<Rightarrow> uint32 \<Rightarrow> uint32 \<Rightarrow> uchar" where
  "ubyte s pgdir x = mem s (frame_of s pgdir x) ! (unat x mod 4096)"

definition user_ok :: "'a kmem_scheme \<Rightarrow> uint32 \<Rightarrow> bool" where
  "user_ok s pgdir \<longleftrightarrow>
    (\<forall>x. user_page s pgdir x \<longrightarrow> frame_of s pgdir x \<notin> pt_pages s pgdir \<and> frame_of s pgdir x \<noteq> 0 \<and>
       length (mem s (frame_of s pgdir x)) = 4096) \<and>
    (\<forall>x y. user_page s pgdir x \<and> user_page s pgdir y \<and> frame_of s pgdir x = frame_of s pgdir y \<longrightarrow>
       same_page x y)"

lemma pte_of_cong:
  assumes "\<forall>p\<in>pt_pages s pgdir. mem t p = mem s p"
  shows "pte_of t pgdir x = pte_of s pgdir x" "pt_pages t pgdir = pt_pages s pgdir"
proof -
  have dir: "read_pte t (pgdir, i) = read_pte s (pgdir, i)" for i
    using assms by (simp add: read_pte_def pt_pages_def)
  then have abs: "pde_present t pgdir = pde_present s pgdir" "pgtab_of t pgdir = pgtab_of s pgdir"
    by (auto simp: pde_present_def pgtab_of_def)
  then show "pt_pages t pgdir = pt_pages s pgdir" by (simp add: pt_pages_def)
  have "read_pte t (pgtab_of s pgdir (PDX x), PTX x) = read_pte s (pgtab_of s pgdir (PDX x), PTX x)"
    if "pde_present s pgdir (PDX x)"
    using assms that PDX_less [of x] by (auto simp: read_pte_def pt_pages_def)
  then show "pte_of t pgdir x = pte_of s pgdir x" by (simp add: pte_of_def abs)
qed

lemma pte_of_same_page: "same_page x y \<Longrightarrow> pte_of s pgdir x = pte_of s pgdir y"
  by (simp add: same_page_def pte_of_def)

lemma frame_of_same_page: "same_page x y \<Longrightarrow> frame_of s pgdir x = frame_of s pgdir y"
  by (simp add: frame_of_def pte_of_same_page)

lemma user_page_same_page: "same_page x y \<Longrightarrow> user_page s pgdir x = user_page s pgdir y"
  by (simp add: user_page_def pte_of_same_page)

lemma uva2ka_user: "user_page s pgdir x \<Longrightarrow> uva2ka pgdir x s = Ok (frame_of s pgdir x) s"
  by (auto simp: uva2ka_def walkpgdir_noalloc user_page_def pte_of_def frame_of_def split: if_splits)

lemma write_user_page:
  fixes s :: "'a kmem_scheme" and bs :: "uchar list"
  assumes ok: "user_ok s pgdir" "user_page s pgdir a" and n: "off + length bs \<le> 4096"
  defines "t \<equiv> write_page (frame_of s pgdir a) (splice (mem s (frame_of s pgdir a)) off bs) s"
  shows "pte_of t pgdir x = pte_of s pgdir x" "user_ok t pgdir"
    and "user_page s pgdir x \<Longrightarrow> ubyte t pgdir x =
      (if same_page a x \<and> off \<le> unat x mod 4096 \<and> unat x mod 4096 < off + length bs
       then bs ! (unat x mod 4096 - off) else ubyte s pgdir x)"
proof -
  let ?f = "frame_of s pgdir a"
  have f: "?f \<notin> pt_pages s pgdir" "length (mem s ?f) = 4096" using ok by (auto simp: user_ok_def)
  then have "\<forall>p\<in>pt_pages s pgdir. mem t p = mem s p" by (auto simp: t_def)
  note c = pte_of_cong [OF this]
  have memt: "mem t = (mem s)(?f := splice (mem s ?f) off bs)" by (simp add: t_def)
  have ab: "user_page t pgdir = user_page s pgdir" "frame_of t pgdir = frame_of s pgdir"
    by (auto simp: user_page_def frame_of_def c(1))
  have len: "length (mem t q) = length (mem s q)" for q using f(2) n by (simp add: t_def)
  show "pte_of t pgdir x = pte_of s pgdir x" by (rule c)
  show "user_ok t pgdir" using ok(1) unfolding user_ok_def ab c(2) len .
  assume x: "user_page s pgdir x"
  then have e: "frame_of s pgdir x = ?f \<longleftrightarrow> same_page a x"
    using ok frame_of_same_page [of a x] unfolding user_ok_def by (metis same_page_def)
  show "ubyte t pgdir x = (if same_page a x \<and> off \<le> unat x mod 4096 \<and> unat x mod 4096 < off + length bs
       then bs ! (unat x mod 4096 - off) else ubyte s pgdir x)"
    unfolding ubyte_def ab memt using e f(2) n by (auto simp: nth_splice)
qed


lemma page_span:
  fixes va x :: uint32
  assumes "off = unat va mod 4096" "off + n \<le> 4096"
  shows "same_page va x \<and> off \<le> unat x mod 4096 \<and> unat x mod 4096 < off + n \<longleftrightarrow>
      unat va \<le> unat x \<and> unat x < unat va + n"
    and "same_page va x \<Longrightarrow> unat x mod 4096 - off = unat x - unat va"
proof -
  define q r where "q = unat x div 4096" and "r = unat x mod 4096"
  have x: "unat x = 4096 * q + r" "r < 4096" by (simp_all add: q_def r_def)
  define p where "p = unat va div 4096"
  have va: "unat va = 4096 * p + off" "off < 4096" by (simp_all add: p_def assms(1))
  have "same_page va x \<longleftrightarrow> p = q" by (simp add: same_page_unat p_def q_def)
  moreover have "p = q \<and> off \<le> r \<and> r < off + n \<longleftrightarrow>
      4096 * p + off \<le> 4096 * q + r \<and> 4096 * q + r < 4096 * p + off + n"
  proof (cases p q rule: linorder_cases)
    case less
    then have "4096 * p + 4096 \<le> 4096 * q" by simp
    then show ?thesis using less assms(2) by linarith
  next
    case greater
    then have "4096 * q + 4096 \<le> 4096 * p" by simp
    then show ?thesis using greater x(2) by linarith
  qed auto
  ultimately show "same_page va x \<and> off \<le> unat x mod 4096 \<and> unat x mod 4096 < off + n \<longleftrightarrow>
      unat va \<le> unat x \<and> unat x < unat va + n"
    "same_page va x \<Longrightarrow> unat x mod 4096 - off = unat x - unat va"
    unfolding r_def [symmetric] x(1) va(1) using x(2) by simp_all
qed

lemma copyout_correct:
  assumes "user_ok s pgdir" "unat va + length buf \<le> 2 ^ 32"
    and "\<forall>x. unat va \<le> unat x \<and> unat x < unat va + length buf \<longrightarrow> user_page s pgdir x"
  shows "\<exists>t. copyout pgdir va buf s = Ok 0 t \<and> (\<forall>x. pte_of t pgdir x = pte_of s pgdir x) \<and>
    (\<forall>x. user_page s pgdir x \<longrightarrow> ubyte t pgdir x =
      (if unat va \<le> unat x \<and> unat x < unat va + length buf then buf ! (unat x - unat va) else ubyte s pgdir x))"
  using assms
proof (induction "length buf" arbitrary: va buf s rule: less_induct)
  case less
  show ?case
  proof (cases "buf = []")
    case True
    then show ?thesis by (auto simp: copyout.simps)
  next
    case False
    let ?va0 = "PGROUNDDOWN va" and ?f = "frame_of s pgdir va"
    define off where "off = unat va mod 4096"
    define n where "n = min (4096 - off) (length buf)"
    have off: "unat (va - ?va0) = off" "off < 4096" by (simp_all add: off_def PGROUNDDOWN_offset)
    have n: "off + length (take n buf) \<le> 4096" "length (take n buf) = n" "0 < n" "n \<le> length buf"
      using off False by (auto simp: n_def)
    have uv: "user_page s pgdir va" using less.prems(3) False by simp
    have sp: "same_page va ?va0" by (simp add: same_page_unat PGROUNDDOWN_div)
    have uk: "uva2ka pgdir ?va0 s = Ok ?f s"
      using uva2ka_user [of s pgdir ?va0] uv
      by (simp add: user_page_same_page [OF sp, symmetric] frame_of_same_page [OF sp, symmetric])
    have fnz: "?f \<noteq> 0" using less.prems(1) uv by (auto simp: user_ok_def)
    define t where "t = write_page ?f (splice (mem s ?f) off (take n buf)) s"
    have run: "copyout pgdir va buf s = copyout pgdir (?va0 + PGSIZE) (drop n buf) t"
      using False uk fnz off(1) by (subst copyout.simps) (simp add: Let_def t_def n_def)
    note w = write_user_page [OF less.prems(1) uv n(1), folded t_def]
    have bt: "ubyte t pgdir x = (if unat va \<le> unat x \<and> unat x < unat va + n
        then buf ! (unat x - unat va) else ubyte s pgdir x)" if "user_page s pgdir x" for x
    proof -
      have "off + n \<le> 4096" using n by simp
      note span = page_span [OF off_def this, of x]
      show ?thesis
      proof (cases "unat va \<le> unat x \<and> unat x < unat va + n")
        case True
        then have "unat x - unat va < n" by linarith
        then show ?thesis using w(3) [OF that] span n(2) True by simp
      next
        case False
        show ?thesis using w(3) [OF that] unfolding n(2) span(1) if_not_P [OF False] .
      qed
    qed
    show ?thesis
    proof (cases "n = length buf")
      case True
      then have "copyout pgdir va buf s = Ok 0 t" using run by (simp add: copyout.simps)
      then show ?thesis using w(1) bt True by blast
    next
      case rest: False
      then have n': "n = 4096 - off" "n < length buf" using n_def by auto
      have nx: "unat (?va0 + PGSIZE) = unat va + n"
      proof -
        have "unat ?va0 + 4096 = unat va + n" using n'(1) off by (simp add: PGROUNDDOWN_unat off_def)
        then show ?thesis using unat_add_no_wrap [of ?va0 PGSIZE] n'(2) less.prems(2) by simp
      qed
      have ut: "user_page t pgdir = user_page s pgdir" by (auto simp: user_page_def w(1))
      have "\<exists>u. copyout pgdir (?va0 + PGSIZE) (drop n buf) t = Ok 0 u \<and>
        (\<forall>x. pte_of u pgdir x = pte_of t pgdir x) \<and> (\<forall>x. user_page t pgdir x \<longrightarrow> ubyte u pgdir x =
          (if unat (?va0 + PGSIZE) \<le> unat x \<and> unat x < unat (?va0 + PGSIZE) + length (drop n buf)
           then drop n buf ! (unat x - unat (?va0 + PGSIZE)) else ubyte t pgdir x))"
        by (rule less.hyps [OF _ w(2)]) (use n n' less.prems(2,3) ut nx in auto)
      then obtain u where u: "copyout pgdir (?va0 + PGSIZE) (drop n buf) t = Ok 0 u"
        "\<forall>x. pte_of u pgdir x = pte_of t pgdir x"
        "\<forall>x. user_page s pgdir x \<longrightarrow> ubyte u pgdir x = (if unat va + n \<le> unat x \<and> unat x < unat va + length buf
           then drop n buf ! (unat x - (unat va + n)) else ubyte t pgdir x)"
        using nx n' ut by auto
      have "ubyte u pgdir x = (if unat va \<le> unat x \<and> unat x < unat va + length buf
          then buf ! (unat x - unat va) else ubyte s pgdir x)" if "user_page s pgdir x" for x
        using u(3) that bt [OF that] n' by auto
      then show ?thesis using run u(1,2) w(1) by auto
    qed
  qed
qed

text \<open>C30. \<open>copyout\<close> to a range of mapped user pages succeeds, across page boundaries: the
  bytes of the range read back as the buffer, every other byte of user memory is unchanged, and so is
  the page table.\<close>

theorem copyout_writes:
  assumes "user_ok s pgdir" "unat va + length buf \<le> 2 ^ 32"
    and "\<forall>x. unat va \<le> unat x \<and> unat x < unat va + length buf \<longrightarrow> user_page s pgdir x"
  shows "\<exists>t. copyout pgdir va buf s = Ok 0 t \<and> (\<forall>x. pte_of t pgdir x = pte_of s pgdir x) \<and>
    (\<forall>x. user_page s pgdir x \<longrightarrow> ubyte t pgdir x =
      (if unat va \<le> unat x \<and> unat x < unat va + length buf then buf ! (unat x - unat va) else ubyte s pgdir x))"
  using assms by (rule copyout_correct)


section \<open>Concrete memories\<close>

text \<open>
  A page directory at \<open>0x80400000\<close> that maps nothing, with two free pages; the same with one
  free page; and one whose first user page is mapped.
\<close>

definition vm_two :: kmem where
  "vm_two = \<lparr>use_lock = True, freelist = 0x80401000,
     mem = (\<lambda>_. replicate 4096 0)(0x80401000 := put_u32 (replicate 4096 0) 0 0x80402000), kend = 0x80400000\<rparr>"

definition vm_one :: kmem where
  "vm_one = \<lparr>use_lock = True, freelist = 0x80401000, mem = (\<lambda>_. replicate 4096 0), kend = 0x80400000\<rparr>"

definition vm_user :: kmem where
  "vm_user = \<lparr>use_lock = True, freelist = 0,
     mem = (\<lambda>_. replicate 4096 0)(0x80400000 := put_u32 (replicate 4096 0) 0 0x401007,
       0x80401000 := put_u32 (replicate 4096 0) 0 0x402007), kend = 0x80400000\<rparr>"

lemma vm_two_list: "kmem_list vm_two [0x80401000, 0x80402000]"
  by (simp add: kmem_list_def vm_two_def bad_page_def v2p_def)

lemma vm_one_list: "kmem_list vm_one [0x80401000]"
  by (simp add: kmem_list_def vm_one_def bad_page_def v2p_def)

lemma empty_dir:
  assumes "mem s pgdir = replicate 4096 0" "pgdir \<notin> free_pages s"
  shows "pt_ok s pgdir" "pte_of s pgdir x = 0" "i < 1024 \<Longrightarrow> \<not> pde_present s pgdir i"
proof -
  have n: "\<not> pde_present s pgdir i" if "i < 1024" for i
    using assms(1) that by (simp add: pde_present_def read_pte_def)
  then show "i < 1024 \<Longrightarrow> \<not> pde_present s pgdir i" .
  have "pt_pages s pgdir = {pgdir}" using n by (auto simp: pt_pages_def)
  then show "pt_ok s pgdir" using assms n by (simp add: pt_ok_def)
  show "pte_of s pgdir x = 0" using n [OF PDX_less] by (simp add: pte_of_def)
qed

lemma vm_two_ok: "pt_ok vm_two 0x80400000" "pte_of vm_two 0x80400000 x = 0" "kmem_inv vm_two"
  "free_pages vm_two = {0x80401000, 0x80402000}"
proof -
  show f: "free_pages vm_two = {0x80401000, 0x80402000}" using free_pages_list [OF vm_two_list] by simp
  show "kmem_inv vm_two" using vm_two_list by (auto simp: kmem_inv_def)
  have "mem vm_two 0x80400000 = replicate 4096 0" by (simp add: vm_two_def)
  note e = empty_dir [OF this]
  show "pt_ok vm_two 0x80400000" "pte_of vm_two 0x80400000 x = 0" using f by (auto intro: e)
qed

lemma vm_one_ok: "pt_ok vm_one 0x80400000" "kmem_inv vm_one" "free_pages vm_one = {0x80401000}"
  "\<not> pde_present vm_one 0x80400000 0"
proof -
  show f: "free_pages vm_one = {0x80401000}" using free_pages_list [OF vm_one_list] by simp
  show "kmem_inv vm_one" using vm_one_list by (auto simp: kmem_inv_def)
  have "mem vm_one 0x80400000 = replicate 4096 0" by (simp add: vm_one_def)
  note e = empty_dir [OF this]
  show "pt_ok vm_one 0x80400000" "\<not> pde_present vm_one 0x80400000 0" using f e(1) e(3) [of 0] by simp_all
qed

lemma get_u32_first: "i < 1024 \<Longrightarrow> get_u32 (put_u32 (replicate 4096 0) 0 w) (4 * i) = (if i = 0 then w else 0)"
  by (cases "i = 0") (simp_all add: get_u32_put_u32_other)

lemma vm_user_dir: "i < 1024 \<Longrightarrow> read_pte vm_user (0x80400000, i) = (if i = 0 then 0x401007 else 0)"
  "i < 1024 \<Longrightarrow> read_pte vm_user (0x80401000, i) = (if i = 0 then 0x402007 else 0)"
  by (simp_all add: read_pte_def vm_user_def get_u32_first)

lemma vm_user_pte: "pte_of vm_user 0x80400000 x = (if PDX x = 0 \<and> PTX x = 0 then 0x402007 else 0)"
  using PDX_less [of x] PTX_less [of x]
  by (simp add: pte_of_def pde_present_def pgtab_of_def vm_user_dir PTE_ADDR_def p2v_def)

lemma vm_user_ok: "user_ok vm_user 0x80400000" "user_page vm_user 0x80400000 x \<longleftrightarrow> unat x < 4096"
proof -
  have z: "PDX x = 0 \<and> PTX x = 0 \<longleftrightarrow> unat x < 4096" for x
    using same_page_unat [of 0 x] by (auto simp: same_page_def PDX_def PTX_def)
  show u: "user_page vm_user 0x80400000 x \<longleftrightarrow> unat x < 4096" for x
    by (simp add: user_page_def vm_user_pte z)
  have f: "frame_of vm_user 0x80400000 x = 0x80402000" if "unat x < 4096" for x
    using that z [of x] by (simp add: frame_of_def vm_user_pte PTE_ADDR_def p2v_def)
  have "pt_pages vm_user 0x80400000 \<subseteq> {0x80400000, 0x80401000}"
    by (auto simp: pt_pages_def pde_present_def pgtab_of_def vm_user_dir PTE_ADDR_def p2v_def split: if_splits)
  then have np: "0x80402000 \<notin> pt_pages vm_user 0x80400000" by auto
  have l: "length (mem vm_user 0x80402000) = 4096" by (simp add: vm_user_def)
  show "user_ok vm_user 0x80400000" using np l by (simp add: user_ok_def u f same_page_unat)
qed

lemma mappages_maps_witness:
  "\<exists>r t. mappages 0x80400000 0x1234 0x2000 0x300000 PTE_W vm_two = Ok r t \<and> pt_step 0x80400000 vm_two t"
  using mappages_maps [of vm_two "0x80400000" "0x2000" "0x1234" "0x300000" PTE_W] vm_two_ok by auto

lemma allocuvm_grows_witness:
  "\<exists>t. allocuvm 0x80400000 0x10 0x1800 vm_two = Ok 0x1800 t \<and> fresh_map vm_two t 0x80400000 0x1000 0x2000"
proof -
  have "PGROUNDUP 0x10 = 0x1000" "PGROUNDUP 0x1800 = 0x2000" by (simp_all add: PGROUNDUP_def)
  then show ?thesis
    using allocuvm_grows [of vm_two "0x80400000" "0x10" "0x1800"] vm_two_ok by auto
qed

lemma allocuvm_ignores_mappages_failure_witness:
  "\<exists>t. allocuvm 0x80400000 0 PGSIZE vm_one = Ok PGSIZE t \<and> free_pages t = {} \<and> pte_of t 0x80400000 0 = 0"
  using allocuvm_ignores_mappages_failure [OF vm_one_ok(1,2,3,4)] by blast

lemma copyout_writes_witness:
  "\<exists>t. copyout 0x80400000 0xFFD [1, 2, 3] vm_user = Ok 0 t \<and> ubyte t 0x80400000 0xFFE = 2"
  using copyout_writes [of vm_user "0x80400000" "0xFFD" "[1, 2, 3]"] vm_user_ok by auto

end
