(* ===== verification/Umem.thy ===== *)
theory Umem
  imports Vm
begin

text \<open>
  How the kernel itself reads and writes memory through the page table that is loaded, byte by
  byte: \<open>*ip = *(int*)addr\<close>, \<open>*status = p->status\<close>, \<open>memmove((void*)esp, ..., 4)\<close>.
  A byte whose page is not present faults; \<open>trap\<close> treats a fault in the kernel as its own
  mistake and panics.
\<close>

definition present :: "'a kmem_scheme \<Rightarrow> uint32 \<Rightarrow> uint32 \<Rightarrow> bool" where
  "present s pgdir va \<longleftrightarrow> pte_of s pgdir va AND PTE_P \<noteq> 0"

definition writable :: "'a kmem_scheme \<Rightarrow> uint32 \<Rightarrow> uint32 \<Rightarrow> bool" where
  "writable s pgdir va \<longleftrightarrow> present s pgdir va \<and> pte_of s pgdir va AND PTE_W \<noteq> 0"

fun load_bytes :: "uint32 \<Rightarrow> uint32 \<Rightarrow> nat \<Rightarrow> 'a kmem_scheme \<Rightarrow> (uchar list, 'a kmem_scheme) outcome" where
  "load_bytes pgdir va 0 s = Ok [] s"
| "load_bytes pgdir va (Suc n) s =
    (if present s pgdir va
     then mbind (load_bytes pgdir (va + 1) n s) (\<lambda>bs s. Ok (ubyte s pgdir va # bs) s)
     else Panic ''trap'')"

definition store_byte :: "uint32 \<Rightarrow> uint32 \<Rightarrow> uchar \<Rightarrow> 'a kmem_scheme \<Rightarrow> 'a kmem_scheme" where
  "store_byte pgdir va b s =
    (let p = frame_of s pgdir va in write_page p ((mem s p)[unat va mod 4096 := b]) s)"

fun store_bytes :: "uint32 \<Rightarrow> uint32 \<Rightarrow> uchar list \<Rightarrow> 'a kmem_scheme \<Rightarrow> (unit, 'a kmem_scheme) outcome" where
  "store_bytes pgdir va [] s = Ok () s"
| "store_bytes pgdir va (b # bs) s =
    (if writable s pgdir va then store_bytes pgdir (va + 1) bs (store_byte pgdir va b s)
     else Panic ''trap'')"

definition load32 :: "uint32 \<Rightarrow> uint32 \<Rightarrow> 'a kmem_scheme \<Rightarrow> (uint32, 'a kmem_scheme) outcome" where
  "load32 pgdir va s = mbind (load_bytes pgdir va 4 s) (\<lambda>bs s. Ok (get_u32 bs 0) s)"

definition store32 :: "uint32 \<Rightarrow> uint32 \<Rightarrow> uint32 \<Rightarrow> 'a kmem_scheme \<Rightarrow> (unit, 'a kmem_scheme) outcome" where
  "store32 pgdir va w s = store_bytes pgdir va (put_u32 [0, 0, 0, 0] 0 w) s"


section \<open>Reading what was written\<close>

text \<open>
  The writable part of an address space, seen from the addresses \<open>A\<close>: its pages are whole, none of them is part of the page
  table, and no two of the addresses share a byte. For the user's part \<open>A\<close> is what lies below \<open>KERNBASE\<close>: above it
  every page is mapped once more for the kernel.
\<close>

definition space_ok :: "uint32 set \<Rightarrow> 'a kmem_scheme \<Rightarrow> uint32 \<Rightarrow> bool" where
  "space_ok A s pgdir \<longleftrightarrow>
    (\<forall>x\<in>A. writable s pgdir x \<longrightarrow> frame_of s pgdir x \<notin> pt_pages s pgdir \<and> length (mem s (frame_of s pgdir x)) = 4096) \<and>
    (\<forall>x\<in>A. \<forall>y\<in>A. writable s pgdir x \<and> present s pgdir y \<and> frame_of s pgdir x = frame_of s pgdir y \<longrightarrow> same_page x y)"

abbreviation (input) user_addrs :: "uint32 set" where "user_addrs \<equiv> {x. unat x < 0x80000000}"

lemma store_byte_space:
  fixes s :: "'a kmem_scheme" and b :: uchar
  assumes ok: "space_ok A s pgdir" and w: "a \<in> A" "writable s pgdir a"
  defines "t \<equiv> store_byte pgdir a b s"
  shows "pte_of t pgdir x = pte_of s pgdir x" "space_ok A t pgdir"
    and "x \<in> A \<Longrightarrow> present s pgdir x \<Longrightarrow> ubyte t pgdir x = (if x = a then b else ubyte s pgdir x)"
proof -
  let ?f = "frame_of s pgdir a"
  have memt: "mem t = (mem s)(?f := (mem s ?f)[unat a mod 4096 := b])"
    by (simp add: t_def store_byte_def Let_def)
  have f: "?f \<notin> pt_pages s pgdir" "length (mem s ?f) = 4096" using ok w by (auto simp: space_ok_def)
  then have "\<forall>p\<in>pt_pages s pgdir. mem t p = mem s p" by (auto simp: memt)
  note c = pte_of_cong [OF this]
  have ab: "writable t pgdir = writable s pgdir" "present t pgdir = present s pgdir"
    "frame_of t pgdir = frame_of s pgdir"
    by (auto simp: writable_def present_def frame_of_def c(1))
  have len: "length (mem t q) = length (mem s q)" for q by (simp add: memt)
  show "pte_of t pgdir x = pte_of s pgdir x" by (rule c)
  show "space_ok A t pgdir" using ok unfolding space_ok_def ab c(2) len .
  show "ubyte t pgdir x = (if x = a then b else ubyte s pgdir x)" if x: "x \<in> A" "present s pgdir x"
  proof (cases "frame_of s pgdir x = ?f")
    case True
    then have "same_page a x" using ok w x unfolding space_ok_def by metis
    then have "x = a \<longleftrightarrow> unat x mod 4096 = unat a mod 4096"
      unfolding same_page_unat by (metis div_mult_mod_eq word_unat_eq_iff)
    then show ?thesis using True f(2) by (simp add: ubyte_def ab memt nth_list_update)
  next
    case False
    then show ?thesis by (auto simp: ubyte_def ab memt)
  qed
qed

lemma load_bytes_eq:
  assumes "\<forall>i<n. present s pgdir (va + of_nat i)"
  shows "load_bytes pgdir va n s = Ok (map (\<lambda>i. ubyte s pgdir (va + of_nat i)) [0..<n]) s"
  using assms
proof (induction n arbitrary: va)
  case (Suc n)
  have "\<forall>i<n. present s pgdir (va + 1 + of_nat i)"
    using Suc.prems by (metis Suc_less_eq add.assoc of_nat_Suc)
  moreover have "present s pgdir va" using Suc.prems [THEN spec, of 0] by simp
  ultimately show ?case using Suc.IH [of "va + 1"]
    by (simp add: map_upt_Suc add.assoc del: upt_Suc)
qed simp

lemma store_bytes_eq:
  assumes "space_ok A s pgdir" "unat va + length bs \<le> 2 ^ 32" "\<forall>i<length bs. va + of_nat i \<in> A \<and> writable s pgdir (va + of_nat i)"
  shows "\<exists>t. store_bytes pgdir va bs s = Ok () t \<and> (\<forall>x. pte_of t pgdir x = pte_of s pgdir x) \<and> space_ok A t pgdir \<and>
    (\<forall>x\<in>A. present s pgdir x \<longrightarrow> ubyte t pgdir x =
      (if unat va \<le> unat x \<and> unat x < unat va + length bs then bs ! (unat x - unat va) else ubyte s pgdir x))"
  using assms
proof (induction bs arbitrary: va s)
  case Nil
  then show ?case by auto
next
  case (Cons b bs)
  have w: "va \<in> A" "writable s pgdir va" using Cons.prems(3) [THEN spec, of 0] by simp_all
  define u where "u = store_byte pgdir va b s"
  note sb = store_byte_space [OF Cons.prems(1) w, where b = b, folded u_def]
  have ab: "writable u pgdir = writable s pgdir" "present u pgdir = present s pgdir"
    by (auto simp: writable_def present_def sb(1))
  show ?case
  proof (cases "bs = []")
    case True
    have "unat va \<le> unat x \<and> unat x < Suc (unat va) \<longleftrightarrow> x = va" for x
      by (auto simp: word_unat_eq_iff)
    then show ?thesis using sb w True by (auto simp: u_def [symmetric])
  next
    case False
    then have "Suc 0 \<le> length bs" by (cases bs) auto
    then have nx: "unat (va + 1) = unat va + 1" using Cons.prems(2) unat_add_no_wrap [of va 1] by simp
    have "\<forall>i<length bs. va + 1 + of_nat i \<in> A \<and> writable u pgdir (va + 1 + of_nat i)"
      using Cons.prems(3) unfolding ab by (metis Suc_less_eq add.assoc length_Cons of_nat_Suc)
    moreover have "unat (va + 1) + length bs \<le> 2 ^ 32" using nx Cons.prems(2) by simp
    ultimately obtain t where t: "store_bytes pgdir (va + 1) bs u = Ok () t"
      "\<forall>x. pte_of t pgdir x = pte_of u pgdir x" "space_ok A t pgdir"
      "\<forall>x\<in>A. present u pgdir x \<longrightarrow> ubyte t pgdir x = (if unat (va + 1) \<le> unat x \<and> unat x < unat (va + 1) + length bs
         then bs ! (unat x - unat (va + 1)) else ubyte u pgdir x)"
      using Cons.IH [OF sb(2)] by blast
    have "ubyte t pgdir x = (if unat va \<le> unat x \<and> unat x < unat va + length (b # bs)
        then (b # bs) ! (unat x - unat va) else ubyte s pgdir x)" if "x \<in> A" "present s pgdir x" for x
    proof (cases "x = va")
      case True
      then show ?thesis using t(4) that sb(3) [OF that] nx by (simp add: ab)
    next
      case False
      then have "unat x \<noteq> unat va" by (simp add: word_unat_eq_iff)
      then show ?thesis using t(4) that sb(3) [OF that] False nx by (auto simp: ab nth_Cons')
    qed
    then show ?thesis using t w sb(1) by (auto simp: u_def [symmetric])
  qed
qed

lemma range_unat:
  assumes "unat va + n \<le> 2 ^ 32" "i < n"
  shows "unat (va + of_nat i :: uint32) = unat va + i"
  using assms unat_add_no_wrap [of va "of_nat i"] unat_of_nat_32 [of i] by simp

lemma store_load_bytes:
  assumes "space_ok A s pgdir" "unat va + length bs \<le> 2 ^ 32" "\<forall>i<length bs. va + of_nat i \<in> A \<and> writable s pgdir (va + of_nat i)"
  shows "\<exists>t. store_bytes pgdir va bs s = Ok () t \<and> load_bytes pgdir va (length bs) t = Ok bs t"
proof -
  obtain t where t: "store_bytes pgdir va bs s = Ok () t" "\<forall>x. pte_of t pgdir x = pte_of s pgdir x"
    "\<forall>x\<in>A. present s pgdir x \<longrightarrow> ubyte t pgdir x =
      (if unat va \<le> unat x \<and> unat x < unat va + length bs then bs ! (unat x - unat va) else ubyte s pgdir x)"
    using store_bytes_eq [OF assms] by blast
  have p: "va + of_nat i \<in> A" "present s pgdir (va + of_nat i)" if "i < length bs" for i
    using assms(3) that by (simp_all add: writable_def)
  have "\<forall>i<length bs. present t pgdir (va + of_nat i)" using p t(2) by (simp add: present_def)
  note load_bytes_eq [OF this]
  moreover have "map (\<lambda>i. ubyte t pgdir (va + of_nat i)) [0..<length bs] = bs"
    by (rule nth_equalityI) (use t(3) p range_unat [OF assms(2)] in auto)
  ultimately show ?thesis using t(1) by auto
qed

lemma store32_load32:
  assumes "space_ok A s pgdir" "unat va + 4 \<le> 2 ^ 32" "\<forall>i<4. va + of_nat i \<in> A \<and> writable s pgdir (va + of_nat i)"
  shows "\<exists>t. store32 pgdir va w s = Ok () t \<and> load32 pgdir va t = Ok w t"
proof -
  have l: "length (put_u32 [0, 0, 0, 0] 0 w) = 4" by simp
  obtain t where "store_bytes pgdir va (put_u32 [0, 0, 0, 0] 0 w) s = Ok () t"
    "load_bytes pgdir va 4 t = Ok (put_u32 [0, 0, 0, 0] 0 w) t"
    using store_load_bytes [OF assms(1), of va "put_u32 [0, 0, 0, 0] 0 w", unfolded l, OF assms(2,3)] by blast
  then show ?thesis by (auto simp: store32_def load32_def)
qed

end
