(* ===== verification/Uvm.thy ===== *)
theory Uvm
  imports Umem
begin

text \<open>
  Whole address spaces: which part of the state the memory routines touch, and that \<open>deallocuvm\<close>
  and \<open>freevm\<close> of \<open>vm.c\<close> give back exactly the pages an address space is made of.
\<close>

section \<open>What the memory routines leave alone\<close>

text \<open>The routines of this theory change memory and the free list, and no other component of the state.\<close>

definition mem_only :: "'a kmem_scheme \<Rightarrow> 'a kmem_scheme \<Rightarrow> bool" where
  "mem_only s t \<longleftrightarrow> t = s\<lparr>mem := mem t, freelist := freelist t\<rparr>"

lemma mem_only_refl [simp]: "mem_only s s"
  by (simp add: mem_only_def)

lemma mem_only_trans: "mem_only s t \<Longrightarrow> mem_only t u \<Longrightarrow> mem_only s u"
  unfolding mem_only_def by (metis kmem.surjective kmem.update_convs(2,3))

lemma mem_only_write [simp]: "mem_only s (write_page p bs s)" "mem_only s (write_pte r w s)"
  by (simp_all add: mem_only_def write_pte_def write_page_def)

lemma mem_only_mbind:
  assumes "keeps (mem_only s) m" "\<And>x t. m = Ok x t \<Longrightarrow> keeps (mem_only t) (f x t)"
  shows "keeps (mem_only s) (mbind m f)"
  using assms by (cases m) (fastforce simp: keeps_def intro: mem_only_trans split: outcome.splits)+

lemma mem_only_after: "mem_only s t \<Longrightarrow> keeps (mem_only t) m \<Longrightarrow> keeps (mem_only s) m"
  by (cases m) (auto intro: mem_only_trans)

lemma kalloc_frame: "keeps (mem_only s) (kalloc s)"
  by (simp add: kalloc_def Let_def mem_only_def)

lemma kfree_frame: "keeps (mem_only s) (kfree v s)"
  by (simp add: kfree_def Let_def mem_only_def)

lemma walkpgdir_frame: "keeps (mem_only s) (walkpgdir pgdir va al s)"
  unfolding walkpgdir_def
  by (auto simp: Let_def intro!: mem_only_mbind kalloc_frame mem_only_trans [OF mem_only_write(1) mem_only_write(2)])

lemma mappages_loop_frame: "keeps (mem_only s) (mappages_loop n pgdir a pa perm s)"
proof (induction n arbitrary: a pa s)
  case 0
  then show ?case by (subst mappages_loop.simps) (auto simp: Let_def intro!: mem_only_mbind walkpgdir_frame split: option.splits)
next
  case (Suc n)
  then show ?case by (subst mappages_loop.simps)
      (auto simp: Let_def intro!: mem_only_mbind walkpgdir_frame mem_only_after [OF mem_only_write(2) Suc] split: option.splits)
qed

lemma mappages_frame: "keeps (mem_only s) (mappages pgdir va sz pa perm s)"
  by (simp add: mappages_def Let_def mappages_loop_frame)

lemma deallocuvm_loop_frame:
  fixes s :: "'a kmem_scheme"
  shows "keeps (mem_only s) (deallocuvm_loop pgdir a oldsz s)"
proof (induction "unat oldsz - a" arbitrary: a s rule: less_induct)
  case less
  show ?case
  proof (cases "a < unat oldsz")
    case True
    then have IH: "keeps (mem_only t) (deallocuvm_loop pgdir b oldsz t)" if "a < b" for b and t :: "'a kmem_scheme"
      using that by (intro less.hyps) simp
    show ?thesis using True
      by (subst deallocuvm_loop.simps)
        (auto simp: Let_def walkpgdir_noalloc intro!: mem_only_mbind kfree_frame IH
          mem_only_after [OF mem_only_write(2) IH] split: option.splits)
  qed (simp add: deallocuvm_loop.simps)
qed

lemma deallocuvm_frame: "keeps (mem_only s) (deallocuvm pgdir oldsz newsz s)"
  by (auto simp: deallocuvm_def intro!: mem_only_mbind deallocuvm_loop_frame)

lemma freevm_loop_frame: "keeps (mem_only s) (freevm_loop is pgdir s)"
  by (induction "is" arbitrary: s) (auto intro!: mem_only_mbind kfree_frame)

lemma freevm_frame: "keeps (mem_only s) (freevm pgdir s)"
  by (auto simp: freevm_def intro!: mem_only_mbind deallocuvm_frame freevm_loop_frame kfree_frame)

lemma allocuvm_loop_frame:
  fixes s :: "'a kmem_scheme"
  shows "keeps (mem_only s) (allocuvm_loop pgdir a oldsz newsz s)"
proof (induction "unat newsz - a" arbitrary: a s rule: less_induct)
  case less
  show ?case
  proof (cases "a < unat newsz")
    case True
    then have IH: "keeps (mem_only t) (allocuvm_loop pgdir b oldsz newsz t)" if "a < b" for b and t :: "'a kmem_scheme"
      using that by (intro less.hyps) simp
    show ?thesis using True
      by (subst allocuvm_loop.simps)
        (auto simp: Let_def intro!: mem_only_mbind kalloc_frame deallocuvm_frame IH
          mem_only_after [OF mem_only_write(1) mappages_frame])
  qed (simp add: allocuvm_loop.simps)
qed

lemma allocuvm_frame: "keeps (mem_only s) (allocuvm pgdir oldsz newsz s)"
  by (auto simp: allocuvm_def intro!: allocuvm_loop_frame)

lemma setupkvm_loop_frame: "keeps (mem_only s) (setupkvm_loop ks pgdir s)"
  by (induction ks arbitrary: s) (auto intro!: mem_only_mbind mappages_frame)

lemma setupkvm_frame: "keeps (mem_only s) (setupkvm s)"
  by (auto simp: setupkvm_def Let_def intro!: mem_only_mbind kalloc_frame 
      mem_only_after [OF mem_only_write(1) setupkvm_loop_frame])

lemma copyuvm_loop_frame:
  fixes s :: "'a kmem_scheme"
  shows "keeps (mem_only s) (copyuvm_loop pgdir d i sz s)"
proof (induction "unat sz - i" arbitrary: i s rule: less_induct)
  case less
  show ?case
  proof (cases "i < unat sz")
    case True
    then have IH: "keeps (mem_only t) (copyuvm_loop pgdir d j sz t)" if "i < j" for j and t :: "'a kmem_scheme"
      using that by (intro less.hyps) simp
    show ?thesis using True
      by (subst copyuvm_loop.simps)
        (auto simp: Let_def walkpgdir_noalloc intro!: mem_only_mbind kalloc_frame freevm_frame IH
          mem_only_after [OF mem_only_write(1) mappages_frame] split: option.splits)
  qed (simp add: copyuvm_loop.simps)
qed

lemma copyuvm_frame: "keeps (mem_only s) (copyuvm pgdir sz s)"
  by (auto simp: copyuvm_def intro!: mem_only_mbind setupkvm_frame copyuvm_loop_frame)

lemma copyout_frame:
  fixes s :: "'a kmem_scheme"
  shows "keeps (mem_only s) (copyout pgdir va buf s)"
proof (induction "length buf" arbitrary: va buf s rule: less_induct)
  case less
  have u: "keeps (mem_only t) (uva2ka pgdir x t)" for x t
    by (auto simp: uva2ka_def walkpgdir_noalloc null_deref_def split: option.splits)
  have off: "unat (va - PGROUNDDOWN va) < 4096" by (simp add: PGROUNDDOWN_offset)
  show ?case
  proof (cases "buf = []")
    case False
    then have IH: "keeps (mem_only t) (copyout pgdir v (drop (min (4096 - unat (va - PGROUNDDOWN va)) (length buf)) buf) t)" for v and t :: "'a kmem_scheme"
      using off by (intro less.hyps) simp
    show ?thesis using False
      by (subst copyout.simps) (auto simp: Let_def intro!: mem_only_mbind u mem_only_after [OF mem_only_write(1) IH])
  qed (simp add: copyout.simps)
qed

lemmas vm_frames = kalloc_frame kfree_frame mappages_frame deallocuvm_frame freevm_frame allocuvm_frame
  setupkvm_frame copyuvm_frame copyout_frame

lemma mem_only_Ok: "keeps (mem_only s) m \<Longrightarrow> m = Ok x t \<Longrightarrow> mem_only s t"
  by simp


section \<open>Giving an address space back\<close>

definition user_frames :: "'a kmem_scheme \<Rightarrow> uint32 \<Rightarrow> nat \<Rightarrow> nat \<Rightarrow> uint32 set" where
  "user_frames s pgdir lo hi =
    frame_of s pgdir ` {x. lo \<le> unat x \<and> unat x < hi \<and> pte_of s pgdir x AND PTE_P \<noteq> 0}"

text \<open>
  A process' address space: below \<open>KERNBASE\<close> every mapped page is a page of its own that came
  from the allocator, and page tables are missing only above the last mapped page.
\<close>

definition as_ok :: "'a kmem_scheme \<Rightarrow> uint32 \<Rightarrow> bool" where
  "as_ok s pgdir \<longleftrightarrow> pt_ok s pgdir \<and> kmem_inv s \<and>
    (\<forall>x. unat x < 0x80000000 \<and> pte_of s pgdir x AND PTE_P \<noteq> 0 \<longrightarrow>
       \<not> bad_page (frame_of s pgdir x) s \<and> frame_of s pgdir x \<notin> free_pages s \<and>
       frame_of s pgdir x \<notin> pt_pages s pgdir \<and> PTE_ADDR (pte_of s pgdir x) \<noteq> 0) \<and>
    (\<forall>x y. unat x < 0x80000000 \<and> unat y < 0x80000000 \<and> pte_of s pgdir x AND PTE_P \<noteq> 0 \<and>
       pte_of s pgdir y AND PTE_P \<noteq> 0 \<and> frame_of s pgdir x = frame_of s pgdir y \<longrightarrow> same_page x y) \<and>
    (\<forall>x y. \<not> pde_present s pgdir (PDX x) \<and> x \<le> y \<and> unat y < 0x80000000 \<longrightarrow> pte_of s pgdir y AND PTE_P = 0)"

lemma kfree_ok:
  fixes s :: "'a kmem_scheme"
  assumes "kmem_inv s" "\<not> bad_page v s" "v \<notin> free_pages s"
  obtains t where "kfree v s = Ok () t" "kmem_inv t" "free_pages t = insert v (free_pages s)"
    "kend t = kend s" "\<forall>p. p \<noteq> v \<longrightarrow> mem t p = mem s p"
proof -
  obtain t where t: "kfree v s = Ok () t" "free_pages t = insert v (free_pages s)" "kmem_inv t"
    using kp.release_ok [OF assms] by blast
  moreover have "kend t = kend s" "\<forall>p. p \<noteq> v \<longrightarrow> mem t p = mem s p"
    using t(1) assms(2) by (auto simp: kfree_def Let_def)
  ultimately show thesis using that by blast
qed

text \<open>One page is unmapped and freed.\<close>

lemma dealloc_page:
  fixes s :: "'a kmem_scheme"
  assumes ok: "as_ok s pgdir" and x: "unat x < 0x80000000" "pte_of s pgdir x AND PTE_P \<noteq> 0"
  obtains t where "kfree (frame_of s pgdir x) s = Ok () t"
    "as_ok (write_pte (pgtab_of s pgdir (PDX x), PTX x) 0 t) pgdir"
    "free_pages (write_pte (pgtab_of s pgdir (PDX x), PTX x) 0 t) = insert (frame_of s pgdir x) (free_pages s)"
    "pt_pages (write_pte (pgtab_of s pgdir (PDX x), PTX x) 0 t) pgdir = pt_pages s pgdir"
    "\<forall>y. pte_of (write_pte (pgtab_of s pgdir (PDX x), PTX x) 0 t) pgdir y = (if same_page x y then 0 else pte_of s pgdir y)"
    "\<forall>i. pde_present (write_pte (pgtab_of s pgdir (PDX x), PTX x) 0 t) pgdir i = pde_present s pgdir i"
    "\<forall>i. pgtab_of (write_pte (pgtab_of s pgdir (PDX x), PTX x) 0 t) pgdir i = pgtab_of s pgdir i"
    "kend (write_pte (pgtab_of s pgdir (PDX x), PTX x) 0 t) = kend s"
    "\<forall>q. q \<notin> insert (frame_of s pgdir x) (pt_pages s pgdir) \<longrightarrow> mem (write_pte (pgtab_of s pgdir (PDX x), PTX x) 0 t) q = mem s q"
proof -
  let ?f = "frame_of s pgdir x" and ?r = "(pgtab_of s pgdir (PDX x), PTX x)"
  have f: "\<not> bad_page ?f s" "?f \<notin> free_pages s" "?f \<notin> pt_pages s pgdir" "pt_ok s pgdir" "kmem_inv s"
    using ok x by (auto simp: as_ok_def)
  obtain t where t: "kfree ?f s = Ok () t" "kmem_inv t" "free_pages t = insert ?f (free_pages s)"
    "kend t = kend s" "\<forall>p. p \<noteq> ?f \<longrightarrow> mem t p = mem s p"
    using kfree_ok [OF f(5,1,2)] .
  have mt: "\<forall>p\<in>pt_pages s pgdir. mem t p = mem s p" using t(5) f(3) by metis
  note c = pte_of_cong [OF mt]
  have dir: "read_pte t (pgdir, i) = read_pte s (pgdir, i)" for i
    using mt by (simp add: read_pte_def pt_pages_def)
  then have abs: "pde_present t pgdir = pde_present s pgdir" "pgtab_of t pgdir = pgtab_of s pgdir"
    by (auto simp: pde_present_def pgtab_of_def)
  have okt: "pt_ok t pgdir" using f(3,4) mt t(3) unfolding pt_ok_def c(2) abs by auto
  have pr: "pde_present t pgdir (PDX x)" using x(2) by (auto simp: pte_of_def abs split: if_splits)
  define u where "u = write_pte ?r 0 t"
  note w = pt_write [OF okt t(2) pr, of 0, unfolded abs, folded u_def]
  have pte: "pte_of u pgdir y = (if same_page x y then 0 else pte_of s pgdir y)" for y
    using w(2) c(1) by simp
  have u: "pt_ok u pgdir" "kmem_inv u" "kend u = kend s" "free_pages u = insert ?f (free_pages s)"
    using w(1,3) t(3,4) by (auto simp: pt_step_def)
  have pgne: "pgtab_of s pgdir (PDX x) \<noteq> pgdir"
    using f(4) pr PDX_less by (simp add: pt_ok_def abs)
  have "read_pte u (pgdir, i) = read_pte s (pgdir, i)" for i
    using pgne dir by (simp add: u_def read_write_pte_other)
  then have absu: "pde_present u pgdir = pde_present s pgdir" "pgtab_of u pgdir = pgtab_of s pgdir"
    by (auto simp: pde_present_def pgtab_of_def)
  then have pages: "pt_pages u pgdir = pt_pages s pgdir" by (simp add: pt_pages_def)
  have fr: "frame_of u pgdir y = frame_of s pgdir y" if "\<not> same_page x y" for y
    using that by (simp add: frame_of_def pte)
  have pu: "pte_of u pgdir y AND PTE_P \<noteq> 0 \<longleftrightarrow> \<not> same_page x y \<and> pte_of s pgdir y AND PTE_P \<noteq> 0" for y
    by (simp add: pte)
  have bad: "bad_page q u = bad_page q s" for q using u(3) by (simp add: bad_page_def)
  have "as_ok u pgdir" unfolding as_ok_def
  proof (intro conjI u(1,2) allI impI; elim conjE)
    fix y assume y: "unat y < 0x80000000" "pte_of u pgdir y AND PTE_P \<noteq> 0"
    then have n: "\<not> same_page x y" "pte_of s pgdir y AND PTE_P \<noteq> 0" by (simp_all add: pu)
    then have "frame_of s pgdir y \<noteq> ?f" using ok x y(1) unfolding as_ok_def by metis
    then show "\<not> bad_page (frame_of u pgdir y) u" "frame_of u pgdir y \<notin> free_pages u"
      "frame_of u pgdir y \<notin> pt_pages u pgdir" "PTE_ADDR (pte_of u pgdir y) \<noteq> 0"
      using ok n y(1) by (auto simp: as_ok_def bad fr u(4) pages pte)
  next
    fix y z assume "unat y < 0x80000000" "unat z < 0x80000000" "pte_of u pgdir y AND PTE_P \<noteq> 0"
      "pte_of u pgdir z AND PTE_P \<noteq> 0" "frame_of u pgdir y = frame_of u pgdir z"
    then show "same_page y z" using ok pu fr unfolding as_ok_def by metis
  next
    fix y z assume "\<not> pde_present u pgdir (PDX y)" "y \<le> z" "unat z < 0x80000000"
    then show "pte_of u pgdir z AND PTE_P = 0" using ok pu [of z] unfolding as_ok_def absu by metis
  qed
  moreover have "mem u q = mem s q" if "q \<notin> insert ?f (pt_pages s pgdir)" for q
    using that pr t(5) PDX_less by (auto simp: u_def write_pte_def pt_pages_def abs)
  ultimately show thesis
    using that [OF t(1)] u(3,4) pages pte absu by (simp add: u_def)
qed


definition shrunk :: "uint32 \<Rightarrow> nat \<Rightarrow> nat \<Rightarrow> 'a kmem_scheme \<Rightarrow> 'a kmem_scheme \<Rightarrow> bool" where
  "shrunk pgdir lo hi s t \<longleftrightarrow> as_ok t pgdir \<and> pt_pages t pgdir = pt_pages s pgdir \<and>
    (\<forall>i. pde_present t pgdir i = pde_present s pgdir i) \<and> (\<forall>i. pgtab_of t pgdir i = pgtab_of s pgdir i) \<and>
    kend t = kend s \<and> free_pages t = free_pages s \<union> user_frames s pgdir lo hi \<and>
    (\<forall>y. lo \<le> unat y \<and> unat y < hi \<longrightarrow> pte_of t pgdir y AND PTE_P = 0) \<and>
    (\<forall>y. \<not> (lo \<le> unat y \<and> unat y < hi) \<longrightarrow> pte_of t pgdir y = pte_of s pgdir y) \<and>
    (\<forall>q. q \<notin> free_pages t \<union> pt_pages s pgdir \<longrightarrow> mem t q = mem s q)"

lemma shrunk_none:
  assumes "as_ok s pgdir" "\<forall>y. lo \<le> unat y \<and> unat y < hi \<longrightarrow> pte_of s pgdir y AND PTE_P = 0"
  shows "shrunk pgdir lo hi s s"
proof -
  have "user_frames s pgdir lo hi = {}" using assms(2) by (auto simp: user_frames_def)
  then show ?thesis using assms by (simp add: shrunk_def)
qed

lemma shrunk_trans:
  assumes st: "shrunk pgdir lo mid s t" and tu: "shrunk pgdir mid hi t u" and "lo \<le> mid" "mid \<le> hi"
  shows "shrunk pgdir lo hi s u"
proof -
  have same: "pte_of t pgdir y = pte_of s pgdir y" if "mid \<le> unat y" for y
    using st that by (auto simp: shrunk_def)
  then have "user_frames t pgdir mid hi = user_frames s pgdir mid hi"
    unfolding user_frames_def by (intro image_cong) (auto simp: frame_of_def)
  moreover have "lo \<le> unat y \<and> unat y < hi \<longleftrightarrow> lo \<le> unat y \<and> unat y < mid \<or> mid \<le> unat y \<and> unat y < hi"
    for y :: uint32 using assms(3,4) by linarith
  then have "user_frames s pgdir lo hi = user_frames s pgdir lo mid \<union> user_frames s pgdir mid hi"
    unfolding user_frames_def by blast
  ultimately have "free_pages u = free_pages s \<union> user_frames s pgdir lo hi"
    using st tu by (auto simp: shrunk_def)
  moreover have "pte_of u pgdir y AND PTE_P = 0" if "lo \<le> unat y" "unat y < hi" for y
    using st tu that unfolding shrunk_def by (metis not_le)
  moreover have "pte_of u pgdir y = pte_of s pgdir y" if "\<not> (lo \<le> unat y \<and> unat y < hi)" for y
    using st tu that assms(3,4) unfolding shrunk_def by (metis le_trans less_le_trans)
  moreover have "mem u q = mem s q" if "q \<notin> free_pages u \<union> pt_pages s pgdir" for q
    using st tu that unfolding shrunk_def by simp
  ultimately show ?thesis using st tu unfolding shrunk_def by simp
qed

definition pgceil :: "nat \<Rightarrow> nat" where
  "pgceil n = (n + 4095) div 4096 * 4096"

lemma pgceil_le: "n \<le> pgceil n"
  unfolding pgceil_def by (induction n rule: less_induct) simp

lemma pgceil_least: "4096 dvd a \<Longrightarrow> n \<le> a \<Longrightarrow> pgceil n \<le> a"
  unfolding pgceil_def by (auto elim!: dvdE)

lemma pgceil_above:
  assumes "4096 dvd a" "a < n"
  shows "a + 4096 \<le> pgceil n"
proof -
  obtain k where k: "a = 4096 * k" using assms(1) by blast
  have "Suc k \<le> (n + 4095) div 4096" using assms(2) k by (simp add: less_eq_div_iff_mult_less_eq)
  then have "Suc k * 4096 \<le> pgceil n" unfolding pgceil_def by (rule mult_le_mono1)
  then show ?thesis by (simp add: k)
qed

lemma page_range:
  assumes "4096 dvd a" "a < 4294967296"
  shows "same_page (of_nat a) y \<longleftrightarrow> a \<le> unat y \<and> unat y < a + 4096"
proof -
  obtain j where j: "a = 4096 * j" using assms(1) by blast
  have "unat (of_nat a :: uint32) = a" using assms(2) by (intro unat_of_nat_32) simp
  then have "unat (of_nat a :: uint32) div 4096 = j" by (simp add: j)
  then show ?thesis unfolding same_page_unat by (simp add: div_page_iff j)
qed

lemma deallocuvm_loop_nothing:
  fixes s :: "'a kmem_scheme"
  assumes "\<forall>y. a \<le> unat y \<and> unat y < 0x80000000 \<longrightarrow> pte_of s pgdir y AND PTE_P = 0" "unat oldsz \<le> 0x80000000"
  shows "deallocuvm_loop pgdir a oldsz s = Ok () s"
  using assms(1)
proof (induction "unat oldsz - a" arbitrary: a rule: less_induct)
  case less
  show ?case
  proof (cases "a < unat oldsz")
    case True
    have "unat (of_nat a :: uint32) = a" using True assms(2) by (intro unat_of_nat_32) simp
    then have "pte_of s pgdir (of_nat a) AND PTE_P = 0" using less.prems True assms(2) by simp
    moreover have "deallocuvm_loop pgdir b oldsz s = Ok () s" if "a < b" for b
      using that less True by simp
    ultimately show ?thesis using True
      by (subst deallocuvm_loop.simps) (auto simp: walkpgdir_noalloc pte_of_def split: if_splits)
  qed (simp add: deallocuvm_loop.simps)
qed

lemma deallocuvm_loop_correct:
  fixes s :: "'a kmem_scheme"
  assumes "as_ok s pgdir" "4096 dvd a" "unat oldsz \<le> 0x80000000"
  shows "\<exists>t. deallocuvm_loop pgdir a oldsz s = Ok () t \<and> shrunk pgdir a (max a (pgceil (unat oldsz))) s t"
  using assms(1,2)
proof (induction "unat oldsz - a" arbitrary: a s rule: less_induct)
  case less
  show ?case
  proof (cases "a < unat oldsz")
    case False
    then have "pgceil (unat oldsz) \<le> a" using less.prems(2) by (intro pgceil_least) simp_all
    then show ?thesis using False less.prems(1) by (auto simp: deallocuvm_loop.simps max_def intro!: shrunk_none)
  next
    case True
    let ?x = "of_nat a :: uint32" and ?H = "pgceil (unat oldsz)"
    have ua: "unat ?x = a" using True assms(3) by (intro unat_of_nat_32) simp
    have lt: "unat ?x < 0x80000000" using True assms(3) ua by simp
    have hi: "a + 4096 \<le> ?H" using pgceil_above less.prems(2) True by simp
    have hk: "?H \<le> 0x80000000" using assms(3) by (intro pgceil_least) simp_all
    have rng: "same_page ?x y \<longleftrightarrow> a \<le> unat y \<and> unat y < a + 4096" for y
      using page_range [OF less.prems(2)] True assms(3) by simp
    have IH: "\<exists>u. deallocuvm_loop pgdir b oldsz t = Ok () u \<and> shrunk pgdir b (max b ?H) t u"
      if "a < b" "as_ok t pgdir" "4096 dvd b" for b and t :: "'a kmem_scheme"
      using less.hyps [of b t] that True by simp
    have run: "deallocuvm_loop pgdir a oldsz s =
      (if \<not> pde_present s pgdir (PDX ?x) then deallocuvm_loop pgdir (4194304 + a) oldsz s
       else if pte_of s pgdir ?x AND PTE_P \<noteq> 0 then
         (if PTE_ADDR (pte_of s pgdir ?x) = 0 then Panic ''kfree''
          else mbind (kfree (frame_of s pgdir ?x) s) (\<lambda>_ t.
            deallocuvm_loop pgdir (a + 4096) oldsz (write_pte (pgtab_of s pgdir (PDX ?x), PTX ?x) 0 t)))
       else deallocuvm_loop pgdir (a + 4096) oldsz s)"
      using True by (subst deallocuvm_loop.simps) (simp add: walkpgdir_noalloc Let_def pte_of_def frame_of_def)
    show ?thesis
    proof (cases "pde_present s pgdir (PDX ?x)")
      case False
      have none: "pte_of s pgdir y AND PTE_P = 0" if "a \<le> unat y" "unat y < 0x80000000" for y
      proof -
        have "?x \<le> y" using that(1) ua by (simp add: word_le_nat_alt)
        then show ?thesis using less.prems(1) False that(2) unfolding as_ok_def by blast
      qed
      have "deallocuvm_loop pgdir (4194304 + a) oldsz s = Ok () s"
        using none assms(3) by (intro deallocuvm_loop_nothing) simp_all
      moreover have "shrunk pgdir a (max a ?H) s s" using less.prems(1) none hk by (intro shrunk_none) auto
      ultimately show ?thesis using run False by simp
    next
      case pd: True
      show ?thesis
      proof (cases "pte_of s pgdir ?x AND PTE_P \<noteq> 0")
        case True
        have nz: "PTE_ADDR (pte_of s pgdir ?x) \<noteq> 0" using less.prems(1) lt True by (simp add: as_ok_def)
        have uf: "user_frames s pgdir a (a + 4096) = {frame_of s pgdir ?x}"
          using True rng pte_of_same_page [of ?x _ s pgdir] frame_of_same_page [of ?x _ s pgdir] ua
          by (auto simp: user_frames_def intro!: image_eqI [of _ _ ?x])
        have "\<exists>t. kfree (frame_of s pgdir ?x) s = Ok () t \<and>
          shrunk pgdir a (a + 4096) s (write_pte (pgtab_of s pgdir (PDX ?x), PTX ?x) 0 t)"
          by (rule dealloc_page [OF less.prems(1) lt True]) (auto simp: shrunk_def uf rng)
        then obtain t where d: "kfree (frame_of s pgdir ?x) s = Ok () t"
          "shrunk pgdir a (a + 4096) s (write_pte (pgtab_of s pgdir (PDX ?x), PTX ?x) 0 t)" by blast
        define w where "w = write_pte (pgtab_of s pgdir (PDX ?x), PTX ?x) 0 t"
        have "as_ok w pgdir" using d(2) by (simp add: shrunk_def w_def)
        then obtain u where "deallocuvm_loop pgdir (a + 4096) oldsz w = Ok () u"
          "shrunk pgdir (a + 4096) (max (a + 4096) ?H) w u"
          using IH [of "a + 4096" w] less.prems(2) by auto
        then show ?thesis using run pd True nz d(1) hi shrunk_trans [OF d(2) [folded w_def]]
          by (simp add: max_def w_def)
      next
        case False
        have "shrunk pgdir a (a + 4096) s s"
          using less.prems(1) False pte_of_same_page [of ?x _ s pgdir] rng by (intro shrunk_none) auto
        moreover obtain u where "deallocuvm_loop pgdir (a + 4096) oldsz s = Ok () u"
          "shrunk pgdir (a + 4096) (max (a + 4096) ?H) s u"
          using IH [of "a + 4096" s] less.prems by auto
        ultimately show ?thesis using run pd False hi shrunk_trans by (fastforce simp add: max_def)
      qed
    qed
  qed
qed


lemma deallocuvm_correct:
  assumes "as_ok s pgdir" "newsz < oldsz" "unat oldsz \<le> 0x80000000"
  shows "\<exists>t. deallocuvm pgdir oldsz newsz s = Ok newsz t \<and>
    shrunk pgdir (unat (PGROUNDUP newsz)) (max (unat (PGROUNDUP newsz)) (pgceil (unat oldsz))) s t"
proof -
  have "unat newsz < unat oldsz" using assms(2) by (simp add: word_less_nat_alt)
  then have "unat newsz \<le> 2 ^ 32 - 4096" using assms(3) by simp
  then have "4096 dvd unat (PGROUNDUP newsz)" using PGROUNDUP_bounds(3) by (simp add: mod_eq_0_iff_dvd)
  then obtain t where "deallocuvm_loop pgdir (unat (PGROUNDUP newsz)) oldsz s = Ok () t"
    "shrunk pgdir (unat (PGROUNDUP newsz)) (max (unat (PGROUNDUP newsz)) (pgceil (unat oldsz))) s t"
    using deallocuvm_loop_correct [OF assms(1) _ assms(3)] by blast
  moreover have "\<not> oldsz \<le> newsz" using assms(2) by simp
  ultimately show ?thesis by (simp add: deallocuvm_def)
qed

lemma freevm_loop_correct:
  fixes s :: "'a kmem_scheme"
  assumes "kmem_inv s" "distinct is"
    and "\<forall>i\<in>set is. pde_present s pgdir i \<longrightarrow> \<not> bad_page (pgtab_of s pgdir i) s \<and>
      pgtab_of s pgdir i \<notin> free_pages s \<and> pgtab_of s pgdir i \<noteq> pgdir"
    and "\<forall>i\<in>set is. \<forall>j\<in>set is. pde_present s pgdir i \<and> pde_present s pgdir j \<and>
      pgtab_of s pgdir i = pgtab_of s pgdir j \<longrightarrow> i = j"
  shows "\<exists>t. freevm_loop is pgdir s = Ok () t \<and> kmem_inv t \<and> kend t = kend s \<and>
    free_pages t = free_pages s \<union> pgtab_of s pgdir ` {i \<in> set is. pde_present s pgdir i} \<and>
    (\<forall>q. q \<notin> free_pages t \<longrightarrow> mem t q = mem s q)"
  using assms
proof (induction "is" arbitrary: s)
  case Nil
  then show ?case by simp
next
  case (Cons i "is")
  show ?case
  proof (cases "pde_present s pgdir i")
    case False
    then have "\<exists>t. freevm_loop is pgdir s = Ok () t \<and> kmem_inv t \<and> kend t = kend s \<and>
      free_pages t = free_pages s \<union> pgtab_of s pgdir ` {i \<in> set is. pde_present s pgdir i} \<and>
      (\<forall>q. q \<notin> free_pages t \<longrightarrow> mem t q = mem s q)"
      using Cons.prems by (intro Cons.IH) auto
    moreover have "{j \<in> set (i # is). pde_present s pgdir j} = {j \<in> set is. pde_present s pgdir j}"
      using False by auto
    ultimately show ?thesis using False by (simp add: pde_present_def)
  next
    case True
    let ?p = "pgtab_of s pgdir i"
    have p: "\<not> bad_page ?p s" "?p \<notin> free_pages s" "?p \<noteq> pgdir" using Cons.prems(3) True by auto
    obtain t where t: "kfree ?p s = Ok () t" "kmem_inv t" "free_pages t = insert ?p (free_pages s)"
      "kend t = kend s" "\<forall>q. q \<noteq> ?p \<longrightarrow> mem t q = mem s q"
      using kfree_ok [OF Cons.prems(1) p(1,2)] .
    have "read_pte t (pgdir, j) = read_pte s (pgdir, j)" for j using t(5) p(3) by (auto simp: read_pte_def)
    then have abs: "pde_present t pgdir = pde_present s pgdir" "pgtab_of t pgdir = pgtab_of s pgdir"
      by (auto simp: pde_present_def pgtab_of_def)
    have bad: "bad_page q t = bad_page q s" for q using t(4) by (simp add: bad_page_def)
    have ne: "pgtab_of s pgdir j \<noteq> ?p" if "j \<in> set is" "pde_present s pgdir j" for j
      using Cons.prems(2,4) True that by auto
    have "\<exists>u. freevm_loop is pgdir t = Ok () u \<and> kmem_inv u \<and> kend u = kend t \<and>
      free_pages u = free_pages t \<union> pgtab_of t pgdir ` {i \<in> set is. pde_present t pgdir i} \<and>
      (\<forall>q. q \<notin> free_pages u \<longrightarrow> mem u q = mem t q)"
      using Cons.prems ne t(3) by (intro Cons.IH [OF t(2)]) (auto simp: abs bad)
    moreover have "{j \<in> set (i # is). pde_present s pgdir j} = insert i {j \<in> set is. pde_present s pgdir j}"
      using True by auto
    ultimately show ?thesis using True t(1,3-5) by (auto simp: pde_present_def pgtab_of_def abs)
  qed
qed

lemma freevm_correct:
  assumes "as_ok s pgdir" and "pgdir \<noteq> 0" and "\<forall>p\<in>pt_pages s pgdir. \<not> bad_page p s"
  shows "\<exists>t. freevm pgdir s = Ok () t \<and> kmem_inv t \<and>
    free_pages t = free_pages s \<union> user_frames s pgdir 0 0x80000000 \<union> pt_pages s pgdir \<and>
    (\<forall>q. q \<notin> free_pages t \<longrightarrow> mem t q = mem s q)"
proof -
  have k: "unat KERNBASE = 0x80000000" "pgceil 0x80000000 = 0x80000000" "PGROUNDUP 0 = 0" "(0::uint32) < KERNBASE"
    by (simp_all add: pgceil_def PGROUNDUP_def)
  obtain t where t: "deallocuvm pgdir KERNBASE 0 s = Ok 0 t" "shrunk pgdir 0 0x80000000 s t"
    using deallocuvm_correct [OF assms(1) k(4)] k by auto
  have tok: "as_ok t pgdir" "pt_ok t pgdir" "kmem_inv t" using t(2) by (auto simp: shrunk_def as_ok_def)
  have pg: "pt_pages t pgdir = pt_pages s pgdir" "kend t = kend s"
    "free_pages t = free_pages s \<union> user_frames s pgdir 0 0x80000000" using t(2) by (auto simp: shrunk_def)
  have bad: "\<not> bad_page p t" if "p \<in> pt_pages t pgdir" for p
    using assms(3) that pg by (simp add: bad_page_def)
  have tab: "pgtab_of t pgdir i \<in> pt_pages t pgdir" if "i < 1024" "pde_present t pgdir i" for i
    using that by (auto simp: pt_pages_def)
  have "\<exists>u. freevm_loop [0..<1024] pgdir t = Ok () u \<and> kmem_inv u \<and> kend u = kend t \<and>
    free_pages u = free_pages t \<union> pgtab_of t pgdir ` {i \<in> set [0..<1024]. pde_present t pgdir i} \<and>
    (\<forall>q. q \<notin> free_pages u \<longrightarrow> mem u q = mem t q)"
  proof (rule freevm_loop_correct [OF tok(3)])
    show "\<forall>i\<in>set [0..<1024]. pde_present t pgdir i \<longrightarrow> \<not> bad_page (pgtab_of t pgdir i) t \<and>
      pgtab_of t pgdir i \<notin> free_pages t \<and> pgtab_of t pgdir i \<noteq> pgdir"
      using bad tab pt_ok_page [OF tok(2)] tok(2) by (auto simp: pt_ok_def)
    show "\<forall>i\<in>set [0..<1024]. \<forall>j\<in>set [0..<1024]. pde_present t pgdir i \<and> pde_present t pgdir j \<and>
      pgtab_of t pgdir i = pgtab_of t pgdir j \<longrightarrow> i = j"
      using pt_ok_inj [OF tok(2)] by auto
  qed simp
  then obtain u where u: "freevm_loop [0..<1024] pgdir t = Ok () u" "kmem_inv u" "kend u = kend t"
    "free_pages u = free_pages t \<union> pgtab_of t pgdir ` {i. i < 1024 \<and> pde_present t pgdir i}"
    "\<forall>q. q \<notin> free_pages u \<longrightarrow> mem u q = mem t q" by auto
  have d: "pgdir \<in> pt_pages t pgdir" by (simp add: pt_pages_def)
  have nf: "pgdir \<notin> free_pages u" using pt_ok_page [OF tok(2) d] tok(2) u(4) by (auto simp: pt_ok_def)
  have nb: "\<not> bad_page pgdir u" using bad [OF d] u(3) by (simp add: bad_page_def)
  obtain v where v: "kfree pgdir u = Ok () v" "kmem_inv v" "free_pages v = insert pgdir (free_pages u)"
    "kend v = kend u" "\<forall>q. q \<noteq> pgdir \<longrightarrow> mem v q = mem u q" using kfree_ok [OF u(2) nb nf] .
  have "insert pgdir (pgtab_of t pgdir ` {i. i < 1024 \<and> pde_present t pgdir i}) = pt_pages t pgdir"
    by (auto simp: pt_pages_def)
  then have "free_pages v = free_pages s \<union> user_frames s pgdir 0 0x80000000 \<union> pt_pages s pgdir"
    using v(3) u(4) pg by auto
  moreover have "mem v q = mem s q" if q: "q \<notin> free_pages v" for q
  proof -
    have "q \<notin> free_pages u" "q \<noteq> pgdir" "q \<notin> free_pages t" "q \<notin> pt_pages s pgdir" using q v(3) u(4) pg calculation by auto
    then show ?thesis using v(5) u(5) t(2) by (simp add: shrunk_def)
  qed
  ultimately show ?thesis using assms(2) t(1) u(1) v(1,2) by (simp add: freevm_def)
qed

text \<open>C10. \<open>freevm\<close> of a process' address space does not panic and gives back everything the
  address space consists of, and nothing else: the user pages, the page tables and the page directory
  become free.\<close>

theorem freevm_frees_all:
  assumes "as_ok s pgdir" and "pgdir \<noteq> 0" and "\<forall>p\<in>pt_pages s pgdir. \<not> bad_page p s"
  shows "\<exists>t. freevm pgdir s = Ok () t \<and> kmem_inv t \<and>
    free_pages t = free_pages s \<union> user_frames s pgdir 0 0x80000000 \<union> pt_pages s pgdir"
  using freevm_correct [OF assms] by blast


text \<open>Address spaces of one user page.\<close>

lemma one_page_view:
  assumes d: "mem s D = put_u32 (replicate 4096 0) 0 W" and t: "mem s T = put_u32 (replicate 4096 0) 0 V"
    and w: "W AND PTE_P \<noteq> 0" "p2v (PTE_ADDR W) = T" "V AND PTE_P \<noteq> 0"
  shows "pt_pages s D = {D, T}" "i < 1024 \<Longrightarrow> pde_present s D i \<longleftrightarrow> i = 0" "pgtab_of s D 0 = T"
    "pte_of s D x = (if unat x < 4096 then V else 0)" "unat x < 4096 \<Longrightarrow> PDX x = 0"
proof -
  have dir: "read_pte s (D, i) = (if i = 0 then W else 0)" "read_pte s (T, i) = (if i = 0 then V else 0)" if "i < 1024" for i
    using that by (simp_all add: read_pte_def d t get_u32_first)
  have z: "PDX x = 0 \<and> PTX x = 0 \<longleftrightarrow> unat x < 4096"
    using same_page_unat [of 0 x] by (auto simp: same_page_def PDX_def PTX_def)
  show pd: "i < 1024 \<Longrightarrow> pde_present s D i \<longleftrightarrow> i = 0" for i by (simp add: pde_present_def dir w)
  show tab: "pgtab_of s D 0 = T" by (simp add: pgtab_of_def dir w)
  show "pt_pages s D = {D, T}" using pd tab by (auto simp: pt_pages_def)
  show "pte_of s D x = (if unat x < 4096 then V else 0)"
    using pd [OF PDX_less, of x] tab PTX_less [of x] z by (auto simp: pte_of_def dir)
  show "unat x < 4096 \<Longrightarrow> PDX x = 0" using z by simp
qed

lemma one_page_as_ok:
  assumes m: "mem s D = put_u32 (replicate 4096 0) 0 W" "mem s T = put_u32 (replicate 4096 0) 0 V"
    "W AND PTE_P \<noteq> 0" "p2v (PTE_ADDR W) = T" "V AND PTE_P \<noteq> 0"
    and f: "kmem_inv s" "D \<notin> free_pages s" "T \<notin> free_pages s" "p2v (PTE_ADDR V) \<notin> free_pages s" "D \<noteq> T"
    "p2v (PTE_ADDR V) \<noteq> D" "p2v (PTE_ADDR V) \<noteq> T" "\<not> bad_page (p2v (PTE_ADDR V)) s" "PTE_ADDR V \<noteq> 0"
  shows "as_ok s D"
proof -
  note v = one_page_view [OF m]
  have fr: "frame_of s D x = p2v (PTE_ADDR V)" if "unat x < 4096" for x using that by (simp add: frame_of_def v(4))
  have "length (mem s D) = 4096" "length (mem s T) = 4096" using m by simp_all
  then have "pt_ok s D" using v(2,3) f by (auto simp: pt_ok_def v(1))
  moreover have "\<not> unat y < 4096" if "\<not> pde_present s D (PDX x)" "x \<le> y" for x y
  proof -
    have "\<not> unat x < 4096" using that(1) v(2) [OF PDX_less] v(5) [of x] by auto
    then show ?thesis using that(2) by (auto simp: word_le_nat_alt)
  qed
  moreover have "same_page x y" if "unat x < 4096" "unat y < 4096" for x y using that by (simp add: same_page_unat)
  ultimately show ?thesis unfolding as_ok_def v(1,4) using f fr m(5) by auto
qed

lemma one_page_user:
  assumes "\<forall>x. pte_of s D x = (if unat x < 4096 then V else 0)" "V AND PTE_P \<noteq> 0"
  shows "user_frames s D 0 0x80000000 = {p2v (PTE_ADDR V)}"
proof -
  have "user_frames s D 0 0x80000000 = (\<lambda>_. p2v (PTE_ADDR V)) ` {x :: uint32. unat x < 4096}"
    unfolding user_frames_def using assms by (intro image_cong) (auto simp: frame_of_def split: if_splits)
  also have "\<dots> = {p2v (PTE_ADDR V)}" by (rule image_constant [of 0]) simp
  finally show ?thesis .
qed

lemma vm_user_mem:
  "mem vm_user 0x80400000 = put_u32 (replicate 4096 0) 0 0x401007" "mem vm_user 0x80401000 = put_u32 (replicate 4096 0) 0 0x402007"
  "free_pages vm_user = {}" "kmem_inv vm_user" "kend vm_user = 0x80400000"
  using free_pages_list [of vm_user "[]"]
  by (auto simp: kmem_inv_def kmem_list_def vm_user_def intro!: exI [of _ "[]"])

lemmas vm_user_view = one_page_view [OF vm_user_mem(1,2), simplified PTE_ADDR_def p2v_def, simplified]

lemma vm_user_as_ok: "as_ok vm_user 0x80400000"
  by (rule one_page_as_ok [OF vm_user_mem(1,2)])
    (simp_all add: vm_user_mem bad_page_def v2p_def p2v_def PTE_ADDR_def)

lemma freevm_frees_all_witness:
  "\<exists>t. freevm 0x80400000 vm_user = Ok () t \<and> free_pages t = {0x80400000, 0x80401000, 0x80402000}"
proof -
  have uf: "user_frames vm_user 0x80400000 0 0x80000000 = {0x80402000}"
    using one_page_user [of vm_user "0x80400000" "0x402007"] vm_user_view(4) by (simp add: PTE_ADDR_def p2v_def)
  have "\<forall>p\<in>pt_pages vm_user 0x80400000. \<not> bad_page p vm_user"
    unfolding vm_user_view(1) by (simp add: bad_page_def vm_user_def v2p_def)
  from freevm_frees_all [OF vm_user_as_ok _ this] obtain t where "freevm 0x80400000 vm_user = Ok () t"
    "free_pages t = {} \<union> {0x80402000} \<union> {0x80400000, 0x80401000}"
    unfolding uf vm_user_mem(3) vm_user_view(1) by auto
  moreover have "{} \<union> {0x80402000} \<union> {0x80400000, 0x80401000} = {0x80400000, 0x80401000, 0x80402000 :: uint32}"
    by blast
  ultimately show ?thesis by (intro exI [of _ t] conjI) simp_all
qed

end
