(* ===== verification/CString.thy ===== *)
theory CString
  imports Bytes
begin

text \<open>
  The kernel's \<open>string.c\<close> and the user library's \<open>ulib.c\<close>.

  The \<open>mem*\<close> routines work on a byte-addressed memory \<open>uint32 \<Rightarrow> uchar\<close>, so that
  overlapping ranges and address wrap-around are visible. The \<open>str*\<close> routines take
  arrays: the list of bytes from the pointer on. \<open>rd\<close> reads the byte under a pointer;
  a caller always passes an array that holds a NUL or has at least the \<open>n\<close> bytes the
  routine may look at, so the byte past the end, read as 0, is never consulted.
\<close>

type_synonym memory = "uint32 \<Rightarrow> uchar"


section \<open>memset\<close>

fun stosb :: "uint32 \<Rightarrow> uchar \<Rightarrow> nat \<Rightarrow> memory \<Rightarrow> memory" where
  "stosb addr d 0 m = m"
| "stosb addr d (Suc cnt) m = stosb (addr + 1) d cnt (m(addr := d))"

fun stosl :: "uint32 \<Rightarrow> uint32 \<Rightarrow> nat \<Rightarrow> memory \<Rightarrow> memory" where
  "stosl addr d 0 m = m"
| "stosl addr d (Suc cnt) m =
     stosl (addr + 4) d cnt
       (m(addr := ucast d, addr + 1 := ucast (drop_bit 8 d),
          addr + 2 := ucast (drop_bit 16 d), addr + 3 := ucast (drop_bit 24 d)))"

definition memset :: "uint32 \<Rightarrow> uint32 \<Rightarrow> uint32 \<Rightarrow> memory \<Rightarrow> memory" where
  "memset dst c n m =
     (if dst mod 4 = 0 \<and> n mod 4 = 0 then
        (let c = c AND 0xFF in
         stosl dst (push_bit 24 c OR push_bit 16 c OR push_bit 8 c OR c) (unat (n div 4)) m)
      else stosb dst (ucast c) (unat n) m)"


section \<open>memcmp, memmove, memcpy\<close>

fun memcmp_loop :: "memory \<Rightarrow> uint32 \<Rightarrow> uint32 \<Rightarrow> nat \<Rightarrow> int" where
  "memcmp_loop m s1 s2 0 = 0"
| "memcmp_loop m s1 s2 (Suc n) =
     (if m s1 \<noteq> m s2 then uint (m s1) - uint (m s2)
      else memcmp_loop m (s1 + 1) (s2 + 1) n)"

definition memcmp :: "memory \<Rightarrow> uint32 \<Rightarrow> uint32 \<Rightarrow> uint32 \<Rightarrow> int" where
  "memcmp m v1 v2 n = memcmp_loop m v1 v2 (unat n)"

fun copy_forward :: "uint32 \<Rightarrow> uint32 \<Rightarrow> nat \<Rightarrow> memory \<Rightarrow> memory" where
  "copy_forward d s 0 m = m"
| "copy_forward d s (Suc n) m = copy_forward (d + 1) (s + 1) n (m(d := m s))"

fun copy_backward :: "uint32 \<Rightarrow> uint32 \<Rightarrow> nat \<Rightarrow> memory \<Rightarrow> memory" where
  "copy_backward d s 0 m = m"
| "copy_backward d s (Suc n) m = copy_backward (d - 1) (s - 1) n (m(d - 1 := m (s - 1)))"

definition memmove :: "uint32 \<Rightarrow> uint32 \<Rightarrow> uint32 \<Rightarrow> memory \<Rightarrow> memory" where
  "memmove dst src n m =
     (if src < dst \<and> src + n > dst then copy_backward (dst + n) (src + n) (unat n) m
      else copy_forward dst src (unat n) m)"

definition memcpy :: "uint32 \<Rightarrow> uint32 \<Rightarrow> uint32 \<Rightarrow> memory \<Rightarrow> memory" where
  "memcpy dst src n m = memmove dst src n m"

text \<open>\<open>ulib.c\<close>'s \<open>memset\<close> and \<open>memmove\<close> have no fast path and no overlap case.\<close>

definition ulib_memset :: "uint32 \<Rightarrow> uint32 \<Rightarrow> uint32 \<Rightarrow> memory \<Rightarrow> memory" where
  "ulib_memset dst c n m = stosb dst (ucast c) (unat n) m"

definition ulib_memmove :: "uint32 \<Rightarrow> uint32 \<Rightarrow> int \<Rightarrow> memory \<Rightarrow> memory" where
  "ulib_memmove vdst vsrc n m = copy_forward vdst vsrc (nat n) m"


section \<open>Strings\<close>

definition rd :: "uchar list \<Rightarrow> uchar" where
  "rd s = (case s of [] \<Rightarrow> 0 | c # _ \<Rightarrow> c)"

fun strncmp :: "uchar list \<Rightarrow> uchar list \<Rightarrow> nat \<Rightarrow> int" where
  "strncmp p q 0 = 0"
| "strncmp p q (Suc n) =
     (if rd p \<noteq> 0 \<and> rd p = rd q then strncmp (tl p) (tl q) n
      else uint (rd p) - uint (rd q))"

fun zfill :: "uchar list \<Rightarrow> nat \<Rightarrow> uchar list" where
  "zfill (x # s) (Suc n) = 0 # zfill s n"
| "zfill s n = s"

fun strncpy :: "uchar list \<Rightarrow> uchar list \<Rightarrow> nat \<Rightarrow> uchar list" where
  "strncpy (x # s) t (Suc n) = rd t # (if rd t = 0 then zfill s n else strncpy s (tl t) n)"
| "strncpy s t n = s"

fun safestrcpy :: "uchar list \<Rightarrow> uchar list \<Rightarrow> nat \<Rightarrow> uchar list" where
  "safestrcpy (x # s) t (Suc 0) = 0 # s"
| "safestrcpy (x # s) t (Suc (Suc n)) =
     rd t # (if rd t = 0 then zfill s 1 else safestrcpy s (tl t) (Suc n))"
| "safestrcpy s t n = s"

fun strlen :: "uchar list \<Rightarrow> nat" where
  "strlen [] = 0"
| "strlen (x # s) = (if x = 0 then 0 else Suc (strlen s))"

fun strcpy :: "uchar list \<Rightarrow> uchar list \<Rightarrow> uchar list" where
  "strcpy (x # s) t = rd t # (if rd t = 0 then s else strcpy s (tl t))"
| "strcpy [] t = []"

function strcmp :: "uchar list \<Rightarrow> uchar list \<Rightarrow> int" where
  "strcmp p q =
     (if rd p \<noteq> 0 \<and> rd p = rd q then strcmp (tl p) (tl q)
      else uint (rd p) - uint (rd q))"
  by pat_completeness auto
termination
  by (relation "measure (\<lambda>(p, q). length p)") (auto simp: rd_def split: list.splits)

declare strcmp.simps [simp del]

fun strchr :: "uchar list \<Rightarrow> uchar \<Rightarrow> nat option" where
  "strchr [] c = None"
| "strchr (x # s) c =
     (if x = 0 then None else if x = c then Some 0 else map_option Suc (strchr s c))"

definition isdigit_c :: "uchar \<Rightarrow> bool" where
  "isdigit_c c \<longleftrightarrow> 48 \<le> c \<and> c \<le> 57"

fun atoi_loop :: "uchar list \<Rightarrow> int \<Rightarrow> int" where
  "atoi_loop [] n = n"
| "atoi_loop (c # s) n =
     (if isdigit_c c then atoi_loop s (n * 10 + uint c - 48) else n)"

definition atoi :: "uchar list \<Rightarrow> int" where
  "atoi s = atoi_loop s 0"

text \<open>The string in an array: the bytes before the NUL, at most \<open>n\<close> of them.\<close>

definition cstr :: "nat \<Rightarrow> uchar list \<Rightarrow> uchar list" where
  "cstr n xs = takeWhile (\<lambda>c. c \<noteq> 0) (take n xs)"


section \<open>Facts about the memory routines\<close>

text \<open>
  The offset of an address in a range that starts at \<open>d\<close> is \<open>a - d\<close>; the address is
  one of the \<open>n\<close> bytes of the range iff that offset, as a number, is below \<open>n\<close>. This
  holds across the top of the address space too.
\<close>

lemma offset_Suc:
  assumes "Suc n \<le> 2 ^ 32"
  shows "unat ((a :: uint32) - d) < Suc n \<longleftrightarrow> a = d \<or> unat (a - (d + 1)) < n"
proof (cases "a = d")
  case True
  then show ?thesis by simp
next
  case False
  then have pos: "a - d \<noteq> 0" by simp
  have "a - (d + 1) = a - d - 1" by (simp add: algebra_simps)
  then have "unat (a - (d + 1)) = unat (a - d) - 1"
    using unat_minus_one [OF pos] by (simp only:)
  moreover have "0 < unat (a - d)" using pos by (simp add: unat_gt_0)
  ultimately show ?thesis using False by auto
qed

lemma offset_self: "unat ((d :: uint32) - (d + 1)) = 2 ^ 32 - 1"
proof -
  have "(d :: uint32) - (d + 1) = - 1" by simp
  then show ?thesis by (simp only:) (simp add: unsigned_minus_1_eq_mask mask_eq_exp_minus_1)
qed

lemma stosb_apply:
  "n \<le> 2 ^ 32 \<Longrightarrow> stosb d c n m a = (if unat (a - d) < n then c else m a)"
proof (induction n arbitrary: d m)
  case 0
  then show ?case by simp
next
  case (Suc n)
  then show ?case using offset_Suc [of n a d] by auto
qed

lemma word_pattern:
  fixes c :: uint32
  defines "w \<equiv> push_bit 24 (c AND 0xFF) OR push_bit 16 (c AND 0xFF) OR
                 push_bit 8 (c AND 0xFF) OR (c AND 0xFF)"
  shows "(ucast w :: uchar) = ucast c" "(ucast (drop_bit 8 w) :: uchar) = ucast c"
    "(ucast (drop_bit 16 w) :: uchar) = ucast c" "(ucast (drop_bit 24 w) :: uchar) = ucast c"
proof -
  have m: "c AND 0xFF = take_bit 8 c" by (simp add: take_bit_eq_mask mask_eq_exp_minus_1)
  show "(ucast w :: uchar) = ucast c" "(ucast (drop_bit 8 w) :: uchar) = ucast c"
    "(ucast (drop_bit 16 w) :: uchar) = ucast c" "(ucast (drop_bit 24 w) :: uchar) = ucast c"
    unfolding w_def m by (rule bit_word_eqI; auto simp: bit_simps)+
qed

lemma stosl_stosb:
  assumes "(ucast w :: uchar) = c" "(ucast (drop_bit 8 w) :: uchar) = c"
    "(ucast (drop_bit 16 w) :: uchar) = c" "(ucast (drop_bit 24 w) :: uchar) = c"
  shows "stosl d w n m = stosb d c (4 * n) m"
proof (induction n arbitrary: d m)
  case 0
  then show ?case by simp
next
  case (Suc n)
  have "4 * Suc n = Suc (Suc (Suc (Suc (4 * n))))" by simp
  then show ?case
    by (simp only: stosl.simps stosb.simps Suc.IH assms add.assoc)
       (simp add: fun_upd_def fun_eq_iff)
qed

lemma memset_stosb: "memset d c n m = stosb d (ucast c) (unat n) m"
proof (cases "d mod 4 = 0 \<and> n mod 4 = 0")
  case True
  have "unat n mod 4 = 0"
    using True unat_mod [of n 4] by simp
  then have "4 * unat (n div 4) = unat n"
    by (simp add: unat_div mod_0_imp_dvd)
  then show ?thesis
    using True stosl_stosb [OF word_pattern] by (simp add: memset_def Let_def)
next
  case False
  then show ?thesis by (auto simp: memset_def)
qed

lemma memset_apply: "memset d c n m a = (if unat (a - d) < unat n then ucast c else m a)"
  using unat_less_32 [of n] by (simp add: memset_stosb stosb_apply less_imp_le)

lemma copy_forward_apply:
  "n \<le> 2 ^ 32 \<Longrightarrow> d = s \<or> n \<le> unat (d - s) \<Longrightarrow>
   copy_forward d s n m a = (if unat (a - d) < n then m (s + (a - d)) else m a)"
proof (induction n arbitrary: d s m)
  case 0
  then show ?case by simp
next
  case (Suc n)
  let ?m = "m(d := m s)"
  have shift: "s + 1 + (a - (d + 1)) = s + (a - d)" by (simp add: algebra_simps)
  have "copy_forward (d + 1) (s + 1) n ?m a =
        (if unat (a - (d + 1)) < n then ?m (s + 1 + (a - (d + 1))) else ?m a)"
    by (rule Suc.IH) (use Suc.prems in auto)
  also have "\<dots> = (if unat (a - (d + 1)) < n then ?m (s + (a - d)) else ?m a)"
    by (simp only: shift)
  finally have IH: "copy_forward d s (Suc n) m a = \<dots>" by simp
  show ?case
  proof (cases "a = d")
    case True
    have "\<not> unat (a - (d + 1)) < n" using Suc.prems(1) True offset_self [of d] by simp
    then show ?thesis using IH True by simp
  next
    case False
    then have iff: "unat (a - d) < Suc n \<longleftrightarrow> unat (a - (d + 1)) < n"
      using offset_Suc [of n a d] Suc.prems(1) by auto
    have "s + (a - d) \<noteq> d" if "unat (a - d) < Suc n"
    proof
      assume "s + (a - d) = d"
      then have "a - d = d - s" by (metis add_diff_cancel_left')
      with that Suc.prems(2) False show False by auto
    qed
    then show ?thesis using IH iff False by auto
  qed
qed

lemma copy_backward_apply:
  "n \<le> 2 ^ 32 \<Longrightarrow> d = s \<or> n \<le> unat (s - d) \<Longrightarrow>
   copy_backward (d + of_nat n) (s + of_nat n) n m a =
     (if unat (a - d) < n then m (s + (a - d)) else m a)"
proof (induction n arbitrary: m)
  case 0
  then show ?case by simp
next
  case (Suc n)
  let ?e = "d + of_nat n" and ?f = "s + of_nat n"
  let ?m = "m(?e := m ?f)"
  have n32: "n < 2 ^ 32" using Suc.prems(1) by simp
  have un: "unat (of_nat n :: uint32) = n" using n32 by (rule unat_of_nat_32)
  have "copy_backward (d + of_nat (Suc n)) (s + of_nat (Suc n)) (Suc n) m a =
        copy_backward ?e ?f n ?m a"
  proof -
    have "d + of_nat (Suc n) - 1 = ?e" and "s + of_nat (Suc n) - 1 = ?f" by simp_all
    then show ?thesis by (simp only: copy_backward.simps)
  qed
  also have "\<dots> = (if unat (a - d) < n then ?m (s + (a - d)) else ?m a)"
    by (rule Suc.IH) (use Suc.prems in auto)
  finally have IH: "copy_backward (d + of_nat (Suc n)) (s + of_nat (Suc n)) (Suc n) m a = \<dots>" .
  show ?case
  proof (cases "a = ?e")
    case True
    then have "unat (a - d) = n" and "s + (a - d) = ?f" using un by simp_all
    then show ?thesis unfolding IH using True by simp
  next
    case False
    then have ne: "a - d \<noteq> of_nat n" by (auto simp: diff_eq_eq add.commute)
    then have "unat (a - d) \<noteq> n" by auto
    then have iff: "unat (a - d) < Suc n \<longleftrightarrow> unat (a - d) < n" by auto
    have "s + (a - d) \<noteq> ?e" if lt: "unat (a - d) < n"
    proof
      assume eq: "s + (a - d) = ?e"
      have "s - d = s + (a - d) - d - (a - d)" by simp
      then have sd: "s - d = of_nat n - (a - d)" unfolding eq by simp
      have "unat (of_nat n - (a - d) :: uint32) = n - unat (a - d)"
        using lt un by (simp add: unat_sub word_le_nat_alt)
      then have "unat (s - d) = n - unat (a - d)" using sd by (simp only:)
      moreover have "d \<noteq> s" using eq ne by (metis add_left_cancel)
      ultimately show False using lt Suc.prems(2) by linarith
    qed
    then show ?thesis unfolding IH using iff False by simp
  qed
qed

text \<open>
  \<open>memmove\<close> copies the bytes the source range held before the call, whether or not
  the ranges overlap, and changes nothing else. Ranges that would wrap past the top of
  the address space are excluded.
\<close>

theorem memmove_correct:
  assumes src: "unat src + unat n \<le> 2 ^ 32" and dst: "unat dst + unat n \<le> 2 ^ 32"
  shows "memmove dst src n m a =
    (if unat (a - dst) < unat n then m (src + (a - dst)) else m a)"
proof (cases "src < dst \<and> src + n > dst")
  case True
  have n32: "unat n \<le> 2 ^ 32" using src by simp
  have "unat (src - dst) = 2 ^ 32 - (unat dst - unat src)"
    using True by (intro unat_sub_wraps) simp
  then have "unat n \<le> unat (src - dst)" using dst by simp
  then have "copy_backward (dst + of_nat (unat n)) (src + of_nat (unat n)) (unat n) m a =
      (if unat (a - dst) < unat n then m (src + (a - dst)) else m a)"
    using copy_backward_apply [OF n32] by blast
  then show ?thesis using True by (simp add: memmove_def)
next
  case False
  have n32: "unat n \<le> 2 ^ 32" using src by simp
  have "dst = src \<or> unat n \<le> unat (dst - src)"
  proof (cases src dst rule: linorder_cases)
    case less
    then have "unat src + unat n < 2 ^ 32" using dst by (simp add: word_less_nat_alt)
    then have "unat (src + n) = unat src + unat n" by (rule unat_add_no_wrap)
    moreover have "\<not> dst < src + n" using False less by simp
    ultimately have "unat src + unat n \<le> unat dst" by (simp add: word_less_nat_alt)
    then have "unat n \<le> unat dst - unat src" by linarith
    then show ?thesis using less unat_sub [of src dst] by (simp add: less_imp_le)
  next
    case equal
    then show ?thesis by simp
  next
    case greater
    then have "unat (dst - src) = 2 ^ 32 - (unat src - unat dst)" by (rule unat_sub_wraps)
    then have "unat n \<le> unat (dst - src)" using src by linarith
    then show ?thesis by simp
  qed
  then have "copy_forward dst src (unat n) m a =
      (if unat (a - dst) < unat n then m (src + (a - dst)) else m a)"
    using copy_forward_apply [OF n32] by blast
  then show ?thesis using False by (auto simp: memmove_def)
qed

theorem memmove_correct_witness:
  "unat (100 :: uint32) + unat (3 :: uint32) \<le> 2 ^ 32 \<and>
   unat (101 :: uint32) + unat (3 :: uint32) \<le> 2 ^ 32 \<and>
   memmove 101 100 3 ucast 103 = 102 \<and> memmove 101 100 3 ucast 104 = 104"
  using memmove_correct [of 100 3 101 ucast 103] memmove_correct [of 100 3 101 ucast 104] by simp

text \<open>
  The kernel's \<open>memset\<close> stores whole words when the address and the length are multiples of
  four; that fast path has the effect of the byte-by-byte \<open>memset\<close> of the user library.
\<close>

theorem memset_fast_path: "memset dst c n m = ulib_memset dst c n m"
  by (simp add: memset_stosb ulib_memset_def)

lemma uint8_eq [simp]:
  "uint (a :: uchar) = uint b \<longleftrightarrow> a = b" "uint (a :: uchar) = 0 \<longleftrightarrow> a = 0"
  by (simp_all add: word_uint_eq_iff)

lemma memcmp_loop_0:
  "memcmp_loop m s1 s2 n = 0 \<longleftrightarrow> (\<forall>i<n. m (s1 + of_nat i) = m (s2 + of_nat i))"
proof (induction n arbitrary: s1 s2)
  case 0
  then show ?case by simp
next
  case (Suc n)
  show ?case
    unfolding All_less_Suc2 using Suc.IH [of "s1 + 1" "s2 + 1"] by (simp add: add.assoc)
qed

lemma memcmp_eq_0:
  "memcmp m v1 v2 n = 0 \<longleftrightarrow> (\<forall>i<unat n. m (v1 + of_nat i) = m (v2 + of_nat i))"
  by (simp add: memcmp_def memcmp_loop_0)


section \<open>Facts about the string routines\<close>

lemma rd_Nil [simp]: "rd [] = 0" and rd_Cons [simp]: "rd (c # s) = c"
  by (simp_all add: rd_def)

lemma cstr_simps [simp]:
  "cstr 0 xs = []" "cstr n [] = []" "cstr (Suc n) (x # xs) = (if x = 0 then [] else x # cstr n xs)"
  by (simp_all add: cstr_def)

lemma cstr_Suc_rd: "cstr (Suc n) xs = (if rd xs = 0 then [] else rd xs # cstr n (tl xs))"
  by (cases xs) auto

lemma strncmp_eq_0: "strncmp p q n = 0 \<longleftrightarrow> cstr n p = cstr n q"
proof (induction n arbitrary: p q)
  case 0
  then show ?case by simp
next
  case (Suc n)
  then show ?case by (auto simp: cstr_Suc_rd)
qed

lemma length_cstr: "length (cstr n xs) \<le> n"
  using length_takeWhile_le [of _ "take n xs"] by (auto simp: cstr_def intro: order_trans)

lemma zfill_eq: "n \<le> length s \<Longrightarrow> zfill s n = replicate n 0 @ drop n s"
  by (induction s n rule: zfill.induct) auto

lemma length_zfill [simp]: "length (zfill s n) = length s"
  by (induction s n rule: zfill.induct) auto

lemma length_strncpy [simp]: "length (strncpy s t n) = length s"
  by (induction s t n rule: strncpy.induct) auto

lemma strncpy_eq:
  "n \<le> length s \<Longrightarrow>
   strncpy s t n = cstr n t @ replicate (n - length (cstr n t)) 0 @ drop n s"
  by (induction s t n rule: strncpy.induct) (auto simp: cstr_Suc_rd zfill_eq)

lemma cstr_append_0: "0 \<notin> set ys \<Longrightarrow> cstr n (ys @ 0 # zs) = take n ys"
proof (induction ys arbitrary: n)
  case Nil
  then show ?case by (cases n) auto
next
  case (Cons y ys)
  then show ?case by (cases n) auto
qed

lemma cstr_no_0: "0 \<notin> set (cstr n xs)"
  by (auto simp: cstr_def dest: set_takeWhileD)

lemma cstr_strncpy: "n \<le> length s \<Longrightarrow> cstr n (strncpy s t n) = cstr n t"
  by (induction s t n rule: strncpy.induct) (auto simp: cstr_Suc_rd)

lemma length_safestrcpy [simp]: "length (safestrcpy s t n) = length s"
  by (induction s t n rule: safestrcpy.induct) auto

text \<open>
  \<open>safestrcpy\<close> always terminates its result: copying into an array with room for \<open>n\<close> bytes
  leaves in it the source string cut to \<open>n - 1\<close> bytes, followed by a NUL within the \<open>n\<close>
  bytes, and touches nothing beyond them.
\<close>

theorem safestrcpy_terminated:
  "0 < n \<Longrightarrow> n \<le> length s \<Longrightarrow>
   strlen (safestrcpy s t n) = length (cstr (n - 1) t) \<and>
   take (strlen (safestrcpy s t n)) (safestrcpy s t n) = cstr (n - 1) t \<and>
   strlen (safestrcpy s t n) < n \<and>
   drop n (safestrcpy s t n) = drop n s"
proof (induction s t n rule: safestrcpy.induct)
  case (2 x s t n)
  then show ?case
    by (cases s) (auto simp: cstr_Suc_rd)
qed auto

theorem safestrcpy_terminated_witness:
  "0 < (3 :: nat) \<and> 3 \<le> length [9, 9, 9, 9 :: uchar] \<and>
   strlen (safestrcpy [9, 9, 9, 9] [97, 98, 99, 0] 3) = 2"
proof -
  have "length (cstr (3 - 1) [97, 98, 99, 0 :: uchar]) = 2" by code_simp
  then show ?thesis
    using safestrcpy_terminated [of 3 "[9, 9, 9, 9]" "[97, 98, 99, 0]"] by simp
qed

lemma strlen_takeWhile: "strlen s = length (takeWhile (\<lambda>c. c \<noteq> 0) s)"
  by (induction s) auto

lemma strcmp_eq_0:
  "strcmp p q = 0 \<longleftrightarrow> takeWhile (\<lambda>c. c \<noteq> 0) p = takeWhile (\<lambda>c. c \<noteq> 0) q"
proof (induction p q rule: strcmp.induct)
  case (1 p q)
  show ?case
  proof (cases "rd p \<noteq> 0 \<and> rd p = rd q")
    case True
    then have "strcmp p q = strcmp (tl p) (tl q)" by (auto simp: strcmp.simps [of p q])
    with True 1 show ?thesis by (cases p; cases q) auto
  next
    case False
    then have "strcmp p q = 0 \<longleftrightarrow> rd p = rd q" by (auto simp: strcmp.simps [of p q])
    then show ?thesis using False by (cases p; cases q) auto
  qed
qed

lemma strcpy_string:
  "strlen t < length s \<Longrightarrow>
   strlen (strcpy s t) = strlen t \<and> take (strlen t) (strcpy s t) = take (strlen t) t"
proof (induction s t rule: strcpy.induct)
  case (1 x s t)
  then show ?case by (cases t) auto
qed auto

lemma strchr_Some:
  "strchr s c = Some i \<Longrightarrow> i < strlen s \<and> s ! i = c \<and> (\<forall>j<i. s ! j \<noteq> c)"
proof (induction s arbitrary: i)
  case Nil
  then show ?case by simp
next
  case (Cons x s)
  then show ?case by (cases i) (auto split: if_splits simp: less_Suc_eq_0_disj)
qed

lemma strchr_None: "strchr s c = None \<longleftrightarrow> c = 0 \<or> c \<notin> set (take (strlen s) s)"
  by (induction s) auto
end
