(* ===== verification/Proc.thy ===== *)
theory Proc
  imports Uvm CString
begin

text \<open>
  The process table, \<open>proc.c\<close>: allocation, sleeping and waking, the lottery scheduler with its
  three policies, waiting for children, killing, signals and the accounting of ticks. Pointers to
  processes are indices into \<open>ptable.proc\<close>. The trap frame and the saved context, which the
  code keeps at the top of the kernel stack page, are fields of the process. \<open>ptable.lock\<close> is
  held throughout each operation, so an operation is one step. \<open>fork\<close>, \<open>exit\<close>,
  \<open>userinit\<close> and \<open>forkret\<close>, which also use files, are in their own theory.
\<close>

section \<open>Data\<close>

datatype procstate = UNUSED | EMBRYO | SLEEPING | RUNNABLE | RUNNING | ZOMBIE

record trapframe =
  tf_edi :: uint32
  tf_esi :: uint32
  tf_ebp :: uint32
  tf_oesp :: uint32
  tf_ebx :: uint32
  tf_edx :: uint32
  tf_ecx :: uint32
  tf_eax :: uint32
  tf_gs :: ushort
  tf_padding1 :: ushort
  tf_fs :: ushort
  tf_padding2 :: ushort
  tf_es :: ushort
  tf_padding3 :: ushort
  tf_ds :: ushort
  tf_padding4 :: ushort
  tf_trapno :: uint32
  tf_err :: uint32
  tf_eip :: uint32
  tf_cs :: ushort
  tf_padding5 :: ushort
  tf_eflags :: uint32
  tf_esp :: uint32
  tf_ss :: ushort
  tf_padding6 :: ushort

text \<open>\<open>struct bu_tf\<close> of \<open>proc.h\<close> repeats the fields of \<open>struct trapframe\<close>.\<close>

type_synonym bu_tf = trapframe

record kcontext =
  c_edi :: uint32
  c_esi :: uint32
  c_ebx :: uint32
  c_ebp :: uint32
  c_eip :: uint32

record proc =
  p_sz :: uint32
  p_pgdir :: uint32
  p_kstack :: uint32
  p_state :: procstate
  p_pid :: int
  p_parent :: "nat option"
  p_tf :: trapframe
  p_backup_tf :: bu_tf
  p_context :: kcontext
  p_chan :: "chan option"
  p_killed :: bool
  p_ofile :: "nat option list"
  p_cwd :: "nat option"
  p_name :: "uchar list"
  p_ntickets :: int
  p_priority :: int
  p_ctime :: int
  p_ttime :: int
  p_stime :: int
  p_retime :: int
  p_rutime :: int
  p_status :: int
  p_pending :: uint32
  p_handling_signal :: bool
  p_handlers_array :: "uint32 list"
  p_ret_add :: uint32

text \<open>
  \<open>oob_ntickets\<close> is the word of memory just past the table where \<open>ptable.proc[NPROC].ntickets\<close>
  would be; \<open>seed\<close> is the generator's \<open>next\<close>; \<open>ts_esp0\<close> is \<open>cpu->ts.esp0\<close>;
  \<open>sym_forkret\<close> is the address of \<open>forkret\<close>.
\<close>

record kproc = kvm +
  procs :: "proc list"
  oob_ntickets :: int
  nextpid :: int
  currentPolicy :: int
  initproc :: "nat option"
  ticks :: uint32
  seed :: uint32
  started :: bool
  cur :: "nat option"
  ts_esp0 :: uint32
  sym_forkret :: uint32

definition updp :: "nat \<Rightarrow> (proc \<Rightarrow> proc) \<Rightarrow> 'a kproc_scheme \<Rightarrow> 'a kproc_scheme" where
  "updp i f s = s\<lparr>procs := (procs s)[i := f (procs s ! i)]\<rparr>"

text \<open>The per-CPU variable \<open>proc\<close>.\<close>

definition mcur :: "'a kproc_scheme \<Rightarrow> (nat, 'a kproc_scheme) outcome" where
  "mcur s = (case cur s of None \<Rightarrow> null_deref | Some i \<Rightarrow> Ok i s)"


section \<open>Signals\<close>

definition restore_tf :: "proc \<Rightarrow> proc" where
  "restore_tf p =
    (let b = p_backup_tf p
     in p\<lparr>p_tf := (p_tf p)\<lparr>
       tf_edi := tf_edi b, tf_esi := tf_esi b, tf_ebp := tf_ebp b, tf_oesp := tf_oesp b,
       tf_ebx := tf_ebx b, tf_edx := tf_edx b, tf_ecx := tf_ecx b, tf_eax := tf_eax b,
       tf_gs := tf_gs b, tf_padding1 := tf_padding1 b, tf_fs := tf_fs b, tf_padding2 := tf_padding2 b,
       tf_es := tf_es b, tf_padding3 := tf_padding3 b, tf_ds := tf_ds b, tf_padding4 := tf_padding4 b,
       tf_trapno := tf_trapno b, tf_err := tf_err b, tf_eip := tf_eip b, tf_cs := tf_cs b,
       tf_padding5 := tf_padding5 b, tf_eflags := tf_eflags b, tf_esp := tf_esp b, tf_ss := tf_ss b,
       tf_padding6 := tf_padding6 b\<rparr>\<rparr>)"

definition set_default_handlers :: "proc \<Rightarrow> proc" where
  "set_default_handlers p =
    p\<lparr>p_pending := 0, p_handling_signal := False, p_handlers_array := replicate 32 0xffffffff\<rparr>"

definition signal :: "int \<Rightarrow> uint32 \<Rightarrow> 'a kproc_scheme \<Rightarrow> (uint32, 'a kproc_scheme) outcome" where
  "signal signum handler s =
    (if 31 < signum \<or> signum < 0 then Ok (- 1) s
     else mbind (mcur s) (\<lambda>c s.
       let prev = p_handlers_array (procs s ! c) ! nat signum
       in Ok prev (updp c (\<lambda>p. p\<lparr>p_handlers_array := (p_handlers_array p)[nat signum := handler]\<rparr>) s)))"

definition sigsend :: "int \<Rightarrow> int \<Rightarrow> 'a kproc_scheme \<Rightarrow> (int, 'a kproc_scheme) outcome" where
  "sigsend pid signum s =
    (if 31 < signum \<or> signum < 0 then Ok (- 1) s
     else case ffind (\<lambda>p. p_pid p = pid) (procs s) of
       None \<Rightarrow> Ok (- 1) s
     | Some i \<Rightarrow> Ok 0 (updp i (\<lambda>p. p\<lparr>p_pending := p_pending p OR push_bit (nat signum) 1\<rparr>) s))"

definition sigreturn :: "'a kproc_scheme \<Rightarrow> (int, 'a kproc_scheme) outcome" where
  "sigreturn s = mbind (mcur s) (\<lambda>c s. Ok 0 (updp c (\<lambda>p. restore_tf (p\<lparr>p_handling_signal := False\<rparr>)) s))"


section \<open>Accounting\<close>

definition perf_tick :: "proc \<Rightarrow> proc" where
  "perf_tick p =
    (if p_state p = RUNNING then p\<lparr>p_rutime := p_rutime p + 1\<rparr>
     else if p_state p = SLEEPING then p\<lparr>p_stime := p_stime p + 1\<rparr>
     else if p_state p = RUNNABLE then p\<lparr>p_retime := p_retime p + 1\<rparr>
     else p)"

definition updatePerformanceFields :: "'a kproc_scheme \<Rightarrow> 'a kproc_scheme" where
  "updatePerformanceFields s = s\<lparr>procs := map perf_tick (procs s)\<rparr>"


section \<open>Allocating a process\<close>

text \<open>The search of the table, and the setting up of the kernel stack.\<close>

definition alloc_slot :: "'a kproc_scheme \<Rightarrow> (nat \<times> 'a kproc_scheme) option" where
  "alloc_slot s =
    (case ffind (\<lambda>p. p_state p = UNUSED) (procs s) of
       None \<Rightarrow> None
     | Some i \<Rightarrow> Some (i, updp i (\<lambda>p. set_default_handlers (p\<lparr>p_state := EMBRYO, p_pid := nextpid s\<rparr>))
         (s\<lparr>nextpid := nextpid s + 1\<rparr>)))"

definition allocproc :: "'a kproc_scheme \<Rightarrow> (nat option, 'a kproc_scheme) outcome" where
  "allocproc s =
    (case alloc_slot s of
       None \<Rightarrow> Ok None s
     | Some (i, s) \<Rightarrow> mbind (kalloc s) (\<lambda>k s.
         if k = 0 then Ok None (updp i (\<lambda>p. p\<lparr>p_kstack := 0, p_state := UNUSED\<rparr>) s)
         else Ok (Some i) (updp i (\<lambda>p. p\<lparr>p_kstack := k,
           p_context := \<lparr>c_edi = 0, c_esi = 0, c_ebx = 0, c_ebp = 0, c_eip = sym_forkret s\<rparr>\<rparr>) s)))"

text \<open>
  \<open>switchuvm\<close> takes the kernel stack of the current process \<open>proc\<close>, not of its argument.
  The segment descriptor it also fills in is not modelled.
\<close>

definition switchuvm :: "nat \<Rightarrow> 'a kproc_scheme \<Rightarrow> (unit, 'a kproc_scheme) outcome" where
  "switchuvm i s = mbind (mcur s) (\<lambda>c s.
    let s = s\<lparr>ts_esp0 := p_kstack (procs s ! c) + KSTACKSIZE\<rparr>
    in if p_pgdir (procs s ! i) = 0 then Panic ''switchuvm: no pgdir''
       else Ok () (s\<lparr>cr3 := v2p (p_pgdir (procs s ! i))\<rparr>))"

definition growproc :: "int \<Rightarrow> 'a kproc_scheme \<Rightarrow> (int, 'a kproc_scheme) outcome" where
  "growproc n s = mbind (mcur s) (\<lambda>c s.
    let p = procs s ! c;
        commit = (\<lambda>sz s. mbind (switchuvm c (updp c (\<lambda>p. p\<lparr>p_sz := sz\<rparr>) s)) (\<lambda>_ s. Ok 0 s))
    in if n > 0 then
         mbind (allocuvm (p_pgdir p) (p_sz p) (p_sz p + of_int n) s) (\<lambda>sz s.
           if sz = 0 then Ok (- 1) s else commit sz s)
       else if n < 0 then
         mbind (deallocuvm (p_pgdir p) (p_sz p) (p_sz p + of_int n) s) (\<lambda>sz s.
           if sz = 0 then Ok (- 1) s else commit sz s)
       else commit (p_sz p) s)"


section \<open>Sleeping and waking\<close>

definition sleep :: "chan \<Rightarrow> 'a kproc_scheme \<Rightarrow> ('x, 'a kproc_scheme) outcome" where
  "sleep ch s =
    (case cur s of
       None \<Rightarrow> Panic ''sleep''
     | Some i \<Rightarrow> Sleep ch (updp i (\<lambda>p. p\<lparr>p_chan := Some ch, p_state := SLEEPING\<rparr>) s))"

text \<open>What \<open>sleep\<close> does once \<open>sched\<close> returns to it.\<close>

definition sleep_resume :: "'a kproc_scheme \<Rightarrow> (unit, 'a kproc_scheme) outcome" where
  "sleep_resume s = mbind (mcur s) (\<lambda>c s. Ok () (updp c (\<lambda>p. p\<lparr>p_chan := None\<rparr>) s))"

definition wake :: "chan \<Rightarrow> proc \<Rightarrow> proc" where
  "wake ch p = (if p_state p = SLEEPING \<and> p_chan p = Some ch then p\<lparr>p_state := RUNNABLE\<rparr> else p)"

text \<open>
  The policy-3 bonus follows the loop: there \<open>p\<close> is one past the last entry, so it is
  \<open>ptable.proc[NPROC].ntickets\<close> that is read and increased.
\<close>

definition wakeup1 :: "chan \<Rightarrow> 'a kproc_scheme \<Rightarrow> 'a kproc_scheme" where
  "wakeup1 ch s =
    (let s = s\<lparr>procs := map (wake ch) (procs s)\<rparr>
     in if currentPolicy s = 3
        then if oob_ntickets s < 90 then s\<lparr>oob_ntickets := oob_ntickets s + 10\<rparr> else s
        else s)"

definition wakeup :: "chan \<Rightarrow> 'a kproc_scheme \<Rightarrow> 'a kproc_scheme" where
  "wakeup ch s = wakeup1 ch s"

definition kill :: "int \<Rightarrow> 'a kproc_scheme \<Rightarrow> (int, 'a kproc_scheme) outcome" where
  "kill pid s =
    (case ffind (\<lambda>p. p_pid p = pid) (procs s) of
       None \<Rightarrow> Ok (- 1) s
     | Some i \<Rightarrow> Ok 0 (updp i (\<lambda>p.
         let p = p\<lparr>p_killed := True, p_ttime := sint (ticks s)\<rparr>
         in if p_state p = SLEEPING then p\<lparr>p_state := RUNNABLE\<rparr> else p) s))"

definition yield :: "'a kproc_scheme \<Rightarrow> (unit, 'a kproc_scheme) outcome" where
  "yield s = mbind (mcur s) (\<lambda>c s. Ok () (updp c (\<lambda>p.
     let p = p\<lparr>p_state := RUNNABLE\<rparr>
     in if currentPolicy s = 3 \<and> p_ntickets p > 1 then p\<lparr>p_ntickets := p_ntickets p - 1\<rparr> else p) s))"


section \<open>Waiting for a child\<close>

text \<open>The slot of a reaped child. \<open>wait_stat\<close> also clears the accounting.\<close>

definition free_slot :: "proc \<Rightarrow> proc" where
  "free_slot p = p\<lparr>p_state := UNUSED, p_pid := 0, p_parent := None, p_name := (p_name p)[0 := 0], p_killed := False\<rparr>"

definition reap :: "nat \<Rightarrow> 'a kproc_scheme \<Rightarrow> (int, 'a kproc_scheme) outcome" where
  "reap i s =
    (let pid = p_pid (procs s ! i)
     in mbind (kfree (p_kstack (procs s ! i)) s) (\<lambda>_ s.
          let s = updp i (\<lambda>p. p\<lparr>p_kstack := 0\<rparr>) s
          in mbind (freevm (p_pgdir (procs s ! i)) s) (\<lambda>_ s. Ok pid (updp i free_slot s))))"

text \<open>
  One round of the \<open>for(;;)\<close>; woken from \<open>sleep\<close>, the caller starts the round again.
  The \<open>cprintf\<close> that reads \<open>*status\<close> is outside the guard \<open>status != 0\<close>.
\<close>

definition wait :: "uint32 \<Rightarrow> 'a kproc_scheme \<Rightarrow> (int, 'a kproc_scheme) outcome" where
  "wait st s = mbind (mcur s) (\<lambda>c s.
    let pgdir = p_pgdir (procs s ! c)
    in case ffind (\<lambda>p. p_parent p = Some c \<and> p_state p = ZOMBIE) (procs s) of
      Some i \<Rightarrow>
        mbind (if st \<noteq> 0 then store32 pgdir st (of_int (p_status (procs s ! i))) s else Ok () s) (\<lambda>_ s.
        mbind (load32 pgdir st s) (\<lambda>_ s.
        reap i (updp i (\<lambda>p. p\<lparr>p_status := 0, p_ntickets := 0\<rparr>) s)))
    | None \<Rightarrow>
        if \<not> list_ex (\<lambda>p. p_parent p = Some c) (procs s) \<or> p_killed (procs s ! c) then Ok (- 1) s
        else sleep (ChanProc c) s)"

definition wait_stat :: "uint32 \<Rightarrow> uint32 \<Rightarrow> 'a kproc_scheme \<Rightarrow> (int, 'a kproc_scheme) outcome" where
  "wait_stat st perf s = mbind (mcur s) (\<lambda>c s.
    let pgdir = p_pgdir (procs s ! c)
    in case ffind (\<lambda>p. p_parent p = Some c \<and> p_state p = ZOMBIE) (procs s) of
      Some i \<Rightarrow> let p = procs s ! i in
        mbind (store32 pgdir st (of_int (p_status p)) s) (\<lambda>_ s.
        mbind (store32 pgdir (perf + 8) (of_int (p_stime p)) s) (\<lambda>_ s.
        mbind (store32 pgdir (perf + 12) (of_int (p_retime p)) s) (\<lambda>_ s.
        mbind (store32 pgdir (perf + 16) (of_int (p_rutime p)) s) (\<lambda>_ s.
        mbind (store32 pgdir (perf + 4) (of_int (p_ttime p)) s) (\<lambda>_ s.
        mbind (store32 pgdir perf (of_int (p_ctime p)) s) (\<lambda>_ s.
        reap i (updp i (\<lambda>p. p\<lparr>p_status := 0, p_stime := 0, p_retime := 0, p_rutime := 0,
          p_ttime := 0, p_ctime := 0, p_ntickets := 0, p_priority := 0\<rparr>) s)))))))
    | None \<Rightarrow>
        if \<not> list_ex (\<lambda>p. p_parent p = Some c) (procs s) \<or> p_killed (procs s ! c) then Ok (- 1) s
        else sleep (ChanProc c) s)"

definition schedp :: "int \<Rightarrow> 'a kproc_scheme \<Rightarrow> (int, 'a kproc_scheme) outcome" where
  "schedp policy_id s =
    (if 1 \<le> policy_id \<and> policy_id \<le> 3 then Ok 0 (s\<lparr>currentPolicy := policy_id\<rparr>)
     else Panic ''schedp: policy needs to be 1/2/3'')"

definition priority :: "int \<Rightarrow> 'a kproc_scheme \<Rightarrow> (unit, 'a kproc_scheme) outcome" where
  "priority pr s = mbind (mcur s) (\<lambda>c s. Ok () (updp c (\<lambda>p. p\<lparr>p_priority := pr\<rparr>) s))"

text \<open>The tickets a new process gets, in \<open>fork\<close> and \<open>userinit\<close>.\<close>

definition new_tickets :: "int \<Rightarrow> proc \<Rightarrow> proc" where
  "new_tickets policy p =
    (let p = p\<lparr>p_priority := 10\<rparr>
     in if policy = 1 then p\<lparr>p_ntickets := 10\<rparr>
        else if policy = 2 then p\<lparr>p_ntickets := p_priority p\<rparr>
        else if policy = 3 then p\<lparr>p_ntickets := 20\<rparr>
        else p)"


section \<open>The lottery scheduler\<close>

definition rand :: "int \<Rightarrow> 'a kproc_scheme \<Rightarrow> int \<times> 'a kproc_scheme" where
  "rand ticketsSum s =
    (let nx = seed s * 1103515245 + 12345;
         m = of_int (ticketsSum + 1) :: uint32
     in (sint ((nx div (2 * m)) mod m), s\<lparr>seed := nx\<rparr>))"

definition srand :: "uint32 \<Rightarrow> 'a kproc_scheme \<Rightarrow> 'a kproc_scheme" where
  "srand sd s = s\<lparr>seed := sd\<rparr>"

definition all_tickets :: "proc list \<Rightarrow> int" where
  "all_tickets ps = 1 + sum_list (map p_ntickets (filter (\<lambda>p. p_state p \<noteq> ZOMBIE) ps))"

text \<open>
  \<open>run i\<close> is what process \<open>i\<close> does between \<open>swtch\<close> to it and its switch back. The
  result lists the processes that were run. There is no \<open>break\<close> after a process has run.
\<close>

fun sched_scan :: "(nat \<Rightarrow> 'a kproc_scheme \<Rightarrow> 'a kproc_scheme) \<Rightarrow> nat list \<Rightarrow> int \<Rightarrow> int \<Rightarrow>
    'a kproc_scheme \<Rightarrow> (nat list, 'a kproc_scheme) outcome" where
  "sched_scan run [] chosen cnt s = Ok [] s"
| "sched_scan run (i # is) chosen cnt s =
    (let cnt = cnt + p_ntickets (procs s ! i)
     in if chosen \<ge> cnt then sched_scan run is chosen cnt s
        else if p_state (procs s ! i) \<noteq> RUNNABLE then Ok [] s
        else mbind (switchuvm i (s\<lparr>cur := Some i\<rparr>)) (\<lambda>_ s.
          let s = run i (updp i (\<lambda>p. p\<lparr>p_state := RUNNING\<rparr>) s);
              s = (switchkvm s)\<lparr>cur := None\<rparr>
          in mbind (sched_scan run is chosen cnt s) (\<lambda>ran s. Ok (i # ran) s)))"

definition scheduler_round :: "(nat \<Rightarrow> 'a kproc_scheme \<Rightarrow> 'a kproc_scheme) \<Rightarrow> 'a kproc_scheme \<Rightarrow>
    (nat list, 'a kproc_scheme) outcome" where
  "scheduler_round run s =
    (let (chosen, s) = rand (all_tickets (procs s)) s
     in sched_scan run [0..<length (procs s)] chosen 0 s)"

fun scheduler_rounds :: "nat \<Rightarrow> (nat \<Rightarrow> 'a kproc_scheme \<Rightarrow> 'a kproc_scheme) \<Rightarrow> 'a kproc_scheme \<Rightarrow>
    (nat list, 'a kproc_scheme) outcome" where
  "scheduler_rounds 0 run s = Ok [] s"
| "scheduler_rounds (Suc n) run s =
    mbind (scheduler_round run s) (\<lambda>l s. mbind (scheduler_rounds n run s) (\<lambda>m s. Ok (l @ m) s))"

definition scheduler :: "nat \<Rightarrow> (nat \<Rightarrow> 'a kproc_scheme \<Rightarrow> 'a kproc_scheme) \<Rightarrow> 'a kproc_scheme \<Rightarrow>
    (nat list, 'a kproc_scheme) outcome" where
  "scheduler n run s = scheduler_rounds n run (srand (ticks s) s)"



section \<open>Who wins the lottery\<close>

lemma updp_simps [simp]:
  "procs (updp i f s) = (procs s)[i := f (procs s ! i)]" "mem (updp i f s) = mem s"
  "freelist (updp i f s) = freelist s" "kend (updp i f s) = kend s" "cur (updp i f s) = cur s"
  "currentPolicy (updp i f s) = currentPolicy s" "nextpid (updp i f s) = nextpid s"
  "oob_ntickets (updp i f s) = oob_ntickets s" "initproc (updp i f s) = initproc s"
  "ticks (updp i f s) = ticks s" "cr3 (updp i f s) = cr3 s"
  by (simp_all add: updp_def)

definition tickets_before :: "proc list \<Rightarrow> nat \<Rightarrow> int" where
  "tickets_before ps i = sum_list (map p_ntickets (take i ps))"

definition no_debt :: "proc list \<Rightarrow> bool" where
  "no_debt ps \<longleftrightarrow> list_all (\<lambda>p. 0 \<le> p_ntickets p) ps"

lemma tickets_before_0 [simp]: "tickets_before ps 0 = 0"
  by (simp add: tickets_before_def)

lemma tickets_before_Suc:
  "i < length ps \<Longrightarrow> tickets_before ps (Suc i) = tickets_before ps i + p_ntickets (ps ! i)"
  by (simp add: tickets_before_def take_Suc_conv_app_nth)

lemma tickets_before_mono:
  assumes "no_debt ps" "i \<le> j" "j \<le> length ps"
  shows "tickets_before ps i \<le> tickets_before ps j"
  using assms(2,3)
proof (induction j)
  case (Suc j)
  have "0 \<le> p_ntickets (ps ! j)" using assms(1) Suc.prems by (simp add: no_debt_def list_all_length)
  then show ?case using Suc by (cases "i = Suc j") (auto simp: tickets_before_Suc)
qed simp

lemma sched_scan_skip:
  assumes "no_debt (procs s)" "k \<le> w" "w \<le> length (procs s)" "tickets_before (procs s) w \<le> chosen"
  shows "sched_scan run [k..<length (procs s)] chosen (tickets_before (procs s) k) s
    = sched_scan run [w..<length (procs s)] chosen (tickets_before (procs s) w) s"
  using assms(2)
proof (induction k rule: inc_induct)
  case (step k)
  have "k < length (procs s)" using step assms(3) by simp
  moreover have "tickets_before (procs s) (Suc k) \<le> chosen"
    using tickets_before_mono [OF assms(1), of "Suc k" w] step assms(3,4) by simp
  ultimately show ?case using step.IH by (simp add: upt_conv_Cons Let_def tickets_before_Suc)
qed simp

lemma sched_scan_winner:
  assumes "no_debt (procs s)" "w < length (procs s)" "tickets_before (procs s) w \<le> chosen"
    and "chosen < tickets_before (procs s) (Suc w)"
  shows "sched_scan run [0..<length (procs s)] chosen 0 s =
    (if p_state (procs s ! w) \<noteq> RUNNABLE then Ok [] s
     else mbind (switchuvm w (s\<lparr>cur := Some w\<rparr>)) (\<lambda>_ t.
       let t = run w (updp w (\<lambda>p. p\<lparr>p_state := RUNNING\<rparr>) t); t = (switchkvm t)\<lparr>cur := None\<rparr>
       in mbind (sched_scan run [Suc w..<length (procs s)] chosen (tickets_before (procs s) (Suc w)) t)
            (\<lambda>ran t. Ok (w # ran) t)))"
proof -
  have "sched_scan run [0..<length (procs s)] chosen 0 s
    = sched_scan run (w # [Suc w..<length (procs s)]) chosen (tickets_before (procs s) w) s"
    using sched_scan_skip [OF assms(1) _ _ assms(3), of 0 run] assms(2) by (simp add: upt_conv_Cons)
  then show ?thesis using assms(2,4) by (simp add: Let_def tickets_before_Suc)
qed

lemma sched_scan_nobody:
  assumes "no_debt (procs s)" "tickets_before (procs s) (length (procs s)) \<le> chosen"
  shows "sched_scan run [0..<length (procs s)] chosen 0 s = Ok [] s"
  using sched_scan_skip [OF assms(1) _ _ assms(2), of 0 run] by simp

lemma winner_exists:
  assumes "no_debt ps" "0 \<le> c" "c < tickets_before ps (length ps)"
  obtains w where "w < length ps" "tickets_before ps w \<le> c" "c < tickets_before ps (Suc w)"
proof -
  define w where "w = (GREATEST i. i \<le> length ps \<and> tickets_before ps i \<le> c)"
  have "w \<le> length ps \<and> tickets_before ps w \<le> c" unfolding w_def
    by (rule GreatestI_nat [of _ 0 "length ps"]) (use assms in auto)
  moreover from this have "w \<noteq> length ps" using assms(3) by auto
  moreover have "c < tickets_before ps (Suc w)" if "w < length ps"
  proof (rule ccontr)
    assume "\<not> c < tickets_before ps (Suc w)"
    then have "Suc w \<le> w" unfolding w_def by (intro Greatest_le_nat [where b = "length ps"]) (use that w_def in auto)
    then show False by simp
  qed
  ultimately have "w < length ps" "tickets_before ps w \<le> c" "c < tickets_before ps (Suc w)" by simp_all
  then show thesis by (rule that)
qed

text \<open>
  Every runnable process has a page table. If the processes keep it so, a round of the scheduler does
  not panic.
\<close>

definition mapped :: "'a kproc_scheme \<Rightarrow> bool" where
  "mapped s \<longleftrightarrow> list_all (\<lambda>p. p_state p = RUNNABLE \<longrightarrow> p_pgdir p \<noteq> 0) (procs s)"

lemma mapped_update: "mapped s \<Longrightarrow> \<not> (p_state (f (procs s ! i)) = RUNNABLE \<and> p_pgdir (f (procs s ! i)) = 0) \<Longrightarrow> mapped (updp i f s)"
  using set_update_subset_insert [of "procs s" i "f (procs s ! i)"] by (auto simp: mapped_def list_all_iff)

lemma sched_scan_returns:
  assumes run: "\<forall>i t. mapped t \<longrightarrow> mapped (run i t) \<and> length (procs (run i t)) = length (procs t)"
  shows "mapped s \<Longrightarrow> \<forall>i\<in>set is. i < length (procs s) \<Longrightarrow> \<exists>ran t. sched_scan run is chosen cnt s = Ok ran t \<and> mapped t"
proof (induction "is" arbitrary: cnt s)
  case (Cons i "is")
  let ?p = "procs s ! i"
  show ?case
  proof (cases "chosen \<ge> cnt + p_ntickets ?p \<or> p_state ?p \<noteq> RUNNABLE")
    case True
    then show ?thesis using Cons by (auto simp: Let_def)
  next
    case False
    then have pg: "p_pgdir ?p \<noteq> 0" using Cons.prems by (auto simp: mapped_def list_all_length)
    obtain t where sw: "switchuvm i (s\<lparr>cur := Some i\<rparr>) = Ok () t" "procs t = procs s"
      using pg by (simp add: switchuvm_def mcur_def)
    have m: "mapped (updp i (\<lambda>p. p\<lparr>p_state := RUNNING\<rparr>) t)"
      using Cons.prems(1) sw(2) by (intro mapped_update) (auto simp: mapped_def)
    define u where "u = (switchkvm (run i (updp i (\<lambda>p. p\<lparr>p_state := RUNNING\<rparr>) t)))\<lparr>cur := None\<rparr>"
    have "mapped u" "length (procs u) = length (procs s)"
      using run m sw(2) by (auto simp: u_def mapped_def switchkvm_def)
    moreover from this(2) have "\<forall>j\<in>set is. j < length (procs u)" using Cons.prems(2) by simp
    ultimately obtain ran v where "sched_scan run is chosen (cnt + p_ntickets ?p) u = Ok ran v" "mapped v"
      using Cons.IH by blast
    then show ?thesis using False sw by (simp add: Let_def u_def)
  qed
qed simp

lemma lottery_first:
  fixes s :: "'a kproc_scheme"
  assumes debt: "no_debt (procs s)" and "mapped s" and "0 \<le> c"
    and run: "\<forall>i t. mapped t \<longrightarrow> mapped (run i t) \<and> length (procs (run i t)) = length (procs t)"
    and w: "w < length (procs s)" "p_state (procs s ! w) = RUNNABLE"
  shows "(\<exists>ran t. sched_scan run [0..<length (procs s)] c 0 s = Ok (w # ran) t) \<longleftrightarrow>
    tickets_before (procs s) w \<le> c \<and> c < tickets_before (procs s) (Suc w)"
proof
  assume l: "\<exists>ran t. sched_scan run [0..<length (procs s)] c 0 s = Ok (w # ran) t"
  then have "c < tickets_before (procs s) (length (procs s))"
    using sched_scan_nobody [OF debt, of c run] by fastforce
  then obtain v where v: "v < length (procs s)" "tickets_before (procs s) v \<le> c"
    "c < tickets_before (procs s) (Suc v)" using winner_exists [OF debt assms(3)] by blast
  then have "v = w" using l sched_scan_winner [OF debt v, of run]
    by (auto simp: mbind_eq_Ok Let_def split: if_splits)
  then show "tickets_before (procs s) w \<le> c \<and> c < tickets_before (procs s) (Suc w)" using v by simp
next
  assume "tickets_before (procs s) w \<le> c \<and> c < tickets_before (procs s) (Suc w)"
  then have "tickets_before (procs s) w \<le> c" "c < tickets_before (procs s) (Suc w)" by simp_all
  note sched_scan_winner [OF debt w(1) this, of run]
  moreover obtain ran t where "sched_scan run [0..<length (procs s)] c 0 s = Ok ran t"
    using sched_scan_returns [OF run assms(2), of "[0..<length (procs s)]" c 0] by auto
  ultimately show "\<exists>ran t. sched_scan run [0..<length (procs s)] c 0 s = Ok (w # ran) t"
    using w(2) by (auto simp: mbind_eq_Ok Ok_eq_mbind Let_def)
qed

text \<open>C16. The lottery draws fairly: the numbers for which a runnable process is dispatched first are
  exactly as many as it has tickets, whatever the other processes hold and whatever the dispatched
  processes do.\<close>

theorem lottery_share:
  assumes "no_debt (procs s)" and "mapped s"
    and "\<forall>i t. mapped t \<longrightarrow> mapped (run i t) \<and> length (procs (run i t)) = length (procs t)"
    and "w < length (procs s)" and "p_state (procs s ! w) = RUNNABLE"
  shows "card {c. 0 \<le> c \<and> (\<exists>ran t. sched_scan run [0..<length (procs s)] c 0 s = Ok (w # ran) t)}
    = nat (p_ntickets (procs s ! w))"
proof -
  have nn: "0 \<le> tickets_before (procs s) w" using tickets_before_mono [OF assms(1), of 0 w] assms(4) by simp
  have "0 \<le> c \<and> (\<exists>ran t. sched_scan run [0..<length (procs s)] c 0 s = Ok (w # ran) t) \<longleftrightarrow>
      c \<in> {tickets_before (procs s) w ..< tickets_before (procs s) (Suc w)}" for c
    using lottery_first [OF assms(1,2) _ assms(3,4,5), of c] nn by (cases "0 \<le> c") simp_all
  then have "{c. 0 \<le> c \<and> (\<exists>ran t. sched_scan run [0..<length (procs s)] c 0 s = Ok (w # ran) t)}
      = {tickets_before (procs s) w ..< tickets_before (procs s) (Suc w)}" by blast
  then show ?thesis by (simp only: card_atLeastLessThan_int tickets_before_Suc [OF assms(4)] add_diff_cancel_left')
qed


text \<open>C37. The scan does not stop at the winner. When the dispatched processes merely yield, the
  scheduler goes on to run every process behind the winner in the table up to the first that is
  not runnable, tickets or not.\<close>

theorem scheduler_runs_past_winner:
  assumes "no_debt (procs s)" and "\<forall>p\<in>set (procs s). p_pgdir p \<noteq> 0"
    and "w < length (procs s)" and "p_state (procs s ! w) = RUNNABLE"
    and "tickets_before (procs s) w \<le> c" and "c < tickets_before (procs s) (Suc w)"
  shows "\<exists>t. sched_scan (\<lambda>i. updp i (\<lambda>p. p\<lparr>p_state := RUNNABLE\<rparr>)) [0..<length (procs s)] c 0 s
    = Ok (w # takeWhile (\<lambda>i. p_state (procs s ! i) = RUNNABLE) [Suc w..<length (procs s)]) t"
proof -
  let ?run = "\<lambda>i. updp i (\<lambda>p. p\<lparr>p_state := RUNNABLE\<rparr>)"
  let ?n = "length (procs s)"
  have same: "(procs s)[i := (procs s ! i)\<lparr>p_state := RUNNABLE\<rparr>] = procs s"
    if "p_state (procs s ! i) = RUNNABLE" for i
  proof -
    have "(procs s ! i)\<lparr>p_state := RUNNABLE\<rparr> = (procs s ! i)\<lparr>p_state := p_state (procs s ! i)\<rparr>"
      using that by simp
    then show ?thesis by simp
  qed
  have rest: "\<exists>t. sched_scan ?run [k..<?n] c (tickets_before (procs s) k) u
      = Ok (takeWhile (\<lambda>i. p_state (procs s ! i) = RUNNABLE) [k..<?n]) t"
    if "k \<le> ?n" "c < tickets_before (procs s) k" "procs u = procs s" for k u
    using that
  proof (induction k arbitrary: u rule: inc_induct)
    case (step k)
    have k: "k < ?n" using step.hyps by simp
    have up: "[k..<?n] = k # [Suc k..<?n]" using k by (simp add: upt_conv_Cons)
    have le: "tickets_before (procs s) k \<le> tickets_before (procs s) (Suc k)"
      using tickets_before_mono [OF assms(1)] k by simp
    show ?case
    proof (cases "p_state (procs s ! k) = RUNNABLE")
      case False
      then show ?thesis using step.prems le k by (simp add: up Let_def tickets_before_Suc)
    next
      case True
      have pg: "p_pgdir (procs s ! k) \<noteq> 0" using assms(2) k by simp
      define v where "v = (switchkvm (?run k (updp k (\<lambda>p. p\<lparr>p_state := RUNNING\<rparr>)
        (u\<lparr>cur := Some k, ts_esp0 := p_kstack (procs s ! k) + KSTACKSIZE, cr3 := v2p (p_pgdir (procs s ! k))\<rparr>))))\<lparr>cur := None\<rparr>"
      have "procs v = procs s" using step.prems(2) k same [OF True] by (simp add: v_def switchkvm_def)
      then obtain t where "sched_scan ?run [Suc k..<?n] c (tickets_before (procs s) (Suc k)) v
          = Ok (takeWhile (\<lambda>i. p_state (procs s ! i) = RUNNABLE) [Suc k..<?n]) t"
        using step.IH [of v] step.prems le by auto
      then show ?thesis using True pg step.prems le k
        by (simp add: up Let_def tickets_before_Suc switchuvm_def mcur_def v_def)
    qed
  qed simp
  have pg: "p_pgdir (procs s ! w) \<noteq> 0" using assms(2,3) by simp
  define v where "v = (switchkvm (?run w (updp w (\<lambda>p. p\<lparr>p_state := RUNNING\<rparr>)
    (s\<lparr>cur := Some w, ts_esp0 := p_kstack (procs s ! w) + KSTACKSIZE, cr3 := v2p (p_pgdir (procs s ! w))\<rparr>))))\<lparr>cur := None\<rparr>"
  have "procs v = procs s" using assms(3) same [OF assms(4)] by (simp add: v_def switchkvm_def)
  then obtain t where "sched_scan ?run [Suc w..<?n] c (tickets_before (procs s) (Suc w)) v
      = Ok (takeWhile (\<lambda>i. p_state (procs s ! i) = RUNNABLE) [Suc w..<?n]) t"
    using rest [of "Suc w" v] assms(3,6) by auto
  then show ?thesis
    using sched_scan_winner [OF assms(1,3,5,6), of ?run] assms(4) pg
    by (simp add: Let_def switchuvm_def mcur_def v_def)
qed


text \<open>\<open>rand\<close> stays within its bound, both ends included: the scheduler passes it one
  more than the number of tickets, so the two largest numbers drawn belong to no process.\<close>

theorem rand_range:
  assumes "0 \<le> t" "t < 2 ^ 31 - 1"
  shows "0 \<le> fst (rand t s) \<and> fst (rand t s) \<le> t"
proof -
  define m where "m = (of_int (t + 1) :: uint32)"
  define v where "v = (seed s * 1103515245 + 12345) div (2 * m)"
  have um: "uint m = t + 1" unfolding m_def by (subst unsigned_of_int) (use assms in \<open>simp add: take_bit_int_eq_self\<close>)
  have uv: "uint (v mod m) = uint v mod (t + 1)" by (simp add: uint_mod um)
  have b: "0 \<le> uint (v mod m)" "uint (v mod m) \<le> t"
    unfolding uv using assms(1) pos_mod_bound [of "t + 1" "uint v"] by simp_all
  have "sint (v mod m) = uint (v mod m)"
    unfolding sint_uint using b assms(2) by (intro signed_take_bit_int_eq_self) (auto intro: order_trans [OF _ uint_ge_0])
  moreover have "fst (rand t s) = sint (v mod m)" by (simp add: rand_def Let_def v_def m_def)
  ultimately show ?thesis using b by simp
qed


section \<open>Waking up\<close>

lemma wakeup1_procs [simp]: "procs (wakeup1 ch s) = map (wake ch) (procs s)"
  by (simp add: wakeup1_def Let_def)

text \<open>Under policy 3 a woken process is meant to gain tickets. The bonus is instead added to
  the word past the end of the table, and no process gains any.\<close>

theorem wakeup_bonus_lost:
  assumes "currentPolicy s = 3" "oob_ntickets s < 90"
  shows "map p_ntickets (procs (wakeup ch s)) = map p_ntickets (procs s) \<and>
    oob_ntickets (wakeup ch s) = oob_ntickets s + 10"
  using assms by (simp add: wakeup_def wakeup1_def Let_def wake_def)

text \<open>\<open>priority\<close> has no influence on the scheduler: it changes no process' tickets, under
  no policy, so that every draw dispatches the same process first as before; and a child created
  afterwards gets the tickets of a process of priority 10, also under policy 2.\<close>

theorem priority_changes_no_tickets:
  assumes "cur s = Some c" "c < length (procs s)"
  shows "\<exists>t. priority pr s = Ok () t \<and> p_priority (procs t ! c) = pr \<and>
    map (\<lambda>p. (p_state p, p_ntickets p)) (procs t) = map (\<lambda>p. (p_state p, p_ntickets p)) (procs s) \<and>
    p_ntickets (new_tickets 2 (procs t ! c)) = 10"
  using assms by (simp add: priority_def mcur_def map_update_same new_tickets_def)


section \<open>Allocating and reaping\<close>

interpretation pt: slot_table procs "\<lambda>p. p_state p = UNUSED" alloc_slot
proof (unfold_locales, goal_cases)
  case (1 s)
  have "alloc_slot s = None \<longleftrightarrow> ffind (\<lambda>p. p_state p = UNUSED) (procs s) = None"
    by (auto simp: alloc_slot_def split: option.splits)
  then show ?case by (simp add: ffind_None)
next
  case (2 s i s')
  then have f: "ffind (\<lambda>p. p_state p = UNUSED) (procs s) = Some i"
    and s': "procs s' = (procs s)[i := set_default_handlers ((procs s ! i)\<lparr>p_state := EMBRYO, p_pid := nextpid s\<rparr>)]"
    by (auto simp: alloc_slot_def split: option.splits)
  moreover have "p_state (set_default_handlers ((procs s ! i)\<lparr>p_state := EMBRYO, p_pid := nextpid s\<rparr>)) \<noteq> UNUSED"
    by (simp add: set_default_handlers_def)
  ultimately show ?case using ffind_SomeD [OF f] by blast
qed

lemma alloc_slot_Some:
  assumes "alloc_slot s = Some (i, t)"
  shows "i < length (procs s)" "p_state (procs s ! i) = UNUSED" "nextpid t = nextpid s + 1"
    "procs t = (procs s)[i := set_default_handlers ((procs s ! i)\<lparr>p_state := EMBRYO, p_pid := nextpid s\<rparr>)]"
    "mem t = mem s" "freelist t = freelist s" "kend t = kend s"
  using assms pt.alloc_Some [OF assms] by (auto simp: alloc_slot_def split: option.splits)

text \<open>\<open>kill(0)\<close> finds the first unused slot, whose pid is 0, and marks it killed; the mark
  is not cleared when the slot is allocated, so the next process created there starts its life killed.\<close>

theorem kill_0_dooms_next_process:
  assumes "ffind (\<lambda>p. p_pid p = 0) (procs s) = ffind (\<lambda>p. p_state p = UNUSED) (procs s)"
    and "ffind (\<lambda>p. p_state p = UNUSED) (procs s) = Some i" and "freelist s \<noteq> 0"
  shows "\<exists>t u. kill 0 s = Ok 0 t \<and> allocproc t = Ok (Some i) u \<and> p_state (procs u ! i) = EMBRYO \<and>
    p_killed (procs u ! i)"
proof -
  have i: "i < length (procs s)" "p_state (procs s ! i) = UNUSED" "\<forall>j<i. p_state (procs s ! j) \<noteq> UNUSED"
    using ffind_SomeD [OF assms(2)] by simp_all
  define t where "t = updp i (\<lambda>p. p\<lparr>p_killed := True, p_ttime := sint (ticks s)\<rparr>) s"
  have k: "kill 0 s = Ok 0 t" using assms(1,2) i(2)
    by (simp add: kill_def t_def updp_def)
  have "ffind (\<lambda>p. p_state p = UNUSED) (procs t) = Some i"
    unfolding ffind_Some using i by (simp add: t_def)
  then show ?thesis using k i assms(3)
    by (simp add: allocproc_def alloc_slot_def kalloc_def t_def set_default_handlers_def Let_def)
qed



section \<open>A concrete machine\<close>

definition tf0 :: trapframe where
  "tf0 = \<lparr>tf_edi = 0, tf_esi = 0, tf_ebp = 0, tf_oesp = 0, tf_ebx = 0, tf_edx = 0, tf_ecx = 0, tf_eax = 0,
     tf_gs = 0, tf_padding1 = 0, tf_fs = 0, tf_padding2 = 0, tf_es = 0, tf_padding3 = 0, tf_ds = 0,
     tf_padding4 = 0, tf_trapno = 0, tf_err = 0, tf_eip = 0, tf_cs = 0, tf_padding5 = 0, tf_eflags = 0,
     tf_esp = 0, tf_ss = 0, tf_padding6 = 0\<rparr>"

definition proc0 :: proc where
  "proc0 = \<lparr>p_sz = 0, p_pgdir = 0, p_kstack = 0, p_state = UNUSED, p_pid = 0, p_parent = None, p_tf = tf0,
     p_backup_tf = tf0, p_context = \<lparr>c_edi = 0, c_esi = 0, c_ebx = 0, c_ebp = 0, c_eip = 0\<rparr>, p_chan = None,
     p_killed = False, p_ofile = replicate 16 None, p_cwd = None, p_name = replicate 16 0, p_ntickets = 0,
     p_priority = 0, p_ctime = 0, p_ttime = 0, p_stime = 0, p_retime = 0, p_rutime = 0, p_status = 0,
     p_pending = 0, p_handling_signal = False, p_handlers_array = replicate 32 0, p_ret_add = 0\<rparr>"

text \<open>Two runnable processes and an unused slot; a third process sleeps on the clock.\<close>

definition procs3 :: "proc list" where
  "procs3 = [proc0\<lparr>p_state := RUNNABLE, p_pid := 1, p_ntickets := 10, p_pgdir := 0x80400000\<rparr>,
     proc0\<lparr>p_state := RUNNABLE, p_pid := 2, p_ntickets := 20, p_pgdir := 0x80401000\<rparr>,
     proc0\<lparr>p_state := SLEEPING, p_pid := 3, p_ntickets := 5, p_pgdir := 0x80402000, p_chan := Some ChanTicks\<rparr>,
     proc0]"

definition kproc0 :: kproc where
  "kproc0 = \<lparr>use_lock = True, freelist = 0x80403000, mem = (\<lambda>_. replicate 4096 0), kend = 0x80400000,
     kdata = 0x80108000, kpgdir = 0, cr3 = 0, procs = procs3, oob_ntickets = 0, nextpid = 4, currentPolicy = 1,
     initproc = Some 0, ticks = 0, seed = 1, started = False, cur = Some 0, ts_esp0 = 0, sym_forkret = 0x80104000\<rparr>"

lemma lottery_share_witness:
  "card {c. 0 \<le> c \<and> (\<exists>ran t. sched_scan (\<lambda>i s. s) [0..<length (procs kproc0)] c 0 kproc0 = Ok (1 # ran) t)} = 20"
  using lottery_share [of kproc0 "\<lambda>i s. s" 1]
  by (simp add: no_debt_def mapped_def kproc0_def procs3_def proc0_def)

lemma scheduler_runs_past_winner_witness:
  "\<exists>t. sched_scan (\<lambda>i. updp i (\<lambda>p. p\<lparr>p_state := RUNNABLE\<rparr>)) [0..<length (procs (kproc0\<lparr>procs := take 2 procs3\<rparr>))]
    4 0 (kproc0\<lparr>procs := take 2 procs3\<rparr>) = Ok [0, 1] t"
  using scheduler_runs_past_winner [of "kproc0\<lparr>procs := take 2 procs3\<rparr>" 0 4]
  by (simp add: no_debt_def kproc0_def procs3_def proc0_def tickets_before_def upt_conv_Cons)

lemma rand_range_witness: "0 \<le> fst (rand 36 kproc0) \<and> fst (rand 36 kproc0) \<le> 36"
  using rand_range [of 36 kproc0] by simp

lemma wakeup_bonus_lost_witness:
  "map p_ntickets (procs (wakeup ChanTicks (kproc0\<lparr>currentPolicy := 3\<rparr>))) = [10, 20, 5, 0] \<and>
   oob_ntickets (wakeup ChanTicks (kproc0\<lparr>currentPolicy := 3\<rparr>)) = 10"
  using wakeup_bonus_lost [of "kproc0\<lparr>currentPolicy := 3\<rparr>" ChanTicks]
  by (simp add: kproc0_def procs3_def proc0_def)

lemma priority_changes_no_tickets_witness:
  "\<exists>t. priority 3 (kproc0\<lparr>currentPolicy := 2\<rparr>) = Ok () t \<and> p_priority (procs t ! 0) = 3"
  using priority_changes_no_tickets [of "kproc0\<lparr>currentPolicy := 2\<rparr>" 0 3] by (auto simp: kproc0_def procs3_def)

lemma kill_0_dooms_next_process_witness:
  "\<exists>t u. kill 0 kproc0 = Ok 0 t \<and> allocproc t = Ok (Some 3) u \<and> p_killed (procs u ! 3)"
  using kill_0_dooms_next_process [of kproc0 3] by (auto simp: kproc0_def procs3_def proc0_def)

end
