(* ===== verification/Reap.thy ===== *)
theory Reap
  imports Proc
begin

text \<open>
  What \<open>wait\<close> and \<open>wait_stat\<close> of \<open>proc.c\<close> do for the parent: deliver the exit status of
  a child that has exited and give back everything the child held.
\<close>

section \<open>Writes that leave another address space alone\<close>

lemma store_byte_mem:
  "p \<noteq> frame_of s pgdir va \<Longrightarrow> mem (store_byte pgdir va b s) p = mem s p"
  by (simp add: store_byte_def Let_def)

lemma store_byte_frame [simp]: "mem_only s (store_byte pgdir va b s)"
  "freelist (store_byte pgdir va b s) = freelist s" "kend (store_byte pgdir va b s) = kend s"
  by (simp_all add: store_byte_def Let_def)

lemma store_bytes_frame: "keeps (mem_only s) (store_bytes pgdir va bs s)"
  by (induction bs arbitrary: va s) (auto intro: mem_only_after [OF store_byte_frame(1)])

lemma store_bytes_mem:
  fixes s :: "'a kmem_scheme"
  assumes "space_ok A s pgdir" "\<forall>i<length bs. va + of_nat i \<in> A \<and> frame_of s pgdir (va + of_nat i) \<notin> P"
    "store_bytes pgdir va bs s = Ok () t"
  shows "freelist t = freelist s \<and> kend t = kend s \<and> (\<forall>p\<in>P. mem t p = mem s p)"
  using assms
proof (induction bs arbitrary: va s)
  case (Cons b bs)
  have w: "va \<in> A" "writable s pgdir va" using Cons.prems(2) [THEN spec, of 0] Cons.prems(3) by (simp_all split: if_splits)
  define u where "u = store_byte pgdir va b s"
  note sb = store_byte_space [OF Cons.prems(1) w, where b = b, folded u_def]
  have "frame_of u pgdir x = frame_of s pgdir x" for x by (simp add: frame_of_def sb(1))
  then have "\<forall>i<length bs. va + 1 + of_nat i \<in> A \<and> frame_of u pgdir (va + 1 + of_nat i) \<notin> P"
    using Cons.prems(2) by (metis Suc_less_eq add.assoc length_Cons of_nat_Suc)
  moreover have "store_bytes pgdir (va + 1) bs u = Ok () t" using Cons.prems(3) w by (simp add: u_def)
  ultimately have "freelist t = freelist u \<and> kend t = kend u \<and> (\<forall>p\<in>P. mem t p = mem u p)"
    using Cons.IH [OF sb(2)] by blast
  moreover have "frame_of s pgdir va \<notin> P" using Cons.prems(2) [THEN spec, of 0] by simp
  then have "mem u p = mem s p" if "p \<in> P" for p
    unfolding u_def using that by (intro store_byte_mem) auto
  ultimately show ?case by (simp add: u_def)
qed simp

lemma kmem_list_cong:
  assumes "freelist t = freelist s" "kend t = kend s" "\<forall>p\<in>set vs. mem t p = mem s p"
  shows "kmem_list t vs = kmem_list s vs"
proof -
  have "run_list (mem t) q vs = run_list (mem s) q vs" for q
    using assms(3) by (induction vs arbitrary: q) auto
  then show ?thesis using assms by (auto simp: kmem_list_def bad_page_def)
qed

lemma free_pages_cong:
  assumes "kmem_inv s" "freelist t = freelist s" "kend t = kend s" "\<forall>p\<in>free_pages s. mem t p = mem s p"
  shows "kmem_inv t" "free_pages t = free_pages s"
proof -
  obtain vs where vs: "kmem_list s vs" using assms(1) by (auto simp: kmem_inv_def)
  then have "kmem_list t vs" using kmem_list_cong [OF assms(2,3), of vs] assms(4) by (simp add: free_pages_list)
  then show "kmem_inv t" "free_pages t = free_pages s" using vs by (auto simp: kmem_inv_def free_pages_list)
qed

lemma pt_view_cong:
  assumes "\<forall>p\<in>pt_pages s pgdir. mem t p = mem s p"
  shows "pde_present t pgdir i = pde_present s pgdir i" "pgtab_of t pgdir i = pgtab_of s pgdir i"
    "pt_pages t pgdir = pt_pages s pgdir" "pte_of t pgdir x = pte_of s pgdir x"
    "frame_of t pgdir x = frame_of s pgdir x"
proof -
  have "read_pte t (pgdir, i) = read_pte s (pgdir, i)" for i
    using assms by (simp add: read_pte_def pt_pages_def)
  then show "pde_present t pgdir i = pde_present s pgdir i" "pgtab_of t pgdir i = pgtab_of s pgdir i"
    by (auto simp: pde_present_def pgtab_of_def)
  show "pt_pages t pgdir = pt_pages s pgdir" "pte_of t pgdir x = pte_of s pgdir x" by (rule pte_of_cong [OF assms])+
  then show "frame_of t pgdir x = frame_of s pgdir x" by (simp add: frame_of_def)
qed

lemma as_ok_cong:
  assumes ok: "as_ok s pgdir" and m: "\<forall>p\<in>pt_pages s pgdir. mem t p = mem s p" and "kmem_inv t" "kend t = kend s"
    and f: "free_pages t = free_pages s \<union> F" "F \<inter> pt_pages s pgdir = {}" "F \<inter> user_frames s pgdir 0 0x80000000 = {}"
  shows "as_ok t pgdir" "user_frames t pgdir lo hi = user_frames s pgdir lo hi"
proof -
  note v = pt_view_cong [OF m]
  have bad: "bad_page p t = bad_page p s" for p using assms(4) by (simp add: bad_page_def)
  show "user_frames t pgdir lo hi = user_frames s pgdir lo hi" unfolding user_frames_def v(4) v(5) ..
  have pt: "pt_ok s pgdir" using ok by (simp add: as_ok_def)
  have nf: "frame_of s pgdir x \<notin> F" if "unat x < 0x80000000" "pte_of s pgdir x AND PTE_P \<noteq> 0" for x
    using f(3) that by (auto simp: user_frames_def)
  have len: "\<forall>p\<in>pt_pages s pgdir. length (mem t p) = 4096" using pt m by (simp add: pt_ok_def)
  have "pt_pages s pgdir \<inter> free_pages t = {}" using pt f by (auto simp: pt_ok_def)
  then have "pt_ok t pgdir" using pt len unfolding pt_ok_def v(1) v(2) v(3) by blast
  then show "as_ok t pgdir" using ok nf assms(3) f(1) unfolding as_ok_def v bad by auto
qed


section \<open>Reaping a child\<close>

text \<open>A child that can be given back: its address space is in order and its kernel stack is a page of its own.\<close>

definition reapable :: "'a kmem_scheme \<Rightarrow> proc \<Rightarrow> bool" where
  "reapable s p \<longleftrightarrow> as_ok s (p_pgdir p) \<and> p_pgdir p \<noteq> 0 \<and> (\<forall>q\<in>pt_pages s (p_pgdir p). \<not> bad_page q s) \<and>
    \<not> bad_page (p_kstack p) s \<and> p_kstack p \<notin> free_pages s \<and> p_kstack p \<notin> pt_pages s (p_pgdir p) \<and>
    p_kstack p \<notin> user_frames s (p_pgdir p) 0 0x80000000"

definition held_pages :: "'a kmem_scheme \<Rightarrow> proc \<Rightarrow> uint32 set" where
  "held_pages s p = insert (p_kstack p) (pt_pages s (p_pgdir p) \<union> user_frames s (p_pgdir p) 0 0x80000000)"

lemma mem_only_procs:
  assumes "mem_only s t"
  shows "procs t = procs s" "cur t = cur s"
  using arg_cong [OF assms [unfolded mem_only_def], of procs] arg_cong [OF assms [unfolded mem_only_def], of cur]
  by simp_all

lemma updp_mem_view [simp]:
  "free_pages (updp i f s) = free_pages s" "kmem_inv (updp i f s) = kmem_inv s"
  "pt_pages (updp i f s) pg = pt_pages s pg" "pte_of (updp i f s) pg x = pte_of s pg x"
  "frame_of (updp i f s) pg x = frame_of s pg x" "user_frames (updp i f s) pg lo hi = user_frames s pg lo hi"
  "bad_page q (updp i f s) = bad_page q s" "pde_present (updp i f s) pg k = pde_present s pg k"
  "pgtab_of (updp i f s) pg k = pgtab_of s pg k"
proof -
  have r: "read_pte (updp i f s) = read_pte s" by (rule ext) (simp add: read_pte_def)
  show b: "bad_page q (updp i f s) = bad_page q s" for q by (simp add: bad_page_def)
  have "kmem_list (updp i f s) vs = kmem_list s vs" for vs by (simp add: kmem_list_def b)
  then show "free_pages (updp i f s) = free_pages s" "kmem_inv (updp i f s) = kmem_inv s"
    by (simp_all add: free_pages_def kmem_inv_def)
  show d: "pde_present (updp i f s) pg k = pde_present s pg k" "pgtab_of (updp i f s) pg k = pgtab_of s pg k" for k
    by (simp_all add: pde_present_def pgtab_of_def r)
  show "pt_pages (updp i f s) pg = pt_pages s pg" by (simp add: pt_pages_def d)
  show p: "pte_of (updp i f s) pg x = pte_of s pg x" for x by (simp add: pte_of_def d r)
  then show f: "frame_of (updp i f s) pg x = frame_of s pg x" for x by (simp add: frame_of_def)
  have "frame_of (updp i f s) pg = frame_of s pg" by (rule ext) (rule f)
  then show "user_frames (updp i f s) pg lo hi = user_frames s pg lo hi" by (simp add: user_frames_def p)
qed

lemma updp_as_ok [simp]: "as_ok (updp i f s) pg = as_ok s pg"
  by (simp add: as_ok_def pt_ok_def)

lemma reapable_updp [simp]: "reapable (updp i f s) p = reapable s p" "held_pages (updp i f s) p = held_pages s p"
  by (simp_all add: reapable_def held_pages_def)

lemma reap_correct:
  fixes s :: "'a kproc_scheme"
  assumes "reapable s (procs s ! i)" "i < length (procs s)"
  shows "\<exists>t. reap i s = Ok (p_pid (procs s ! i)) t \<and> kmem_inv t \<and>
    free_pages t = free_pages s \<union> held_pages s (procs s ! i) \<and>
    procs t = (procs s)[i := free_slot ((procs s ! i)\<lparr>p_kstack := 0\<rparr>)] \<and>
    (\<forall>q. q \<notin> free_pages t \<longrightarrow> mem t q = mem s q)"
proof -
  let ?p = "procs s ! i" and ?g = "p_pgdir (procs s ! i)"
  have r: "as_ok s ?g" "?g \<noteq> 0" "\<forall>q\<in>pt_pages s ?g. \<not> bad_page q s" "\<not> bad_page (p_kstack ?p) s"
    "p_kstack ?p \<notin> free_pages s" "p_kstack ?p \<notin> pt_pages s ?g" "p_kstack ?p \<notin> user_frames s ?g 0 0x80000000"
    using assms(1) by (simp_all add: reapable_def)
  have inv: "kmem_inv s" using r(1) by (simp add: as_ok_def)
  obtain t where t: "kfree (p_kstack ?p) s = Ok () t" "kmem_inv t" "free_pages t = insert (p_kstack ?p) (free_pages s)"
    "kend t = kend s" "\<forall>q. q \<noteq> p_kstack ?p \<longrightarrow> mem t q = mem s q" using kfree_ok [OF inv r(4,5)] .
  have pt: "procs t = procs s" using mem_only_procs [OF mem_only_Ok [OF kfree_frame t(1)]] by simp
  have m: "\<forall>q\<in>pt_pages s ?g. mem t q = mem s q" using t(5) r(6) by metis
  have ft: "free_pages t = free_pages s \<union> {p_kstack ?p}" using t(3) by simp
  note c = as_ok_cong [OF r(1) m t(2,4) ft] pt_view_cong(3) [OF m]
  have ok: "as_ok t ?g" "user_frames t ?g 0 0x80000000 = user_frames s ?g 0 0x80000000" using c(1,2) r(6,7) by auto
  define u where "u = updp i (\<lambda>p. p\<lparr>p_kstack := 0\<rparr>) t"
  have "\<forall>q\<in>pt_pages u ?g. \<not> bad_page q u" using r(3) c(3) t(4) by (simp add: u_def bad_page_def)
  then obtain v where v: "freevm ?g u = Ok () v" "kmem_inv v"
    "free_pages v = free_pages u \<union> user_frames u ?g 0 0x80000000 \<union> pt_pages u ?g"
    "\<forall>q. q \<notin> free_pages v \<longrightarrow> mem v q = mem u q"
    using freevm_correct [of u ?g] ok(1) r(2) by (auto simp: u_def)
  have pv: "procs v = procs u" using mem_only_procs [OF mem_only_Ok [OF freevm_frame v(1)]] by simp
  have "p_pgdir (procs u ! i) = ?g" using assms(2) pt by (simp add: u_def)
  then have "reap i s = Ok (p_pid ?p) (updp i free_slot v)"
    using t(1) v(1) by (simp add: reap_def Let_def u_def)
  moreover have "free_pages v = free_pages s \<union> held_pages s ?p"
    using v(3) t(3) ok(2) c(3) by (auto simp: u_def held_pages_def)
  moreover have "procs (updp i free_slot v) = (procs s)[i := free_slot (?p\<lparr>p_kstack := 0\<rparr>)]"
    using pv pt assms(2) by (simp add: u_def)
  moreover have "mem (updp i free_slot v) q = mem s q" if "q \<notin> free_pages v" for q
    using that v(3,4) t(3,5) by (auto simp: u_def)
  ultimately show ?thesis using v(2) by (intro exI [of _ "updp i free_slot v"]) simp
qed


lemma store32_elsewhere:
  fixes s :: "'a kproc_scheme"
  assumes sp: "space_ok A s g" "unat st + 4 \<le> 2 ^ 32" "\<forall>j<4. st + of_nat j \<in> A \<and> writable s g (st + of_nat j)"
    and sep: "\<forall>j<4. frame_of s g (st + of_nat j) \<notin> free_pages s \<union> held_pages s p" and re: "reapable s p"
  obtains t where "store32 g st w s = Ok () t" "load32 g st t = Ok w t" "procs t = procs s" "cur t = cur s"
    "reapable t p" "held_pages t p = held_pages s p" "free_pages t = free_pages s"
    "\<forall>q\<in>pt_pages s g. mem t q = mem s q"
    "\<forall>x\<in>A. present s g x \<and> \<not> (unat st \<le> unat x \<and> unat x < unat st + 4) \<longrightarrow> ubyte t g x = ubyte s g x"
proof -
  let ?P = "free_pages s \<union> held_pages s p" and ?g = "p_pgdir p"
  have l: "length (put_u32 [0, 0, 0, 0] 0 w) = 4" by simp
  obtain t where t: "store32 g st w s = Ok () t" "load32 g st t = Ok w t" using store32_load32 [OF sp] by blast
  have u: "\<forall>x\<in>A. present s g x \<and> \<not> (unat st \<le> unat x \<and> unat x < unat st + 4) \<longrightarrow> ubyte t g x = ubyte s g x"
    using store_bytes_eq [OF sp(1), of st "put_u32 [0, 0, 0, 0] 0 w", unfolded l, OF sp(2,3)] t(1) unfolding store32_def by force
  have "frame_of s g (st + of_nat j) \<notin> ?P \<union> pt_pages s g" if "j < 4" for j
    using sep sp(1,3) that by (auto simp: space_ok_def)
  then have "freelist t = freelist s \<and> kend t = kend s \<and> (\<forall>q\<in>?P \<union> pt_pages s g. mem t q = mem s q)"
    by (intro store_bytes_mem [OF sp(1) _ t(1) [unfolded store32_def]]) (use sp(3) l in simp)
  then have f: "freelist t = freelist s" "kend t = kend s" and m: "\<forall>q\<in>?P. mem t q = mem s q" "\<forall>q\<in>pt_pages s g. mem t q = mem s q"
    by simp_all
  have ok: "as_ok s ?g" "kmem_inv s" using re reapable_def as_ok_def by blast+
  have mp: "\<forall>q\<in>pt_pages s ?g. mem t q = mem s q" using m(1) by (simp add: held_pages_def)
  have fr: "kmem_inv t" "free_pages t = free_pages s" using free_pages_cong [OF ok(2) f] m(1) by simp_all
  then have ft: "free_pages t = free_pages s \<union> {}" by simp
  note v = as_ok_cong [OF ok(1) mp fr(1) f(2) ft] pt_view_cong [OF mp]
  have "bad_page q t = bad_page q s" for q using f(2) by (simp add: bad_page_def)
  then have "reapable t p" using re v fr(2) by (simp add: reapable_def)
  moreover have "held_pages t p = held_pages s p" using v by (simp add: held_pages_def)
  moreover have "procs t = procs s" "cur t = cur s"
    using mem_only_procs [OF mem_only_Ok [OF store_bytes_frame t(1) [unfolded store32_def]]] by simp_all
  ultimately show thesis using that t fr(2) m(2) u by blast
qed

lemma user_view_cong:
  assumes "\<forall>q\<in>pt_pages s g. mem t q = mem s q" "present s g x" "mem t (frame_of s g x) = mem s (frame_of s g x)"
  shows "present t g x" "ubyte t g x = ubyte s g x"
  using assms(2,3) pt_view_cong [OF assms(1)] by (simp_all add: present_def ubyte_def)

lemma load32_cong:
  assumes "load32 g va s = Ok w s" "\<forall>j<4. present s g (va + of_nat j)"
    and "\<forall>j<4. present t g (va + of_nat j) \<and> ubyte t g (va + of_nat j) = ubyte s g (va + of_nat j)"
  shows "load32 g va t = Ok w t"
proof -
  have m: "map (\<lambda>j. ubyte t g (va + of_nat j)) [0..<4] = map (\<lambda>j. ubyte s g (va + of_nat j)) [0..<4]" using assms(3) by simp
  have "load_bytes g va 4 s = Ok (map (\<lambda>j. ubyte s g (va + of_nat j)) [0..<4]) s" by (rule load_bytes_eq [OF assms(2)])
  moreover have "load_bytes g va 4 t = Ok (map (\<lambda>j. ubyte s g (va + of_nat j)) [0..<4]) t"
    unfolding m [symmetric] by (rule load_bytes_eq) (use assms(3) in blast)
  ultimately show ?thesis using assms(1) by (simp add: load32_def)
qed

text \<open>C9. A parent that waits while a child has exited gets the child's pid as result, and when the call has returned the
  word it points to holds the child's exit status; the rest of its memory is as it was. Everything the child held (kernel
  stack, user pages, page tables) is free again, its slot is unused, and no other process has changed.\<close>

theorem wait_reaps_child:
  fixes s :: "'a kproc_scheme"
  assumes "cur s = Some c" "c < length (procs s)"
    and z: "ffind (\<lambda>p. p_parent p = Some c \<and> p_state p = ZOMBIE) (procs s) = Some i" and "st \<noteq> 0"
    and sp: "space_ok user_addrs s (p_pgdir (procs s ! c))" "unat st + 4 \<le> 0x80000000"
      "\<forall>j<4. writable s (p_pgdir (procs s ! c)) (st + of_nat j)"
    and sep: "\<forall>x\<in>user_addrs. present s (p_pgdir (procs s ! c)) x \<longrightarrow>
        frame_of s (p_pgdir (procs s ! c)) x \<notin> free_pages s \<union> held_pages s (procs s ! i)"
      "pt_pages s (p_pgdir (procs s ! c)) \<inter> (free_pages s \<union> held_pages s (procs s ! i)) = {}"
    and re: "reapable s (procs s ! i)"
  shows "\<exists>t. wait st s = Ok (p_pid (procs s ! i)) t \<and>
    load32 (p_pgdir (procs s ! c)) st t = Ok (of_int (p_status (procs s ! i))) t \<and>
    (\<forall>x\<in>user_addrs. present s (p_pgdir (procs s ! c)) x \<and> \<not> (unat st \<le> unat x \<and> unat x < unat st + 4) \<longrightarrow>
      ubyte t (p_pgdir (procs s ! c)) x = ubyte s (p_pgdir (procs s ! c)) x) \<and>
    kmem_inv t \<and> free_pages t = free_pages s \<union> held_pages s (procs s ! i) \<and>
    p_state (procs t ! i) = UNUSED \<and> p_pid (procs t ! i) = 0 \<and> p_parent (procs t ! i) = None \<and>
    (\<forall>j. j \<noteq> i \<longrightarrow> procs t ! j = procs s ! j)"
proof -
  let ?g = "p_pgdir (procs s ! c)" and ?w = "of_int (p_status (procs s ! i)) :: uint32"
  have i: "i < length (procs s)" using ffind_SomeD [OF z] by simp
  have A: "\<forall>j<4. st + of_nat j \<in> user_addrs \<and> writable s ?g (st + of_nat j)" "unat st + 4 \<le> 2 ^ 32"
    using range_unat [of st 4] sp(2,3) by simp_all
  have sep4: "\<forall>j<4. frame_of s ?g (st + of_nat j) \<notin> free_pages s \<union> held_pages s (procs s ! i)"
    using A(1) sep(1) by (simp add: writable_def)
  obtain u where u: "store32 ?g st ?w s = Ok () u" "load32 ?g st u = Ok ?w u" "procs u = procs s" "cur u = cur s"
    "reapable u (procs s ! i)" "held_pages u (procs s ! i) = held_pages s (procs s ! i)" "free_pages u = free_pages s"
    "\<forall>q\<in>pt_pages s ?g. mem u q = mem s q"
    "\<forall>x\<in>user_addrs. present s ?g x \<and> \<not> (unat st \<le> unat x \<and> unat x < unat st + 4) \<longrightarrow> ubyte u ?g x = ubyte s ?g x"
    using store32_elsewhere [OF sp(1) A(2,1) sep4 re] .
  define v where "v = updp i (\<lambda>p. p\<lparr>p_status := 0, p_ntickets := 0\<rparr>) u"
  have pv: "procs v ! i = (procs s ! i)\<lparr>p_status := 0, p_ntickets := 0\<rparr>" "i < length (procs v)"
    using i u(3) by (simp_all add: v_def)
  have rv: "reapable v q = reapable u q" "held_pages v q = held_pages u q" for q by (simp_all add: v_def)
  have rp: "reapable v (procs v ! i)" and hp: "held_pages v (procs v ! i) = held_pages s (procs s ! i)"
    using u(5,6) unfolding pv(1) rv by (simp_all add: reapable_def held_pages_def)
  have fp: "free_pages v = free_pages s" "p_pid (procs v ! i) = p_pid (procs s ! i)"
    using u(7) by (simp add: v_def) (simp add: pv(1))
  obtain t where t: "reap i v = Ok (p_pid (procs s ! i)) t" "kmem_inv t"
    "free_pages t = free_pages s \<union> held_pages s (procs s ! i)" "procs t = (procs v)[i := free_slot ((procs v ! i)\<lparr>p_kstack := 0\<rparr>)]"
    "\<forall>q. q \<notin> free_pages t \<longrightarrow> mem t q = mem v q"
    using reap_correct [OF rp pv(2), unfolded hp fp] by blast
  note vu = pt_view_cong [OF u(8)]
  have mt: "mem t q = mem u q" if "q \<notin> free_pages s \<union> held_pages s (procs s ! i)" for q
    using t(3,5) that by (simp add: v_def)
  then have pt: "\<forall>q\<in>pt_pages u ?g. mem t q = mem u q" using sep(2) unfolding vu(3) by blast
  have view: "present u ?g x \<and> present t ?g x \<and> ubyte t ?g x = ubyte u ?g x" if "x \<in> user_addrs" "present s ?g x" for x
  proof -
    have "present u ?g x" using that(2) vu(4) by (simp add: present_def)
    then show ?thesis using user_view_cong [OF pt] mt sep(1) that vu(5) by simp
  qed
  have "load32 ?g st t = Ok ?w t"
    by (rule load32_cong [OF u(2)]) (use A(1) view in \<open>simp_all add: writable_def\<close>)
  moreover have "\<forall>x\<in>user_addrs. present s ?g x \<and> \<not> (unat st \<le> unat x \<and> unat x < unat st + 4) \<longrightarrow> ubyte t ?g x = ubyte s ?g x"
    using view u(9) by simp
  moreover have "wait st s = Ok (p_pid (procs s ! i)) t"
    using assms(1,4) z u(1,2) t(1) by (simp add: wait_def mcur_def Let_def v_def)
  moreover have "p_state (procs t ! i) = UNUSED" "p_pid (procs t ! i) = 0" "p_parent (procs t ! i) = None"
    using t(4) pv(2) by (simp_all add: free_slot_def)
  moreover have "\<forall>j. j \<noteq> i \<longrightarrow> procs t ! j = procs s ! j" using t(4) u(3) by (simp add: v_def)
  ultimately show ?thesis using t(2,3) by blast
qed


section \<open>A concrete parent and child\<close>

text \<open>Two address spaces of one user page each.\<close>

definition wait_wit :: kproc where
  "wait_wit = kproc0\<lparr>freelist := 0,
     mem := (\<lambda>_. replicate 4096 0)(0x80400000 := put_u32 (replicate 4096 0) 0 0x401007,
       0x80401000 := put_u32 (replicate 4096 0) 0 0x402007, 0x80404000 := put_u32 (replicate 4096 0) 0 0x405007,
       0x80405000 := put_u32 (replicate 4096 0) 0 0x406007),
     procs := [proc0\<lparr>p_state := RUNNING, p_pid := 1, p_pgdir := 0x80404000\<rparr>,
       proc0\<lparr>p_state := ZOMBIE, p_pid := 2, p_pgdir := 0x80400000, p_kstack := 0x80403000, p_parent := Some 0, p_status := 7\<rparr>]\<rparr>"

lemma wait_wit_free: "free_pages wait_wit = {}" "kmem_inv wait_wit"
  using free_pages_list [of wait_wit "[]"]
  by (auto simp: kmem_inv_def kmem_list_def wait_wit_def intro!: exI [of _ "[]"])

lemma wait_wit_mem:
  "mem wait_wit 0x80400000 = put_u32 (replicate 4096 0) 0 0x401007" "mem wait_wit 0x80401000 = put_u32 (replicate 4096 0) 0 0x402007"
  "mem wait_wit 0x80404000 = put_u32 (replicate 4096 0) 0 0x405007" "mem wait_wit 0x80405000 = put_u32 (replicate 4096 0) 0 0x406007"
  "length (mem wait_wit p) = 4096" "kend wait_wit = 0x80400000"
  by (simp_all add: wait_wit_def kproc0_def)

lemmas wait_wit_child = one_page_view [OF wait_wit_mem(1,2), simplified PTE_ADDR_def p2v_def, simplified]
lemmas wait_wit_parent = one_page_view [OF wait_wit_mem(3,4), simplified PTE_ADDR_def p2v_def, simplified]

lemma wait_wit_frames:
  "unat x < 4096 \<Longrightarrow> frame_of wait_wit 0x80400000 x = 0x80402000"
  "unat x < 4096 \<Longrightarrow> frame_of wait_wit 0x80404000 x = 0x80406000"
  by (simp_all add: frame_of_def wait_wit_child(4) wait_wit_parent(4) PTE_ADDR_def p2v_def)

lemma wait_wit_user: "user_frames wait_wit 0x80400000 0 0x80000000 = {0x80402000}"
proof -
  have "user_frames wait_wit 0x80400000 0 0x80000000 = (\<lambda>_. 0x80402000) ` {x :: uint32. unat x < 4096}"
    unfolding user_frames_def by (intro image_cong) (auto simp: wait_wit_child(4) wait_wit_frames split: if_splits)
  also have "\<dots> = {0x80402000}" by (rule image_constant [of 0]) simp
  finally show ?thesis .
qed

lemma wait_wit_as_ok: "as_ok wait_wit 0x80400000"
  by (rule one_page_as_ok [OF wait_wit_mem(1,2)])
    (simp_all add: wait_wit_free wait_wit_mem bad_page_def v2p_def p2v_def PTE_ADDR_def)

lemma wait_reaps_child_witness:
  "\<exists>t. wait 0x10 wait_wit = Ok 2 t \<and> load32 0x80404000 0x10 t = Ok 7 t \<and> p_state (procs t ! 1) = UNUSED \<and>
    free_pages t = {0x80403000, 0x80400000, 0x80401000, 0x80402000}"
proof -
  have p: "procs wait_wit = [proc0\<lparr>p_state := RUNNING, p_pid := 1, p_pgdir := 0x80404000\<rparr>,
       proc0\<lparr>p_state := ZOMBIE, p_pid := 2, p_pgdir := 0x80400000, p_kstack := 0x80403000, p_parent := Some 0, p_status := 7\<rparr>]"
    "cur wait_wit = Some 0" by (simp_all add: wait_wit_def kproc0_def)
  have z: "ffind (\<lambda>p. p_parent p = Some 0 \<and> p_state p = ZOMBIE) (procs wait_wit) = Some 1" by (simp add: p proc0_def)
  have g: "p_pgdir (procs wait_wit ! 0) = 0x80404000" by (simp add: p)
  have hp: "held_pages wait_wit (procs wait_wit ! 1) = {0x80403000, 0x80400000, 0x80401000, 0x80402000}"
    by (auto simp: held_pages_def p wait_wit_child(1) wait_wit_user)
  have re: "reapable wait_wit (procs wait_wit ! 1)"
    using wait_wit_as_ok
    by (auto simp: reapable_def p wait_wit_child(1) wait_wit_user wait_wit_free)
      (simp_all add: bad_page_def wait_wit_mem v2p_def)
  have wr: "writable wait_wit 0x80404000 x \<longleftrightarrow> unat x < 4096" "present wait_wit 0x80404000 x \<longleftrightarrow> unat x < 4096" for x
    by (simp_all add: writable_def present_def wait_wit_parent(4))
  have sp: "space_ok user_addrs wait_wit 0x80404000"
    by (simp add: space_ok_def wr wait_wit_frames wait_wit_parent(1) wait_wit_mem(5) same_page_unat)
  have lo: "unat (0x10 + of_nat j :: uint32) < 4096" if "j < 4" for j
    using range_unat [of "0x10" 4 j] that by simp
  have fr: "\<forall>x\<in>user_addrs. present wait_wit 0x80404000 x \<longrightarrow>
      frame_of wait_wit 0x80404000 x \<notin> free_pages wait_wit \<union> held_pages wait_wit (procs wait_wit ! 1)"
    unfolding hp wait_wit_free by (simp add: wr wait_wit_frames)
  have pt: "pt_pages wait_wit 0x80404000 \<inter> (free_pages wait_wit \<union> held_pages wait_wit (procs wait_wit ! 1)) = {}"
    unfolding hp wait_wit_free wait_wit_parent(1) by simp
  have w4: "\<forall>j<4. writable wait_wit 0x80404000 (0x10 + of_nat j)" using lo by (simp add: wr)
  have "p_pid (procs wait_wit ! 1) = 2" "p_status (procs wait_wit ! 1) = 7" "(0::nat) < length (procs wait_wit)" by (simp_all add: p)
  note this wait_reaps_child [OF p(2) this(3) z _ _ _ _ _ _ re, of "0x10", unfolded g, OF _ sp _ w4 fr pt]
  then show ?thesis unfolding hp wait_wit_free by auto
qed

end
