(* ===== verification/Bio.thy ===== *)
theory Bio
  imports Reap
begin

text \<open>
  The disk of \<open>memide.c\<close> and the buffer cache of \<open>bio.c\<close>. Buffers are linked through
  \<open>prev\<close> and \<open>next\<close> into a ring with the list head; the model keeps the pointers, and the
  ring is related to the list of buffers, most recently used first, that it represents. On top of that
  the cache is shown to behave like the disk it caches.
\<close>

section \<open>Disk and buffers\<close>

abbreviation (input) BSIZE :: nat where "BSIZE \<equiv> 512"

text \<open>A pointer to the list head or to a buffer. The bits of \<open>flags\<close> are three booleans.\<close>

datatype bptr = BHead | BBuf nat

record buf =
  b_busy :: bool
  b_valid :: bool
  b_dirty :: bool
  b_dev :: uint32
  b_blockno :: uint32
  b_prev :: bptr
  b_next :: bptr
  b_data :: "uchar list"

text \<open>
  \<open>memdisk\<close> is the disk by block number. \<open>dtrace\<close> is a history variable: the block writes
  that have reached the disk, in order.
\<close>

record kbio = kproc +
  bufs :: "buf list"
  head_prev :: bptr
  head_next :: bptr
  memdisk :: "nat \<Rightarrow> uchar list"
  disksize :: nat
  dtrace :: "(nat \<times> uchar list) list"

definition updb :: "nat \<Rightarrow> (buf \<Rightarrow> buf) \<Rightarrow> 'a kbio_scheme \<Rightarrow> 'a kbio_scheme" where
  "updb i f s = s\<lparr>bufs := (bufs s)[i := f (bufs s ! i)]\<rparr>"

definition ideinit :: "(nat \<Rightarrow> uchar list) \<Rightarrow> nat \<Rightarrow> 'a kbio_scheme \<Rightarrow> 'a kbio_scheme" where
  "ideinit img img_size s = s\<lparr>memdisk := img, disksize := img_size div BSIZE\<rparr>"

definition iderw :: "nat \<Rightarrow> 'a kbio_scheme \<Rightarrow> (unit, 'a kbio_scheme) outcome" where
  "iderw i s =
    (let b = bufs s ! i; bn = unat (b_blockno b)
     in if \<not> b_busy b then Panic ''iderw: buf not busy''
        else if b_valid b \<and> \<not> b_dirty b then Panic ''iderw: nothing to do''
        else if b_dev b \<noteq> 1 then Panic ''iderw: request not for disk 1''
        else if bn \<ge> disksize s then Panic ''iderw: block out of range''
        else if b_dirty b then
          Ok () (updb i (\<lambda>b. b\<lparr>b_dirty := False, b_valid := True\<rparr>)
            (s\<lparr>memdisk := (memdisk s)(bn := b_data b), dtrace := dtrace s @ [(bn, b_data b)]\<rparr>))
        else Ok () (updb i (\<lambda>b. b\<lparr>b_data := memdisk s bn, b_valid := True\<rparr>) s))"


section \<open>The linked ring\<close>

definition buf_next :: "'a kbio_scheme \<Rightarrow> bptr \<Rightarrow> bptr" where
  "buf_next s p = (case p of BHead \<Rightarrow> head_next s | BBuf i \<Rightarrow> b_next (bufs s ! i))"

definition buf_prev :: "'a kbio_scheme \<Rightarrow> bptr \<Rightarrow> bptr" where
  "buf_prev s p = (case p of BHead \<Rightarrow> head_prev s | BBuf i \<Rightarrow> b_prev (bufs s ! i))"

definition set_next :: "bptr \<Rightarrow> bptr \<Rightarrow> 'a kbio_scheme \<Rightarrow> 'a kbio_scheme" where
  "set_next p q s = (case p of BHead \<Rightarrow> s\<lparr>head_next := q\<rparr> | BBuf i \<Rightarrow> updb i (\<lambda>b. b\<lparr>b_next := q\<rparr>) s)"

definition set_prev :: "bptr \<Rightarrow> bptr \<Rightarrow> 'a kbio_scheme \<Rightarrow> 'a kbio_scheme" where
  "set_prev p q s = (case p of BHead \<Rightarrow> s\<lparr>head_prev := q\<rparr> | BBuf i \<Rightarrow> updb i (\<lambda>b. b\<lparr>b_prev := q\<rparr>) s)"

definition link_front :: "nat \<Rightarrow> 'a kbio_scheme \<Rightarrow> 'a kbio_scheme" where
  "link_front i s =
    (let s = set_next (BBuf i) (head_next s) s; s = set_prev (BBuf i) BHead s;
         s = set_prev (head_next s) (BBuf i) s
     in set_next BHead (BBuf i) s)"

fun binit_loop :: "nat list \<Rightarrow> 'a kbio_scheme \<Rightarrow> 'a kbio_scheme" where
  "binit_loop [] s = s"
| "binit_loop (i # is) s =
    (let s = set_next (BBuf i) (head_next s) s; s = set_prev (BBuf i) BHead s;
         s = updb i (\<lambda>b. b\<lparr>b_dev := - 1\<rparr>) s;
         s = set_prev (head_next s) (BBuf i) s; s = set_next BHead (BBuf i) s
     in binit_loop is s)"

definition binit :: "'a kbio_scheme \<Rightarrow> 'a kbio_scheme" where
  "binit s = binit_loop [0..<length (bufs s)] (set_next BHead BHead (set_prev BHead BHead s))"

text \<open>
  Following \<open>next\<close> or \<open>prev\<close> until the head comes round again. The first argument bounds the
  steps; with more steps than buffers it is never reached on a ring.
\<close>

fun bscan :: "nat \<Rightarrow> (buf \<Rightarrow> bool) \<Rightarrow> ('a kbio_scheme \<Rightarrow> bptr \<Rightarrow> bptr) \<Rightarrow> bptr \<Rightarrow> 'a kbio_scheme \<Rightarrow> nat option" where
  "bscan 0 P step p s = None"
| "bscan (Suc n) P step p s =
    (case p of BHead \<Rightarrow> None
     | BBuf i \<Rightarrow> if P (bufs s ! i) then Some i else bscan n P step (step s p) s)"


section \<open>The buffer cache\<close>

definition bget :: "uint32 \<Rightarrow> uint32 \<Rightarrow> 'a kbio_scheme \<Rightarrow> (nat, 'a kbio_scheme) outcome" where
  "bget dev blockno s =
    (case bscan (Suc (length (bufs s))) (\<lambda>b. b_dev b = dev \<and> b_blockno b = blockno) buf_next (head_next s) s of
       Some i \<Rightarrow> if \<not> b_busy (bufs s ! i) then Ok i (updb i (\<lambda>b. b\<lparr>b_busy := True\<rparr>) s)
                 else sleep (ChanBuf i) s
     | None \<Rightarrow>
         (case bscan (Suc (length (bufs s))) (\<lambda>b. \<not> b_busy b \<and> \<not> b_dirty b) buf_prev (head_prev s) s of
            Some i \<Rightarrow> Ok i (updb i (\<lambda>b. b\<lparr>b_dev := dev, b_blockno := blockno,
              b_busy := True, b_valid := False, b_dirty := False\<rparr>) s)
          | None \<Rightarrow> Panic ''bget: no buffers''))"

definition bread :: "uint32 \<Rightarrow> uint32 \<Rightarrow> 'a kbio_scheme \<Rightarrow> (nat, 'a kbio_scheme) outcome" where
  "bread dev blockno s = mbind (bget dev blockno s) (\<lambda>i s.
     if \<not> b_valid (bufs s ! i) then mbind (iderw i s) (\<lambda>_ s. Ok i s) else Ok i s)"

definition bwrite :: "nat \<Rightarrow> 'a kbio_scheme \<Rightarrow> (unit, 'a kbio_scheme) outcome" where
  "bwrite i s =
    (if \<not> b_busy (bufs s ! i) then Panic ''bwrite''
     else iderw i (updb i (\<lambda>b. b\<lparr>b_dirty := True\<rparr>) s))"

definition brelse :: "nat \<Rightarrow> 'a kbio_scheme \<Rightarrow> (unit, 'a kbio_scheme) outcome" where
  "brelse i s =
    (if \<not> b_busy (bufs s ! i) then Panic ''brelse''
     else let s = set_prev (b_next (bufs s ! i)) (b_prev (bufs s ! i)) s;
              s = set_next (b_prev (bufs s ! i)) (b_next (bufs s ! i)) s;
              s = link_front i s
          in Ok () (wakeup (ChanBuf i) (updb i (\<lambda>b. b\<lparr>b_busy := False\<rparr>) s)))"


section \<open>Rings and lists\<close>

fun linked :: "('p \<Rightarrow> 'p) \<Rightarrow> ('p \<Rightarrow> 'p) \<Rightarrow> 'p list \<Rightarrow> bool" where
  "linked nx pv (p # q # ps) \<longleftrightarrow> nx p = q \<and> pv q = p \<and> linked nx pv (q # ps)"
| "linked nx pv [p] \<longleftrightarrow> True"
| "linked nx pv [] \<longleftrightarrow> True"

lemma linked_Cons: "linked nx pv (p # ps) \<longleftrightarrow> (case ps of [] \<Rightarrow> True | q # qs \<Rightarrow> nx p = q \<and> pv q = p \<and> linked nx pv ps)"
  by (cases ps) auto

lemma linked_append: "linked nx pv (as @ p # bs) \<longleftrightarrow> linked nx pv (as @ [p]) \<and> linked nx pv (p # bs)"
proof (induction as)
  case (Cons a as)
  then show ?case by (cases as) auto
qed simp

lemma linked_next_upd: "p \<notin> set (butlast ps) \<Longrightarrow> linked (nx(p := q)) pv ps = linked nx pv ps"
  by (induction nx pv ps rule: linked.induct) auto

lemma linked_prev_upd: "p \<notin> set (tl ps) \<Longrightarrow> linked nx (pv(p := q)) ps = linked nx pv ps"
proof (induction nx pv ps rule: linked.induct)
  case (1 nx pv a b ps)
  then show ?case by (cases ps) auto
qed auto

text \<open>Taking an element out of a ring and putting it in at the front.\<close>

lemma linked_unlink:
  assumes "linked nx pv (as @ a # x # c # cs)" "a \<notin> set as" "a \<notin> set (butlast (c # cs))"
    "c \<notin> set (tl (as @ [a]))" "c \<notin> set cs"
  shows "linked (nx(a := c)) (pv(c := a)) (as @ a # c # cs)"
proof -
  have old: "linked nx pv (as @ [a])" "linked nx pv (c # cs)"
    using assms(1) linked_append [of nx pv as a "x # c # cs"] by auto
  have "linked (nx(a := c)) (pv(c := a)) (as @ [a])"
    using old(1) assms(2,4) by (simp add: linked_next_upd linked_prev_upd)
  moreover have "linked (nx(a := c)) (pv(c := a)) (c # cs)"
    using old(2) assms(3,5) by (simp add: linked_next_upd linked_prev_upd)
  ultimately show ?thesis
    using linked_append [of "nx(a := c)" "pv(c := a)" as a "c # cs"] by simp
qed

lemma linked_insert:
  assumes "linked nx pv (h # c # cs)" "x \<noteq> h" "x \<noteq> c" "x \<notin> set cs" "h \<notin> set (butlast (c # cs))" "c \<notin> set cs"
  shows "linked (nx(x := c, h := x)) (pv(x := h, c := x)) (h # x # c # cs)"
proof -
  have "linked nx pv (c # cs)" using assms(1) by simp
  moreover have "x \<notin> set (butlast (c # cs))"
    using assms(3,4) by (auto dest: in_set_butlastD)
  ultimately have "linked (nx(x := c, h := x)) (pv(x := h, c := x)) (c # cs)"
    using assms by (simp add: linked_next_upd linked_prev_upd del: butlast.simps)
  then show ?thesis using assms by simp
qed

lemma bufs_updb: "bufs (updb i f s) = (bufs s)[i := f (bufs s ! i)]" by (simp add: updb_def)

lemma set_ptr_length [simp]:
  "length (bufs (set_next p q s)) = length (bufs s)" "length (bufs (set_prev p q s)) = length (bufs s)"
  "length (bufs (updb i f s)) = length (bufs s)" "length (bufs (link_front i s)) = length (bufs s)"
  by (auto simp: set_next_def set_prev_def bufs_updb link_front_def Let_def split: bptr.splits)

definition bptr_ok :: "'a kbio_scheme \<Rightarrow> bptr \<Rightarrow> bool" where
  "bptr_ok s p = (case p of BHead \<Rightarrow> True | BBuf i \<Rightarrow> i < length (bufs s))"

lemma bptr_ok_simps [simp]: "bptr_ok s BHead" "bptr_ok s (BBuf i) = (i < length (bufs s))"
  "bptr_ok (set_next p q s) r = bptr_ok s r" "bptr_ok (set_prev p q s) r = bptr_ok s r"
  by (auto simp: bptr_ok_def split: bptr.splits)

lemma buf_ptr_set:
  assumes "bptr_ok s p"
  shows "buf_next (set_next p q s) = (buf_next s)(p := q)" "buf_prev (set_prev p q s) = (buf_prev s)(p := q)"
    "buf_prev (set_next p q s) = buf_prev s" "buf_next (set_prev p q s) = buf_next s"
  using assms
  by (auto simp: fun_eq_iff buf_next_def buf_prev_def set_next_def set_prev_def bufs_updb nth_list_update updb_def
      split: bptr.splits)

lemma buf_next_simps: "head_next s = buf_next s BHead" "head_prev s = buf_prev s BHead"
  "b_next (bufs s ! i) = buf_next s (BBuf i)" "b_prev (bufs s ! i) = buf_prev s (BBuf i)"
  by (simp_all add: buf_next_def buf_prev_def)

definition ring :: "'a kbio_scheme \<Rightarrow> nat list \<Rightarrow> bool" where
  "ring s xs \<longleftrightarrow> distinct xs \<and> set xs = {..<length (bufs s)} \<and>
     linked (buf_next s) (buf_prev s) (BHead # map BBuf xs @ [BHead])"

text \<open>The ring from a chain of a part of the buffers.\<close>

definition chain :: "'a kbio_scheme \<Rightarrow> nat list \<Rightarrow> bool" where
  "chain s xs \<longleftrightarrow> distinct xs \<and> set xs \<subseteq> {..<length (bufs s)} \<and>
     linked (buf_next s) (buf_prev s) (BHead # map BBuf xs @ [BHead])"

lemma ring_chain: "ring s xs \<longleftrightarrow> chain s xs \<and> set xs = {..<length (bufs s)}"
  by (auto simp: ring_def chain_def)

lemma chain_hd: "chain s xs \<Longrightarrow> buf_next s BHead = hd (map BBuf xs @ [BHead])"
  by (cases xs) (auto simp: chain_def)

lemma link_front_chain:
  assumes "chain s xs" "i \<notin> set xs" "i < length (bufs s)"
  shows "chain (link_front i s) (i # xs)"
proof -
  obtain c cs where cs: "map BBuf xs @ [BHead] = c # cs" by (cases "map BBuf xs @ [BHead]") auto
  have c: "buf_next s BHead = c" using chain_hd [OF assms(1)] cs by simp
  have ok: "bptr_ok s c" using assms(1) cs by (cases xs) (auto simp: chain_def)
  have l: "linked (buf_next s) (buf_prev s) (BHead # c # cs)" using assms(1) cs by (simp add: chain_def)
  have nin: "BBuf i \<notin> set (c # cs)" using assms(2) cs [symmetric] by auto
  have hd: "BHead \<notin> set (butlast (c # cs))" using cs [symmetric] by (auto simp: butlast_append)
  have "distinct (c # cs)" using assms(1) cs [symmetric] by (auto simp: chain_def distinct_map inj_on_def)
  then have "c \<notin> set cs" by simp
  then have "linked ((buf_next s)(BBuf i := c, BHead := BBuf i)) ((buf_prev s)(BBuf i := BHead, c := BBuf i))
      (BHead # BBuf i # c # cs)"
    using linked_insert [OF l, of "BBuf i"] nin hd by simp
  moreover have "buf_next (link_front i s) = (buf_next s)(BBuf i := c, BHead := BBuf i)"
    "buf_prev (link_front i s) = (buf_prev s)(BBuf i := BHead, c := BBuf i)"
    using assms(3) ok by (simp_all add: link_front_def Let_def buf_next_simps buf_ptr_set c)
  ultimately have "linked (buf_next (link_front i s)) (buf_prev (link_front i s)) (BHead # map BBuf (i # xs) @ [BHead])"
    by (simp add: cs)
  then show ?thesis using assms by (simp add: chain_def)
qed

definition unlink :: "nat \<Rightarrow> 'a kbio_scheme \<Rightarrow> 'a kbio_scheme" where
  "unlink i s =
    (let s = set_prev (b_next (bufs s ! i)) (b_prev (bufs s ! i)) s
     in set_next (b_prev (bufs s ! i)) (b_next (bufs s ! i)) s)"

lemma brelse_eq:
  "brelse i s = (if \<not> b_busy (bufs s ! i) then Panic ''brelse''
     else Ok () (wakeup (ChanBuf i) (updb i (\<lambda>b. b\<lparr>b_busy := False\<rparr>) (link_front i (unlink i s)))))"
  by (simp add: brelse_def unlink_def Let_def)

lemma unlink_chain:
  assumes "chain s (ys @ i # zs)"
  shows "chain (unlink i s) (ys @ zs)"
proof -
  define a where "a = last (BHead # map BBuf ys)"
  define as where "as = butlast (BHead # map BBuf ys)"
  obtain c cs where cs: "map BBuf zs @ [BHead] = c # cs" by (cases "map BBuf zs @ [BHead]") auto
  have as: "BHead # map BBuf ys = as @ [a]" by (simp add: a_def as_def)
  have path: "BHead # map BBuf (ys @ i # zs) @ [BHead] = as @ a # BBuf i # c # cs"
    using as cs by (metis (no_types, opaque_lifting) append.assoc append_Cons append_Nil list.simps(9) map_append)
  have path': "BHead # map BBuf (ys @ zs) @ [BHead] = as @ a # c # cs"
    using as cs by (metis (no_types, opaque_lifting) append.assoc append_Cons append_Nil map_append)
  have d: "distinct ys" "distinct zs" "i \<notin> set ys" "i \<notin> set zs" "set ys \<inter> set zs = {}"
    and l: "linked (buf_next s) (buf_prev s) (as @ a # BBuf i # c # cs)"
    using assms by (auto simp: chain_def path [symmetric])
  have an: "buf_prev s (BBuf i) = a" "buf_next s (BBuf i) = c"
    using l linked_append [of "buf_next s" "buf_prev s" as a "BBuf i # c # cs"] by auto
  have ok: "bptr_ok s a" "bptr_ok s c"
    using assms cs by (cases ys rule: rev_cases; cases zs; auto simp: a_def chain_def)+
  have ne: "c \<noteq> BBuf i" "a \<noteq> BBuf i"
    using d cs by (cases ys rule: rev_cases; cases zs; auto simp: a_def)+
  have "distinct (as @ [a])" using d by (simp add: as [symmetric] distinct_map inj_on_def) auto
  then have 1: "a \<notin> set as" by simp
  have 2: "a \<notin> set (butlast (c # cs))"
    using d by (cases ys rule: rev_cases) (auto simp: cs [symmetric] a_def butlast_append)
  have 3: "c \<notin> set (tl (as @ [a]))"
    using d cs by (cases zs) (auto simp: as [symmetric])
  have "distinct (c # cs)" using d by (auto simp: cs [symmetric] distinct_map inj_on_def)
  then have 4: "c \<notin> set cs" by simp
  have "buf_next (unlink i s) = (buf_next s)(a := c)" "buf_prev (unlink i s) = (buf_prev s)(c := a)"
    using ok ne an by (simp_all add: unlink_def Let_def buf_next_simps buf_ptr_set)
  then have "linked (buf_next (unlink i s)) (buf_prev (unlink i s)) (as @ a # c # cs)"
    using linked_unlink [OF l 1 2 3 4] by simp
  moreover have "length (bufs (unlink i s)) = length (bufs s)" by (simp add: unlink_def Let_def)
  ultimately show ?thesis using assms d by (auto simp: chain_def path' [symmetric])
qed

lemma bscan_next:
  assumes "linked (buf_next s) pv (map BBuf xs @ [BHead])" "length xs < n"
  shows "bscan n P buf_next (hd (map BBuf xs @ [BHead])) s = find (\<lambda>i. P (bufs s ! i)) xs"
  using assms
proof (induction xs arbitrary: n)
  case (Cons x xs)
  then show ?case by (cases n; cases xs) auto
qed (auto simp: gr0_conv_Suc)

lemma linked_rev: "linked nx pv (rev ps) = linked pv nx ps"
proof (induction pv nx ps rule: linked.induct)
  case (1 nx pv p q ps)
  then show ?case using linked_append [of pv nx "rev ps" q "[p]"] by auto
qed auto

lemma bscan_prev:
  assumes "linked (buf_prev s) nx (map BBuf xs @ [BHead])" "length xs < n"
  shows "bscan n P buf_prev (hd (map BBuf xs @ [BHead])) s = find (\<lambda>i. P (bufs s ! i)) xs"
  using assms
proof (induction xs arbitrary: n)
  case (Cons x xs)
  then show ?case by (cases n; cases xs) auto
qed (auto simp: gr0_conv_Suc)

lemma ring_length: "ring s xs \<Longrightarrow> length xs = length (bufs s)"
  using distinct_card [of xs] by (simp add: ring_def)

text \<open>Both searches of \<open>bget\<close> visit every buffer, in the order of the list and against it.\<close>

lemma ring_scan:
  assumes "ring s xs"
  shows "bscan (Suc (length (bufs s))) P buf_next (head_next s) s = find (\<lambda>i. P (bufs s ! i)) xs"
    and "bscan (Suc (length (bufs s))) P buf_prev (head_prev s) s = find (\<lambda>i. P (bufs s ! i)) (rev xs)"
proof -
  have l: "linked (buf_next s) (buf_prev s) (BHead # map BBuf xs @ [BHead])" using assms by (simp add: ring_def)
  have "head_next s = hd (map BBuf xs @ [BHead])" "linked (buf_next s) (buf_prev s) (map BBuf xs @ [BHead])"
    using l by (cases xs; simp add: buf_next_simps)+
  then show "bscan (Suc (length (bufs s))) P buf_next (head_next s) s = find (\<lambda>i. P (bufs s ! i)) xs"
    using bscan_next [of s "buf_prev s" xs] ring_length [OF assms] by (simp del: bscan.simps)
  have r: "linked (buf_prev s) (buf_next s) (BHead # map BBuf (rev xs) @ [BHead])"
    using l linked_rev [of "buf_prev s" "buf_next s" "BHead # map BBuf xs @ [BHead]"] by (simp add: rev_map)
  have "head_prev s = hd (map BBuf (rev xs) @ [BHead])"
      "linked (buf_prev s) (buf_next s) (map BBuf (rev xs) @ [BHead])"
    using r by (cases "rev xs"; simp add: buf_next_simps)+
  then show "bscan (Suc (length (bufs s))) P buf_prev (head_prev s) s = find (\<lambda>i. P (bufs s ! i)) (rev xs)"
    using bscan_prev [of s "buf_next s" "rev xs"] ring_length [OF assms] by (simp del: bscan.simps)
qed

text \<open>The part of a buffer that the ring's links are not.\<close>

definition bcore :: "buf \<Rightarrow> buf" where
  "bcore b = b\<lparr>b_prev := BHead, b_next := BHead\<rparr>"

lemma bcore_eqD: "bcore b = bcore c \<Longrightarrow> b_busy b = b_busy c \<and> b_valid b = b_valid c \<and> b_dirty b = b_dirty c \<and>
   b_dev b = b_dev c \<and> b_blockno b = b_blockno c \<and> b_data b = b_data c"
  by (cases b; cases c) (simp add: bcore_def)

definition links_rest :: "'a kbio_scheme \<Rightarrow> 'a kbio_scheme" where
  "links_rest s = s\<lparr>bufs := [], head_prev := BHead, head_next := BHead\<rparr>"

definition links_only :: "'a kbio_scheme \<Rightarrow> 'a kbio_scheme \<Rightarrow> bool" where
  "links_only s t \<longleftrightarrow> links_rest t = links_rest s \<and> map bcore (bufs t) = map bcore (bufs s)"

lemma links_only_trans: "links_only s t \<Longrightarrow> links_only t u \<Longrightarrow> links_only s u"
  by (simp add: links_only_def)

lemma bcore_upd: "map bcore (xs[i := (xs ! i)\<lparr>b_prev := q\<rparr>]) = map bcore xs"
  "map bcore (xs[i := (xs ! i)\<lparr>b_next := q\<rparr>]) = map bcore xs"
proof -
  have "map bcore (xs[i := b]) = map bcore xs" if "bcore b = bcore (xs ! i)" for b
    using that by (cases "i < length xs") (auto intro!: nth_equalityI simp: nth_list_update)
  then show "map bcore (xs[i := (xs ! i)\<lparr>b_prev := q\<rparr>]) = map bcore xs"
    "map bcore (xs[i := (xs ! i)\<lparr>b_next := q\<rparr>]) = map bcore xs"
    by (simp_all add: bcore_def)
qed

lemma set_links_only: "links_only s (set_next p q s)" "links_only s (set_prev p q s)"
  by (auto simp: links_only_def links_rest_def set_next_def set_prev_def updb_def bcore_upd split: bptr.splits)

lemma link_links_only: "links_only s (link_front i s)" "links_only s (unlink i s)"
  unfolding link_front_def unlink_def Let_def
  by (rule set_links_only | rule links_only_trans [rotated], rule set_links_only)+


lemma links_only_core:
  assumes "links_only s t"
  shows "length (bufs t) = length (bufs s)" "i < length (bufs s) \<Longrightarrow> bcore (bufs t ! i) = bcore (bufs s ! i)"
proof -
  have e: "map bcore (bufs t) = map bcore (bufs s)" using assms by (simp add: links_only_def)
  then show l: "length (bufs t) = length (bufs s)" by (rule map_eq_imp_length_eq)
  show "i < length (bufs s) \<Longrightarrow> bcore (bufs t ! i) = bcore (bufs s ! i)"
    using arg_cong [OF e, of "\<lambda>xs. xs ! i"] l by simp
qed

lemma links_only_fields:
  assumes "links_only s t"
  shows "memdisk t = memdisk s" "dtrace t = dtrace s" "disksize t = disksize s"
proof -
  have e: "links_rest t = links_rest s" using assms by (simp add: links_only_def)
  show "memdisk t = memdisk s" "dtrace t = dtrace s" "disksize t = disksize s"
    using arg_cong [OF e, of memdisk] arg_cong [OF e, of dtrace] arg_cong [OF e, of disksize]
    by (simp_all add: links_rest_def)
qed

lemma nth_upd: "xs[i := x] ! j = (if i = j \<and> i < length xs then x else xs ! j)"
  by (cases "i < length xs") (auto simp: nth_list_update list_update_beyond)

lemma updb_ring:
  assumes "ring s xs" "\<And>b. b_prev (f b) = b_prev b" "\<And>b. b_next (f b) = b_next b"
  shows "ring (updb i f s) xs"
proof -
  have "buf_next (updb i f s) = buf_next s" "buf_prev (updb i f s) = buf_prev s"
    using assms by (auto simp: fun_eq_iff buf_next_def buf_prev_def bufs_updb updb_def nth_upd split: bptr.splits)
  then show ?thesis using assms(1) by (simp add: ring_def)
qed

lemma ring_to_front:
  assumes "ring s xs" "i < length (bufs s)"
  shows "ring (link_front i (unlink i s)) (i # remove1 i xs)"
proof -
  have i: "i \<in> set xs" using assms by (simp add: ring_def)
  then obtain ys zs where xs: "xs = ys @ i # zs" "i \<notin> set ys" using split_list_first by fastforce
  have c: "chain (unlink i s) (ys @ zs)" using assms(1) unlink_chain by (auto simp: ring_chain xs)
  have l: "length (bufs (unlink i s)) = length (bufs s)" by (simp add: unlink_def Let_def)
  have "i \<notin> set (ys @ zs)" using assms(1) by (auto simp: ring_def xs)
  then have "chain (link_front i (unlink i s)) (i # ys @ zs)"
    using link_front_chain [OF c] assms(2) l by simp
  moreover have "remove1 i xs = ys @ zs" using xs by (simp add: remove1_append)
  moreover have "set (i # ys @ zs) = {..<length (bufs s)}" using assms(1) by (auto simp: ring_def xs)
  ultimately show ?thesis using l by (simp add: ring_chain)
qed

lemma wakeup_bio [simp]: "bufs (wakeup ch s) = bufs s" "memdisk (wakeup ch s) = memdisk s"
  "disksize (wakeup ch s) = disksize s" "dtrace (wakeup ch s) = dtrace s"
  "head_next (wakeup ch s) = head_next s" "head_prev (wakeup ch s) = head_prev s"
  by (simp_all add: wakeup_def wakeup1_def Let_def)

lemma ring_cong: "bufs t = bufs s \<Longrightarrow> head_next t = head_next s \<Longrightarrow> head_prev t = head_prev s \<Longrightarrow> ring t xs = ring s xs"
proof -
  assume a: "bufs t = bufs s" "head_next t = head_next s" "head_prev t = head_prev s"
  have "buf_next t = buf_next s" "buf_prev t = buf_prev s"
    using a by (auto simp: fun_eq_iff buf_next_def buf_prev_def split: bptr.splits)
  then show "ring t xs = ring s xs" using a by (simp add: ring_def)
qed

text \<open>\<open>binit\<close> builds a ring of all buffers, the last one at the front.\<close>

lemma binit_loop_chain:
  assumes "chain s xs" "distinct is" "set is \<inter> set xs = {}" "set is \<subseteq> {..<length (bufs s)}"
  shows "chain (binit_loop is s) (rev is @ xs) \<and> length (bufs (binit_loop is s)) = length (bufs s)"
  using assms
proof (induction "is" arbitrary: s xs)
  case (Cons i "is")
  define u where "u = updb i (\<lambda>b. b\<lparr>b_dev := - 1\<rparr>) s"
  have u: "chain u xs" "length (bufs u) = length (bufs s)"
  proof -
    have "buf_next u = buf_next s" "buf_prev u = buf_prev s"
      by (auto simp: fun_eq_iff u_def buf_next_def buf_prev_def bufs_updb updb_def nth_upd split: bptr.splits)
    then show "chain u xs" "length (bufs u) = length (bufs s)"
      using Cons.prems(1) by (simp_all add: chain_def u_def)
  qed
  have c: "chain (link_front i u) (i # xs)" using link_front_chain [OF u(1)] Cons.prems u(2) by auto
  have "i < length (bufs s)" using Cons.prems by simp
  then have "updb i (\<lambda>b. b\<lparr>b_dev := - 1\<rparr>) (set_prev (BBuf i) BHead (set_next (BBuf i) (head_next s) s)) =
      set_prev (BBuf i) BHead (set_next (BBuf i) (head_next u) u)"
    by (cases "bufs s ! i") (simp add: u_def set_next_def set_prev_def updb_def)
  then have "binit_loop (i # is) s = binit_loop is (link_front i u)"
    by (simp only: binit_loop.simps link_front_def Let_def)
  then show ?case using Cons.IH [OF c] Cons.prems u(2) by auto
qed simp

lemma binit_ring: "ring (binit s) (rev [0..<length (bufs s)])"
proof -
  define u where "u = set_next BHead BHead (set_prev BHead BHead s)"
  have "chain u []" "length (bufs u) = length (bufs s)"
    by (simp_all add: u_def chain_def buf_next_def buf_prev_def set_next_def set_prev_def)
  then have "chain (binit s) (rev [0..<length (bufs s)])" "length (bufs (binit s)) = length (bufs s)"
    using binit_loop_chain [of u "[]" "[0..<length (bufs s)]"] by (simp_all add: binit_def u_def atLeast0LessThan)
  then show ?thesis by (auto simp: ring_chain)
qed



section \<open>The cache as a disk\<close>

text \<open>
  The content of a block is that of its valid buffer, or of the disk. Buffers of the disk are distinct,
  a busy or dirty buffer is valid, and a buffer that is neither busy nor dirty holds what the disk holds.
\<close>

definition cached :: "'a kbio_scheme \<Rightarrow> nat \<Rightarrow> nat \<Rightarrow> bool" where
  "cached s i bn \<longleftrightarrow> i < length (bufs s) \<and> b_valid (bufs s ! i) \<and> b_dev (bufs s ! i) = 1 \<and>
     unat (b_blockno (bufs s ! i)) = bn"

definition view :: "'a kbio_scheme \<Rightarrow> nat \<Rightarrow> uchar list" where
  "view s bn = (case find (\<lambda>b. b_valid b \<and> b_dev b = 1 \<and> unat (b_blockno b) = bn) (bufs s) of
     Some b \<Rightarrow> b_data b | None \<Rightarrow> memdisk s bn)"

definition buf_ok :: "'a kbio_scheme \<Rightarrow> buf \<Rightarrow> bool" where
  "buf_ok s b \<longleftrightarrow> (b_busy b \<longrightarrow> b_valid b) \<and> (b_dirty b \<longrightarrow> b_valid b) \<and>
     (b_valid b \<longrightarrow> b_dev b = 1 \<and> unat (b_blockno b) < disksize s \<and> length (b_data b) = BSIZE) \<and>
     (b_valid b \<and> \<not> b_busy b \<and> \<not> b_dirty b \<longrightarrow> b_data b = memdisk s (unat (b_blockno b)))"

definition buf_unique :: "'a kbio_scheme \<Rightarrow> bool" where
  "buf_unique s \<longleftrightarrow> (\<forall>i<length (bufs s). \<forall>j<length (bufs s).
     b_dev (bufs s ! i) = 1 \<and> b_dev (bufs s ! j) = 1 \<and> b_blockno (bufs s ! i) = b_blockno (bufs s ! j) \<longrightarrow> i = j)"

definition cache_ok :: "'a kbio_scheme \<Rightarrow> bool" where
  "cache_ok s \<longleftrightarrow> (\<exists>xs. ring s xs) \<and> buf_unique s \<and> (\<forall>i<length (bufs s). buf_ok s (bufs s ! i)) \<and>
     (\<forall>bn<disksize s. length (memdisk s bn) = BSIZE)"

definition busy_blocks :: "'a kbio_scheme \<Rightarrow> nat set" where
  "busy_blocks s = {bn. \<exists>i. cached s i bn \<and> b_busy (bufs s ! i)}"

definition dirty_blocks :: "'a kbio_scheme \<Rightarrow> nat set" where
  "dirty_blocks s = {bn. \<exists>i. cached s i bn \<and> b_dirty (bufs s ! i)}"

text \<open>The caller of \<open>bread\<close> holds buffer \<open>i\<close> for block \<open>bn\<close>.\<close>

definition holds :: "'a kbio_scheme \<Rightarrow> nat \<Rightarrow> nat \<Rightarrow> bool" where
  "holds s i bn \<longleftrightarrow> cached s i bn \<and> b_busy (bufs s ! i)"

definition set_data :: "nat \<Rightarrow> uchar list \<Rightarrow> 'a kbio_scheme \<Rightarrow> 'a kbio_scheme" where
  "set_data i d s = updb i (\<lambda>b. b\<lparr>b_data := d\<rparr>) s"

lemma cached_unique:
  assumes "buf_unique s" "cached s i bn" "cached s j bn"
  shows "i = j"
proof -
  have "b_blockno (bufs s ! i) = b_blockno (bufs s ! j)"
    using assms(2,3) by (simp add: cached_def word_unat_eq_iff)
  then show ?thesis using assms unfolding buf_unique_def cached_def by blast
qed

lemma view_cached:
  assumes "buf_unique s" "cached s i bn"
  shows "view s bn = b_data (bufs s ! i)"
proof -
  define P where "P = (\<lambda>b :: buf. b_valid b \<and> b_dev b = 1 \<and> unat (b_blockno b) = bn)"
  obtain b where b: "find P (bufs s) = Some b"
  proof (cases "find P (bufs s)")
    case None
    then have "\<not> P (bufs s ! i)" using assms(2) by (auto simp: find_None_iff cached_def)
    then show ?thesis using assms(2) by (simp add: P_def cached_def)
  qed
  then obtain j where "j < length (bufs s)" "P b" "b = bufs s ! j" by (auto simp: find_Some_iff)
  then have "cached s j bn" by (simp add: cached_def P_def)
  then have "j = i" using cached_unique [OF assms(1)] assms(2) by blast
  then show ?thesis using b \<open>b = bufs s ! j\<close> by (simp add: view_def P_def [symmetric])
qed

lemma view_uncached: "\<nexists>i. cached s i bn \<Longrightarrow> view s bn = memdisk s bn"
  by (auto simp: view_def cached_def in_set_conv_nth find_Some_iff split: option.splits)

text \<open>What the operations of the cache leave alone.\<close>

definition bio_rest :: "'a kbio_scheme \<Rightarrow> 'a kbio_scheme" where
  "bio_rest s = s\<lparr>bufs := [], head_prev := BHead, head_next := BHead, memdisk := \<lambda>_. [], dtrace := [],
     procs := [], oob_ntickets := 0\<rparr>"

definition bio_only :: "'a kbio_scheme \<Rightarrow> 'a kbio_scheme \<Rightarrow> bool" where
  "bio_only s t \<longleftrightarrow> bio_rest t = bio_rest s \<and> length (bufs t) = length (bufs s)"

lemma bio_only_refl [simp]: "bio_only s s" by (simp add: bio_only_def)

lemma bio_only_trans: "bio_only s t \<Longrightarrow> bio_only t u \<Longrightarrow> bio_only s u"
  by (simp add: bio_only_def)

lemma bio_only_disksize: "bio_only s t \<Longrightarrow> disksize t = disksize s"
  by (drule bio_only_def [THEN iffD1], drule conjunct1, drule arg_cong [of _ _ disksize]) (simp add: bio_rest_def)

lemma bio_only_updb: "bio_only s (updb i f s)" by (simp add: bio_only_def bio_rest_def updb_def)

lemma bio_only_wakeup: "bio_only s (wakeup ch s)"
  by (simp add: bio_only_def bio_rest_def wakeup_def wakeup1_def Let_def)

lemma bio_only_links: "links_only s t \<Longrightarrow> bio_only s t"
  using links_only_core(1) [of s t] arg_cong [of "links_rest t" "links_rest s" bio_rest]
  by (simp add: bio_only_def links_only_def) (simp add: links_rest_def bio_rest_def)


subsection \<open>Reading a block\<close>

definition taken :: "uint32 \<Rightarrow> uchar list \<Rightarrow> buf \<Rightarrow> buf" where
  "taken bn d b = b\<lparr>b_busy := True, b_valid := True, b_dev := 1, b_blockno := bn, b_data := d\<rparr>"

lemma find_SomeD: "find P xs = Some x \<Longrightarrow> x \<in> set xs \<and> P x"
  by (induction xs) (auto split: if_splits)

lemma free_buffer:
  assumes "cache_ok s" "card (busy_blocks s \<union> dirty_blocks s) < length (bufs s)"
  shows "\<exists>i<length (bufs s). \<not> b_busy (bufs s ! i) \<and> \<not> b_dirty (bufs s ! i)"
proof (rule ccontr)
  assume all: "\<not> ?thesis"
  define f where "f i = unat (b_blockno (bufs s ! i))" for i
  have c: "cached s i (f i)" if "i < length (bufs s)" for i
    using that all assms(1) by (auto simp: cache_ok_def buf_ok_def cached_def f_def)
  have "inj_on f {..<length (bufs s)}"
    using c cached_unique [of s] assms(1) by (auto simp: inj_on_def cache_ok_def) (metis c lessThan_iff)
  moreover have "f ` {..<length (bufs s)} \<subseteq> busy_blocks s \<union> dirty_blocks s"
    using c all by (auto simp: busy_blocks_def dirty_blocks_def)
  moreover have "busy_blocks s \<union> dirty_blocks s \<subseteq> f ` {..<length (bufs s)}"
    by (auto simp: busy_blocks_def dirty_blocks_def cached_def f_def)
  ultimately have "card (busy_blocks s \<union> dirty_blocks s) = length (bufs s)"
    by (metis card_image card_lessThan subset_antisym)
  then show False using assms(2) by simp
qed

lemma bread_taken:
  assumes "cache_ok s" "unat bn < disksize s" "unat bn \<notin> busy_blocks s"
    "(\<exists>i. cached s i (unat bn)) \<or> card (busy_blocks s \<union> dirty_blocks s) < length (bufs s)"
  shows "\<exists>i<length (bufs s). bread 1 bn s = Ok i (updb i (taken bn (view s (unat bn))) s) \<and> \<not> b_busy (bufs s ! i) \<and>
     (b_dev (bufs s ! i) = 1 \<and> b_blockno (bufs s ! i) = bn \<or>
      (\<forall>j<length (bufs s). \<not> (b_dev (bufs s ! j) = 1 \<and> b_blockno (bufs s ! j) = bn)) \<and> \<not> b_dirty (bufs s ! i))"
proof -
  obtain xs where r: "ring s xs" using assms(1) by (auto simp: cache_ok_def)
  then have xs: "set xs = {..<length (bufs s)}" by (simp add: ring_def)
  have u: "buf_unique s" using assms(1) by (simp add: cache_ok_def)
  note scans = ring_scan [OF r]
  show ?thesis
  proof (cases "find (\<lambda>i. b_dev (bufs s ! i) = 1 \<and> b_blockno (bufs s ! i) = bn) xs")
    case (Some i)
    then have i: "i < length (bufs s)" "b_dev (bufs s ! i) = 1" "b_blockno (bufs s ! i) = bn"
      using xs find_SomeD [OF Some] by auto
    then have ok: "buf_ok s (bufs s ! i)" using assms(1) by (simp add: cache_ok_def)
    have nb: "\<not> b_busy (bufs s ! i)"
    proof
      assume "b_busy (bufs s ! i)"
      then have "unat bn \<in> busy_blocks s" using i ok by (auto simp: busy_blocks_def cached_def buf_ok_def)
      then show False using assms(3) by blast
    qed
    have g: "bget 1 bn s = Ok i (updb i (\<lambda>b. b\<lparr>b_busy := True\<rparr>) s)"
      by (simp add: bget_def scans Some nb del: bscan.simps)
    have "bread 1 bn s = Ok i (updb i (taken bn (view s (unat bn))) s)"
    proof (cases "b_valid (bufs s ! i)")
      case True
      then have "view s (unat bn) = b_data (bufs s ! i)"
        using view_cached [OF u, of i "unat bn"] i by (simp add: cached_def)
      then show ?thesis using i True
        by (cases "bufs s ! i") (simp add: bread_def g bufs_updb, simp add: updb_def taken_def)
    next
      case False
      then have "view s (unat bn) = memdisk s (unat bn)"
        using view_uncached [of s "unat bn"] i u unfolding buf_unique_def cached_def
        by (metis word_unat_eq_iff)
      moreover have "\<not> b_dirty (bufs s ! i)" using ok False by (simp add: buf_ok_def)
      ultimately show ?thesis using i False assms(2)
        by (cases "bufs s ! i")
          (simp add: bread_def g bufs_updb iderw_def, simp add: updb_def taken_def)
    qed
    then show ?thesis using i nb by blast
  next
    case None
    then have no: "\<forall>j<length (bufs s). \<not> (b_dev (bufs s ! j) = 1 \<and> b_blockno (bufs s ! j) = bn)"
      using xs by (auto simp: find_None_iff)
    then have nc: "\<nexists>i. cached s i (unat bn)" by (auto simp: cached_def word_unat_eq_iff)
    then obtain k where k: "k < length (bufs s)" "\<not> b_busy (bufs s ! k) \<and> \<not> b_dirty (bufs s ! k)"
      using free_buffer [OF assms(1)] assms(4) by blast
    obtain i where f: "find (\<lambda>i. \<not> b_busy (bufs s ! i) \<and> \<not> b_dirty (bufs s ! i)) (rev xs) = Some i"
      using k xs by (cases "find (\<lambda>i. \<not> b_busy (bufs s ! i) \<and> \<not> b_dirty (bufs s ! i)) (rev xs)")
        (auto simp: find_None_iff)
    then have "i \<in> set (rev xs)" and i: "\<not> b_busy (bufs s ! i)" "\<not> b_dirty (bufs s ! i)"
      using find_SomeD [OF f] by auto
    then have il: "i < length (bufs s)" using xs by simp
    have "bread 1 bn s = Ok i (updb i (taken bn (view s (unat bn))) s)"
      using il i assms(2) view_uncached [OF nc]
      by (cases "bufs s ! i")
        (simp add: bread_def bget_def scans None f bufs_updb iderw_def del: bscan.simps,
         simp add: updb_def taken_def)
    then show ?thesis using il i no by blast
  qed
qed


lemma view_eqI:
  assumes "buf_unique s" "buf_unique t"
    and "\<And>i. cached t i bn \<Longrightarrow> view s bn = b_data (bufs t ! i)"
    and "\<nexists>i. cached t i bn \<Longrightarrow> view s bn = memdisk t bn"
  shows "view t bn = view s bn"
  using view_cached [OF assms(2)] view_uncached [of t bn] assms(3,4) by metis

lemma view_length:
  assumes "cache_ok s" "bn < disksize s"
  shows "length (view s bn) = BSIZE"
proof (cases "\<exists>i. cached s i bn")
  case True
  then obtain i where "cached s i bn" by blast
  then show ?thesis using view_cached [of s i bn] assms(1) by (auto simp: cache_ok_def cached_def buf_ok_def)
next
  case False
  then show ?thesis using view_uncached [of s bn] assms by (simp add: cache_ok_def)
qed

lemma taken_spec:
  assumes ok: "cache_ok s" and i: "i < length (bufs s)" "\<not> b_busy (bufs s ! i)" and bn: "unat bn < disksize s"
    and c: "b_dev (bufs s ! i) = 1 \<and> b_blockno (bufs s ! i) = bn \<or>
      (\<forall>j<length (bufs s). \<not> (b_dev (bufs s ! j) = 1 \<and> b_blockno (bufs s ! j) = bn)) \<and> \<not> b_dirty (bufs s ! i)"
    and t: "t = updb i (taken bn (view s (unat bn))) s"
  shows "cache_ok t" "holds t i (unat bn)" "view t = view s" "busy_blocks t = insert (unat bn) (busy_blocks s)"
    "dirty_blocks t = dirty_blocks s" "memdisk t = memdisk s" "dtrace t = dtrace s" "bio_only s t"
    "\<forall>j x. holds s j x \<longrightarrow> holds t j x"
proof -
  have u: "buf_unique s" and oks: "\<And>j. j < length (bufs s) \<Longrightarrow> buf_ok s (bufs s ! j)"
    and len: "\<And>b. b < disksize s \<Longrightarrow> length (memdisk s b) = BSIZE" and "\<exists>xs. ring s xs"
    using ok by (auto simp: cache_ok_def)
  have nth: "bufs t ! j = (if j = i then taken bn (view s (unat bn)) (bufs s ! i) else bufs s ! j)" for j
    using i by (simp add: t bufs_updb nth_upd)
  have l [simp]: "length (bufs t) = length (bufs s)" by (simp add: t)
  show m [simp]: "memdisk t = memdisk s" "dtrace t = dtrace s" by (simp_all add: t updb_def)
  have d [simp]: "disksize t = disksize s" by (simp add: t updb_def)
  show "bio_only s t" by (simp add: t bio_only_updb)
  have ring: "\<exists>xs. ring t xs"
    using \<open>\<exists>xs. ring s xs\<close> updb_ring [of s _ "taken bn (view s (unat bn))" i] by (auto simp: t taken_def)
  have ut: "buf_unique t"
    using u c i unfolding buf_unique_def l nth by (auto simp: taken_def)
  have cached: "cached t j x \<longleftrightarrow> (if j = i then x = unat bn else cached s j x)" for j x
    using i by (auto simp: cached_def nth taken_def)
  have only: "cached s j (unat bn) \<Longrightarrow> j = i" for j
    using c u i by (auto simp: cached_def buf_unique_def word_unat_eq_iff [symmetric])
  have dropped: "cached s i x \<Longrightarrow> x \<noteq> unat bn \<Longrightarrow> \<not> b_dirty (bufs s ! i) \<and> view s x = memdisk s x" for x
    using c i(2) oks [OF i(1)] view_cached [OF u, of i x] by (auto simp: cached_def buf_ok_def)
  show "view t = view s"
  proof
    fix x
    show "view t x = view s x"
    proof (rule view_eqI [OF u ut])
      fix j assume "cached t j x"
      then show "view s x = b_data (bufs t ! j)"
        using cached [of j x] view_cached [OF u, of j x] by (auto simp: nth taken_def split: if_splits)
    next
      assume "\<nexists>j. cached t j x"
      then have "x \<noteq> unat bn" "\<And>j. j \<noteq> i \<Longrightarrow> \<not> cached s j x" using cached by metis+
      then show "view s x = memdisk t x"
        using dropped [of x] view_uncached [of s x] by (metis m(1))
    qed
  qed
  show "holds t i (unat bn)" using i cached by (simp add: holds_def nth taken_def)
  show "\<forall>j x. holds s j x \<longrightarrow> holds t j x" using i cached by (auto simp: holds_def nth)
  have "buf_ok t (bufs t ! j)" if "j < length (bufs s)" for j
    using oks [OF that] bn view_length [OF ok bn] by (auto simp: buf_ok_def nth taken_def)
  then show "cache_ok t" using ring ut len by (simp add: cache_ok_def)
  show "busy_blocks t = insert (unat bn) (busy_blocks s)"
    using i only by (auto simp: busy_blocks_def cached nth taken_def split: if_splits) (metis cached_def i(2))+
  show "dirty_blocks t = dirty_blocks s"
  proof (intro set_eqI iffI)
    fix x assume "x \<in> dirty_blocks t"
    then obtain j where "cached t j x" "b_dirty (bufs t ! j)" by (auto simp: dirty_blocks_def)
    moreover have "cached s i (unat bn)" if "b_dirty (bufs s ! i)"
      using that c i oks [OF i(1)] by (auto simp: cached_def buf_ok_def)
    ultimately show "x \<in> dirty_blocks s"
      by (auto simp: cached nth taken_def dirty_blocks_def split: if_splits)
  next
    fix x assume "x \<in> dirty_blocks s"
    then obtain j where j: "cached s j x" "b_dirty (bufs s ! j)" by (auto simp: dirty_blocks_def)
    then have "cached t j x" using dropped [of x] cached [of j x] by auto
    moreover have "b_dirty (bufs t ! j)" using j(2) by (auto simp: nth taken_def)
    ultimately show "x \<in> dirty_blocks t" by (auto simp: dirty_blocks_def)
  qed
qed


lemma bread_spec:
  assumes "cache_ok s" "unat bn < disksize s" "unat bn \<notin> busy_blocks s"
    "(\<exists>i. cached s i (unat bn)) \<or> card (busy_blocks s \<union> dirty_blocks s) < length (bufs s)"
  shows "\<exists>i t. bread 1 bn s = Ok i t \<and> cache_ok t \<and> holds t i (unat bn) \<and> view t = view s \<and>
    busy_blocks t = insert (unat bn) (busy_blocks s) \<and> dirty_blocks t = dirty_blocks s \<and>
    memdisk t = memdisk s \<and> dtrace t = dtrace s \<and> bio_only s t \<and> (\<forall>j x. holds s j x \<longrightarrow> holds t j x)"
proof -
  obtain i where i: "i < length (bufs s)" "bread 1 bn s = Ok i (updb i (taken bn (view s (unat bn))) s)"
      "\<not> b_busy (bufs s ! i)"
      "b_dev (bufs s ! i) = 1 \<and> b_blockno (bufs s ! i) = bn \<or>
       (\<forall>j<length (bufs s). \<not> (b_dev (bufs s ! j) = 1 \<and> b_blockno (bufs s ! j) = bn)) \<and> \<not> b_dirty (bufs s ! i)"
    using bread_taken [OF assms] by blast
  show ?thesis using taken_spec [OF assms(1) i(1,3) assms(2) i(4) refl] i(2) by blast
qed

subsection \<open>Writing and releasing a block\<close>

text \<open>An update of one held buffer, and perhaps of its block of the disk, that keeps its identity.\<close>

lemma held_update:
  assumes ok: "cache_ok s" and h: "holds s i bn"
    and t: "length (bufs t) = length (bufs s)" "disksize t = disksize s" "\<exists>xs. ring t xs"
    and core: "\<And>j. j < length (bufs s) \<Longrightarrow> j \<noteq> i \<Longrightarrow> bcore (bufs t ! j) = bcore (bufs s ! j)"
    and self: "b_valid (bufs t ! i)" "b_dev (bufs t ! i) = 1" "b_blockno (bufs t ! i) = b_blockno (bufs s ! i)"
      "buf_ok t (bufs t ! i)"
    and disk: "\<And>x. x \<noteq> bn \<Longrightarrow> memdisk t x = memdisk s x" "length (memdisk t bn) = BSIZE"
  shows "cache_ok t" "cached t = cached s" "view t = (view s)(bn := b_data (bufs t ! i))"
    "busy_blocks t = (if b_busy (bufs t ! i) then busy_blocks s else busy_blocks s - {bn})"
    "dirty_blocks t = (if b_dirty (bufs t ! i) then insert bn (dirty_blocks s) else dirty_blocks s - {bn})"
proof -
  have u: "buf_unique s" and oks: "\<And>j. j < length (bufs s) \<Longrightarrow> buf_ok s (bufs s ! j)"
    and len: "\<And>b. b < disksize s \<Longrightarrow> length (memdisk s b) = BSIZE"
    using ok by (auto simp: cache_ok_def)
  have i: "i < length (bufs s)" "unat (b_blockno (bufs s ! i)) = bn" "b_dev (bufs s ! i) = 1"
      "b_valid (bufs s ! i)" "b_busy (bufs s ! i)" "cached s i bn"
    using h by (auto simp: holds_def cached_def)
  have other: "b_busy (bufs t ! j) = b_busy (bufs s ! j) \<and> b_valid (bufs t ! j) = b_valid (bufs s ! j) \<and>
      b_dirty (bufs t ! j) = b_dirty (bufs s ! j) \<and> b_dev (bufs t ! j) = b_dev (bufs s ! j) \<and>
      b_blockno (bufs t ! j) = b_blockno (bufs s ! j) \<and> b_data (bufs t ! j) = b_data (bufs s ! j)"
    if "j < length (bufs s)" "j \<noteq> i" for j
    using bcore_eqD [OF core [OF that]] .
  have ident: "b_dev (bufs t ! j) = b_dev (bufs s ! j)" "b_blockno (bufs t ! j) = b_blockno (bufs s ! j)"
      "b_valid (bufs t ! j) = b_valid (bufs s ! j)" if "j < length (bufs s)" for j
    using other [OF that] self i by (cases "j = i"; simp)+
  show cached: "cached t = cached s"
    using ident by (auto simp: fun_eq_iff cached_def t)
  have ut: "buf_unique t" using u ident unfolding buf_unique_def t by metis
  have only: "cached s j bn \<Longrightarrow> j = i" for j using cached_unique [OF u _ i(6)] .
  show "view t = (view s)(bn := b_data (bufs t ! i))"
  proof
    fix x
    show "view t x = ((view s)(bn := b_data (bufs t ! i))) x"
    proof (cases "x = bn")
      case True
      then show ?thesis using view_cached [OF ut, of i bn] i(6) cached by simp
    next
      case False
      have "view t x = view s x"
      proof (rule view_eqI [OF u ut])
        fix j assume "cached t j x"
        then have "cached s j x" "j \<noteq> i" using False i(2) cached by (auto simp: cached_def)
        then show "view s x = b_data (bufs t ! j)"
          using view_cached [OF u, of j x] other [of j] by (simp add: cached_def)
      next
        assume "\<nexists>j. cached t j x"
        then show "view s x = memdisk t x" using view_uncached [of s x] cached disk(1) [OF False] by simp
      qed
      then show ?thesis using False by simp
    qed
  qed
  have "buf_ok t (bufs t ! j)" if j: "j < length (bufs s)" for j
  proof (cases "j = i")
    case False
    have "unat (b_blockno (bufs s ! j)) \<noteq> bn" if "b_valid (bufs s ! j)"
      using only [of j] False j that oks [OF j] by (auto simp: cached_def buf_ok_def)
    then show ?thesis using oks [OF j] other [OF j False] disk(1) by (auto simp: buf_ok_def t)
  qed (use self in simp)
  moreover have "length (memdisk t x) = BSIZE" if "x < disksize s" for x
    using that len disk by (cases "x = bn") auto
  ultimately show "cache_ok t" using t ut by (simp add: cache_ok_def)
  have flag: "(\<exists>j. cached s j x \<and> P (bufs t ! j)) = (if x = bn then P (bufs t ! i) else \<exists>j. cached s j x \<and> P (bufs s ! j))"
    if "\<And>j. j < length (bufs s) \<Longrightarrow> j \<noteq> i \<Longrightarrow> P (bufs t ! j) = P (bufs s ! j)" for x and P :: "buf \<Rightarrow> bool"
  proof (cases "x = bn")
    case True
    have "(\<exists>j. cached s j bn \<and> P (bufs t ! j)) = P (bufs t ! i)" using only i(6) by blast
    then show ?thesis using True by simp
  next
    case False
    then have "cached s j x \<Longrightarrow> j < length (bufs s) \<and> j \<noteq> i" for j using i(2) by (auto simp: cached_def)
    then have "cached s j x \<Longrightarrow> P (bufs t ! j) = P (bufs s ! j)" for j using that by simp
    then show ?thesis using False by auto
  qed
  show "busy_blocks t = (if b_busy (bufs t ! i) then busy_blocks s else busy_blocks s - {bn})"
    using flag [of b_busy] other i(5,6) unfolding busy_blocks_def cached by (auto split: if_splits)
  show "dirty_blocks t = (if b_dirty (bufs t ! i) then insert bn (dirty_blocks s) else dirty_blocks s - {bn})"
    using flag [of b_dirty] other unfolding dirty_blocks_def cached by auto
qed


lemma ring_set_disk: "ring (s\<lparr>memdisk := m, dtrace := d\<rparr>) xs = ring s xs"
  by (rule ring_cong) simp_all

lemma dirty_iff:
  assumes "cache_ok s" "cached s i bn"
  shows "b_dirty (bufs s ! i) \<longleftrightarrow> bn \<in> dirty_blocks s"
proof -
  have "buf_unique s" using assms(1) by (simp add: cache_ok_def)
  then have "cached s j bn \<Longrightarrow> j = i" for j using cached_unique assms(2) by blast
  then show ?thesis using assms(2) unfolding dirty_blocks_def mem_Collect_eq by blast
qed

lemma held_updb:
  assumes ok: "cache_ok s" and h: "holds s i bn"
    and t: "t = updb i f (s\<lparr>memdisk := m, dtrace := tr\<rparr>)"
    and f: "\<And>b. b_prev (f b) = b_prev b" "\<And>b. b_next (f b) = b_next b" "\<And>b. b_blockno (f b) = b_blockno b"
      "\<And>b. b_dev (f b) = b_dev b" "b_valid (f (bufs s ! i))"
    and self: "length (b_data (f (bufs s ! i))) = BSIZE"
      "\<not> b_busy (f (bufs s ! i)) \<Longrightarrow> \<not> b_dirty (f (bufs s ! i)) \<Longrightarrow> b_data (f (bufs s ! i)) = m bn"
    and m: "\<And>x. x \<noteq> bn \<Longrightarrow> m x = memdisk s x" "length (m bn) = BSIZE"
  shows "cache_ok t" "cached t = cached s" "view t = (view s)(bn := b_data (f (bufs s ! i)))"
    "busy_blocks t = (if b_busy (f (bufs s ! i)) then busy_blocks s else busy_blocks s - {bn})"
    "dirty_blocks t = (if b_dirty (f (bufs s ! i)) then insert bn (dirty_blocks s) else dirty_blocks s - {bn})"
    "bio_only s t"
proof -
  let ?u = "s\<lparr>memdisk := m, dtrace := tr\<rparr>"
  have i: "i < length (bufs s)" "unat (b_blockno (bufs s ! i)) = bn" "b_dev (bufs s ! i) = 1"
      "b_busy (bufs s ! i)" "b_valid (bufs s ! i)"
    using h by (auto simp: holds_def cached_def)
  have nth: "bufs t ! j = (if j = i then f (bufs s ! i) else bufs s ! j)" for j
    using i by (simp add: t bufs_updb nth_upd)
  have l: "length (bufs t) = length (bufs s)" "disksize t = disksize s" "memdisk t = m" by (simp_all add: t updb_def)
  have ring: "\<exists>xs. ring t xs"
    using ok f(1,2) updb_ring [of ?u _ f i] by (auto simp: t cache_ok_def ring_set_disk)
  have "buf_ok s (bufs s ! i)" using ok i by (simp add: cache_ok_def)
  then have bok: "buf_ok t (bufs t ! i)" using f i self by (simp add: buf_ok_def nth l)
  have ni: "bufs t ! i = f (bufs s ! i)" by (simp add: nth)
  have c: "\<And>j. j < length (bufs s) \<Longrightarrow> j \<noteq> i \<Longrightarrow> bcore (bufs t ! j) = bcore (bufs s ! j)" by (simp add: nth)
  have v: "b_valid (bufs t ! i)" "b_dev (bufs t ! i) = 1" "b_blockno (bufs t ! i) = b_blockno (bufs s ! i)"
    using f i by (simp_all add: nth)
  have d: "\<And>x. x \<noteq> bn \<Longrightarrow> memdisk t x = memdisk s x" "length (memdisk t bn) = BSIZE" using m l by simp_all
  note h = held_update [OF ok h l(1,2) ring c v bok d]
  show "cache_ok t" by (rule h)
  show "cached t = cached s" by (rule h)
  show "view t = (view s)(bn := b_data (f (bufs s ! i)))" using h(3) ni by simp
  show "busy_blocks t = (if b_busy (f (bufs s ! i)) then busy_blocks s else busy_blocks s - {bn})" using h(4) ni by simp
  show "dirty_blocks t = (if b_dirty (f (bufs s ! i)) then insert bn (dirty_blocks s) else dirty_blocks s - {bn})"
    using h(5) ni by simp
  show "bio_only s t" by (simp add: t bio_only_def bio_rest_def updb_def)
qed

lemma holdsD:
  assumes "cache_ok s" "holds s i bn"
  shows "i < length (bufs s)" "cached s i bn" "b_busy (bufs s ! i)" "b_valid (bufs s ! i)" "b_dev (bufs s ! i) = 1"
    "unat (b_blockno (bufs s ! i)) = bn" "bn < disksize s" "length (b_data (bufs s ! i)) = BSIZE"
    "view s bn = b_data (bufs s ! i)" "length (memdisk s bn) = BSIZE"
proof -
  show i: "i < length (bufs s)" "cached s i bn" "b_busy (bufs s ! i)" "b_valid (bufs s ! i)" "b_dev (bufs s ! i) = 1"
      "unat (b_blockno (bufs s ! i)) = bn"
    using assms(2) by (auto simp: holds_def cached_def)
  have "buf_ok s (bufs s ! i)" using assms(1) i by (simp add: cache_ok_def)
  then show d: "bn < disksize s" "length (b_data (bufs s ! i)) = BSIZE" using i by (auto simp: buf_ok_def)
  show "view s bn = b_data (bufs s ! i)" using view_cached [OF _ i(2)] assms(1) by (simp add: cache_ok_def)
  show "length (memdisk s bn) = BSIZE" using assms(1) d by (simp add: cache_ok_def)
qed

lemma set_data_spec:
  assumes "cache_ok s" "holds s i bn" "length d = BSIZE"
  defines "t \<equiv> set_data i d s"
  shows "cache_ok t" "holds t i bn" "view t = (view s)(bn := d)" "busy_blocks t = busy_blocks s"
    "dirty_blocks t = dirty_blocks s" "memdisk t = memdisk s" "dtrace t = dtrace s" "bio_only s t"
proof -
  note i = holdsD [OF assms(1,2)]
  have t: "t = updb i (\<lambda>b. b\<lparr>b_data := d\<rparr>) (s\<lparr>memdisk := memdisk s, dtrace := dtrace s\<rparr>)"
    by (simp add: t_def set_data_def)
  have u: "cache_ok t" "cached t = cached s" "view t = (view s)(bn := d)" "busy_blocks t = busy_blocks s"
      "dirty_blocks t = (if b_dirty (bufs s ! i) then insert bn (dirty_blocks s) else dirty_blocks s - {bn})" "bio_only s t"
    using held_updb [OF assms(1,2) t] i assms(3) by simp_all
  then show "cache_ok t" "view t = (view s)(bn := d)" "busy_blocks t = busy_blocks s" "bio_only s t" by simp_all
  show "dirty_blocks t = dirty_blocks s" using u(5) dirty_iff [OF assms(1) i(2)] by auto
  show "holds t i bn" using i u(2) by (simp add: holds_def t_def set_data_def bufs_updb)
  show "memdisk t = memdisk s" "dtrace t = dtrace s" by (simp_all add: t_def set_data_def updb_def)
qed

lemma bwrite_spec:
  assumes "cache_ok s" "holds s i bn"
  shows "\<exists>t. bwrite i s = Ok () t \<and> cache_ok t \<and> holds t i bn \<and> view t = view s \<and> busy_blocks t = busy_blocks s \<and>
    dirty_blocks t = dirty_blocks s - {bn} \<and> memdisk t = (memdisk s)(bn := view s bn) \<and>
    dtrace t = dtrace s @ [(bn, view s bn)] \<and> bio_only s t"
proof -
  note i = holdsD [OF assms]
  define t where "t = updb i (\<lambda>b. b\<lparr>b_dirty := False, b_valid := True\<rparr>)
    (s\<lparr>memdisk := (memdisk s)(bn := view s bn), dtrace := dtrace s @ [(bn, view s bn)]\<rparr>)"
  have "bwrite i s = Ok () t"
    using i by (cases "bufs s ! i") (simp add: bwrite_def iderw_def bufs_updb, simp add: updb_def t_def Let_def)
  moreover have "cache_ok t" "cached t = cached s" "view t = (view s)(bn := view s bn)" "busy_blocks t = busy_blocks s"
      "dirty_blocks t = dirty_blocks s - {bn}" "bio_only s t"
    using held_updb [OF assms t_def] i by simp_all
  moreover have "holds t i bn" using i \<open>cached t = cached s\<close> by (simp add: holds_def t_def bufs_updb)
  moreover have "memdisk t = (memdisk s)(bn := view s bn)" "dtrace t = dtrace s @ [(bn, view s bn)]"
    by (simp_all add: t_def updb_def)
  ultimately show ?thesis by auto
qed


text \<open>\<open>B_DIRTY\<close> alone, as \<open>log_write\<close> sets it: the block is pinned in the cache.\<close>

definition pin :: "nat \<Rightarrow> 'a kbio_scheme \<Rightarrow> 'a kbio_scheme" where
  "pin i s = updb i (\<lambda>b. b\<lparr>b_dirty := True\<rparr>) s"

lemma pin_spec:
  assumes "cache_ok s" "holds s i bn"
  defines "t \<equiv> pin i s"
  shows "cache_ok t" "cached t = cached s" "view t = view s" "busy_blocks t = busy_blocks s"
    "dirty_blocks t = insert bn (dirty_blocks s)" "memdisk t = memdisk s" "dtrace t = dtrace s" "bio_only s t"
proof -
  note i = holdsD [OF assms(1,2)]
  have t: "t = updb i (\<lambda>b. b\<lparr>b_dirty := True\<rparr>) (s\<lparr>memdisk := memdisk s, dtrace := dtrace s\<rparr>)"
    by (simp add: t_def pin_def)
  have u: "cache_ok t" "cached t = cached s" "view t = (view s)(bn := view s bn)" "busy_blocks t = busy_blocks s"
      "dirty_blocks t = insert bn (dirty_blocks s)" "bio_only s t"
    using held_updb [OF assms(1,2) t] i by simp_all
  then show "cache_ok t" "cached t = cached s" "view t = view s" "busy_blocks t = busy_blocks s"
    "dirty_blocks t = insert bn (dirty_blocks s)" "bio_only s t" by simp_all
  show "memdisk t = memdisk s" "dtrace t = dtrace s" by (simp_all add: t_def pin_def updb_def)
qed

lemma brelse_spec:
  assumes "cache_ok s" "holds s i bn" "bn \<in> dirty_blocks s \<or> view s bn = memdisk s bn"
  shows "\<exists>t. brelse i s = Ok () t \<and> cache_ok t \<and> cached t = cached s \<and> view t = view s \<and>
    busy_blocks t = busy_blocks s - {bn} \<and> dirty_blocks t = dirty_blocks s \<and> memdisk t = memdisk s \<and>
    dtrace t = dtrace s \<and> bio_only s t \<and> (\<forall>j x. x \<noteq> bn \<longrightarrow> holds s j x \<longrightarrow> holds t j x)"
proof -
  note i = holdsD [OF assms(1,2)]
  define u where "u = link_front i (unlink i s)"
  define v where "v = updb i (\<lambda>b. b\<lparr>b_busy := False\<rparr>) u"
  define t where "t = wakeup (ChanBuf i) v"
  have links: "links_only s u" unfolding u_def by (rule links_only_trans [OF link_links_only(2) link_links_only(1)])
  obtain xs where "ring s xs" using assms(1) by (auto simp: cache_ok_def)
  then have "ring u (i # remove1 i xs)" unfolding u_def by (rule ring_to_front) (rule i)
  then have "ring v (i # remove1 i xs)" unfolding v_def by (rule updb_ring) simp_all
  then have ring: "\<exists>xs. ring t xs" using ring_cong [of t v] by (auto simp: t_def)
  have core: "bcore (bufs u ! j) = bcore (bufs s ! j)" if "j < length (bufs s)" for j
    using links_only_core(2) [OF links that] .
  have bt: "bufs t = (bufs u)[i := (bufs u ! i)\<lparr>b_busy := False\<rparr>]" by (simp add: t_def v_def bufs_updb)
  have lu: "length (bufs u) = length (bufs s)" using links_only_core(1) [OF links] .
  have c: "\<And>j. j < length (bufs s) \<Longrightarrow> j \<noteq> i \<Longrightarrow> bcore (bufs t ! j) = bcore (bufs s ! j)"
    using core by (simp add: bt)
  have m: "memdisk t = memdisk s" "dtrace t = dtrace s" "disksize t = disksize s"
    using links_only_fields [OF links] by (simp_all add: t_def v_def updb_def)
  note ui = bcore_eqD [OF core [OF i(1)]]
  have ti: "bufs t ! i = (bufs u ! i)\<lparr>b_busy := False\<rparr>" using i lu by (simp add: bt)
  have "b_dirty (bufs s ! i) \<or> b_data (bufs s ! i) = memdisk s bn"
    using assms(3) i dirty_iff [OF assms(1) i(2)] by auto
  then have bok: "buf_ok t (bufs t ! i)" using ui i by (auto simp: buf_ok_def ti m)
  have h: "cache_ok t" "cached t = cached s" "view t = (view s)(bn := view s bn)" "busy_blocks t = busy_blocks s - {bn}"
      "dirty_blocks t = (if b_dirty (bufs s ! i) then insert bn (dirty_blocks s) else dirty_blocks s - {bn})"
    using held_update [OF assms(1,2) _ m(3) ring c _ _ _ bok] lu ui i m by (simp_all add: bt)
  have d: "dirty_blocks t = dirty_blocks s" using h(5) dirty_iff [OF assms(1) i(2)] by auto
  have "bio_only s t"
    unfolding t_def v_def
    by (rule bio_only_trans [OF bio_only_trans [OF bio_only_links [OF links] bio_only_updb] bio_only_wakeup])
  moreover have "holds t j x" if x: "x \<noteq> bn" and hj: "holds s j x" for j x
  proof -
    have j: "j < length (bufs s)" "j \<noteq> i" "cached s j x" "b_busy (bufs s ! j)"
      using x hj i(6) by (auto simp: holds_def cached_def)
    then show ?thesis using h(2) bcore_eqD [OF c [OF j(1,2)]] by (simp add: holds_def)
  qed
  moreover have "brelse i s = Ok () t" using i by (simp add: brelse_eq t_def v_def u_def)
  ultimately show ?thesis using h d m by auto
qed


section \<open>The contract of the cache\<close>

text \<open>
  The abstract state: the content of every block as the kernel sees it, the disk, the writes so far, the
  blocks held, and the blocks pinned because the log has not written them yet.
\<close>

record bstate =
  bs_view :: "nat \<Rightarrow> uchar list"
  bs_disk :: "nat \<Rightarrow> uchar list"
  bs_trace :: "(nat \<times> uchar list) list"
  bs_busy :: "nat set"
  bs_dirty :: "nat set"

definition bstate_of :: "'a kbio_scheme \<Rightarrow> bstate" where
  "bstate_of s = \<lparr>bs_view = view s, bs_disk = memdisk s, bs_trace = dtrace s, bs_busy = busy_blocks s,
     bs_dirty = dirty_blocks s\<rparr>"

locale block_cache =
  fixes bread :: "uint32 \<Rightarrow> 's \<Rightarrow> (nat, 's) outcome"
    and bwrite :: "nat \<Rightarrow> 's \<Rightarrow> (unit, 's) outcome"
    and brelse :: "nat \<Rightarrow> 's \<Rightarrow> (unit, 's) outcome"
    and data :: "'s \<Rightarrow> nat \<Rightarrow> uchar list"
    and put :: "nat \<Rightarrow> uchar list \<Rightarrow> 's \<Rightarrow> 's"
    and pin :: "nat \<Rightarrow> 's \<Rightarrow> 's"
    and inv :: "'s \<Rightarrow> bool"
    and holding :: "'s \<Rightarrow> nat \<Rightarrow> nat \<Rightarrow> bool"
    and st :: "'s \<Rightarrow> bstate"
    and cap :: "'s \<Rightarrow> nat"
    and blocks :: "'s \<Rightarrow> nat"
    and frame :: "'s \<Rightarrow> 's \<Rightarrow> bool"
  assumes bread: "\<lbrakk>inv s; unat bn < blocks s; unat bn \<notin> bs_busy (st s);
      unat bn \<in> bs_dirty (st s) \<or> card (bs_busy (st s) \<union> bs_dirty (st s)) < cap s\<rbrakk> \<Longrightarrow>
      \<exists>i t. bread bn s = Ok i t \<and> inv t \<and> holding t i (unat bn) \<and>
        st t = (st s)\<lparr>bs_busy := insert (unat bn) (bs_busy (st s))\<rparr> \<and> frame s t \<and>
        (\<forall>j x. holding s j x \<longrightarrow> holding t j x)"
    and put: "\<lbrakk>inv s; holding s i x; length d = BSIZE\<rbrakk> \<Longrightarrow>
      inv (put i d s) \<and> st (put i d s) = (st s)\<lparr>bs_view := (bs_view (st s))(x := d)\<rparr> \<and> frame s (put i d s) \<and>
        (\<forall>j y. holding s j y \<longrightarrow> holding (put i d s) j y)"
    and pin: "\<lbrakk>inv s; holding s i x\<rbrakk> \<Longrightarrow>
      inv (pin i s) \<and> st (pin i s) = (st s)\<lparr>bs_dirty := insert x (bs_dirty (st s))\<rparr> \<and> frame s (pin i s) \<and>
        (\<forall>j y. holding s j y \<longrightarrow> holding (pin i s) j y)"
    and bwrite: "\<lbrakk>inv s; holding s i x\<rbrakk> \<Longrightarrow> \<exists>t. bwrite i s = Ok () t \<and> inv t \<and>
      st t = (st s)\<lparr>bs_disk := (bs_disk (st s))(x := bs_view (st s) x),
        bs_trace := bs_trace (st s) @ [(x, bs_view (st s) x)], bs_dirty := bs_dirty (st s) - {x}\<rparr> \<and> frame s t \<and>
        (\<forall>j y. holding s j y \<longrightarrow> holding t j y)"
    and brelse: "\<lbrakk>inv s; holding s i x; x \<in> bs_dirty (st s) \<or> bs_view (st s) x = bs_disk (st s) x\<rbrakk> \<Longrightarrow>
      \<exists>t. brelse i s = Ok () t \<and> inv t \<and> st t = (st s)\<lparr>bs_busy := bs_busy (st s) - {x}\<rparr> \<and> frame s t \<and>
        (\<forall>j y. y \<noteq> x \<longrightarrow> holding s j y \<longrightarrow> holding t j y)"
    and data: "\<lbrakk>inv s; holding s i x\<rbrakk> \<Longrightarrow> data s i = bs_view (st s) x \<and> length (data s i) = BSIZE"
    and clean: "\<lbrakk>inv s; x < blocks s; x \<notin> bs_busy (st s); x \<notin> bs_dirty (st s)\<rbrakk> \<Longrightarrow> bs_view (st s) x = bs_disk (st s) x"
    and frame_trans: "frame s t \<Longrightarrow> frame t u \<Longrightarrow> frame s u"
    and frame_size: "frame s t \<Longrightarrow> cap t = cap s \<and> blocks t = blocks s"
begin

text \<open>Read a block and let it go.\<close>

lemma read_block:
  assumes "inv s" "unat bn < blocks s" "unat bn \<notin> bs_busy (st s)"
    "unat bn \<in> bs_dirty (st s) \<or> card (bs_busy (st s) \<union> bs_dirty (st s)) < cap s"
  shows "\<exists>i t u. bread bn s = Ok i t \<and> data t i = bs_view (st s) (unat bn) \<and> length (data t i) = BSIZE \<and>
    brelse i t = Ok () u \<and> inv u \<and> st u = st s \<and> frame s t \<and> frame s u"
proof -
  obtain i t where b: "bread bn s = Ok i t" "inv t" "holding t i (unat bn)"
      "st t = (st s)\<lparr>bs_busy := insert (unat bn) (bs_busy (st s))\<rparr>" "frame s t"
    using bread [OF assms] by blast
  have "unat bn \<in> bs_dirty (st t) \<or> bs_view (st t) (unat bn) = bs_disk (st t) (unat bn)"
    using clean [OF assms(1,2,3)] b(4) by auto
  then obtain u where u: "brelse i t = Ok () u" "inv u" "st u = (st t)\<lparr>bs_busy := bs_busy (st t) - {unat bn}\<rparr>" "frame t u"
    using brelse [OF b(2,3)] by blast
  have "st u = st s" using u(3) b(4) assms(3) by (cases "st s") simp
  moreover have "frame s u" using frame_trans [OF b(5) u(4)] .
  moreover have "data t i = bs_view (st s) (unat bn)" "length (data t i) = BSIZE"
    using data [OF b(2,3)] b(4) by auto
  ultimately show ?thesis using b(1,5) u(1,2) by blast
qed

text \<open>Read a block, replace its content, write it through to the disk and let it go.\<close>

lemma write_through:
  assumes "inv s" "unat bn < blocks s" "unat bn \<notin> bs_busy (st s)"
    "unat bn \<in> bs_dirty (st s) \<or> card (bs_busy (st s) \<union> bs_dirty (st s)) < cap s"
    "length (f (bs_view (st s) (unat bn))) = BSIZE"
  defines "d \<equiv> f (bs_view (st s) (unat bn))"
  shows "\<exists>t. mbind (bread bn s) (\<lambda>i s. mbind (bwrite i (put i (f (data s i)) s)) (\<lambda>_. brelse i)) = Ok () t \<and>
    inv t \<and> frame s t \<and> st t = (st s)\<lparr>bs_view := (bs_view (st s))(unat bn := d), bs_disk := (bs_disk (st s))(unat bn := d),
      bs_trace := bs_trace (st s) @ [(unat bn, d)], bs_dirty := bs_dirty (st s) - {unat bn}\<rparr>"
proof -
  obtain i t where b: "bread bn s = Ok i t" "inv t" "holding t i (unat bn)"
      "st t = (st s)\<lparr>bs_busy := insert (unat bn) (bs_busy (st s))\<rparr>" "frame s t"
    using bread [OF assms(1-4)] by blast
  have "f (data t i) = d" using data [OF b(2,3)] b(4) by (simp add: d_def)
  then have p: "inv (put i (f (data t i)) t)" "frame t (put i (f (data t i)) t)"
      "holding (put i (f (data t i)) t) i (unat bn)"
      "st (put i (f (data t i)) t) = (st t)\<lparr>bs_view := (bs_view (st s))(unat bn := d)\<rparr>"
    using put [OF b(2,3), of d] b(3,4) assms(5) by (auto simp: d_def)
  obtain v where w: "bwrite i (put i (f (data t i)) t) = Ok () v" "inv v" "holding v i (unat bn)"
      "frame (put i (f (data t i)) t) v"
      "st v = (st t)\<lparr>bs_view := (bs_view (st s))(unat bn := d), bs_disk := (bs_disk (st s))(unat bn := d),
        bs_trace := bs_trace (st s) @ [(unat bn, d)], bs_dirty := bs_dirty (st s) - {unat bn}\<rparr>"
    using bwrite [OF p(1,3)] p(3,4) b(4) by auto
  obtain u where "brelse i v = Ok () u" "inv u" "st u = (st v)\<lparr>bs_busy := bs_busy (st v) - {unat bn}\<rparr>" "frame v u"
    using brelse [OF w(2,3)] w(5) by auto
  moreover from this have "frame s u" using frame_trans b(5) p(2) w(4) by blast
  ultimately show ?thesis using b(1,4) w(1,5) assms(3) by (cases "st s") auto
qed

end


lemma dirty_cached: "bn \<in> dirty_blocks s \<Longrightarrow> \<exists>i. cached s i bn"
  by (auto simp: dirty_blocks_def)

lemma clean_block:
  assumes "cache_ok s" "x \<notin> busy_blocks s" "x \<notin> dirty_blocks s"
  shows "view s x = memdisk s x"
proof (cases "\<exists>i. cached s i x")
  case True
  then obtain i where i: "cached s i x" by blast
  then have "\<not> b_busy (bufs s ! i)" "\<not> b_dirty (bufs s ! i)" "buf_ok s (bufs s ! i)"
    using assms by (auto simp: busy_blocks_def dirty_blocks_def cache_ok_def cached_def)
  then show ?thesis using view_cached [OF _ i] i assms(1) by (auto simp: cache_ok_def buf_ok_def cached_def)
next
  case False
  then show ?thesis by (rule view_uncached)
qed

lemma pin_holds: "cache_ok s \<Longrightarrow> holds s i x \<Longrightarrow> holds s j y \<Longrightarrow> holds (pin i s) j y"
  using pin_spec(2) [of s i x] by (simp add: holds_def) (simp add: pin_def bufs_updb nth_upd)

lemma set_data_holds: "holds s j y \<Longrightarrow> holds (set_data i d s) j y"
  by (simp add: holds_def cached_def set_data_def bufs_updb nth_upd)

lemma bwrite_holds: "bwrite i s = Ok () t \<Longrightarrow> holds s j y \<Longrightarrow> holds t j y"
  by (auto simp: holds_def cached_def bwrite_def iderw_def bufs_updb nth_upd Let_def split: if_splits)

interpretation bc: block_cache "bread 1" bwrite brelse "\<lambda>s i. b_data (bufs s ! i)" set_data pin cache_ok holds
  bstate_of "\<lambda>s. length (bufs s)" disksize bio_only
proof (unfold_locales, goal_cases)
  case (1 s bn)
  then show ?case using bread_spec [of s bn] dirty_cached [of "unat bn" s] by (auto simp: bstate_of_def)
next
  case (2 s i x d)
  then show ?case using set_data_spec [of s i x d] set_data_holds by (auto simp: bstate_of_def)
next
  case (3 s i x)
  then show ?case using pin_spec [of s i x] pin_holds [of s i x] by (auto simp: bstate_of_def)
next
  case (4 s i x)
  then show ?case using bwrite_spec [of s i x] bwrite_holds [of i s] by (auto simp: bstate_of_def)
next
  case (5 s i x)
  then show ?case using brelse_spec [of s i x] by (auto simp: bstate_of_def)
next
  case (6 s i x)
  then show ?case using holdsD(8,9) [of s i x] by (simp add: bstate_of_def)
next
  case (7 s x)
  then show ?case using clean_block [of s x] by (simp add: bstate_of_def)
next
  case (8 s t u)
  then show ?case by (rule bio_only_trans)
next
  case (9 s t)
  then show ?case using bio_only_disksize by (simp add: bio_only_def) blast
qed


section \<open>Properties\<close>

text \<open>C21. The pointer surgery of \<open>bio.c\<close> implements a list of buffers in most recently used
  order. \<open>brelse\<close> moves the buffer to the front. \<open>bget\<close> finds the block's buffer if it is in the list, and
  otherwise takes the least recently used buffer that is neither busy nor dirty, panicking only if there
  is none; its search loops always end.\<close>

theorem buffer_ring_is_mru_list:
  assumes "ring s xs"
  shows "(i < length (bufs s) \<and> b_busy (bufs s ! i) \<longrightarrow>
      (\<exists>t. brelse i s = Ok () t \<and> ring t (i # remove1 i xs) \<and> \<not> b_busy (bufs t ! i))) \<and>
    bget dev bn s =
      (case find (\<lambda>i. b_dev (bufs s ! i) = dev \<and> b_blockno (bufs s ! i) = bn) xs of
         Some i \<Rightarrow> if b_busy (bufs s ! i) then sleep (ChanBuf i) s else Ok i (updb i (\<lambda>b. b\<lparr>b_busy := True\<rparr>) s)
       | None \<Rightarrow>
           (case find (\<lambda>i. \<not> b_busy (bufs s ! i) \<and> \<not> b_dirty (bufs s ! i)) (rev xs) of
              Some i \<Rightarrow> Ok i (updb i (\<lambda>b. b\<lparr>b_dev := dev, b_blockno := bn,
                b_busy := True, b_valid := False, b_dirty := False\<rparr>) s)
            | None \<Rightarrow> Panic ''bget: no buffers''))"
proof
  show "i < length (bufs s) \<and> b_busy (bufs s ! i) \<longrightarrow>
      (\<exists>t. brelse i s = Ok () t \<and> ring t (i # remove1 i xs) \<and> \<not> b_busy (bufs t ! i))"
  proof
    assume i: "i < length (bufs s) \<and> b_busy (bufs s ! i)"
    define u where "u = link_front i (unlink i s)"
    have "links_only s u" unfolding u_def by (rule links_only_trans [OF link_links_only(2) link_links_only(1)])
    then have l: "length (bufs u) = length (bufs s)" by (rule links_only_core)
    have "ring u (i # remove1 i xs)" unfolding u_def using ring_to_front [OF assms] i by blast
    then have "ring (updb i (\<lambda>b. b\<lparr>b_busy := False\<rparr>) u) (i # remove1 i xs)" by (rule updb_ring) simp_all
    then have "ring (wakeup (ChanBuf i) (updb i (\<lambda>b. b\<lparr>b_busy := False\<rparr>) u)) (i # remove1 i xs)"
      by (subst ring_cong) simp_all
    then show "\<exists>t. brelse i s = Ok () t \<and> ring t (i # remove1 i xs) \<and> \<not> b_busy (bufs t ! i)"
      using i l by (simp add: brelse_eq u_def bufs_updb)
  qed
  show "bget dev bn s =
      (case find (\<lambda>i. b_dev (bufs s ! i) = dev \<and> b_blockno (bufs s ! i) = bn) xs of
         Some i \<Rightarrow> if b_busy (bufs s ! i) then sleep (ChanBuf i) s else Ok i (updb i (\<lambda>b. b\<lparr>b_busy := True\<rparr>) s)
       | None \<Rightarrow>
           (case find (\<lambda>i. \<not> b_busy (bufs s ! i) \<and> \<not> b_dirty (bufs s ! i)) (rev xs) of
              Some i \<Rightarrow> Ok i (updb i (\<lambda>b. b\<lparr>b_dev := dev, b_blockno := bn,
                b_busy := True, b_valid := False, b_dirty := False\<rparr>) s)
            | None \<Rightarrow> Panic ''bget: no buffers''))"
    by (simp add: bget_def ring_scan [OF assms] del: bscan.simps split: option.splits)
qed

text \<open>C27. The buffer cache is transparent. While a free buffer is left, reading a block that nobody holds
  returns a busy buffer with the block's current content, and neither the content of any block, nor
  the disk, nor the blocks pinned or held by others change.\<close>

theorem bread_returns_content:
  assumes "cache_ok s" "unat bn < disksize s" "unat bn \<notin> busy_blocks s"
    "card (busy_blocks s \<union> dirty_blocks s) < length (bufs s)"
  shows "\<exists>i t. bread 1 bn s = Ok i t \<and> cache_ok t \<and> b_busy (bufs t ! i) \<and> b_data (bufs t ! i) = view s (unat bn) \<and>
    view t = view s \<and> memdisk t = memdisk s \<and> busy_blocks t = insert (unat bn) (busy_blocks s) \<and>
    dirty_blocks t = dirty_blocks s"
proof -
  obtain i t where t: "bread 1 bn s = Ok i t" "cache_ok t" "holds t i (unat bn)" "view t = view s"
      "memdisk t = memdisk s" "busy_blocks t = insert (unat bn) (busy_blocks s)" "dirty_blocks t = dirty_blocks s"
    using bread_spec [OF assms(1,2,3)] assms(4) by blast
  then show ?thesis using holdsD(3,9) [OF t(2,3)] by auto
qed

text \<open>A machine with three buffers and a disk of eight blocks of zeros, as the kernel starts it.\<close>

definition buf0 :: buf where
  "buf0 = \<lparr>b_busy = False, b_valid = False, b_dirty = False, b_dev = 0, b_blockno = 0, b_prev = BHead,
     b_next = BHead, b_data = replicate BSIZE 0\<rparr>"

definition kbio0 :: kbio where
  "kbio0 = ideinit (\<lambda>_. replicate BSIZE 0) 4096 (kproc.extend kproc0
     (kbio.fields [buf0, buf0, buf0] BHead BHead (\<lambda>_. []) 0 []))"

lemma bcore_dev: "bcore (b\<lparr>b_dev := d\<rparr>) = (bcore b)\<lparr>b_dev := d\<rparr>"
  by (cases b) (simp add: bcore_def)

lemma binit_loop_frame:
  "links_rest (binit_loop is s) = links_rest s \<and> length (bufs (binit_loop is s)) = length (bufs s) \<and>
   (\<forall>j<length (bufs s). bcore (bufs (binit_loop is s) ! j) =
      (if j \<in> set is then (bcore (bufs s ! j))\<lparr>b_dev := - 1\<rparr> else bcore (bufs s ! j)))"
proof (induction "is" arbitrary: s)
  case (Cons i "is")
  define u where "u = set_prev (BBuf i) BHead (set_next (BBuf i) (head_next s) s)"
  define v where "v = updb i (\<lambda>b. b\<lparr>b_dev := - 1\<rparr>) u"
  define w where "w = set_next BHead (BBuf i) (set_prev (head_next v) (BBuf i) v)"
  have u: "links_only s u" unfolding u_def by (rule links_only_trans [OF set_links_only(1) set_links_only(2)])
  have w: "links_only v w" unfolding w_def by (rule links_only_trans [OF set_links_only(2) set_links_only(1)])
  have l: "length (bufs v) = length (bufs s)" using links_only_core(1) [OF u] by (simp add: v_def)
  have "bcore (bufs v ! j) = (if j = i then (bcore (bufs s ! j))\<lparr>b_dev := - 1\<rparr> else bcore (bufs s ! j))"
    if "j < length (bufs s)" for j
    using links_only_core [OF u] that by (auto simp: v_def bufs_updb nth_upd bcore_dev)
  moreover have "links_rest v = links_rest s"
    using u by (simp add: v_def links_only_def updb_def links_rest_def)
  moreover have "binit_loop (i # is) s = binit_loop is w" by (simp add: u_def v_def w_def Let_def)
  ultimately show ?case
    using Cons.IH [of w] w l links_only_core [OF w] by (simp add: links_only_def)
qed simp

text \<open>The cache starts out well formed: \<open>binit\<close> establishes the invariant on zeroed buffers.\<close>

lemma binit_cache_ok:
  assumes "\<forall>b\<in>set (bufs s). \<not> b_busy b \<and> \<not> b_valid b \<and> \<not> b_dirty b" "\<forall>bn<disksize s. length (memdisk s bn) = BSIZE"
  shows "cache_ok (binit s)" "busy_blocks (binit s) = {}" "dirty_blocks (binit s) = {}" "view (binit s) = memdisk s"
    "memdisk (binit s) = memdisk s" "disksize (binit s) = disksize s" "length (bufs (binit s)) = length (bufs s)"
proof -
  define u where "u = set_next BHead BHead (set_prev BHead BHead s)"
  have u: "bufs u = bufs s" "links_rest u = links_rest s" by (simp_all add: u_def set_next_def set_prev_def links_rest_def)
  have b: "binit s = binit_loop [0..<length (bufs s)] u" by (simp add: binit_def u_def)
  note f = binit_loop_frame [of "[0..<length (bufs s)]" u, folded b, unfolded u]
  show l: "length (bufs (binit s)) = length (bufs s)" using f by blast
  have e: "links_rest (binit s) = links_rest s" using f by blast
  show m: "memdisk (binit s) = memdisk s" "disksize (binit s) = disksize s"
    using arg_cong [OF e, of memdisk] arg_cong [OF e, of disksize] by (simp_all add: links_rest_def)
  have c: "b_dev (bufs (binit s) ! j) = - 1 \<and> \<not> b_busy (bufs (binit s) ! j) \<and> \<not> b_valid (bufs (binit s) ! j) \<and>
      \<not> b_dirty (bufs (binit s) ! j)" if "j < length (bufs s)" for j
  proof -
    have "bcore (bufs (binit s) ! j) = bcore ((bufs s ! j)\<lparr>b_dev := - 1\<rparr>)"
      using f that by (simp add: bcore_dev)
    then show ?thesis using bcore_eqD [of "bufs (binit s) ! j" "(bufs s ! j)\<lparr>b_dev := - 1\<rparr>"] assms(1) that by simp
  qed
  have n: "\<not> cached (binit s) j bn" for j bn using c by (auto simp: cached_def l)
  show "busy_blocks (binit s) = {}" "dirty_blocks (binit s) = {}" using n by (simp_all add: busy_blocks_def dirty_blocks_def)
  show "view (binit s) = memdisk s" using view_uncached [of "binit s"] n m by (simp add: fun_eq_iff)
  have "buf_unique (binit s)" using c by (simp add: buf_unique_def l)
  moreover have "buf_ok (binit s) (bufs (binit s) ! j)" if "j < length (bufs s)" for j
    using c [OF that] by (simp add: buf_ok_def)
  ultimately show "cache_ok (binit s)" using binit_ring [of s] assms(2) by (auto simp: cache_ok_def m l)
qed

lemma kbio0_ok: "cache_ok (binit kbio0)" "busy_blocks (binit kbio0) = {}" "dirty_blocks (binit kbio0) = {}"
    "length (bufs (binit kbio0)) = 3" "disksize (binit kbio0) = 8" "view (binit kbio0) = (\<lambda>_. replicate BSIZE 0)"
    "memdisk (binit kbio0) = (\<lambda>_. replicate BSIZE 0)"
  using binit_cache_ok [of kbio0] by (simp_all add: kbio0_def ideinit_def kproc.defs kbio.defs buf0_def)

lemma buffer_ring_is_mru_list_witness:
  "(\<exists>t. brelse 1 (updb 1 (\<lambda>b. b\<lparr>b_busy := True\<rparr>) (binit kbio0)) = Ok () t \<and> ring t [1, 2, 0])"
proof -
  have "length (bufs kbio0) = 3" by (simp add: kbio0_def ideinit_def kproc.defs kbio.defs)
  then have "ring (binit kbio0) [2, 1, 0]" using binit_ring [of kbio0] by (simp add: upt_rec numeral_2_eq_2)
  then have "ring (updb 1 (\<lambda>b. b\<lparr>b_busy := True\<rparr>) (binit kbio0)) [2, 1, 0]" by (rule updb_ring) simp_all
  from buffer_ring_is_mru_list [OF this, of 1] show ?thesis using kbio0_ok(4) by (auto simp: bufs_updb)
qed

lemma bread_returns_content_witness:
  "\<exists>i t. bread 1 5 (binit kbio0) = Ok i t \<and> b_data (bufs t ! i) = replicate BSIZE 0"
  using bread_returns_content [of "binit kbio0" 5] kbio0_ok by auto

end
