(* ===== verification/Log.thy ===== *)
theory Log
  imports Bio
begin

text \<open>
  The write-ahead log of \<open>log.c\<close>, over the buffer cache: transactions, commit and recovery, and
  the proof that a crash between any two disk writes of a commit, or of a recovery, loses nothing.
\<close>

section \<open>Superblock and log state\<close>

abbreviation (input) LOGSIZE :: nat where "LOGSIZE \<equiv> 30"
abbreviation (input) MAXOPBLOCKS :: int where "MAXOPBLOCKS \<equiv> 10"

record superblock =
  sb_size :: uint32
  sb_nblocks :: uint32
  sb_ninodes :: uint32
  sb_nlog :: uint32
  sb_logstart :: uint32
  sb_inodestart :: uint32
  sb_bmapstart :: uint32

definition sb_of_bytes :: "uchar list \<Rightarrow> superblock" where
  "sb_of_bytes d = \<lparr>sb_size = get_u32 d 0, sb_nblocks = get_u32 d 4, sb_ninodes = get_u32 d 8, sb_nlog = get_u32 d 12,
     sb_logstart = get_u32 d 16, sb_inodestart = get_u32 d 20, sb_bmapstart = get_u32 d 24\<rparr>"

definition readsb :: "uint32 \<Rightarrow> 'a kbio_scheme \<Rightarrow> (superblock, 'a kbio_scheme) outcome" where
  "readsb dev s = mbind (bread dev 1 s) (\<lambda>i s. let sb = sb_of_bytes (b_data (bufs s ! i))
     in mbind (brelse i s) (\<lambda>_ s. Ok sb s))"

record klog = kbio +
  log_start :: uint32
  log_size :: int
  outstanding :: int
  committing :: bool
  log_dev :: uint32
  lh_n :: int
  lh_block :: "uint32 list"

text \<open>An access outside an array.\<close>

definition out_of_bounds :: "('x, 's) outcome" where
  "out_of_bounds = Panic ''undefined: array bounds''"


section \<open>Operations\<close>

fun install_loop :: "nat list \<Rightarrow> 'a klog_scheme \<Rightarrow> (unit, 'a klog_scheme) outcome" where
  "install_loop [] s = Ok () s"
| "install_loop (tail # ts) s =
    mbind (bread (log_dev s) (log_start s + of_nat tail + 1) s) (\<lambda>lbuf s.
    mbind (bread (log_dev s) (lh_block s ! tail) s) (\<lambda>dbuf s.
    mbind (bwrite dbuf (set_data dbuf (b_data (bufs s ! lbuf)) s)) (\<lambda>_ s.
    mbind (brelse lbuf s) (\<lambda>_ s.
    mbind (brelse dbuf s) (\<lambda>_ s. install_loop ts s)))))"

definition install_trans :: "'a klog_scheme \<Rightarrow> (unit, 'a klog_scheme) outcome" where
  "install_trans s = install_loop [0..<nat (lh_n s)] s"

definition read_head :: "'a klog_scheme \<Rightarrow> (unit, 'a klog_scheme) outcome" where
  "read_head s = mbind (bread (log_dev s) (log_start s) s) (\<lambda>i s.
     let d = b_data (bufs s ! i); n = sint (get_u32 d 0)
     in if n > int LOGSIZE then out_of_bounds
        else brelse i (s\<lparr>lh_n := n,
          lh_block := map (\<lambda>k. get_u32 d (4 + 4 * k)) [0..<nat n] @ drop (nat n) (lh_block s)\<rparr>))"

definition encode_head :: "uint32 list \<Rightarrow> uchar list \<Rightarrow> uchar list" where
  "encode_head bs d = fold (\<lambda>(k, b) d. put_u32 d (4 + 4 * k) b) (List.enumerate 0 bs) (put_u32 d 0 (of_nat (length bs)))"

definition write_head :: "'a klog_scheme \<Rightarrow> (unit, 'a klog_scheme) outcome" where
  "write_head s = mbind (bread (log_dev s) (log_start s) s) (\<lambda>i s.
     mbind (bwrite i (set_data i (encode_head (take (nat (lh_n s)) (lh_block s)) (b_data (bufs s ! i))) s)) (\<lambda>_ s. brelse i s))"

definition recover_from_log :: "'a klog_scheme \<Rightarrow> (unit, 'a klog_scheme) outcome" where
  "recover_from_log s = mbind (read_head s) (\<lambda>_ s. mbind (install_trans s) (\<lambda>_ s. write_head (s\<lparr>lh_n := 0\<rparr>)))"

definition initlog :: "uint32 \<Rightarrow> 'a klog_scheme \<Rightarrow> (unit, 'a klog_scheme) outcome" where
  "initlog dev s = mbind (readsb dev s) (\<lambda>sb s.
     recover_from_log (s\<lparr>log_start := sb_logstart sb, log_size := sint (sb_nlog sb), log_dev := dev\<rparr>))"

definition begin_op :: "'a klog_scheme \<Rightarrow> (unit, 'a klog_scheme) outcome" where
  "begin_op s =
    (if committing s then sleep ChanLog s
     else if lh_n s + (outstanding s + 1) * MAXOPBLOCKS > int LOGSIZE then sleep ChanLog s
     else Ok () (s\<lparr>outstanding := outstanding s + 1\<rparr>))"

fun write_log_loop :: "nat list \<Rightarrow> 'a klog_scheme \<Rightarrow> (unit, 'a klog_scheme) outcome" where
  "write_log_loop [] s = Ok () s"
| "write_log_loop (tail # ts) s =
    mbind (bread (log_dev s) (log_start s + of_nat tail + 1) s) (\<lambda>to s.
    mbind (bread (log_dev s) (lh_block s ! tail) s) (\<lambda>frm s.
    mbind (bwrite to (set_data to (b_data (bufs s ! frm)) s)) (\<lambda>_ s.
    mbind (brelse frm s) (\<lambda>_ s.
    mbind (brelse to s) (\<lambda>_ s. write_log_loop ts s)))))"

definition write_log :: "'a klog_scheme \<Rightarrow> (unit, 'a klog_scheme) outcome" where
  "write_log s = write_log_loop [0..<nat (lh_n s)] s"

definition commit :: "'a klog_scheme \<Rightarrow> (unit, 'a klog_scheme) outcome" where
  "commit s =
    (if lh_n s > 0 then
       mbind (write_log s) (\<lambda>_ s.
       mbind (write_head s) (\<lambda>_ s.
       mbind (install_trans s) (\<lambda>_ s. write_head (s\<lparr>lh_n := 0\<rparr>))))
     else Ok () s)"

definition end_op :: "'a klog_scheme \<Rightarrow> (unit, 'a klog_scheme) outcome" where
  "end_op s =
    (let s = s\<lparr>outstanding := outstanding s - 1\<rparr>
     in if committing s then Panic ''log.committing''
        else if outstanding s = 0 then
          mbind (commit (s\<lparr>committing := True\<rparr>)) (\<lambda>_ s. Ok () (wakeup ChanLog (s\<lparr>committing := False\<rparr>)))
        else Ok () (wakeup ChanLog s))"

definition log_write :: "nat \<Rightarrow> 'a klog_scheme \<Rightarrow> (unit, 'a klog_scheme) outcome" where
  "log_write b s =
    (if lh_n s \<ge> int LOGSIZE \<or> lh_n s \<ge> log_size s - 1 then Panic ''too big a transaction''
     else if outstanding s < 1 then Panic ''log_write outside of trans''
     else let bn = b_blockno (bufs s ! b); n = nat (lh_n s);
              i = (case ffind (\<lambda>x. x = bn) (take n (lh_block s)) of Some i \<Rightarrow> i | None \<Rightarrow> n);
              s = s\<lparr>lh_block := (lh_block s)[i := bn]\<rparr>;
              s = (if i = n then s\<lparr>lh_n := lh_n s + 1\<rparr> else s)
          in Ok () (pin b s))"


section \<open>The header block\<close>

definition head_n :: "uchar list \<Rightarrow> nat" where
  "head_n d = nat (sint (get_u32 d 0))"

definition head_blocks :: "uchar list \<Rightarrow> uint32 list" where
  "head_blocks d = map (\<lambda>k. get_u32 d (4 + 4 * k)) [0..<head_n d]"

lemma fold_put_length:
  "length (fold (\<lambda>(k, b) d. put_u32 d (4 + 4 * k) b) ps d) = length d"
  by (induction ps arbitrary: d) auto

lemma encode_head_length [simp]: "length (encode_head bs d) = length d"
  by (simp add: encode_head_def fold_put_length)

lemma fold_put_get:
  assumes "4 + 4 * (m + length bs) \<le> length d"
  shows "get_u32 (fold (\<lambda>(k, b) d. put_u32 d (4 + 4 * k) b) (List.enumerate m bs) d) 0 = get_u32 d 0 \<and>
    (\<forall>j. get_u32 (fold (\<lambda>(k, b) d. put_u32 d (4 + 4 * k) b) (List.enumerate m bs) d) (4 + 4 * j) =
      (if m \<le> j \<and> j < m + length bs then bs ! (j - m) else get_u32 d (4 + 4 * j)))"
  using assms
proof (induction bs arbitrary: m d)
  case (Cons b bs)
  let ?d = "put_u32 d (4 + 4 * m) b"
  have "get_u32 ?d (4 + 4 * j) = (if m = j then b else get_u32 d (4 + 4 * j))" for j
    using get_u32_entry [of "Suc m" d b "Suc j"] Cons.prems by simp
  moreover have "get_u32 ?d 0 = get_u32 d 0" by (rule get_u32_put_u32_other) simp
  ultimately show ?case using Cons.IH [of "Suc m" ?d] Cons.prems
    by (auto simp: nth_Cons' not_less less_eq_Suc_le)
qed auto

lemma head_encode:
  assumes "length bs \<le> LOGSIZE" "length d = BSIZE"
  shows "head_n (encode_head bs d) = length bs" "head_blocks (encode_head bs d) = bs"
    "sint (get_u32 (encode_head bs d) 0) = int (length bs)"
proof -
  let ?d = "put_u32 d 0 (of_nat (length bs)) :: uchar list"
  have g: "get_u32 (encode_head bs d) 0 = of_nat (length bs)"
      "\<And>j. j < length bs \<Longrightarrow> get_u32 (encode_head bs d) (4 + 4 * j) = bs ! j"
    using fold_put_get [of 0 bs ?d] assms by (simp_all add: encode_head_def)
  have "sint (of_nat (length bs) :: uint32) = int (length bs)"
    using assms(1) by (simp add: signed_of_nat signed_take_bit_int_eq_self)
  then show "sint (get_u32 (encode_head bs d) 0) = int (length bs)" using g by simp
  then show n: "head_n (encode_head bs d) = length bs" by (simp add: head_n_def)
  show "head_blocks (encode_head bs d) = bs"
    by (rule nth_equalityI) (auto simp: head_blocks_def n g)
qed


section \<open>Copying blocks through the cache\<close>

text \<open>Writing content \<open>d\<close> through to block \<open>y\<close>, and a sequence of such writes.\<close>

definition bput :: "nat \<Rightarrow> uchar list \<Rightarrow> bstate \<Rightarrow> bstate" where
  "bput y d b = b\<lparr>bs_view := (bs_view b)(y := d), bs_disk := (bs_disk b)(y := d),
     bs_trace := bs_trace b @ [(y, d)], bs_dirty := bs_dirty b - {y}\<rparr>"

definition bputs :: "(nat \<times> uchar list) list \<Rightarrow> bstate \<Rightarrow> bstate" where
  "bputs ws b = fold (\<lambda>(y, d). bput y d) ws b"

definition apply_writes :: "(nat \<times> uchar list) list \<Rightarrow> (nat \<Rightarrow> uchar list) \<Rightarrow> nat \<Rightarrow> uchar list" where
  "apply_writes ws d = fold (\<lambda>(y, x) d. d(y := x)) ws d"

lemma bputs_simps [simp]: "bputs [] b = b" "bputs (w # ws) b = bputs ws (bput (fst w) (snd w) b)"
  "bputs (us @ ws) b = bputs ws (bputs us b)"
  by (simp_all add: bputs_def split_beta)

lemma apply_writes_simps [simp]: "apply_writes [] d = d" "apply_writes ((y, x) # ws) d = apply_writes ws (d(y := x))"
  "apply_writes (us @ ws) d = apply_writes ws (apply_writes us d)"
  by (simp_all add: apply_writes_def)

lemma bputs_fields: "bs_view (bputs ws b) = apply_writes ws (bs_view b)" "bs_disk (bputs ws b) = apply_writes ws (bs_disk b)"
  "bs_trace (bputs ws b) = bs_trace b @ ws" "bs_busy (bputs ws b) = bs_busy b" "bs_dirty (bputs ws b) = bs_dirty b - fst ` set ws"
  by (induction ws arbitrary: b) (auto simp: bput_def)

lemma apply_writes_other: "x \<notin> fst ` set ws \<Longrightarrow> apply_writes ws d x = d x"
  by (induction ws arbitrary: d) auto

lemma apply_writes_map:
  assumes "distinct (map f ks)" "k \<in> set ks"
  shows "apply_writes (map (\<lambda>k. (f k, g k)) ks) d (f k) = g k"
  using assms
proof (induction ks arbitrary: d)
  case (Cons a ks)
  show ?case
  proof (cases "k \<in> set ks")
    case True
    then show ?thesis using Cons by simp
  next
    case False
    then have "k = a" using Cons.prems by simp
    then show ?thesis using Cons.prems
      by (subst map_cong [OF refl refl]) (auto intro!: trans [OF apply_writes_other] simp: image_image)
  qed
qed simp

context block_cache
begin

lemma two_blocks:
  assumes "inv s" "unat a < blocks s" "unat b < blocks s" "unat a \<noteq> unat b" "unat a \<notin> bs_busy (st s)" "unat b \<notin> bs_busy (st s)"
    "unat a \<in> bs_dirty (st s) \<or> card (bs_busy (st s) \<union> bs_dirty (st s)) < cap s"
    "unat b \<in> bs_dirty (st s) \<or> card (insert (unat a) (bs_busy (st s) \<union> bs_dirty (st s))) < cap s"
  shows "\<exists>i t j u. bread a s = Ok i t \<and> bread b t = Ok j u \<and> inv u \<and> holding u i (unat a) \<and> holding u j (unat b) \<and>
    st u = (st s)\<lparr>bs_busy := insert (unat b) (insert (unat a) (bs_busy (st s)))\<rparr> \<and> frame s t \<and> frame s u"
proof -
  obtain i t where t: "bread a s = Ok i t" "inv t" "holding t i (unat a)"
      "st t = (st s)\<lparr>bs_busy := insert (unat a) (bs_busy (st s))\<rparr>" "frame s t"
    using bread [OF assms(1,2,5,7)] by blast
  have "unat b < blocks t" "unat b \<notin> bs_busy (st t)"
    "unat b \<in> bs_dirty (st t) \<or> card (bs_busy (st t) \<union> bs_dirty (st t)) < cap t"
    using frame_size [OF t(5)] t(4) assms by simp_all
  then obtain j u where u: "bread b t = Ok j u" "inv u" "holding u j (unat b)" "holding u i (unat a)"
      "st u = (st t)\<lparr>bs_busy := insert (unat b) (bs_busy (st t))\<rparr>" "frame t u"
    using bread [OF t(2), of b] t(3) by blast
  have "st u = (st s)\<lparr>bs_busy := insert (unat b) (insert (unat a) (bs_busy (st s)))\<rparr>" using u(5) t(4) by simp
  then show ?thesis using t(1,5) u(1-4) frame_trans [OF t(5) u(6)] by blast
qed

lemma copy_held:
  assumes "inv u" "holding u i x" "holding u j y" "x \<noteq> y" "x \<in> bs_dirty (st u) \<or> bs_view (st u) x = bs_disk (st u) x"
  shows "\<exists>t v w. bwrite j (put j (data u i) u) = Ok () t \<and> brelse i t = Ok () v \<and> brelse j v = Ok () w \<and>
    inv w \<and> frame u w \<and> st w = (bput y (bs_view (st u) x) (st u))\<lparr>bs_busy := bs_busy (st u) - {x, y}\<rparr>"
proof -
  let ?p = "put j (data u i) u"
  have d: "data u i = bs_view (st u) x" "length (data u i) = BSIZE" using data [OF assms(1,2)] by auto
  have p: "inv ?p" "holding ?p i x" "holding ?p j y" "frame u ?p"
      "st ?p = (st u)\<lparr>bs_view := (bs_view (st u))(y := bs_view (st u) x)\<rparr>"
    using put [OF assms(1,3) d(2)] assms(2,3) d(1) by auto
  obtain t where t: "bwrite j ?p = Ok () t" "inv t" "holding t i x" "holding t j y" "frame ?p t"
      "st t = bput y (bs_view (st u) x) (st u)"
    using bwrite [OF p(1,3)] p(2,3,5) by (auto simp: bput_def)
  obtain v where v: "brelse i t = Ok () v" "inv v" "holding v j y" "frame t v"
      "st v = (st t)\<lparr>bs_busy := bs_busy (st t) - {x}\<rparr>"
    using brelse [OF t(2,3)] t(4,6) assms(4,5) by (auto simp: bput_def)
  have "bs_view (st v) y = bs_disk (st v) y" using v(5) t(6) by (simp add: bput_def)
  then obtain w where w: "brelse j v = Ok () w" "inv w" "frame v w" "st w = (st v)\<lparr>bs_busy := bs_busy (st v) - {y}\<rparr>"
    using brelse [OF v(2,3)] by blast
  have "st w = (bput y (bs_view (st u) x) (st u))\<lparr>bs_busy := bs_busy (st u) - {x, y}\<rparr>"
  proof -
    have "bs_busy (st u) - {x} - {y} = bs_busy (st u) - {x, y}" by blast
    then show ?thesis using w(4) v(5) t(6) by (simp add: bput_def)
  qed
  moreover have "frame u w" using p(4) t(5) v(4) w(3) frame_trans by blast
  ultimately show ?thesis using t(1) v(1) w(1,2) by blast
qed

end


text \<open>The two copies of the log: source read first when installing, destination read first when logging.\<close>

lemma bio_only_log:
  assumes "bio_only s t"
  shows "log_start t = log_start s" "log_size t = log_size s" "outstanding t = outstanding s" "committing t = committing s"
    "log_dev t = log_dev s" "lh_n t = lh_n s" "lh_block t = lh_block s" "disksize t = disksize s"
    "length (bufs t) = length (bufs s)"
proof -
  have e: "bio_rest t = bio_rest s" using assms by (simp add: bio_only_def)
  show "log_start t = log_start s" "log_size t = log_size s" "outstanding t = outstanding s" "committing t = committing s"
    "log_dev t = log_dev s" "lh_n t = lh_n s" "lh_block t = lh_block s"
    using arg_cong [OF e, of log_start] arg_cong [OF e, of log_size] arg_cong [OF e, of outstanding]
      arg_cong [OF e, of committing] arg_cong [OF e, of log_dev] arg_cong [OF e, of lh_n] arg_cong [OF e, of lh_block]
    by (simp_all add: bio_rest_def)
  show "disksize t = disksize s" "length (bufs t) = length (bufs s)"
    using bio_only_disksize [OF assms] assms by (auto simp: bio_only_def)
qed

text \<open>
  The log's blocks and the blocks it stands for: the header and the first \<open>n\<close> blocks of the log lie on the
  disk, the home blocks are distinct, lie on the disk and outside the log.
\<close>

definition log_geom :: "nat \<Rightarrow> uint32 list \<Rightarrow> 'a klog_scheme \<Rightarrow> bool" where
  "log_geom n bs s \<longleftrightarrow> log_dev s = 1 \<and> unat (log_start s) + n < disksize s \<and> disksize s < 2 ^ 32 \<and> length bs = n \<and> distinct bs \<and>
     (\<forall>b\<in>set bs. unat b < disksize s \<and> (unat b < unat (log_start s) \<or> unat (log_start s) + n < unat b))"

lemma log_geom_cong: "bio_only s t \<Longrightarrow> log_geom n bs t = log_geom n bs s"
  using bio_only_log [of s t] by (simp add: log_geom_def)

lemma log_geomD:
  assumes "log_geom n bs s" "k < n"
  shows "unat (log_start s + of_nat k + 1) = unat (log_start s) + k + 1" "unat (log_start s) + k + 1 < disksize s"
    "unat (bs ! k) < disksize s" "unat (bs ! k) \<noteq> unat (log_start s) + j + 1 \<or> n \<le> j" "unat (bs ! k) \<noteq> unat (log_start s)"
    "log_dev s = 1"
proof -
  show "unat (log_start s) + k + 1 < disksize s" "log_dev s = 1" using assms by (auto simp: log_geom_def)
  then have "unat (log_start s) + k + 1 < 2 ^ 32" using assms by (simp add: log_geom_def)
  then show "unat (log_start s + of_nat k + 1) = unat (log_start s) + k + 1"
    using unat_of_nat_32 [of "unat (log_start s) + k + 1"] by (simp add: add.commute [of 1])
  have "bs ! k \<in> set bs" using assms by (simp add: log_geom_def)
  then have b: "unat (bs ! k) < disksize s" "unat (bs ! k) < unat (log_start s) \<or> unat (log_start s) + n < unat (bs ! k)"
    using assms(1) unfolding log_geom_def by blast+
  show "unat (bs ! k) < disksize s" by (rule b)
  show "unat (bs ! k) \<noteq> unat (log_start s) + j + 1 \<or> n \<le> j" "unat (bs ! k) \<noteq> unat (log_start s)" using b(2) by linarith+
qed


lemma bstate_of_simps [simp]: "bs_view (bstate_of s) = view s" "bs_disk (bstate_of s) = memdisk s"
  "bs_trace (bstate_of s) = dtrace s" "bs_busy (bstate_of s) = busy_blocks s" "bs_dirty (bstate_of s) = dirty_blocks s"
  by (simp_all add: bstate_of_def)

abbreviation logblk :: "'a klog_scheme \<Rightarrow> nat \<Rightarrow> nat" where
  "logblk s k \<equiv> unat (log_start s) + k + 1"

lemma bstate_put_fields:
  assumes "bstate_of w = bput y d (bstate_of s)"
  shows "view w = (view s)(y := d)" "memdisk w = (memdisk s)(y := d)" "busy_blocks w = busy_blocks s"
    "dirty_blocks w = dirty_blocks s - {y}" "dtrace w = dtrace s @ [(y, d)]"
  using arg_cong [OF assms, of bs_view] arg_cong [OF assms, of bs_disk] arg_cong [OF assms, of bs_busy]
    arg_cong [OF assms, of bs_dirty] arg_cong [OF assms, of bs_trace] by (simp_all add: bput_def)

lemma bput_busy_id: "(bput y d (b\<lparr>bs_busy := insert p (insert q {})\<rparr>))\<lparr>bs_busy := {}\<rparr> = (bput y d b)\<lparr>bs_busy := {}\<rparr>"
  by (simp add: bput_def)

text \<open>One copy, from block \<open>x\<close> to block \<open>y\<close>, with nothing held before and after.\<close>

lemma copy_step:
  assumes "cache_ok u" "holds u i x" "holds u j y" "x \<noteq> y" "x \<in> dirty_blocks s \<or> view s x = memdisk s x"
    "busy_blocks s = {}" "bstate_of u = (bstate_of s)\<lparr>bs_busy := {x, y}\<rparr>" "bio_only s u"
  shows "\<exists>t v w. bwrite j (set_data j (b_data (bufs u ! i)) u) = Ok () t \<and> brelse i t = Ok () v \<and> brelse j v = Ok () w \<and>
    cache_ok w \<and> bio_only s w \<and> bstate_of w = bput y (view s x) (bstate_of s)"
proof -
  have f: "view u = view s" "memdisk u = memdisk s" "dirty_blocks u = dirty_blocks s" "busy_blocks u = {x, y}"
    using arg_cong [OF assms(7), of bs_view] arg_cong [OF assms(7), of bs_disk] arg_cong [OF assms(7), of bs_dirty]
      arg_cong [OF assms(7), of bs_busy] by simp_all
  obtain t v w where w: "bwrite j (set_data j (b_data (bufs u ! i)) u) = Ok () t" "brelse i t = Ok () v" "brelse j v = Ok () w"
      "cache_ok w" "bio_only u w"
      "bstate_of w = (bput y (bs_view (bstate_of u) x) (bstate_of u))\<lparr>bs_busy := bs_busy (bstate_of u) - {x, y}\<rparr>"
    using bc.copy_held [OF assms(1-4)] assms(5) f by auto
  have "bstate_of w = bput y (view s x) (bstate_of s)"
    using w(6) f assms(6,7) by (cases "bstate_of s") (simp add: bput_def bstate_of_def)
  then show ?thesis using w bio_only_trans [OF assms(8) w(5)] by blast
qed

lemma write_log_loop_correct:
  assumes "cache_ok s" "log_geom n bs s" "take n (lh_block s) = bs" "busy_blocks s = {}" "set ks \<subseteq> {..<n}"
    "unat ` set bs \<subseteq> dirty_blocks s" "card (dirty_blocks s) < length (bufs s)" "\<forall>k<n. logblk s k \<notin> dirty_blocks s"
  shows "\<exists>t. write_log_loop ks s = Ok () t \<and> cache_ok t \<and> bio_only s t \<and>
    bstate_of t = bputs (map (\<lambda>k. (logblk s k, view s (unat (bs ! k)))) ks) (bstate_of s)"
  using assms
proof (induction ks arbitrary: s)
  case (Cons k ks)
  have k: "k < n" using Cons.prems(5) by simp
  note g = log_geomD [OF Cons.prems(2) k]
  have bs: "lh_block s ! k = bs ! k" "k < length bs" using Cons.prems(2,3) k by (auto simp: log_geom_def)
  have home: "unat (bs ! k) \<in> dirty_blocks s" using Cons.prems(6) bs(2) by (auto simp: image_subset_iff)
  have ne: "logblk s k \<noteq> unat (bs ! k)" using g(4) [of k] k by auto
  obtain j t i u where r: "bread 1 (log_start s + of_nat k + 1) s = Ok j t" "bread 1 (bs ! k) t = Ok i u" "cache_ok u"
      "holds u j (logblk s k)" "holds u i (unat (bs ! k))"
      "bstate_of u = (bstate_of s)\<lparr>bs_busy := {unat (bs ! k), logblk s k}\<rparr>" "bio_only s t" "bio_only s u"
    using bc.two_blocks [of s "log_start s + of_nat k + 1" "bs ! k"] Cons.prems(1,4,7) g home ne by auto
  obtain a v w where c: "bwrite j (set_data j (b_data (bufs u ! i)) u) = Ok () a" "brelse i a = Ok () v" "brelse j v = Ok () w"
    "cache_ok w" "bio_only s w" "bstate_of w = bput (logblk s k) (view s (unat (bs ! k))) (bstate_of s)"
    using copy_step [OF r(3,5,4) ne [symmetric] _ Cons.prems(4) r(6,8)] home by auto
  note lt = bio_only_log [OF r(7)] and lw = bio_only_log [OF c(5)] and fw = bstate_put_fields [OF c(6)]
  have step: "write_log_loop (k # ks) s = write_log_loop ks w"
    using r(1,2) c(1-3) lt g(6) bs(1) by simp
  have "logblk s k \<notin> dirty_blocks s" using Cons.prems(8) k by blast
  then have d: "dirty_blocks w = dirty_blocks s" using fw(4) by auto
  have "\<exists>t. write_log_loop ks w = Ok () t \<and> cache_ok t \<and> bio_only w t \<and>
      bstate_of t = bputs (map (\<lambda>k. (logblk w k, view w (unat (bs ! k)))) ks) (bstate_of w)"
    using Cons.IH [OF c(4)] Cons.prems log_geom_cong [OF c(5), of n bs] lw fw(3) d by simp
  moreover have meq: "map (\<lambda>k. (logblk w k, view w (unat (bs ! k)))) ks = map (\<lambda>k. (logblk s k, view s (unat (bs ! k)))) ks"
  proof (rule map_cong [OF refl])
    fix k' assume "k' \<in> set ks"
    then have "unat (bs ! k') \<noteq> logblk s k" using log_geomD(4) [OF Cons.prems(2), of k' k] Cons.prems(5) k by auto
    then show "(logblk w k', view w (unat (bs ! k'))) = (logblk s k', view s (unat (bs ! k')))" using fw(1) lw by simp
  qed
  ultimately obtain x where x: "write_log_loop ks w = Ok () x" "cache_ok x" "bio_only w x" "bstate_of x = bputs (map (\<lambda>k. (logblk s k, view s (unat (bs ! k)))) ks) (bstate_of w)"
    unfolding meq [symmetric] by blast
  have "bstate_of x = bputs (map (\<lambda>k. (logblk s k, view s (unat (bs ! k)))) (k # ks)) (bstate_of s)"
    by (simp only: x(4) c(6) list.map bputs_simps fst_conv snd_conv)
  then show ?case unfolding step using x(1,2) bio_only_trans [OF c(5) x(3)] by blast
qed simp

lemma install_loop_correct:
  assumes "cache_ok s" "log_geom n bs s" "take n (lh_block s) = bs" "busy_blocks s = {}" "set ks \<subseteq> {..<n}" "distinct ks"
    "(\<forall>k\<in>set ks. unat (bs ! k) \<in> dirty_blocks s) \<and> card (dirty_blocks s) < length (bufs s) \<or>
      card (dirty_blocks s) + 1 < length (bufs s)"
    "finite (dirty_blocks s)" "\<forall>k<n. logblk s k \<notin> dirty_blocks s"
  shows "\<exists>t. install_loop ks s = Ok () t \<and> cache_ok t \<and> bio_only s t \<and>
    bstate_of t = bputs (map (\<lambda>k. (unat (bs ! k), view s (logblk s k))) ks) (bstate_of s)"
  using assms
proof (induction ks arbitrary: s)
  case (Cons k ks)
  have k: "k < n" using Cons.prems(5) by simp
  note g = log_geomD [OF Cons.prems(2) k]
  have bs: "lh_block s ! k = bs ! k" "k < length bs" using Cons.prems(2,3) k by (auto simp: log_geom_def)
  have ne: "logblk s k \<noteq> unat (bs ! k)" using g(4) [of k] k by auto
  have nd: "logblk s k \<notin> dirty_blocks s" using Cons.prems(9) k by blast
  have cap: "card (dirty_blocks s) < length (bufs s)"
      "unat (bs ! k) \<in> dirty_blocks s \<or> card (insert (logblk s k) (dirty_blocks s)) < length (bufs s)"
    using Cons.prems(7,8) nd by auto
  obtain i t j u where r: "bread 1 (log_start s + of_nat k + 1) s = Ok i t" "bread 1 (bs ! k) t = Ok j u" "cache_ok u"
      "holds u i (logblk s k)" "holds u j (unat (bs ! k))"
      "bstate_of u = (bstate_of s)\<lparr>bs_busy := {unat (bs ! k), logblk s k}\<rparr>" "bio_only s t" "bio_only s u"
    using bc.two_blocks [of s "log_start s + of_nat k + 1" "bs ! k"] Cons.prems(1,4) cap g ne by auto
  have clean: "view s (logblk s k) = memdisk s (logblk s k)" using clean_block [OF Cons.prems(1)] Cons.prems(4) nd by simp
  obtain a v w where c: "bwrite j (set_data j (b_data (bufs u ! i)) u) = Ok () a" "brelse i a = Ok () v" "brelse j v = Ok () w"
    "cache_ok w" "bio_only s w" "bstate_of w = bput (unat (bs ! k)) (view s (logblk s k)) (bstate_of s)"
    using copy_step [OF r(3,4,5) ne _ Cons.prems(4) r(6) [unfolded insert_commute [of "unat (bs ! k)"]] r(8)] clean by auto
  note lt = bio_only_log [OF r(7)] and lw = bio_only_log [OF c(5)] and fw = bstate_put_fields [OF c(6)]
  have step: "install_loop (k # ks) s = install_loop ks w"
    using r(1,2) c(1-3) lt g(6) bs(1) by simp
  have other: "bs ! k' \<noteq> bs ! k" if "k' \<in> set ks" for k'
    using that Cons.prems(2,5,6) k by (auto simp: log_geom_def nth_eq_iff_index_eq)
  have "card (dirty_blocks w) \<le> card (dirty_blocks s)"
    unfolding fw(4) using Cons.prems(8) by (simp add: card_Diff1_le)
  moreover have "unat (bs ! k') \<in> dirty_blocks w" if "k' \<in> set ks" "unat (bs ! k') \<in> dirty_blocks s" for k'
    using that other [OF that(1)] fw(4) by (simp add: word_unat_eq_iff)
  ultimately have capw: "(\<forall>k\<in>set ks. unat (bs ! k) \<in> dirty_blocks w) \<and> card (dirty_blocks w) < length (bufs w) \<or>
      card (dirty_blocks w) + 1 < length (bufs w)"
    using Cons.prems(7) lw(9) by auto
  have "\<exists>t. install_loop ks w = Ok () t \<and> cache_ok t \<and> bio_only w t \<and>
      bstate_of t = bputs (map (\<lambda>k. (unat (bs ! k), view w (logblk w k))) ks) (bstate_of w)"
    using Cons.IH [OF c(4) _ _ _ _ _ capw] Cons.prems log_geom_cong [OF c(5), of n bs] lw fw(3,4) by simp
  moreover have meq: "map (\<lambda>k. (unat (bs ! k), view w (logblk w k))) ks = map (\<lambda>k. (unat (bs ! k), view s (logblk s k))) ks"
  proof (rule map_cong [OF refl])
    fix k' assume "k' \<in> set ks"
    then have "unat (bs ! k) \<noteq> logblk s k'" using g(4) [of k'] Cons.prems(5) by auto
    then show "(unat (bs ! k'), view w (logblk w k')) = (unat (bs ! k'), view s (logblk s k'))" using fw(1) lw by simp
  qed
  ultimately obtain x where x: "install_loop ks w = Ok () x" "cache_ok x" "bio_only w x" "bstate_of x = bputs (map (\<lambda>k. (unat (bs ! k), view s (logblk s k))) ks) (bstate_of w)"
    unfolding meq [symmetric] by blast
  have "bstate_of x = bputs (map (\<lambda>k. (unat (bs ! k), view s (logblk s k))) (k # ks)) (bstate_of s)"
    by (simp only: x(4) c(6) list.map bputs_simps fst_conv snd_conv)
  then show ?case unfolding step using x(1,2) bio_only_trans [OF c(5) x(3)] by blast
qed simp


section \<open>Commit and recovery\<close>

lemma bio_state_cong:
  assumes "bufs t = bufs s" "head_next t = head_next s" "head_prev t = head_prev s" "memdisk t = memdisk s"
    "disksize t = disksize s" "dtrace t = dtrace s"
  shows "cache_ok t = cache_ok s" "bstate_of t = bstate_of s"
proof -
  have "ring t xs = ring s xs" for xs using ring_cong [OF assms(1-3)] .
  then show "cache_ok t = cache_ok s" using assms by (simp add: cache_ok_def buf_ok_def buf_unique_def)
  have "view t = view s" by (rule ext) (simp add: view_def assms split: option.splits)
  then show "bstate_of t = bstate_of s"
    using assms by (simp add: bstate_of_def busy_blocks_def dirty_blocks_def cached_def)
qed

lemma set_lh_n [simp]: "cache_ok (s\<lparr>lh_n := x\<rparr>) = cache_ok s" "bstate_of (s\<lparr>lh_n := x\<rparr>) = bstate_of s"
  "log_geom n bs (s\<lparr>lh_n := x\<rparr>) = log_geom n bs s"
  using bio_state_cong [of "s\<lparr>lh_n := x\<rparr>" s] by (simp_all add: log_geom_def)

lemma set_lh_n_fields [simp]: "view (s\<lparr>lh_n := x\<rparr>) = view s" "busy_blocks (s\<lparr>lh_n := x\<rparr>) = busy_blocks s"
    "dirty_blocks (s\<lparr>lh_n := x\<rparr>) = dirty_blocks s"
  by (rule ext) (simp_all add: view_def busy_blocks_def dirty_blocks_def cached_def split: option.splits)

lemma bio_rest_lh_n: "bio_rest (s\<lparr>lh_n := x\<rparr>) = (bio_rest s)\<lparr>lh_n := x\<rparr>" for s :: "'a klog_scheme"
  by (cases s) (simp add: bio_rest_def)

lemma write_head_correct:
  assumes "cache_ok s" "log_dev s = 1" "unat (log_start s) < disksize s" "busy_blocks s = {}"
    "card (dirty_blocks s) < length (bufs s)"
  shows "\<exists>t. write_head s = Ok () t \<and> cache_ok t \<and> bio_only s t \<and> bstate_of t =
    bput (unat (log_start s)) (encode_head (take (nat (lh_n s)) (lh_block s)) (view s (unat (log_start s)))) (bstate_of s)"
proof -
  let ?f = "encode_head (take (nat (lh_n s)) (lh_block s))"
  obtain i t where b: "bread 1 (log_start s) s = Ok i t" "bio_only s t"
    using bc.bread [of s "log_start s"] assms by auto
  have "write_head s = mbind (bread 1 (log_start s) s) (\<lambda>i s. mbind (bwrite i (set_data i (?f (b_data (bufs s ! i))) s)) (\<lambda>_. brelse i))"
    using bio_only_log [OF b(2)] by (simp add: write_head_def assms(2) b(1))
  moreover have "length (?f (view s (unat (log_start s)))) = BSIZE" using view_length [OF assms(1,3)] by simp
  ultimately show ?thesis
    using bc.write_through [of s "log_start s" ?f] assms by (simp add: bput_def)
qed

definition log_writes :: "nat \<Rightarrow> uint32 list \<Rightarrow> 'a klog_scheme \<Rightarrow> (nat \<times> uchar list) list" where
  "log_writes n bs s = map (\<lambda>k. (logblk s k, view s (unat (bs ! k)))) [0..<n]"

definition head_write :: "uint32 list \<Rightarrow> 'a klog_scheme \<Rightarrow> nat \<times> uchar list" where
  "head_write bs s = (unat (log_start s), encode_head bs (view s (unat (log_start s))))"

definition home_writes :: "nat \<Rightarrow> uint32 list \<Rightarrow> 'a klog_scheme \<Rightarrow> (nat \<times> uchar list) list" where
  "home_writes n bs s = map (\<lambda>k. (unat (bs ! k), view s (unat (bs ! k)))) [0..<n]"

definition clear_write :: "uint32 list \<Rightarrow> 'a klog_scheme \<Rightarrow> nat \<times> uchar list" where
  "clear_write bs s = (unat (log_start s), encode_head [] (encode_head bs (view s (unat (log_start s)))))"

lemma bstate_puts_fields:
  assumes "bstate_of w = bputs ws (bstate_of s)"
  shows "view w = apply_writes ws (view s)" "memdisk w = apply_writes ws (memdisk s)" "busy_blocks w = busy_blocks s"
    "dirty_blocks w = dirty_blocks s - fst ` set ws" "dtrace w = dtrace s @ ws"
  using arg_cong [OF assms, of bs_view] arg_cong [OF assms, of bs_disk] arg_cong [OF assms, of bs_busy]
    arg_cong [OF assms, of bs_dirty] arg_cong [OF assms, of bs_trace] by (simp_all add: bputs_fields)

lemma log_writes_fst: "fst ` set (log_writes n bs s) = (\<lambda>k. logblk s k) ` {..<n}"
  by (auto simp: log_writes_def image_image atLeast0LessThan)

lemma home_writes_fst: "length bs = n \<Longrightarrow> fst ` set (home_writes n bs s) = unat ` set bs"
  by (auto simp: home_writes_def image_image in_set_conv_nth intro!: imageI)

text \<open>A transaction ready to commit: its blocks are pinned, and nothing is held.\<close>

definition txn :: "nat \<Rightarrow> uint32 list \<Rightarrow> 'a klog_scheme \<Rightarrow> bool" where
  "txn n bs s \<longleftrightarrow> cache_ok s \<and> busy_blocks s = {} \<and> lh_n s = int n \<and> take n (lh_block s) = bs \<and> n \<le> LOGSIZE \<and>
     log_geom n bs s \<and> dirty_blocks s = unat ` set bs \<and> n < length (bufs s)"

lemma txn_card: "log_geom n bs s \<Longrightarrow> card (unat ` set bs) = n"
  using card_image [of unat "set bs"] by (simp add: log_geom_def inj_on_def distinct_card word_unat_eq_iff)

lemma log_geom_disjoint:
  "log_geom n bs s \<Longrightarrow> (\<forall>k<n. logblk s k \<notin> unat ` set bs) \<and> unat (log_start s) \<notin> unat ` set bs"
  by (fastforce simp: log_geom_def)

lemma commit_correct:
  assumes "txn n bs s" "0 < n"
  shows "\<exists>t. commit s = Ok () t \<and> cache_ok t \<and> lh_n t = 0 \<and> bio_only (s\<lparr>lh_n := 0\<rparr>) t \<and>
    bstate_of t = bputs (log_writes n bs s @ head_write bs s # home_writes n bs s @ [clear_write bs s]) (bstate_of s)"
proof -
  have s: "cache_ok s" "busy_blocks s = {}" "lh_n s = int n" "take n (lh_block s) = bs" "n \<le> LOGSIZE" "log_geom n bs s"
      "dirty_blocks s = unat ` set bs" "n < length (bufs s)"
    using assms(1) by (auto simp: txn_def)
  have "bufs s \<noteq> []" using s(8) by auto
  have upt: "set [0..<n] \<subseteq> {..<n}" by auto
  have card: "card (dirty_blocks s) = n" using txn_card [OF s(6)] s(7) by simp
  have g: "log_dev s = 1" "unat (log_start s) < disksize s" "length bs = n" using s(6) by (auto simp: log_geom_def)
  have nl: "\<forall>k<n. logblk s k \<notin> dirty_blocks s" "unat (log_start s) \<notin> dirty_blocks s"
    using log_geom_disjoint [OF s(6)] s(7) by simp_all
  obtain a where a: "write_log s = Ok () a" "cache_ok a" "bio_only s a" "bstate_of a = bputs (log_writes n bs s) (bstate_of s)"
    using write_log_loop_correct [OF s(1,6,4,2) upt] s(3,7,8) card nl(1) by (auto simp: write_log_def log_writes_def)
  note la = bio_only_log [OF a(3)] and fa = bstate_puts_fields [OF a(4)]
  have da: "dirty_blocks a = dirty_blocks s" using fa(4) nl(1) by (auto simp: log_writes_fst)
  have va: "view a (unat (log_start s)) = view s (unat (log_start s))"
    unfolding fa(1) by (rule apply_writes_other) (auto simp: log_writes_fst)
  obtain b where b: "write_head a = Ok () b" "cache_ok b" "bio_only a b"
      "bstate_of b = bput (unat (log_start s)) (encode_head bs (view s (unat (log_start s)))) (bstate_of a)"
    using write_head_correct [OF a(2)] la g fa(3) s(2,3,4,8) da card va by auto
  note lb = bio_only_log [OF b(3)] and fb = bstate_put_fields [OF b(4)]
  have db: "dirty_blocks b = dirty_blocks s" using fb(4) da nl(2) by auto
  have vb: "view b (logblk s k) = view s (unat (bs ! k))" if "k < n" for k
    unfolding fb(1) fa(1) log_writes_def
    using apply_writes_map [of "\<lambda>k. logblk s k" "[0..<n]" k "\<lambda>k. view s (unat (bs ! k))" "view s"] that
    by (simp add: distinct_map inj_on_def)
  have geo: "log_geom n bs b" using log_geom_cong [OF bio_only_trans [OF a(3) b(3)]] s(6) by blast
  have homes: "\<forall>k\<in>set [0..<n]. unat (bs ! k) \<in> dirty_blocks b" using db s(7) g(3) by auto
  obtain c where c: "install_trans b = Ok () c" "cache_ok c" "bio_only b c"
      "bstate_of c = bputs (map (\<lambda>k. (unat (bs ! k), view b (logblk b k))) [0..<n]) (bstate_of b)"
    using install_loop_correct [OF b(2) geo _ _ upt] homes db nl(1) card la lb s(2,3,4,7,8) fa(3) fb(3)
    by (auto simp: install_trans_def)
  have "map (\<lambda>k. (unat (bs ! k), view b (logblk b k))) [0..<n] = home_writes n bs s"
    unfolding home_writes_def using vb lb la by (intro map_cong) auto
  then have c4: "bstate_of c = bputs (home_writes n bs s) (bstate_of b)" using c(4) by simp
  note lc = bio_only_log [OF c(3)] and fc = bstate_puts_fields [OF c4]
  have dc: "dirty_blocks c = {}" using fc(4) db s(7) home_writes_fst [OF g(3), of s] by simp
  have "view c (unat (log_start s)) = view b (unat (log_start s))"
    unfolding fc(1) by (rule apply_writes_other)
      (use nl(2) s(7) home_writes_fst [OF g(3), of s] in simp)
  then have vc: "view c (unat (log_start s)) = encode_head bs (view s (unat (log_start s)))" using fb(1) by simp
  obtain t where t: "write_head (c\<lparr>lh_n := 0\<rparr>) = Ok () t" "cache_ok t" "bio_only (c\<lparr>lh_n := 0\<rparr>) t"
      "bstate_of t = bput (unat (log_start s)) (encode_head [] (encode_head bs (view s (unat (log_start s))))) (bstate_of c)"
    using write_head_correct [of "c\<lparr>lh_n := 0\<rparr>"] c(2) la(1,5,8,9) lb(1,5,8,9) lc(1,5,8,9) g fa(3) fb(3) fc(3) s(2) dc vc
      \<open>bufs s \<noteq> []\<close> by auto
  have e: "bio_rest c = bio_rest s" using a(3) b(3) c(3) by (simp add: bio_only_def)
  have "bio_only (s\<lparr>lh_n := 0\<rparr>) (c\<lparr>lh_n := 0\<rparr>)"
    using e la(9) lb(9) lc(9) by (simp add: bio_only_def bio_rest_lh_n)
  then have "bio_only (s\<lparr>lh_n := 0\<rparr>) t" using bio_only_trans t(3) by blast
  moreover have "commit s = Ok () t" using a(1) b(1) c(1) t(1) s(3) assms(2) by (simp add: commit_def)
  moreover have "lh_n t = 0" using bio_only_log(6) [OF t(3)] by simp
  ultimately show ?thesis using t(2,4) c4 b(4) a(4) by (simp add: head_write_def clear_write_def)
qed


lemma set_lh:
  fixes s :: "'a klog_scheme" and x :: int and y :: "uint32 list"
  defines "u \<equiv> s\<lparr>lh_n := x, lh_block := y\<rparr>"
  shows "cache_ok u = cache_ok s" "bstate_of u = bstate_of s" "holds u = holds s"
  using bio_state_cong [of u s] by (simp_all add: u_def holds_def cached_def fun_eq_iff)

lemma read_head_correct:
  assumes "cache_ok s" "busy_blocks s = {}" "dirty_blocks s = {}" "bufs s \<noteq> []" "log_dev s = 1" "unat (log_start s) < disksize s"
    "sint (get_u32 (memdisk s (unat (log_start s))) 0) \<le> int LOGSIZE"
  shows "\<exists>t x. read_head s = Ok () t \<and> cache_ok t \<and> bstate_of t = bstate_of s \<and> log_start t = log_start s \<and>
    log_dev t = 1 \<and> disksize t = disksize s \<and> length (bufs t) = length (bufs s) \<and>
    lh_n t = sint (get_u32 (memdisk s (unat (log_start s))) 0) \<and>
    lh_block t = head_blocks (memdisk s (unat (log_start s))) @ x"
proof -
  let ?d = "memdisk s (unat (log_start s))"
  have v: "view s (unat (log_start s)) = ?d" using clean_block [OF assms(1)] assms(2,3) by simp
  obtain i t where b: "bread 1 (log_start s) s = Ok i t" "cache_ok t" "holds t i (unat (log_start s))"
      "bstate_of t = (bstate_of s)\<lparr>bs_busy := {unat (log_start s)}\<rparr>" "bio_only s t"
    using bc.bread [of s "log_start s"] assms by auto
  note lt = bio_only_log [OF b(5)]
  have f: "view t = view s" "memdisk t = memdisk s"
    using arg_cong [OF b(4), of bs_view] arg_cong [OF b(4), of bs_disk] by simp_all
  have d: "b_data (bufs t ! i) = ?d" using bc.data [OF b(2,3)] f v by simp
  define u where "u = t\<lparr>lh_n := sint (get_u32 ?d 0),
      lh_block := head_blocks ?d @ drop (head_n ?d) (lh_block s)\<rparr>"
  have u: "cache_ok u" "holds u i (unat (log_start s))" "bstate_of u = bstate_of t"
    using b(2,3) set_lh [where s = t and x = "sint (get_u32 ?d 0)" and y = "head_blocks ?d @ drop (head_n ?d) (lh_block s)"] by (simp_all add: u_def)
  have "bs_view (bstate_of u) (unat (log_start s)) = bs_disk (bstate_of u) (unat (log_start s))" using u(3) f v by simp
  then obtain w where w: "brelse i u = Ok () w" "cache_ok w" "bstate_of w = (bstate_of u)\<lparr>bs_busy := bs_busy (bstate_of u) - {unat (log_start s)}\<rparr>"
      "bio_only u w"
    using bc.brelse [OF u(1,2)] by blast
  note lw = bio_only_log [OF w(4)]
  have "read_head s = Ok () w"
    using w(1) assms(5,7) b(1) lt(7) d by (simp add: read_head_def Let_def u_def head_blocks_def head_n_def)
  moreover have "bstate_of w = bstate_of s" using w(3) u(3) b(4) assms(2) by (cases "bstate_of s") (simp add: bstate_of_def)
  ultimately show ?thesis using w(2) lw lt assms(5) by (simp add: u_def)
qed

lemma recover_correct:
  assumes "cache_ok s" "busy_blocks s = {}" "dirty_blocks s = {}" "1 < length (bufs s)"
    "sint (get_u32 (memdisk s (unat (log_start s))) 0) \<le> int LOGSIZE"
  defines "d \<equiv> memdisk s (unat (log_start s))"
  assumes geo: "log_geom (head_n d) (head_blocks d) s"
  shows "\<exists>t. recover_from_log s = Ok () t \<and> cache_ok t \<and> lh_n t = 0 \<and> bstate_of t =
    bputs (map (\<lambda>k. (unat (head_blocks d ! k), memdisk s (logblk s k))) [0..<head_n d] @ [(unat (log_start s), encode_head [] d)])
      (bstate_of s)"
proof -
  let ?n = "head_n d" and ?bs = "head_blocks d"
  have g: "log_dev s = 1" "unat (log_start s) < disksize s" "length ?bs = ?n" using geo by (auto simp: log_geom_def)
  have "bufs s \<noteq> []" using assms(4) by auto
  then obtain a x where a: "read_head s = Ok () a" "cache_ok a" "bstate_of a = bstate_of s" "log_start a = log_start s"
      "log_dev a = 1" "disksize a = disksize s" "length (bufs a) = length (bufs s)"
      "lh_n a = sint (get_u32 d 0)" "lh_block a = ?bs @ x"
    using read_head_correct [OF assms(1-3) _ g(1,2) assms(5)] unfolding d_def by blast
  have fa: "view a = view s" "busy_blocks a = {}" "dirty_blocks a = {}"
    using arg_cong [OF a(3), of bs_view] arg_cong [OF a(3), of bs_busy] arg_cong [OF a(3), of bs_dirty] assms(2,3) by simp_all
  have ga: "log_geom ?n ?bs a" using geo a(4-6) by (simp add: log_geom_def)
  have upt: "set [0..<?n] \<subseteq> {..<?n}" by auto
  have n: "nat (lh_n a) = ?n" using a(8) by (simp add: head_n_def)
  obtain b where b: "install_trans a = Ok () b" "cache_ok b" "bio_only a b"
      "bstate_of b = bputs (map (\<lambda>k. (unat (?bs ! k), view a (logblk a k))) [0..<?n]) (bstate_of a)"
    using install_loop_correct [OF a(2) ga _ fa(2) upt] a(7,9) fa(3) assms(4) g(3) n by (auto simp: install_trans_def)
  have v: "view s x = memdisk s x" for x using clean_block [OF assms(1)] assms(2,3) by simp
  then have b4: "bstate_of b = bputs (map (\<lambda>k. (unat (?bs ! k), memdisk s (logblk s k))) [0..<?n]) (bstate_of s)"
    using b(4) a(3,4) fa(1) by simp
  note lb = bio_only_log [OF b(3)] and fb = bstate_puts_fields [OF b4]
  have vb: "view b (unat (log_start s)) = d"
  proof -
    have "unat (log_start s) \<notin> unat ` set ?bs" using log_geom_disjoint [OF geo] by blast
    then have "unat (log_start s) \<noteq> unat (?bs ! k)" if "k < ?n" for k using that g(3) by (metis image_eqI nth_mem)
    then show ?thesis unfolding fb(1) using v by (subst apply_writes_other) (auto simp: d_def)
  qed
  obtain t where t: "write_head (b\<lparr>lh_n := 0\<rparr>) = Ok () t" "cache_ok t" "bio_only (b\<lparr>lh_n := 0\<rparr>) t"
      "bstate_of t = bput (unat (log_start s)) (encode_head [] d) (bstate_of b)"
    using write_head_correct [of "b\<lparr>lh_n := 0\<rparr>"] b(2) lb(1,5,8,9) a(4-7) g fb(3,4) assms(2,3) \<open>bufs s \<noteq> []\<close> vb by auto
  have "recover_from_log s = Ok () t" using a(1) b(1) t(1) by (simp add: recover_from_log_def)
  moreover have "lh_n t = 0" using bio_only_log(6) [OF t(3)] by simp
  ultimately show ?thesis using t(2,4) b4 by simp
qed


section \<open>Crash safety\<close>

text \<open>
  A machine that starts on disk \<open>d\<close> after a crash, \<open>initlog\<close> having read the superblock: its cache is empty.
\<close>

definition booted :: "(nat \<Rightarrow> uchar list) \<Rightarrow> 'a klog_scheme \<Rightarrow> 'b klog_scheme \<Rightarrow> bool" where
  "booted d s r \<longleftrightarrow> cache_ok r \<and> busy_blocks r = {} \<and> dirty_blocks r = {} \<and> 1 < length (bufs r) \<and> memdisk r = d \<and>
     log_dev r = 1 \<and> log_start r = log_start s \<and> disksize r = disksize s"

text \<open>The blocks of the log that a transaction of \<open>n\<close> blocks uses, header included.\<close>

definition log_area :: "nat \<Rightarrow> 'a klog_scheme \<Rightarrow> nat set" where
  "log_area n s = {unat (log_start s)..unat (log_start s) + n}"

text \<open>Recovery from a header with no blocks and from one with blocks.\<close>

lemma recover_empty:
  assumes "booted d s r" "head_n (d (unat (log_start s))) = 0" "unat (log_start s) < disksize s" "disksize s < 2 ^ 32"
  shows "\<exists>u. recover_from_log r = Ok () u \<and> cache_ok u \<and> lh_n u = 0 \<and>
     (\<forall>b. b \<noteq> unat (log_start s) \<longrightarrow> memdisk u b = d b)"
proof -
  let ?h = "d (unat (log_start s))"
  have bs: "head_blocks ?h = []" using assms(2) by (simp add: head_blocks_def)
  have n: "sint (get_u32 ?h 0) \<le> int LOGSIZE" using assms(2) by (simp add: head_n_def)
  have "log_geom 0 [] r" using assms(1,3,4) by (simp add: booted_def log_geom_def)
  then obtain u where u: "recover_from_log r = Ok () u" "cache_ok u" "lh_n u = 0"
      "bstate_of u = bputs [(unat (log_start s), encode_head [] ?h)] (bstate_of r)"
    using recover_correct [of r] assms(1,2) bs n by (auto simp: booted_def)
  then show ?thesis using bstate_puts_fields(2) [OF u(4)] assms(1) by (auto simp: booted_def)
qed

lemma recover_logged:
  assumes "booted d s r" "head_n (d (unat (log_start s))) = n" "head_blocks (d (unat (log_start s))) = bs" "n \<le> LOGSIZE" "log_geom n bs s"
  shows "\<exists>u. recover_from_log r = Ok () u \<and> cache_ok u \<and> lh_n u = 0 \<and>
     (\<forall>k<n. memdisk u (unat (bs ! k)) = d (logblk s k)) \<and>
     (\<forall>b. b \<noteq> unat (log_start s) \<and> b \<notin> unat ` set bs \<longrightarrow> memdisk u b = d b)"
proof -
  let ?h = "d (unat (log_start s))" and ?ws = "map (\<lambda>k. (unat (bs ! k), d (logblk s k))) [0..<n]"
  have n: "sint (get_u32 ?h 0) \<le> int LOGSIZE" using assms(2,4) by (auto simp: head_n_def)
  have g: "length bs = n" "distinct bs" using assms(5) by (auto simp: log_geom_def)
  have "log_geom n bs r" using assms(1,5) by (simp add: booted_def log_geom_def)
  then obtain u where u: "recover_from_log r = Ok () u" "cache_ok u" "lh_n u = 0"
      "bstate_of u = bputs (?ws @ [(unat (log_start s), encode_head [] ?h)]) (bstate_of r)"
    using recover_correct [of r] assms(1-3) n by (auto simp: booted_def)
  have m: "memdisk u = (apply_writes ?ws d)(unat (log_start s) := encode_head [] ?h)"
    using bstate_puts_fields(2) [OF u(4)] assms(1) by (simp add: booted_def)
  have dist: "distinct (map (\<lambda>k. unat (bs ! k)) [0..<n])"
    using g by (auto simp: distinct_map inj_on_def word_unat_eq_iff [symmetric] nth_eq_iff_index_eq)
  have "memdisk u (unat (bs ! k)) = d (logblk s k)" if "k < n" for k
    using apply_writes_map [OF dist, of k] log_geomD(5) [OF assms(5) that] that by (simp add: m)
  moreover have "memdisk u b = d b" if "b \<noteq> unat (log_start s)" "b \<notin> unat ` set bs" for b
  proof -
    have "b \<notin> fst ` set ?ws" using that(2) g(1) by (auto simp: image_image)
    then show ?thesis using that(1) by (simp add: m apply_writes_other)
  qed
  ultimately show ?thesis using u(1-3) by blast
qed

lemma txn_D:
  assumes "txn n bs s"
  shows "n \<le> LOGSIZE" "log_geom n bs s" "length bs = n" "unat (log_start s) < disksize s" "disksize s < 2 ^ 32"
    "length (view s (unat (log_start s))) = BSIZE" "b \<notin> unat ` set bs \<Longrightarrow> view s b = memdisk s b"
proof -
  show g: "n \<le> LOGSIZE" "log_geom n bs s" using assms by (auto simp: txn_def)
  show h: "length bs = n" "unat (log_start s) < disksize s" "disksize s < 2 ^ 32" using g(2) by (auto simp: log_geom_def)
  show "length (view s (unat (log_start s))) = BSIZE" using view_length h(2) assms by (auto simp: txn_def)
  show "b \<notin> unat ` set bs \<Longrightarrow> view s b = memdisk s b" using clean_block [of s b] assms by (simp add: txn_def)
qed

lemma home_writes_apply:
  assumes "txn n bs s" "k \<le> n" "d (unat (log_start s)) = h" "\<forall>j<n. d (logblk s j) = view s (unat (bs ! j))"
    "\<forall>b. b \<notin> log_area n s \<longrightarrow> d b = memdisk s b"
  defines "d' \<equiv> apply_writes (take k (home_writes n bs s)) d"
  shows "d' (unat (log_start s)) = h" "\<forall>j<n. d' (logblk s j) = view s (unat (bs ! j))"
    "\<forall>b. b \<notin> log_area n s \<longrightarrow> b \<notin> unat ` set bs \<longrightarrow> d' b = memdisk s b"
    "k = n \<Longrightarrow> \<forall>b. b \<notin> log_area n s \<longrightarrow> d' b = view s b"
proof -
  have g: "log_geom n bs s" "length bs = n" using txn_D [OF assms(1)] by auto
  have sub: "fst ` set (take k (home_writes n bs s)) \<subseteq> unat ` set bs"
    unfolding home_writes_fst [OF g(2), of s, symmetric] by (intro image_mono set_take_subset)
  have other: "d' b = d b" if "b \<notin> unat ` set bs" for b
    unfolding d'_def using sub that by (intro apply_writes_other) blast
  show "d' (unat (log_start s)) = h" "\<forall>j<n. d' (logblk s j) = view s (unat (bs ! j))"
    using other log_geom_disjoint [OF g(1)] assms(3,4) by simp_all
  show "\<forall>b. b \<notin> log_area n s \<longrightarrow> b \<notin> unat ` set bs \<longrightarrow> d' b = memdisk s b" using other assms(5) by simp
  assume k: "k = n"
  have dist: "distinct (map (\<lambda>k. unat (bs ! k)) [0..<n])"
    using g by (auto simp: log_geom_def distinct_map inj_on_def word_unat_eq_iff [symmetric] nth_eq_iff_index_eq)
  have d': "d' = apply_writes (map (\<lambda>k. (unat (bs ! k), view s (unat (bs ! k)))) [0..<n]) d"
    using k by (simp add: d'_def home_writes_def)
  show "\<forall>b. b \<notin> log_area n s \<longrightarrow> d' b = view s b"
  proof (intro allI impI)
    fix b assume b: "b \<notin> log_area n s"
    show "d' b = view s b"
    proof (cases "b \<in> unat ` set bs")
      case True
      then obtain j where "j < n" "b = unat (bs ! j)" using g(2) by (auto simp: in_set_conv_nth)
      then show ?thesis using apply_writes_map [OF dist, of j "\<lambda>k. view s (unat (bs ! k))" d] d' by simp
    next
      case False
      then show ?thesis using other b assms(5) txn_D(7) [OF assms(1)] by simp
    qed
  qed
qed


text \<open>The disk after the first \<open>k\<close> writes of a commit, seen from the header.\<close>

lemma commit_prefix:
  assumes "txn n bs s" "k \<le> 2 * n + 2"
  defines "W \<equiv> log_writes n bs s @ head_write bs s # home_writes n bs s @ [clear_write bs s]"
  defines "d \<equiv> apply_writes (take k W) (memdisk s)"
  shows "k \<le> n \<Longrightarrow> d (unat (log_start s)) = memdisk s (unat (log_start s)) \<and> (\<forall>b. b \<notin> log_area n s \<longrightarrow> d b = memdisk s b)"
    "n < k \<Longrightarrow> k < 2 * n + 2 \<Longrightarrow> d (unat (log_start s)) = encode_head bs (view s (unat (log_start s))) \<and>
       (\<forall>j<n. d (logblk s j) = view s (unat (bs ! j))) \<and> (\<forall>b. b \<notin> log_area n s \<longrightarrow> b \<notin> unat ` set bs \<longrightarrow> d b = memdisk s b)"
    "k = 2 * n + 2 \<Longrightarrow> d (unat (log_start s)) = encode_head [] (encode_head bs (view s (unat (log_start s)))) \<and>
       (\<forall>b. b \<notin> log_area n s \<longrightarrow> d b = view s b)"
proof -
  have len: "length (log_writes n bs s) = n" "length (home_writes n bs s) = n" by (simp_all add: log_writes_def home_writes_def)
  have area: "unat (log_start s) \<in> log_area n s" "\<And>k. k < n \<Longrightarrow> logblk s k \<in> log_area n s" by (simp_all add: log_area_def)
  have sub: "fst ` set (take m (log_writes n bs s)) \<subseteq> (\<lambda>k. logblk s k) ` {..<n}" for m
    unfolding log_writes_fst [of n bs s, symmetric] by (intro image_mono set_take_subset)
  show "d (unat (log_start s)) = memdisk s (unat (log_start s)) \<and> (\<forall>b. b \<notin> log_area n s \<longrightarrow> d b = memdisk s b)" if "k \<le> n"
  proof -
    have "d = apply_writes (take k (log_writes n bs s)) (memdisk s)" using that len by (simp add: d_def W_def)
    then have "d b = memdisk s b" if "b = unat (log_start s) \<or> b \<notin> log_area n s" for b
      using sub [of k] area that by (auto intro!: apply_writes_other)
    then show ?thesis by blast
  qed
  define e where "e = (apply_writes (log_writes n bs s) (memdisk s))(unat (log_start s) := encode_head bs (view s (unat (log_start s))))"
  have "e (logblk s j) = view s (unat (bs ! j))" if "j < n" for j
    unfolding e_def log_writes_def
    using apply_writes_map [of "\<lambda>k. logblk s k" "[0..<n]" j "\<lambda>k. view s (unat (bs ! k))"] that
    by (simp add: distinct_map inj_on_def)
  moreover have "e b = memdisk s b" if "b \<notin> log_area n s" for b
  proof -
    have "b \<notin> fst ` set (log_writes n bs s)" using that area(2) by (auto simp: log_writes_fst)
    then show ?thesis using that area(1) by (auto simp: e_def apply_writes_other)
  qed
  ultimately have e: "e (unat (log_start s)) = encode_head bs (view s (unat (log_start s)))"
      "\<forall>j<n. e (logblk s j) = view s (unat (bs ! j))" "\<forall>b. b \<notin> log_area n s \<longrightarrow> e b = memdisk s b"
    by (simp_all add: e_def)
  show "d (unat (log_start s)) = encode_head bs (view s (unat (log_start s))) \<and>
       (\<forall>j<n. d (logblk s j) = view s (unat (bs ! j))) \<and> (\<forall>b. b \<notin> log_area n s \<longrightarrow> b \<notin> unat ` set bs \<longrightarrow> d b = memdisk s b)"
    if k: "n < k" "k < 2 * n + 2"
  proof -
    obtain m where m: "k = Suc (n + m)" "m \<le> n" using k less_imp_Suc_add [of n k] by auto
    then have "d = apply_writes (take m (home_writes n bs s)) e"
      using len by (simp add: d_def W_def e_def head_write_def)
    then show ?thesis using home_writes_apply(1-3) [OF assms(1) m(2) e] by simp
  qed
  show "d (unat (log_start s)) = encode_head [] (encode_head bs (view s (unat (log_start s)))) \<and>
       (\<forall>b. b \<notin> log_area n s \<longrightarrow> d b = view s b)" if k: "k = 2 * n + 2"
  proof -
    have "d = (apply_writes (take n (home_writes n bs s)) e)(unat (log_start s) := encode_head [] (encode_head bs (view s (unat (log_start s)))))"
      using len k by (simp add: d_def W_def e_def head_write_def clear_write_def)
    then show ?thesis using home_writes_apply(4) [OF assms(1) le_refl e refl] area(1) by auto
  qed
qed

text \<open>C1. The log makes transactions atomic. \<open>commit\<close> of a transaction succeeds, and if the machine
  crashes after any number \<open>k\<close> of the block writes it makes, \<open>recover_from_log\<close> on the disk left behind succeeds
  and restores, outside the log, exactly the old contents when the header was not yet written (\<open>k \<le> n\<close>) and
  exactly the new contents of every block of the transaction otherwise.\<close>

theorem commit_crash_safe:
  assumes "txn n bs s" "0 < n" "head_n (memdisk s (unat (log_start s))) = 0"
  shows "\<exists>t W. commit s = Ok () t \<and> dtrace t = dtrace s @ W \<and> memdisk t = apply_writes W (memdisk s) \<and>
    (\<forall>b. b \<notin> log_area n s \<longrightarrow> memdisk t b = view s b) \<and>
    (\<forall>k\<le>length W. \<forall>r. booted (apply_writes (take k W) (memdisk s)) s r \<longrightarrow>
      (\<exists>u. recover_from_log r = Ok () u \<and> lh_n u = 0 \<and>
        (\<forall>b. b \<notin> log_area n s \<longrightarrow> memdisk u b = (if k \<le> n then memdisk s b else view s b))))"
proof -
  define W where "W = log_writes n bs s @ head_write bs s # home_writes n bs s @ [clear_write bs s]"
  note tx = txn_D [OF assms(1)] and pre = commit_prefix [OF assms(1), folded W_def]
  have len: "length W = 2 * n + 2" by (simp add: W_def log_writes_def home_writes_def)
  obtain t where t: "commit s = Ok () t" "bstate_of t = bputs W (bstate_of s)"
    using commit_correct [OF assms(1,2), folded W_def] by blast
  have ls: "b \<notin> log_area n s \<Longrightarrow> b \<noteq> unat (log_start s)" for b by (auto simp: log_area_def)
  have rec: "\<exists>u. recover_from_log r = Ok () u \<and> lh_n u = 0 \<and>
      (\<forall>b. b \<notin> log_area n s \<longrightarrow> memdisk u b = (if k \<le> n then memdisk s b else view s b))"
    if k: "k \<le> length W" and r: "booted (apply_writes (take k W) (memdisk s)) s r" for k r
  proof -
    have k': "k \<le> 2 * n + 2" using k len by simp
    consider "k \<le> n" | "n < k" "k < 2 * n + 2" | "k = 2 * n + 2" using k' by linarith
    then show ?thesis
    proof cases
      case 1
      then show ?thesis using recover_empty [OF r _ tx(4,5)] pre(1) [OF k' 1] assms(3) ls by fastforce
    next
      case 2
      note p = pre(2) [OF k' 2]
      then obtain u where "recover_from_log r = Ok () u" "lh_n u = 0"
          "\<forall>j<n. memdisk u (unat (bs ! j)) = view s (unat (bs ! j))"
          "\<forall>b. b \<noteq> unat (log_start s) \<and> b \<notin> unat ` set bs \<longrightarrow> memdisk u b = apply_writes (take k W) (memdisk s) b"
        using recover_logged [OF r _ _ tx(1,2)] head_encode [of bs] tx(1,3,6) by auto
      moreover have "memdisk u b = view s b" if b: "b \<notin> log_area n s" for b
      proof (cases "b \<in> unat ` set bs")
        case True
        then obtain j where "j < n" "b = unat (bs ! j)" using tx(3) by (auto simp: in_set_conv_nth)
        then show ?thesis using calculation(3) by simp
      next
        case False
        then show ?thesis using calculation(4) p b ls tx(7) by simp
      qed
      ultimately show ?thesis using 2 by auto
    next
      case 3
      then have "head_n (apply_writes (take k W) (memdisk s) (unat (log_start s))) = 0"
        using pre(3) [OF k'] head_encode(1) [of "[]"] tx(6) by simp
      then show ?thesis using recover_empty [OF r _ tx(4,5)] pre(3) [OF k' 3] ls 3 assms(2) by fastforce
    qed
  qed
  have m: "memdisk t = apply_writes W (memdisk s)" "dtrace t = dtrace s @ W" using bstate_puts_fields [OF t(2)] by simp_all
  have "memdisk t b = view s b" if "b \<notin> log_area n s" for b
    using pre(3) [of "2 * n + 2"] len that m(1) by simp
  then show ?thesis using t(1) m rec by blast
qed


section \<open>The invariant of the log\<close>

text \<open>
  The logged blocks are the pinned blocks, without duplicates; they lie outside the log, and the log has
  room for them.
\<close>

definition logged :: "'a klog_scheme \<Rightarrow> uint32 list" where
  "logged s = take (nat (lh_n s)) (lh_block s)"

definition log_blocks :: "'a klog_scheme \<Rightarrow> nat set" where
  "log_blocks s = {unat (log_start s)..<unat (log_start s) + nat (log_size s)}"

definition log_inv :: "'a klog_scheme \<Rightarrow> bool" where
  "log_inv s \<longleftrightarrow> cache_ok s \<and> length (lh_block s) = LOGSIZE \<and> 0 \<le> lh_n s \<and> lh_n s \<le> int LOGSIZE \<and> lh_n s < log_size s \<and>
     log_dev s = 1 \<and> unat (log_start s) + nat (log_size s) \<le> disksize s \<and> disksize s < 2 ^ 32 \<and>
     distinct (logged s) \<and> (\<forall>b\<in>set (logged s). unat b < disksize s \<and> unat b \<notin> log_blocks s) \<and>
     dirty_blocks s = unat ` set (logged s)"

lemma log_inv_geom:
  assumes "log_inv s"
  shows "log_geom (nat (lh_n s)) (logged s) s" "length (logged s) = nat (lh_n s)"
proof -
  show l: "length (logged s) = nat (lh_n s)" using assms by (auto simp: log_inv_def logged_def)
  have "nat (lh_n s) < nat (log_size s)" using assms by (auto simp: log_inv_def)
  then show "log_geom (nat (lh_n s)) (logged s) s"
    using assms l by (fastforce simp: log_inv_def log_geom_def log_blocks_def)
qed

lemma log_inv_txn:
  assumes "log_inv s" "busy_blocks s = {}" "nat (lh_n s) < length (bufs s)"
  shows "txn (nat (lh_n s)) (logged s) s"
  using assms log_inv_geom [OF assms(1)] by (simp add: txn_def log_inv_def) (simp add: logged_def)

lemma log_area_sub: "log_inv s \<Longrightarrow> log_area (nat (lh_n s)) s \<subseteq> log_blocks s"
  by (auto simp: log_area_def log_blocks_def log_inv_def)

lemma logged_append:
  assumes "log_inv s" "lh_n s < int LOGSIZE"
  shows "take (nat (lh_n s + 1)) ((lh_block s)[nat (lh_n s) := b]) = logged s @ [b]"
proof -
  have "nat (lh_n s + 1) = Suc (nat (lh_n s))" using assms(1) by (auto simp: log_inv_def)
  then show ?thesis using assms by (simp add: logged_def log_inv_def take_Suc_conv_app_nth)
qed

lemma log_write_correct:
  assumes "log_inv s" "holds s i bn" "bn \<notin> log_blocks s" "lh_n s < int LOGSIZE" "lh_n s < log_size s - 1" "1 \<le> outstanding s"
  shows "\<exists>t. log_write i s = Ok () t \<and> log_inv t \<and> holds t i bn \<and> set (logged t) = insert (b_blockno (bufs s ! i)) (set (logged s)) \<and>
    view t = view s \<and> memdisk t = memdisk s \<and> dirty_blocks t = insert bn (dirty_blocks s) \<and> busy_blocks t = busy_blocks s"
proof -
  have ok: "cache_ok s" using assms(1) by (simp add: log_inv_def)
  note h = holdsD [OF ok assms(2)]
  let ?b = "b_blockno (bufs s ! i)" and ?n = "nat (lh_n s)"
  have b: "unat ?b < disksize s" "unat ?b \<notin> log_blocks s" using h assms(3) by simp_all
  define u where "u = (if ?b \<in> set (logged s) then s else s\<lparr>lh_block := (lh_block s)[?n := ?b], lh_n := lh_n s + 1\<rparr>)"
  have f: "bufs u = bufs s" "head_next u = head_next s" "head_prev u = head_prev s" "memdisk u = memdisk s" "disksize u = disksize s"
      "dtrace u = dtrace s" "log_start u = log_start s" "log_size u = log_size s" "log_dev u = log_dev s"
    by (simp_all add: u_def)
  have cu: "cache_ok u" "bstate_of u = bstate_of s" "holds u i bn"
    using bio_state_cong [OF f(1-6)] ok assms(2) by (simp_all add: holds_def cached_def f)
  note bu = arg_cong [OF cu(2), of bs_view] arg_cong [OF cu(2), of bs_busy] arg_cong [OF cu(2), of bs_dirty]
  have lw: "log_write i s = Ok () (pin i u)"
  proof (cases "?b \<in> set (logged s)")
    case True
    then obtain m where m: "ffind (\<lambda>x. x = ?b) (logged s) = Some m" using ffind_ex [of "\<lambda>x. x = ?b" "logged s"] by auto
    then have "m < length (logged s)" "logged s ! m = ?b" using ffind_SomeD by fastforce+
    then have "m < ?n" "(lh_block s)[m := ?b] = lh_block s" by (simp_all add: logged_def list_update_same_conv)
    then show ?thesis using m True assms(4-6) by (simp add: log_write_def Let_def u_def logged_def)
  next
    case False
    then have "ffind (\<lambda>x. x = ?b) (logged s) = None" by (auto simp: ffind_None)
    then show ?thesis using False assms(4-6) by (simp add: log_write_def Let_def u_def logged_def)
  qed
  have lu: "logged u = (if ?b \<in> set (logged s) then logged s else logged s @ [?b])"
    using logged_append [OF assms(1,4), of ?b] by (simp add: u_def logged_def)
  note p = pin_spec [OF cu(1,3)]
  note lp = bio_only_log [OF p(8)]
  have lg: "logged (pin i u) = logged u" "log_blocks (pin i u) = log_blocks s" using lp f by (simp_all add: logged_def log_blocks_def)
  have dirty: "dirty_blocks (pin i u) = insert bn (dirty_blocks s)" using p(5) bu(3) by simp
  have "log_inv (pin i u)"
    unfolding log_inv_def lg lp
    using p(1) assms(1,4,5) lu dirty b h(6) f
    by (auto simp: log_inv_def u_def)
  moreover have "holds (pin i u) i bn" using pin_holds [OF cu(1,3,3)] .
  moreover have "set (logged (pin i u)) = insert ?b (set (logged s))" using lg(1) lu by auto
  moreover have "view (pin i u) = view s" "memdisk (pin i u) = memdisk s" "busy_blocks (pin i u) = busy_blocks s"
    using p(3,4,6) bu f by simp_all
  ultimately show ?thesis using lw dirty by blast
qed


lemma log_inv_cong:
  assumes "bufs t = bufs s" "head_next t = head_next s" "head_prev t = head_prev s" "memdisk t = memdisk s"
    "disksize t = disksize s" "dtrace t = dtrace s" "lh_n t = lh_n s" "lh_block t = lh_block s" "log_start t = log_start s"
    "log_size t = log_size s" "log_dev t = log_dev s"
  shows "log_inv t = log_inv s"
proof -
  note c = bio_state_cong [OF assms(1-6)]
  have "dirty_blocks t = dirty_blocks s" using arg_cong [OF c(2), of bs_dirty] by simp
  then show ?thesis using c(1) assms by (simp add: log_inv_def logged_def log_blocks_def)
qed

text \<open>After a commit the log is empty and every block outside it is on the disk.\<close>

lemma commit_durable:
  assumes "log_inv s" "busy_blocks s = {}" "nat (lh_n s) < length (bufs s)"
  shows "\<exists>t. commit s = Ok () t \<and> log_inv t \<and> lh_n t = 0 \<and> dirty_blocks t = {} \<and> busy_blocks t = {} \<and>
    outstanding t = outstanding s \<and> committing t = committing s \<and>
    (\<forall>b. b \<notin> log_blocks s \<longrightarrow> memdisk t b = view s b \<and> view t b = view s b)"
proof (cases "lh_n s > 0")
  case True
  let ?n = "nat (lh_n s)" and ?bs = "logged s"
  let ?W = "log_writes ?n ?bs s @ head_write ?bs s # home_writes ?n ?bs s @ [clear_write ?bs s]"
  have tx: "txn ?n ?bs s" using log_inv_txn [OF assms] .
  then obtain t where t: "commit s = Ok () t" "cache_ok t" "lh_n t = 0" "bio_only (s\<lparr>lh_n := 0\<rparr>) t"
      "bstate_of t = bputs ?W (bstate_of s)"
    using commit_correct [OF tx] True by auto
  note ft = bstate_puts_fields [OF t(5)] and lt = bio_only_log [OF t(4)]
  have n: "length ?bs = ?n" using log_inv_geom(2) [OF assms(1)] .
  have "dirty_blocks s = unat ` set ?bs" using assms(1) by (simp add: log_inv_def)
  then have d: "dirty_blocks t = {}" using ft(4) home_writes_fst [OF n, of s] by auto
  have len: "length ?W = 2 * ?n + 2" by (simp add: log_writes_def home_writes_def)
  have "memdisk t b = view s b" if "b \<notin> log_blocks s" for b
    using commit_prefix(3) [OF tx, of "2 * ?n + 2"] len log_area_sub [OF assms(1)] that ft(2) by auto
  moreover have "view t b = memdisk t b" for b using clean_block [OF t(2)] d ft(3) assms(2) by simp
  moreover have "log_inv t"
    using assms(1) t(2,3) d lt unfolding log_inv_def logged_def log_blocks_def by simp
  ultimately show ?thesis using t(1,3) d ft(3) assms(2) lt by simp
next
  case False
  then have "lh_n s = 0" using assms(1) by (simp add: log_inv_def)
  then have "dirty_blocks s = {}" using assms(1) by (simp add: log_inv_def logged_def)
  then show ?thesis using False assms \<open>lh_n s = 0\<close> clean_block [of s] by (auto simp: commit_def log_inv_def)
qed

text \<open>Reading and releasing blocks keep the invariant.\<close>

lemma log_inv_bio: "log_inv s \<Longrightarrow> bio_only s t \<Longrightarrow> cache_ok t \<Longrightarrow> dirty_blocks t = dirty_blocks s \<Longrightarrow> log_inv t"
  using bio_only_log [of s t] by (simp add: log_inv_def logged_def log_blocks_def)

text \<open>C26. The last \<open>end_op\<close> makes the operations durable: it commits without panicking, every block
  outside the log is on the disk as the operations left it, the log is empty and accepts new operations,
  and the invariant of the log holds again.\<close>

theorem end_op_durable:
  assumes "log_inv s" "busy_blocks s = {}" "nat (lh_n s) < length (bufs s)" "outstanding s = 1" "\<not> committing s"
  shows "\<exists>t. end_op s = Ok () t \<and> log_inv t \<and> lh_n t = 0 \<and> dirty_blocks t = {} \<and> outstanding t = 0 \<and> \<not> committing t \<and>
    (\<forall>b. b \<notin> log_blocks s \<longrightarrow> memdisk t b = view s b \<and> view t b = view s b)"
proof -
  define u where "u = s\<lparr>outstanding := 0, committing := True\<rparr>"
  have "log_inv u" using assms(1) by (subst log_inv_cong [of u s]) (simp_all add: u_def)
  have b: "bstate_of u = bstate_of s" by (rule bio_state_cong) (simp_all add: u_def)
  have f: "busy_blocks u = {}" "view u = view s"
    using arg_cong [OF b, of bs_busy] arg_cong [OF b, of bs_view] assms(2) by simp_all
  obtain t where t: "commit u = Ok () t" "log_inv t" "lh_n t = 0" "dirty_blocks t = {}" "outstanding t = 0"
      "\<forall>b. b \<notin> log_blocks s \<longrightarrow> memdisk t b = view s b \<and> view t b = view s b"
    using commit_durable [OF \<open>log_inv u\<close> f(1)] assms(3) f(2) by (auto simp: u_def log_blocks_def)
  define v where "v = wakeup ChanLog (t\<lparr>committing := False\<rparr>)"
  have w: "lh_n v = lh_n t" "outstanding v = outstanding t" "\<not> committing v" "memdisk v = memdisk t"
    by (simp_all add: v_def wakeup_def wakeup1_def Let_def)
  have iv: "log_inv v = log_inv t" by (rule log_inv_cong) (simp_all add: v_def wakeup_def wakeup1_def Let_def)
  have bv: "bstate_of v = bstate_of t" by (rule bio_state_cong) (simp_all add: v_def)
  have "end_op s = Ok () v" using t(1) assms(4,5) by (simp add: end_op_def u_def v_def)
  then show ?thesis using t w iv arg_cong [OF bv, of bs_dirty] arg_cong [OF bv, of bs_view] by simp
qed

text \<open>C35. \<open>log_write\<close> keeps the invariant of the log: the block is pinned and listed once, however often
  it is written, and neither the contents nor the disk change.\<close>

theorem log_write_absorbs:
  assumes "log_inv s" "holds s i bn" "bn \<notin> log_blocks s" "lh_n s < int LOGSIZE" "lh_n s < log_size s - 1" "1 \<le> outstanding s"
  shows "\<exists>t. log_write i s = Ok () t \<and> log_inv t \<and> set (logged t) = insert (b_blockno (bufs s ! i)) (set (logged s)) \<and>
    lh_n t = int (card (set (logged t))) \<and> view t = view s \<and> memdisk t = memdisk s"
proof -
  obtain t where t: "log_write i s = Ok () t" "log_inv t" "set (logged t) = insert (b_blockno (bufs s ! i)) (set (logged s))"
      "view t = view s" "memdisk t = memdisk s"
    using log_write_correct [OF assms] by blast
  have "length (logged t) = nat (lh_n t)" "distinct (logged t)" "0 \<le> lh_n t"
    using log_inv_geom(2) [OF t(2)] t(2) by (auto simp: log_inv_def)
  then have "lh_n t = int (card (set (logged t)))" using distinct_card by fastforce
  then show ?thesis using t by blast
qed

text \<open>The reservation of \<open>begin_op\<close> is one block larger than the log: it admits three operations of
  ten blocks each, thirty in all, but with the log of thirty blocks that \<open>mkfs\<close> makes, \<open>log_write\<close>
  panics as soon as twenty-nine blocks are logged.\<close>

theorem reservation_exceeds_log:
  assumes "log_size s = 30" "\<not> committing s" "outstanding s = 2" "lh_n s = 0"
  shows "begin_op s = Ok () (s\<lparr>outstanding := 3\<rparr>) \<and>
    log_write i (s\<lparr>outstanding := 3, lh_n := 29\<rparr>) = Panic ''too big a transaction''"
  using assms by (simp add: begin_op_def log_write_def)


section \<open>A machine with a log\<close>

text \<open>
  The disk of \<open>kbio0\<close>, with a log of four blocks at block 2, and the same machine with block 6 changed by
  one operation that has not ended.
\<close>

definition klog0 :: klog where
  "klog0 = kbio.extend (binit kbio0) (klog.fields 2 4 0 False 1 0 (replicate LOGSIZE 0))"

definition klog1 :: klog where
  "klog1 = updb 0 (\<lambda>b. b\<lparr>b_valid := True, b_dirty := True, b_dev := 1, b_blockno := 6, b_data := replicate BSIZE 1\<rparr>)
     (klog0\<lparr>outstanding := 1, lh_n := 1, lh_block := 6 # replicate 29 0\<rparr>)"

lemma upt3: "[0..<3] = [0, 1, 2 :: nat]" by (simp add: upt_rec)

lemma binit_kbio0_bufs: "bufs (binit kbio0) =
   [buf0\<lparr>b_dev := - 1, b_prev := BBuf 1, b_next := BHead\<rparr>, buf0\<lparr>b_dev := - 1, b_prev := BBuf 2, b_next := BBuf 0\<rparr>,
    buf0\<lparr>b_dev := - 1, b_prev := BHead, b_next := BBuf 1\<rparr>]"
  unfolding kbio0_def ideinit_def buf0_def
  by (simp add: binit_def kproc.defs kbio.defs set_next_def set_prev_def updb_def upt3 numeral_2_eq_2)

lemma klog0_fields: "bufs klog0 = bufs (binit kbio0)" "head_next klog0 = head_next (binit kbio0)"
  "head_prev klog0 = head_prev (binit kbio0)" "memdisk klog0 = (\<lambda>_. replicate BSIZE 0)" "disksize klog0 = 8"
  "log_start klog0 = 2" "log_size klog0 = 4" "log_dev klog0 = 1" "lh_n klog0 = 0" "lh_block klog0 = replicate LOGSIZE 0"
  "outstanding klog0 = 0" "\<not> committing klog0"
  using kbio0_ok by (simp_all add: klog0_def kbio.defs klog.defs)

lemma klog0_ok: "cache_ok klog0" "busy_blocks klog0 = {}" "dirty_blocks klog0 = {}"
proof -
  have e: "cache_ok klog0 = cache_ok (binit kbio0)" "bstate_of klog0 = bstate_of (binit kbio0)"
    by (rule bio_state_cong; simp add: klog0_def kbio.defs klog.defs)+
  show "cache_ok klog0" using e kbio0_ok by simp
  show "busy_blocks klog0 = {}" "dirty_blocks klog0 = {}"
    using arg_cong [OF e(2), of bs_busy] arg_cong [OF e(2), of bs_dirty] kbio0_ok by simp_all
qed

lemma klog1_bufs: "bufs klog1 =
   [buf0\<lparr>b_valid := True, b_dirty := True, b_dev := 1, b_blockno := 6, b_data := replicate BSIZE 1, b_prev := BBuf 1\<rparr>,
    buf0\<lparr>b_dev := - 1, b_prev := BBuf 2, b_next := BBuf 0\<rparr>, buf0\<lparr>b_dev := - 1, b_prev := BHead, b_next := BBuf 1\<rparr>]"
  by (simp add: klog1_def bufs_updb klog0_fields binit_kbio0_bufs buf0_def)

lemma klog1_cached: "cached klog1 i bn \<longleftrightarrow> i = 0 \<and> bn = 6"
  by (auto simp: cached_def klog1_bufs buf0_def less_Suc_eq)

lemma klog1_log_inv: "log_inv klog1" "busy_blocks klog1 = {}" "view klog1 6 = replicate BSIZE 1" "txn 1 [6] klog1"
proof -
  let ?f = "\<lambda>b. b\<lparr>b_valid := True, b_dirty := True, b_dev := 1, b_blockno := 6, b_data := replicate BSIZE (1 :: uchar)\<rparr> :: buf"
  have f: "memdisk klog1 = (\<lambda>_. replicate BSIZE 0)" "disksize klog1 = 8" "log_start klog1 = 2" "log_size klog1 = 4"
      "log_dev klog1 = 1" "lh_n klog1 = 1" "lh_block klog1 = 6 # replicate 29 0"
    by (simp_all add: klog1_def updb_def klog0_fields)
  obtain xs where "ring klog0 xs" using klog0_ok(1) by (auto simp: cache_ok_def)
  then have "ring (klog0\<lparr>outstanding := 1, lh_n := 1, lh_block := 6 # replicate 29 0\<rparr>) xs" by (subst ring_cong) simp_all
  then have ring: "ring klog1 xs" unfolding klog1_def by (rule updb_ring) simp_all
  have "buf_unique klog1" "\<forall>i<length (bufs klog1). buf_ok klog1 (bufs klog1 ! i)"
    by (auto simp: buf_unique_def buf_ok_def klog1_bufs buf0_def less_Suc_eq f)
  then have ok: "cache_ok klog1" using ring by (auto simp: cache_ok_def f)
  have d: "dirty_blocks klog1 = {6}" by (auto simp: dirty_blocks_def klog1_cached klog1_bufs buf0_def)
  show b: "busy_blocks klog1 = {}" by (auto simp: busy_blocks_def klog1_cached klog1_bufs buf0_def)
  show "view klog1 6 = replicate BSIZE 1"
    using view_cached [of klog1 0 6] \<open>buf_unique klog1\<close> klog1_cached by (simp add: klog1_bufs buf0_def)
  show "log_inv klog1" using ok d by (simp add: log_inv_def logged_def log_blocks_def f)
  then show "txn 1 [6] klog1" using log_inv_txn [of klog1] b by (simp add: f logged_def klog1_bufs)
qed

lemma klog1_head: "head_n (memdisk klog1 (unat (log_start klog1))) = 0"
  by (simp add: head_n_def klog1_def updb_def klog0_fields)

lemma commit_crash_safe_witness:
  "\<exists>t W. commit klog1 = Ok () t \<and> memdisk t 6 = replicate BSIZE 1 \<and>
    (\<forall>r :: klog. booted (apply_writes (take 1 W) (memdisk klog1)) klog1 r \<longrightarrow>
       (\<exists>u. recover_from_log r = Ok () u \<and> memdisk u 6 = replicate BSIZE 0)) \<and>
    (\<forall>r :: klog. booted (apply_writes (take 2 W) (memdisk klog1)) klog1 r \<longrightarrow> 2 \<le> length W \<longrightarrow>
       (\<exists>u. recover_from_log r = Ok () u \<and> memdisk u 6 = replicate BSIZE 1))"
proof -
  have a: "6 \<notin> log_area 1 klog1" "memdisk klog1 6 = replicate BSIZE 0"
    by (simp_all add: log_area_def klog1_def updb_def klog0_fields)
  from commit_crash_safe [OF klog1_log_inv(4) _ klog1_head] obtain t W where
    t: "commit klog1 = Ok () t" "\<forall>b. b \<notin> log_area 1 klog1 \<longrightarrow> memdisk t b = view klog1 b" and
    r: "\<And>k r. k \<le> length W \<Longrightarrow> booted (apply_writes (take k W) (memdisk klog1)) klog1 (r :: klog) \<Longrightarrow>
      \<exists>u. recover_from_log r = Ok () u \<and> (\<forall>b. b \<notin> log_area 1 klog1 \<longrightarrow> memdisk u b = (if k \<le> 1 then memdisk klog1 b else view klog1 b))"
    by fastforce
  have "\<exists>u. recover_from_log r = Ok () u \<and> memdisk u 6 = replicate BSIZE 0"
    if "booted (apply_writes (take 1 W) (memdisk klog1)) klog1 r" for r :: klog
    using r [of 1 r] r [of 0 r] that a by (cases W) auto
  moreover have "\<exists>u. recover_from_log r = Ok () u \<and> memdisk u 6 = replicate BSIZE 1"
    if "booted (apply_writes (take 2 W) (memdisk klog1)) klog1 r" "2 \<le> length W" for r :: klog
    using r [of 2 r] that a klog1_log_inv(3) by auto
  ultimately show ?thesis using t a klog1_log_inv(3) by auto
qed

lemma end_op_durable_witness: "\<exists>t. end_op klog1 = Ok () t \<and> lh_n t = 0 \<and> memdisk t 6 = replicate BSIZE 1"
proof -
  have "outstanding klog1 = 1" "\<not> committing klog1" "nat (lh_n klog1) < length (bufs klog1)" "6 \<notin> log_blocks klog1"
    by (simp_all add: klog1_def updb_def klog0_fields log_blocks_def binit_kbio0_bufs)
  then show ?thesis using end_op_durable [OF klog1_log_inv(1,2)] klog1_log_inv(3) by fastforce
qed

lemma reservation_exceeds_log_witness:
  "log_write 0 (klog0\<lparr>log_size := 30, outstanding := 3, lh_n := 29\<rparr>) = Panic ''too big a transaction''"
  using reservation_exceeds_log [of "klog0\<lparr>log_size := 30, outstanding := 2\<rparr>" 0] by (simp add: klog0_fields)


lemma log_write_absorbs_witness: "\<exists>i s t. bread 1 6 klog1 = Ok i s \<and> log_write i s = Ok () t \<and> lh_n t = 1"
proof -
  have f: "disksize klog1 = 8" "log_size klog1 = 4" "log_start klog1 = 2" "outstanding klog1 = 1" "lh_n klog1 = 1" "lh_block klog1 = 6 # replicate 29 0"
    by (simp_all add: klog1_def updb_def klog0_fields)
  have d: "dirty_blocks klog1 = {6}" using klog1_log_inv(1) by (simp add: log_inv_def logged_def f)
  then obtain i s where s: "bread 1 6 klog1 = Ok i s" "cache_ok s" "holds s i 6" "bio_only klog1 s"
      "bstate_of s = (bstate_of klog1)\<lparr>bs_busy := {6}\<rparr>"
    using bc.bread [of klog1 6] klog1_log_inv(1,2) f(1) by (auto simp: log_inv_def)
  have l: "log_inv s" using log_inv_bio [OF klog1_log_inv(1) s(4,2)] arg_cong [OF s(5), of bs_dirty] by simp
  note b = bio_only_log [OF s(4)]
  have "b_blockno (bufs s ! i) = 6" using holdsD(6) [OF s(2,3)] by (simp add: word_unat_eq_iff)
  then obtain t where "log_write i s = Ok () t" "lh_n t = int (card (insert 6 (set (logged s))))"
    using log_write_absorbs [OF l s(3)] b f by (auto simp: log_blocks_def)
  moreover have "logged s = [6]" using b f by (simp add: logged_def)
  ultimately show ?thesis using s(1) by auto
qed

end
