(* ===== verification/FsLog.thy ===== *)
theory FsLog
  imports Log
begin

text \<open>
  Steps of a file-system operation inside a transaction: reading a block, changing a held block through the
  log, and releasing it, each described by what becomes of the block contents, the blocks held and the room
  left in the log. The proofs about \<open>fs.c\<close> compose these steps.
\<close>

section \<open>Frames\<close>

definition log_rest :: "'a klog_scheme \<Rightarrow> 'a klog_scheme" where
  "log_rest s = (bio_rest s)\<lparr>lh_n := 0, lh_block := []\<rparr>"

definition log_only :: "'a klog_scheme \<Rightarrow> 'a klog_scheme \<Rightarrow> bool" where
  "log_only s t \<longleftrightarrow> log_rest t = log_rest s \<and> length (bufs t) = length (bufs s)"

lemma log_only_refl [simp]: "log_only s s" by (simp add: log_only_def)

lemma log_only_trans: "log_only s t \<Longrightarrow> log_only t u \<Longrightarrow> log_only s u"
  by (simp add: log_only_def)

lemma bio_log_only: "bio_only s t \<Longrightarrow> log_only s t"
  by (simp add: bio_only_def log_only_def log_rest_def)

lemma log_only_fields:
  assumes "log_only s t"
  shows "log_start t = log_start s" "log_size t = log_size s" "outstanding t = outstanding s" "committing t = committing s"
    "log_dev t = log_dev s" "disksize t = disksize s" "length (bufs t) = length (bufs s)" "log_blocks t = log_blocks s"
proof -
  have e: "log_rest t = log_rest s" using assms by (simp add: log_only_def)
  show f: "log_start t = log_start s" "log_size t = log_size s" "outstanding t = outstanding s" "committing t = committing s"
    "log_dev t = log_dev s" "disksize t = disksize s"
    using arg_cong [OF e, of log_start] arg_cong [OF e, of log_size] arg_cong [OF e, of outstanding]
      arg_cong [OF e, of committing] arg_cong [OF e, of log_dev] arg_cong [OF e, of disksize]
    by (simp_all add: log_rest_def bio_rest_def)
  show "length (bufs t) = length (bufs s)" using assms by (simp add: log_only_def)
  show "log_blocks t = log_blocks s" using f by (simp add: log_blocks_def)
qed


section \<open>Steps\<close>

text \<open>
  \<open>lstep k s V B t\<close>: from \<open>s\<close> to \<open>t\<close> the contents become \<open>V\<close> and the blocks held \<open>B\<close>, at most \<open>k\<close> more blocks are logged, and
  nothing but the cache and the log changes.
\<close>

definition lstep :: "nat \<Rightarrow> 'a klog_scheme \<Rightarrow> (nat \<Rightarrow> uchar list) \<Rightarrow> nat set \<Rightarrow> 'a klog_scheme \<Rightarrow> bool" where
  "lstep k s V B t \<longleftrightarrow> log_inv t \<and> log_only s t \<and> view t = V \<and> busy_blocks t = B \<and> memdisk t = memdisk s \<and>
     dirty_blocks s \<subseteq> dirty_blocks t \<and> lh_n t \<le> lh_n s + int k"

lemma lstep_refl: "log_inv s \<Longrightarrow> lstep 0 s (view s) (busy_blocks s) s"
  by (simp add: lstep_def)

lemma lstep_trans: "lstep k s V B t \<Longrightarrow> lstep m t V' B' u \<Longrightarrow> lstep (k + m) s V' B' u"
  using log_only_trans by (fastforce simp: lstep_def)

lemma lstep_mono: "lstep k s V B t \<Longrightarrow> k \<le> m \<Longrightarrow> lstep m s V B t"
  by (auto simp: lstep_def)

text \<open>Room for \<open>k\<close> more logged blocks, and for holding \<open>j\<close> more blocks at the same time.\<close>

definition room :: "nat \<Rightarrow> nat \<Rightarrow> 'a klog_scheme \<Rightarrow> bool" where
  "room k j s \<longleftrightarrow> log_inv s \<and> 1 \<le> outstanding s \<and> lh_n s + int k \<le> int LOGSIZE \<and> lh_n s + int k < log_size s \<and>
     card (busy_blocks s) + nat (lh_n s) + k + j \<le> length (bufs s)"

lemma busy_finite [simp]: "finite (busy_blocks s)"
proof (rule finite_subset)
  show "busy_blocks s \<subseteq> (\<lambda>i. unat (b_blockno (bufs s ! i))) ` {..<length (bufs s)}"
    by (auto simp: busy_blocks_def cached_def)
qed simp

lemma lh_n_card: "log_inv s \<Longrightarrow> card (dirty_blocks s) = nat (lh_n s) \<and> finite (dirty_blocks s)"
  using log_inv_geom [of s] txn_card [of "nat (lh_n s)" "logged s" s] by (simp add: log_inv_def)

lemma room_step:
  assumes "room (k + m) (j + d) s" "lstep m s V B t" "card B \<le> card (busy_blocks s) + d"
  shows "room k j t"
  using assms log_only_fields [of s t] by (auto simp: room_def lstep_def log_inv_def)

lemma room_log_inv: "room k j s \<Longrightarrow> log_inv s" by (simp add: room_def)

lemma room_mono: "room k j s \<Longrightarrow> k' \<le> k \<Longrightarrow> j' \<le> j \<Longrightarrow> room k' j' s"
  by (auto simp: room_def)

text \<open>A block that may be released: it is logged, or unchanged.\<close>

definition settled :: "'a klog_scheme \<Rightarrow> nat \<Rightarrow> bool" where
  "settled s bn \<longleftrightarrow> bn \<in> dirty_blocks s \<or> view s bn = memdisk s bn"

lemma settled_free: "log_inv s \<Longrightarrow> bn \<notin> busy_blocks s \<Longrightarrow> settled s bn"
  using clean_block [of s bn] by (auto simp: settled_def log_inv_def)

lemma settled_step: "settled s bn \<Longrightarrow> lstep k s V B t \<Longrightarrow> V bn = view s bn \<Longrightarrow> settled t bn"
  by (auto simp: settled_def lstep_def)

lemma bread_step:
  assumes "room k 1 s" "unat bn < disksize s" "unat bn \<notin> busy_blocks s"
  shows "\<exists>i t. bread 1 bn s = Ok i t \<and> lstep 0 s (view s) (insert (unat bn) (busy_blocks s)) t \<and> holds t i (unat bn) \<and>
    b_data (bufs t ! i) = view s (unat bn) \<and> (\<forall>j x. holds s j x \<longrightarrow> holds t j x)"
proof -
  have inv: "log_inv s" "cache_ok s" using assms(1) by (auto simp: room_def log_inv_def)
  have "card (busy_blocks s \<union> dirty_blocks s) \<le> card (busy_blocks s) + card (dirty_blocks s)" by (rule card_Un_le)
  then have "card (busy_blocks s \<union> dirty_blocks s) < length (bufs s)"
    using assms(1) lh_n_card [OF inv(1)] by (simp add: room_def)
  then obtain i t where t: "bread 1 bn s = Ok i t" "cache_ok t" "holds t i (unat bn)" "view t = view s"
      "busy_blocks t = insert (unat bn) (busy_blocks s)" "dirty_blocks t = dirty_blocks s" "memdisk t = memdisk s" "bio_only s t"
      "\<forall>j x. holds s j x \<longrightarrow> holds t j x"
    using bread_spec [OF inv(2) assms(2,3)] by blast
  have "log_inv t" using log_inv_bio [OF inv(1) t(8,2,6)] .
  then have "lstep 0 s (view s) (insert (unat bn) (busy_blocks s)) t"
    using t bio_log_only bio_only_log(6) [OF t(8)] by (simp add: lstep_def)
  moreover have "b_data (bufs t ! i) = view s (unat bn)" using holdsD(9) [OF t(2,3)] t(4) by simp
  ultimately show ?thesis using t(1,3,9) by blast
qed

lemma put_step:
  assumes "room 1 j s" "holds s i bn" "bn \<notin> log_blocks s" "length d = BSIZE"
  shows "\<exists>t. log_write i (set_data i d s) = Ok () t \<and> lstep 1 s ((view s)(bn := d)) (busy_blocks s) t \<and> bn \<in> dirty_blocks t \<and>
    (\<forall>j x. holds s j x \<longrightarrow> holds t j x)"
proof -
  have inv: "log_inv s" "cache_ok s" using assms(1) by (auto simp: room_def log_inv_def)
  note p = set_data_spec [OF inv(2) assms(2,4)]
  note f = bio_only_log [OF p(8)]
  have iu: "log_inv (set_data i d s)" using log_inv_bio [OF inv(1) p(8,1,5)] .
  have bl: "bn \<notin> log_blocks (set_data i d s)" using assms(3) f by (simp add: log_blocks_def)
  obtain t where t: "log_write i (set_data i d s) = Ok () t" "log_inv t" "view t = (view s)(bn := d)" "memdisk t = memdisk s"
      "dirty_blocks t = insert bn (dirty_blocks s)" "busy_blocks t = busy_blocks s"
    using log_write_correct [OF iu p(2) bl] assms(1) f p by (auto simp: room_def)
  have hold: "holds t j x" if "holds s j x" for j x
  proof -
    have "holds (set_data i d s) j x" using set_data_holds [OF that] .
    then show ?thesis using t(1) by (auto simp: log_write_def Let_def holds_def cached_def pin_def bufs_updb nth_upd split: if_splits option.splits)
  qed
  have "log_only (set_data i d s) t"
    using t(1) by (auto simp: log_write_def Let_def log_only_def log_rest_def bio_rest_def pin_def updb_def split: if_splits option.splits)
  then have lo: "log_only s t" using log_only_trans bio_log_only [OF p(8)] by blast
  have "lh_n t \<le> lh_n s + 1"
    using t(1) f by (auto simp: log_write_def Let_def pin_def updb_def split: if_splits option.splits)
  then have "lstep 1 s ((view s)(bn := d)) (busy_blocks s) t" using t lo by (auto simp: lstep_def)
  then show ?thesis using t(1,5) hold by blast
qed

lemma brelse_step:
  assumes "log_inv s" "holds s i bn" "settled s bn"
  shows "\<exists>t. brelse i s = Ok () t \<and> lstep 0 s (view s) (busy_blocks s - {bn}) t \<and> (\<forall>j x. x \<noteq> bn \<longrightarrow> holds s j x \<longrightarrow> holds t j x)"
proof -
  have ok: "cache_ok s" using assms(1) by (simp add: log_inv_def)
  obtain t where t: "brelse i s = Ok () t" "cache_ok t" "view t = view s" "busy_blocks t = busy_blocks s - {bn}"
      "dirty_blocks t = dirty_blocks s" "memdisk t = memdisk s" "bio_only s t" "\<forall>j x. x \<noteq> bn \<longrightarrow> holds s j x \<longrightarrow> holds t j x"
    using brelse_spec [OF ok assms(2)] assms(3) by (auto simp: settled_def)
  then have "lstep 0 s (view s) (busy_blocks s - {bn}) t"
    using log_inv_bio [OF assms(1) t(7,2,5)] bio_log_only [OF t(7)] bio_only_log(6) [OF t(7)] by (simp add: lstep_def)
  then show ?thesis using t(1,8) by blast
qed

end
