(* ===== verification/Fs.thy ===== *)
theory Fs
  imports FsLog
begin

text \<open>
  The block allocator and the inode layer of \<open>fs.c\<close>: the free bitmap, the inodes on disk and in the
  inode cache, and the map from file offsets to blocks.
\<close>

section \<open>State\<close>

abbreviation (input) BPB :: nat where "BPB \<equiv> 4096"
abbreviation (input) IPB :: nat where "IPB \<equiv> 8"
abbreviation (input) NDIRECT :: nat where "NDIRECT \<equiv> 12"
abbreviation (input) NINDIRECT :: nat where "NINDIRECT \<equiv> 128"
abbreviation (input) MAXFILE :: nat where "MAXFILE \<equiv> 140"
abbreviation (input) ROOTDEV :: uint32 where "ROOTDEV \<equiv> 1"
abbreviation (input) ROOTINO :: uint32 where "ROOTINO \<equiv> 1"
abbreviation (input) T_DIR :: int where "T_DIR \<equiv> 1"
abbreviation (input) T_FILE :: int where "T_FILE \<equiv> 2"
abbreviation (input) T_DEV :: int where "T_DEV \<equiv> 3"

text \<open>The two bits of \<open>flags\<close> are \<open>i_busy\<close> and \<open>i_valid\<close>; a \<open>short\<close> is an integer.\<close>

record inode =
  i_dev :: uint32
  i_inum :: uint32
  i_ref :: int
  i_busy :: bool
  i_valid :: bool
  i_type :: int
  i_major :: int
  i_minor :: int
  i_nlink :: int
  i_size :: uint32
  i_addrs :: "uint32 list"

record kfs = klog +
  sb :: superblock
  inodes :: "inode list"

definition updi :: "nat \<Rightarrow> (inode \<Rightarrow> inode) \<Rightarrow> 'a kfs_scheme \<Rightarrow> 'a kfs_scheme" where
  "updi i f s = s\<lparr>inodes := (inodes s)[i := f (inodes s ! i)]\<rparr>"

definition IBLOCK :: "uint32 \<Rightarrow> 'a kfs_scheme \<Rightarrow> uint32" where
  "IBLOCK i s = of_nat (unat i div IPB) + sb_inodestart (sb s)"

definition BBLOCK :: "nat \<Rightarrow> 'a kfs_scheme \<Rightarrow> uint32" where
  "BBLOCK b s = of_nat (b div BPB) + sb_bmapstart (sb s)"

definition iinit :: "uint32 \<Rightarrow> 'a kfs_scheme \<Rightarrow> (unit, 'a kfs_scheme) outcome" where
  "iinit dev s = mbind (readsb dev s) (\<lambda>x s. Ok () (s\<lparr>sb := x\<rparr>))"


section \<open>Blocks\<close>

definition bzero :: "uint32 \<Rightarrow> uint32 \<Rightarrow> 'a kfs_scheme \<Rightarrow> (unit, 'a kfs_scheme) outcome" where
  "bzero dev bno s = mbind (bread dev bno s) (\<lambda>bp s.
     mbind (log_write bp (set_data bp (replicate BSIZE 0) s)) (\<lambda>_ s. brelse bp s))"

text \<open>Bit \<open>bi\<close> of a bitmap block.\<close>

definition bit_mask :: "nat \<Rightarrow> uchar" where
  "bit_mask bi = push_bit (bi mod 8) 1"

definition bit_free :: "uchar list \<Rightarrow> nat \<Rightarrow> bool" where
  "bit_free d bi \<longleftrightarrow> d ! (bi div 8) AND bit_mask bi = 0"

definition set_bit_used :: "nat \<Rightarrow> uchar list \<Rightarrow> uchar list" where
  "set_bit_used bi d = d[bi div 8 := d ! (bi div 8) OR bit_mask bi]"

definition set_bit_free :: "nat \<Rightarrow> uchar list \<Rightarrow> uchar list" where
  "set_bit_free bi d = d[bi div 8 := d ! (bi div 8) AND NOT (bit_mask bi)]"

text \<open>The outer loop of \<open>balloc\<close>, over the bitmap blocks; \<open>b\<close> is the first block each covers.\<close>

fun balloc_loop :: "uint32 \<Rightarrow> nat list \<Rightarrow> 'a kfs_scheme \<Rightarrow> (uint32, 'a kfs_scheme) outcome" where
  "balloc_loop dev [] s = Panic ''balloc: out of blocks''"
| "balloc_loop dev (b # bs) s = mbind (bread dev (BBLOCK b s) s) (\<lambda>bp s.
     (case find (bit_free (b_data (bufs s ! bp))) [0..<min BPB (unat (sb_size (sb s)) - b)] of
        Some bi \<Rightarrow>
          mbind (log_write bp (set_data bp (set_bit_used bi (b_data (bufs s ! bp))) s)) (\<lambda>_ s.
          mbind (brelse bp s) (\<lambda>_ s.
          mbind (bzero dev (of_nat (b + bi)) s) (\<lambda>_ s. Ok (of_nat (b + bi)) s)))
      | None \<Rightarrow> mbind (brelse bp s) (\<lambda>_ s. balloc_loop dev bs s)))"

definition balloc :: "uint32 \<Rightarrow> 'a kfs_scheme \<Rightarrow> (uint32, 'a kfs_scheme) outcome" where
  "balloc dev s = balloc_loop dev (map (\<lambda>k. k * BPB) [0..<(unat (sb_size (sb s)) + BPB - 1) div BPB]) s"

definition bfree :: "uint32 \<Rightarrow> uint32 \<Rightarrow> 'a kfs_scheme \<Rightarrow> (unit, 'a kfs_scheme) outcome" where
  "bfree dev b s = mbind (readsb dev s) (\<lambda>x s.
     let s = s\<lparr>sb := x\<rparr> in
     mbind (bread dev (BBLOCK (unat b) s) s) (\<lambda>bp s.
       let bi = unat b mod BPB; d = b_data (bufs s ! bp) in
       if bit_free d bi then Panic ''freeing free block''
       else mbind (log_write bp (set_data bp (set_bit_free bi d) s)) (\<lambda>_ s. brelse bp s)))"


section \<open>Inodes on disk\<close>

definition get_short :: "uchar list \<Rightarrow> nat \<Rightarrow> int" where
  "get_short d i = sint (get_u16 d i)"

definition put_short :: "uchar list \<Rightarrow> nat \<Rightarrow> int \<Rightarrow> uchar list" where
  "put_short d i x = put_u16 d i (word_of_int x)"

definition dip_offset :: "uint32 \<Rightarrow> nat" where
  "dip_offset inum = 64 * (unat inum mod IPB)"

definition put_addrs :: "uint32 list \<Rightarrow> nat \<Rightarrow> uchar list \<Rightarrow> uchar list" where
  "put_addrs as off d = fold (\<lambda>(k, a) d. put_u32 d (off + 4 * k) a) (List.enumerate 0 as) d"

text \<open>The fields that \<open>iupdate\<close> copies to the disk inode at offset \<open>off\<close>, and \<open>ilock\<close> from it.\<close>

definition put_dinode :: "inode \<Rightarrow> nat \<Rightarrow> uchar list \<Rightarrow> uchar list" where
  "put_dinode ip off d =
    (let d = put_short d off (i_type ip); d = put_short d (off + 2) (i_major ip); d = put_short d (off + 4) (i_minor ip);
         d = put_short d (off + 6) (i_nlink ip); d = put_u32 d (off + 8) (i_size ip)
     in put_addrs (i_addrs ip) (off + 12) d)"

definition get_dinode :: "uchar list \<Rightarrow> nat \<Rightarrow> inode \<Rightarrow> inode" where
  "get_dinode d off ip = ip\<lparr>i_type := get_short d off, i_major := get_short d (off + 2), i_minor := get_short d (off + 4),
     i_nlink := get_short d (off + 6), i_size := get_u32 d (off + 8),
     i_addrs := map (\<lambda>k. get_u32 d (off + 12 + 4 * k)) [0..<NDIRECT + 1]\<rparr>"


section \<open>The inode cache\<close>

definition iget :: "uint32 \<Rightarrow> uint32 \<Rightarrow> 'a kfs_scheme \<Rightarrow> (nat, 'a kfs_scheme) outcome" where
  "iget dev inum s =
    (case ffind (\<lambda>ip. i_ref ip > 0 \<and> i_dev ip = dev \<and> i_inum ip = inum) (inodes s) of
       Some i \<Rightarrow> Ok i (updi i (\<lambda>ip. ip\<lparr>i_ref := i_ref ip + 1\<rparr>) s)
     | None \<Rightarrow>
         (case ffind (\<lambda>ip. i_ref ip = 0) (inodes s) of
            None \<Rightarrow> Panic ''iget: no inodes''
          | Some i \<Rightarrow> Ok i (updi i (\<lambda>ip. ip\<lparr>i_dev := dev, i_inum := inum, i_ref := 1, i_busy := False, i_valid := False\<rparr>) s)))"

definition idup :: "nat \<Rightarrow> 'a kfs_scheme \<Rightarrow> (nat, 'a kfs_scheme) outcome" where
  "idup i s = Ok i (updi i (\<lambda>ip. ip\<lparr>i_ref := i_ref ip + 1\<rparr>) s)"

fun ialloc_loop :: "uint32 \<Rightarrow> int \<Rightarrow> nat list \<Rightarrow> 'a kfs_scheme \<Rightarrow> (nat, 'a kfs_scheme) outcome" where
  "ialloc_loop dev type [] s = Panic ''ialloc: no inodes''"
| "ialloc_loop dev type (inum # is) s = mbind (bread dev (IBLOCK (of_nat inum) s) s) (\<lambda>bp s.
     let d = b_data (bufs s ! bp); off = dip_offset (of_nat inum) in
     if get_short d off = 0 then
       mbind (log_write bp (set_data bp (put_short (splice d off (replicate 64 0)) off type) s)) (\<lambda>_ s.
       mbind (brelse bp s) (\<lambda>_ s. iget dev (of_nat inum) s))
     else mbind (brelse bp s) (\<lambda>_ s. ialloc_loop dev type is s))"

definition ialloc :: "uint32 \<Rightarrow> int \<Rightarrow> 'a kfs_scheme \<Rightarrow> (nat, 'a kfs_scheme) outcome" where
  "ialloc dev type s = ialloc_loop dev type [1..<unat (sb_ninodes (sb s))] s"

definition iupdate :: "nat \<Rightarrow> 'a kfs_scheme \<Rightarrow> (unit, 'a kfs_scheme) outcome" where
  "iupdate i s = (let ip = inodes s ! i in
     mbind (bread (i_dev ip) (IBLOCK (i_inum ip) s) s) (\<lambda>bp s.
     mbind (log_write bp (set_data bp (put_dinode ip (dip_offset (i_inum ip)) (b_data (bufs s ! bp))) s)) (\<lambda>_ s.
     brelse bp s)))"

text \<open>\<open>ilock\<close> starts over after the wake-up, which is its loop on \<open>I_BUSY\<close>.\<close>

definition ilock :: "nat option \<Rightarrow> 'a kfs_scheme \<Rightarrow> (unit, 'a kfs_scheme) outcome" where
  "ilock p s =
    (case p of None \<Rightarrow> Panic ''ilock''
     | Some i \<Rightarrow>
         if i_ref (inodes s ! i) < 1 then Panic ''ilock''
         else if i_busy (inodes s ! i) then sleep (ChanInode i) s
         else let s = updi i (\<lambda>ip. ip\<lparr>i_busy := True\<rparr>) s; ip = inodes s ! i in
           if i_valid ip then Ok () s
           else mbind (bread (i_dev ip) (IBLOCK (i_inum ip) s) s) (\<lambda>bp s.
             let s = updi i (get_dinode (b_data (bufs s ! bp)) (dip_offset (i_inum ip))) s in
             mbind (brelse bp s) (\<lambda>_ s.
               let s = updi i (\<lambda>ip. ip\<lparr>i_valid := True\<rparr>) s in
               if i_type (inodes s ! i) = 0 then Panic ''ilock: no type'' else Ok () s)))"

definition iunlock :: "nat option \<Rightarrow> 'a kfs_scheme \<Rightarrow> (unit, 'a kfs_scheme) outcome" where
  "iunlock p s =
    (case p of None \<Rightarrow> Panic ''iunlock''
     | Some i \<Rightarrow>
         if \<not> i_busy (inodes s ! i) \<or> i_ref (inodes s ! i) < 1 then Panic ''iunlock''
         else Ok () (wakeup (ChanInode i) (updi i (\<lambda>ip. ip\<lparr>i_busy := False\<rparr>) s)))"


section \<open>Inode content\<close>

definition bmap :: "nat \<Rightarrow> uint32 \<Rightarrow> 'a kfs_scheme \<Rightarrow> (uint32, 'a kfs_scheme) outcome" where
  "bmap i bn s =
    (let ip = inodes s ! i in
     if unat bn < NDIRECT then
       let addr = i_addrs ip ! unat bn in
       if addr = 0 then mbind (balloc (i_dev ip) s) (\<lambda>addr s.
         Ok addr (updi i (\<lambda>ip. ip\<lparr>i_addrs := (i_addrs ip)[unat bn := addr]\<rparr>) s))
       else Ok addr s
     else let bn = unat bn - NDIRECT in
       if bn < NINDIRECT then
         mbind (if i_addrs ip ! NDIRECT = 0 then mbind (balloc (i_dev ip) s) (\<lambda>addr s.
                  Ok addr (updi i (\<lambda>ip. ip\<lparr>i_addrs := (i_addrs ip)[NDIRECT := addr]\<rparr>) s))
                else Ok (i_addrs ip ! NDIRECT) s) (\<lambda>addr s.
         mbind (bread (i_dev ip) addr s) (\<lambda>bp s.
           let addr = get_u32 (b_data (bufs s ! bp)) (4 * bn) in
           if addr = 0 then
             mbind (balloc (i_dev ip) s) (\<lambda>addr s.
             mbind (log_write bp (set_data bp (put_u32 (b_data (bufs s ! bp)) (4 * bn) addr) s)) (\<lambda>_ s.
             mbind (brelse bp s) (\<lambda>_ s. Ok addr s)))
           else mbind (brelse bp s) (\<lambda>_ s. Ok addr s)))
       else Panic ''bmap: out of range'')"

fun itrunc_direct :: "nat \<Rightarrow> nat list \<Rightarrow> 'a kfs_scheme \<Rightarrow> (unit, 'a kfs_scheme) outcome" where
  "itrunc_direct i [] s = Ok () s"
| "itrunc_direct i (k # ks) s = (let ip = inodes s ! i in
     if i_addrs ip ! k \<noteq> 0 then
       mbind (bfree (i_dev ip) (i_addrs ip ! k) s) (\<lambda>_ s.
       itrunc_direct i ks (updi i (\<lambda>ip. ip\<lparr>i_addrs := (i_addrs ip)[k := 0]\<rparr>) s))
     else itrunc_direct i ks s)"

fun itrunc_indirect :: "uint32 \<Rightarrow> nat \<Rightarrow> nat list \<Rightarrow> 'a kfs_scheme \<Rightarrow> (unit, 'a kfs_scheme) outcome" where
  "itrunc_indirect dev bp [] s = Ok () s"
| "itrunc_indirect dev bp (j # js) s = (let a = get_u32 (b_data (bufs s ! bp)) (4 * j) in
     if a \<noteq> 0 then mbind (bfree dev a s) (\<lambda>_ s. itrunc_indirect dev bp js s)
     else itrunc_indirect dev bp js s)"

definition itrunc :: "nat \<Rightarrow> 'a kfs_scheme \<Rightarrow> (unit, 'a kfs_scheme) outcome" where
  "itrunc i s =
     mbind (itrunc_direct i [0..<NDIRECT] s) (\<lambda>_ s.
     mbind (let ip = inodes s ! i in
       if i_addrs ip ! NDIRECT \<noteq> 0 then
         mbind (bread (i_dev ip) (i_addrs ip ! NDIRECT) s) (\<lambda>bp s.
         mbind (itrunc_indirect (i_dev ip) bp [0..<NINDIRECT] s) (\<lambda>_ s.
         mbind (brelse bp s) (\<lambda>_ s.
         mbind (bfree (i_dev ip) (i_addrs ip ! NDIRECT) s) (\<lambda>_ s.
         Ok () (updi i (\<lambda>ip. ip\<lparr>i_addrs := (i_addrs ip)[NDIRECT := 0]\<rparr>) s)))))
       else Ok () s) (\<lambda>_ s.
     iupdate i (updi i (\<lambda>ip. ip\<lparr>i_size := 0\<rparr>) s)))"

definition iput :: "nat option \<Rightarrow> 'a kfs_scheme \<Rightarrow> (unit, 'a kfs_scheme) outcome" where
  "iput p s =
    (case p of None \<Rightarrow> null_deref
     | Some i \<Rightarrow>
         let ip = inodes s ! i in
         mbind (if i_ref ip = 1 \<and> i_valid ip \<and> i_nlink ip = 0 then
                  if i_busy ip then Panic ''iput busy''
                  else mbind (itrunc i (updi i (\<lambda>ip. ip\<lparr>i_busy := True\<rparr>) s)) (\<lambda>_ s.
                    mbind (iupdate i (updi i (\<lambda>ip. ip\<lparr>i_type := 0\<rparr>) s)) (\<lambda>_ s.
                    Ok () (wakeup (ChanInode i) (updi i (\<lambda>ip. ip\<lparr>i_busy := False, i_valid := False\<rparr>) s))))
                else Ok () s) (\<lambda>_ s.
         Ok () (updi i (\<lambda>ip. ip\<lparr>i_ref := i_ref ip - 1\<rparr>) s)))"

definition iunlockput :: "nat option \<Rightarrow> 'a kfs_scheme \<Rightarrow> (unit, 'a kfs_scheme) outcome" where
  "iunlockput p s = mbind (iunlock p s) (\<lambda>_ s. iput p s)"

record stat =
  st_type :: int
  st_dev :: uint32
  st_ino :: uint32
  st_nlink :: int
  st_size :: uint32

definition stati :: "inode \<Rightarrow> stat" where
  "stati ip = \<lparr>st_type = i_type ip, st_dev = i_dev ip, st_ino = i_inum ip, st_nlink = i_nlink ip, st_size = i_size ip\<rparr>"

end
