(* ===== verification/FsAlloc.thy ===== *)
theory FsAlloc
  imports Fs
begin

text \<open>
  The block allocator of \<open>fs.c\<close>: \<open>balloc\<close> returns the first free block, zeroed and marked, \<open>bfree\<close> frees exactly one
  block, and both leave every other block alone.
\<close>

section \<open>Bits\<close>

lemma bit_mask_eq: "bi mod 8 \<noteq> bj mod 8 \<Longrightarrow> bit_mask bi AND bit_mask bj = 0"
  by (rule bit_word_eqI) (auto simp: bit_mask_def bit_simps)

lemma bit_free_iff: "bit_free d bi \<longleftrightarrow> \<not> bit (d ! (bi div 8)) (bi mod 8)"
proof -
  have "d ! (bi div 8) AND bit_mask bi = 0 \<longleftrightarrow> \<not> bit (d ! (bi div 8)) (bi mod 8)"
  proof
    assume "d ! (bi div 8) AND bit_mask bi = 0"
    then have "\<not> bit (d ! (bi div 8) AND bit_mask bi) (bi mod 8)" by simp
    then show "\<not> bit (d ! (bi div 8)) (bi mod 8)" by (simp add: bit_mask_def bit_simps)
  next
    assume "\<not> bit (d ! (bi div 8)) (bi mod 8)"
    then show "d ! (bi div 8) AND bit_mask bi = 0"
      by (intro bit_word_eqI) (auto simp: bit_mask_def bit_simps)
  qed
  then show ?thesis by (simp add: bit_free_def)
qed

lemma index_split: "bi = bj \<longleftrightarrow> bi div 8 = bj div 8 \<and> bi mod 8 = bj mod (8 :: nat)"
  by (metis div_mult_mod_eq)

lemma bit_index: "bi < BPB \<Longrightarrow> bi div 8 < BSIZE" for bi :: nat
  by (simp add: less_mult_imp_div_less)

lemma bit_free_used:
  assumes "length d = BSIZE" "bi < BPB" "bj < BPB"
  shows "bit_free (set_bit_used bi d) bj \<longleftrightarrow> bit_free d bj \<and> bj \<noteq> bi"
  using assms bit_index [of bi] index_split [of bi bj]
  by (cases "bi div 8 = bj div 8") (auto simp: bit_free_iff set_bit_used_def bit_or_iff bit_mask_def bit_simps)

lemma bit_free_freed:
  assumes "length d = BSIZE" "bi < BPB" "bj < BPB"
  shows "bit_free (set_bit_free bi d) bj \<longleftrightarrow> bit_free d bj \<or> bj = bi"
  using assms bit_index [of bi] index_split [of bi bj]
  by (cases "bi div 8 = bj div 8") (auto simp: bit_free_iff set_bit_free_def bit_mask_def bit_simps)


section \<open>Layout\<close>

definition bmap_blocks :: "'a kfs_scheme \<Rightarrow> nat set" where
  "bmap_blocks s = {unat (sb_bmapstart (sb s))..<unat (sb_bmapstart (sb s)) + (unat (sb_size (sb s)) + BPB - 1) div BPB}"

definition bitmap_of :: "'a kfs_scheme \<Rightarrow> nat \<Rightarrow> nat" where
  "bitmap_of s b = unat (sb_bmapstart (sb s)) + b div BPB"

definition free_block :: "'a kfs_scheme \<Rightarrow> nat \<Rightarrow> bool" where
  "free_block s b \<longleftrightarrow> b < unat (sb_size (sb s)) \<and> bit_free (view s (bitmap_of s b)) (b mod BPB)"

text \<open>The bitmap lies on the disk and outside the log, and the bitmap, the log and the superblock are marked used.\<close>

definition fs_geom :: "'a kfs_scheme \<Rightarrow> bool" where
  "fs_geom s \<longleftrightarrow> unat (sb_size (sb s)) \<le> disksize s \<and> (\<forall>b\<in>bmap_blocks s. b < disksize s \<and> b \<notin> log_blocks s) \<and>
     (\<forall>b\<in>bmap_blocks s \<union> log_blocks s \<union> {0, 1}. \<not> free_block s b) \<and> 1 \<notin> bmap_blocks s \<union> log_blocks s"

lemma log_only_fs:
  assumes "log_only s t"
  shows "inodes t = inodes s" "sb t = sb s"
proof -
  have e: "log_rest t = log_rest s" using assms by (simp add: log_only_def)
  show "inodes t = inodes s" "sb t = sb s"
    using arg_cong [OF e, of inodes] arg_cong [OF e, of sb] by (simp_all add: log_rest_def bio_rest_def)
qed

lemma bitmap_of_mem: "b < unat (sb_size (sb s)) \<Longrightarrow> bitmap_of s b \<in> bmap_blocks s"
proof -
  assume "b < unat (sb_size (sb s))"
  then have "b div BPB < (unat (sb_size (sb s)) + BPB - 1) div BPB"
    by (simp add: less_eq_Suc_le)
  then show ?thesis by (simp add: bitmap_of_def bmap_blocks_def)
qed


lemma BBLOCK_unat:
  assumes "log_inv s" "fs_geom s" "b < unat (sb_size (sb s))"
  shows "unat (BBLOCK b s) = bitmap_of s b" "bitmap_of s b < disksize s" "bitmap_of s b \<notin> log_blocks s"
proof -
  show l: "bitmap_of s b < disksize s" "bitmap_of s b \<notin> log_blocks s"
    using bitmap_of_mem [OF assms(3)] assms(2) unfolding fs_geom_def by blast+
  have d: "disksize s < 2 ^ 32" using assms(1) by (simp add: log_inv_def)
  have "BBLOCK b s = of_nat (bitmap_of s b)" by (simp add: BBLOCK_def bitmap_of_def)
  then show "unat (BBLOCK b s) = bitmap_of s b" using unat_of_nat_32 [of "bitmap_of s b"] l d by simp
qed


section \<open>Changing one block\<close>

lemma lstep_trans0: "lstep 0 s V B t \<Longrightarrow> lstep m t V' B' u \<Longrightarrow> lstep m s V' B' u"
  using lstep_trans [of 0 s V B t m V' B' u] by (simp only: add_0)

text \<open>Every buffer held before is held after.\<close>

definition held :: "'a kbio_scheme \<Rightarrow> 'a kbio_scheme \<Rightarrow> bool" where
  "held s t \<longleftrightarrow> (\<forall>j x. holds s j x \<longrightarrow> holds t j x)"

lemma held_trans: "held s t \<Longrightarrow> held t u \<Longrightarrow> held s u"
  by (simp add: held_def)

lemma holds_busy: "holds s j x \<Longrightarrow> x \<in> busy_blocks s"
  by (auto simp: holds_def busy_blocks_def)

lemma held_release:
  assumes "held s t" "\<forall>j x. x \<noteq> bn \<longrightarrow> holds t j x \<longrightarrow> holds u j x" "bn \<notin> busy_blocks s"
  shows "held s u"
  using assms holds_busy unfolding held_def by metis

lemma update_step:
  assumes "room 1 1 s" "unat bn < disksize s" "unat bn \<notin> busy_blocks s" "unat bn \<notin> log_blocks s"
    "length (f (view s (unat bn))) = BSIZE"
  shows "\<exists>t. mbind (bread 1 bn s) (\<lambda>i s. mbind (log_write i (set_data i (f (b_data (bufs s ! i))) s)) (\<lambda>_. brelse i)) = Ok () t \<and>
    lstep 1 s ((view s)(unat bn := f (view s (unat bn)))) (busy_blocks s) t \<and> held s t"
proof -
  obtain i a where a: "bread 1 bn s = Ok i a" "lstep 0 s (view s) (insert (unat bn) (busy_blocks s)) a" "holds a i (unat bn)"
      "b_data (bufs a ! i) = view s (unat bn)" "held s a"
    using bread_step [OF assms(1-3)] unfolding held_def by blast
  have ra: "room 1 0 a" by (rule room_step [OF _ a(2), of 1 0 1]) (use assms(1,3) in \<open>simp_all add: card_insert_if\<close>)
  have va: "view a = view s" "busy_blocks a = insert (unat bn) (busy_blocks s)" "log_only s a" using a(2) by (auto simp: lstep_def)
  have la: "unat bn \<notin> log_blocks a" using assms(4) log_only_fields(8) [OF va(3)] by simp
  obtain b where b: "log_write i (set_data i (f (view s (unat bn))) a) = Ok () b"
      "lstep 1 a ((view s)(unat bn := f (view s (unat bn)))) (busy_blocks a) b" "unat bn \<in> dirty_blocks b" "holds b i (unat bn)" "held a b"
    using put_step [OF ra a(3) la assms(5)] a(3) va(1) by (auto simp: held_def)
  have "log_inv b" "settled b (unat bn)" using b(2,3) by (auto simp: lstep_def settled_def)
  then obtain c where c: "brelse i b = Ok () c" "lstep 0 b (view b) (busy_blocks b - {unat bn}) c"
      "\<forall>j x. x \<noteq> unat bn \<longrightarrow> holds b j x \<longrightarrow> holds c j x"
    using brelse_step [OF _ b(4)] by blast
  have "held s c" by (rule held_release [OF held_trans [OF a(5) b(5)] c(3) assms(3)])
  moreover
  have "view b = (view s)(unat bn := f (view s (unat bn)))" "busy_blocks b - {unat bn} = busy_blocks s"
    using b(2) va(2) assms(3) by (auto simp: lstep_def)
  then have "lstep 1 s ((view s)(unat bn := f (view s (unat bn)))) (busy_blocks s) c"
    using lstep_trans [OF lstep_trans [OF a(2) b(2)] c(2)] by simp
  ultimately show ?thesis using a(1,4) b(1) c(1) by simp
qed

lemma bzero_step:
  assumes "room 1 1 s" "unat bn < disksize s" "unat bn \<notin> busy_blocks s" "unat bn \<notin> log_blocks s"
  shows "\<exists>t. bzero 1 bn s = Ok () t \<and> lstep 1 s ((view s)(unat bn := replicate BSIZE 0)) (busy_blocks s) t \<and> held s t"
  using update_step [OF assms, of "\<lambda>_. replicate BSIZE 0"] by (simp add: bzero_def)


section \<open>Allocation\<close>

lemma lstep_fields:
  assumes "lstep k s V B (t :: 'a kfs_scheme)"
  shows "view t = V" "busy_blocks t = B" "inodes t = inodes s" "sb t = sb s" "disksize t = disksize s" "log_blocks t = log_blocks s"
    "bmap_blocks t = bmap_blocks s" "bitmap_of t = bitmap_of s" "log_inv t" "memdisk t = memdisk s"
proof -
  have l: "log_only s t" using assms by (simp add: lstep_def)
  show "inodes t = inodes s" "sb t = sb s" by (rule log_only_fs [OF l])+
  then show "bmap_blocks t = bmap_blocks s" "bitmap_of t = bitmap_of s" by (simp_all add: bmap_blocks_def bitmap_of_def fun_eq_iff)
  show "view t = V" "busy_blocks t = B" "log_inv t" "memdisk t = memdisk s" using assms by (auto simp: lstep_def)
  show "disksize t = disksize s" "log_blocks t = log_blocks s" by (rule log_only_fields [OF l])+
qed

definition alloc_view :: "'a kfs_scheme \<Rightarrow> nat \<Rightarrow> nat \<Rightarrow> uchar list" where
  "alloc_view s b = (view s)(bitmap_of s b := set_bit_used (b mod BPB) (view s (bitmap_of s b)), b := replicate BSIZE 0)"

lemma balloc_found:
  assumes "room 2 1 s" "fs_geom s" "busy_blocks s \<inter> bmap_blocks s = {}" "free_block s b" "b \<notin> busy_blocks s"
    and i: "holds a i (bitmap_of s b)" and a: "lstep 0 s (view s) (insert (bitmap_of s b) (busy_blocks s)) a" and h: "held s a"
  shows "\<exists>t. mbind (log_write i (set_data i (set_bit_used (b mod BPB) (view s (bitmap_of s b))) a)) (\<lambda>_ s.
      mbind (brelse i s) (\<lambda>_ s. mbind (bzero 1 (of_nat b) s) (\<lambda>_ s. Ok (of_nat b :: uint32) s))) = Ok (of_nat b) t \<and>
    lstep 2 s (alloc_view s b) (busy_blocks s) t \<and> held s t"
proof -
  let ?m = "bitmap_of s b" and ?d = "set_bit_used (b mod BPB) (view s (bitmap_of s b))"
  have inv: "log_inv s" using assms(1) by (rule room_log_inv)
  have bs: "b < unat (sb_size (sb s))" using assms(4) by (simp add: free_block_def)
  note m = BBLOCK_unat [OF inv assms(2) bs]
  have nb: "b \<notin> bmap_blocks s" "b \<notin> log_blocks s" using assms(2,4) by (auto simp: fs_geom_def)
  have mb: "?m \<in> bmap_blocks s" using bitmap_of_mem [OF bs] .
  then have mbusy: "?m \<notin> busy_blocks s" using assms(3) by blast
  note fa = lstep_fields [OF a]
  have ra: "room 2 0 a" by (rule room_step [OF _ a, of 2 0 1]) (use assms(1) mbusy in \<open>simp_all add: card_insert_if\<close>)
  have len: "length ?d = BSIZE" using view_length [of s ?m] m(2) inv by (simp add: set_bit_used_def log_inv_def)
  obtain c where c: "log_write i (set_data i ?d a) = Ok () c" "lstep 1 a ((view a)(?m := ?d)) (busy_blocks a) c"
      "?m \<in> dirty_blocks c" "holds c i ?m" "held a c"
    using put_step [OF room_mono [OF ra] i _ len] i m(3) fa(6) by (auto simp: held_def)
  have "settled c ?m" "log_inv c" using c(2,3) by (auto simp: settled_def lstep_def)
  then obtain e where e: "brelse i c = Ok () e" "lstep 0 c (view c) (busy_blocks c - {?m}) e"
      "\<forall>j x. x \<noteq> ?m \<longrightarrow> holds c j x \<longrightarrow> holds e j x"
    using brelse_step [OF _ c(4)] by blast
  have he: "held s e" by (rule held_release [OF held_trans [OF h c(5)] e(3) mbusy])
  note fc = lstep_fields [OF c(2)] and fe = lstep_fields [OF e(2)]
  have "busy_blocks c - {?m} = busy_blocks s" using fc(2) fa(2) mbusy by auto
  then have se: "lstep 1 s ((view s)(?m := ?d)) (busy_blocks s) e"
    using lstep_trans [OF lstep_trans [OF a c(2)] e(2)] fc(1) fa(1) by simp
  have re: "room 1 1 e" by (rule room_step [OF room_mono [OF assms(1)] se, of 1 1 0]) simp_all
  have "b < disksize s" "disksize s < 2 ^ 32" using bs assms(2) inv by (auto simp: fs_geom_def log_inv_def)
  then have ub: "unat (of_nat b :: uint32) = b" using unat_of_nat_32 by simp
  note f = lstep_fields [OF se]
  obtain t where t: "bzero 1 (of_nat b) e = Ok () t" "lstep 1 e ((view e)(b := replicate BSIZE 0)) (busy_blocks e) t" "held e t"
    using bzero_step [OF re, of "of_nat b"] ub assms(5) nb(2) f(2,5,6) \<open>b < disksize s\<close> by auto
  have "lstep 2 s (alloc_view s b) (busy_blocks s) t"
    using lstep_trans [OF se t(2)] f(1,2) by (simp add: alloc_view_def numeral_2_eq_2)
  then show ?thesis using c(1) e(1) t(1) held_trans [OF he t(3)] by simp
qed


lemma find_upt_Some:
  assumes "find P [0..<n] = Some k"
  shows "k < n" "P k" "\<And>j. j < k \<Longrightarrow> \<not> P j"
proof -
  obtain i where i: "i < n" "P ([0..<n] ! i)" "k = [0..<n] ! i" "\<forall>j<i. \<not> P ([0..<n] ! j)"
    using assms by (auto simp: find_Some_iff)
  then show "k < n" "P k" by simp_all
  fix j assume "j < k"
  then have "j < i" "[0..<n] ! j = j" using i by simp_all
  then show "\<not> P j" using i(4) by metis
qed

lemma free_block_cong: "view t = view s \<Longrightarrow> sb t = sb s \<Longrightarrow> free_block t = free_block s"
  by (simp add: free_block_def bitmap_of_def fun_eq_iff)

lemma fs_geom_cong:
  "view t = view s \<Longrightarrow> sb t = sb s \<Longrightarrow> disksize t = disksize s \<Longrightarrow> log_blocks t = log_blocks s \<Longrightarrow> fs_geom t = fs_geom s"
  using free_block_cong [of t s] by (simp add: fs_geom_def bmap_blocks_def)

lemma balloc_loop_step:
  assumes "room 2 1 s" "fs_geom s" "busy_blocks s \<inter> bmap_blocks s = {}" "\<forall>b. free_block s b \<longrightarrow> b \<notin> busy_blocks s"
    "sorted ks" "\<forall>b. free_block s b \<longrightarrow> b div BPB \<in> set ks" "\<forall>k\<in>set ks. k * BPB < unat (sb_size (sb s))" "free_block s b0"
  shows "\<exists>b t. balloc_loop 1 (map (\<lambda>k. k * BPB) ks) s = Ok (of_nat b) t \<and> free_block s b \<and>
    (\<forall>b'<b. \<not> free_block s b') \<and> lstep 2 s (alloc_view s b) (busy_blocks s) t \<and> held s t"
  using assms
proof (induction ks arbitrary: s)
  case (Cons k ks)
  let ?b = "k * BPB" and ?S = "unat (sb_size (sb s))"
  have inv: "log_inv s" using Cons.prems(1) by (rule room_log_inv)
  have kS: "?b < ?S" using Cons.prems(7) by simp
  note m = BBLOCK_unat [OF inv Cons.prems(2) kS]
  have mb: "bitmap_of s ?b \<notin> busy_blocks s" using bitmap_of_mem [OF kS] Cons.prems(3) by blast
  obtain i a where a: "bread 1 (BBLOCK ?b s) s = Ok i a" "lstep 0 s (view s) (insert (bitmap_of s ?b) (busy_blocks s)) a"
      "holds a i (bitmap_of s ?b)" "b_data (bufs a ! i) = view s (bitmap_of s ?b)" "held s a"
    using bread_step [OF Cons.prems(1), of "BBLOCK ?b s"] m(1,2) mb by (auto simp: held_def)
  note fa = lstep_fields [OF a(2)]
  have inblock: "free_block s (?b + bi) \<longleftrightarrow> bit_free (view s (bitmap_of s ?b)) bi" if "bi < min BPB (?S - ?b)" for bi
    using that by (auto simp: free_block_def bitmap_of_def)
  show ?case
  proof (cases "find (bit_free (b_data (bufs a ! i))) [0..<min BPB (unat (sb_size (sb a)) - ?b)]")
    case (Some bi)
    note fs = find_upt_Some [OF Some [unfolded a(4) fa(4)]]
    have bi: "bi < min BPB (?S - ?b)" "bit_free (view s (bitmap_of s ?b)) bi"
        "\<And>j. j < bi \<Longrightarrow> \<not> bit_free (view s (bitmap_of s ?b)) j"
      using fs by blast+
    have free: "free_block s (?b + bi)" using inblock bi by simp
    have bm: "bitmap_of s (?b + bi) = bitmap_of s ?b" "(?b + bi) mod BPB = bi" using bi(1) by (simp_all add: bitmap_of_def)
    have "\<not> free_block s b'" if "b' < ?b + bi" for b'
    proof
      assume f: "free_block s b'"
      then have "b' div BPB \<in> set (k # ks)" using Cons.prems(6) by blast
      then have "k \<le> b' div BPB" using Cons.prems(5) by auto
      then have ge: "?b \<le> b'" by (metis less_eq_div_iff_mult_less_eq zero_less_numeral)
      then obtain j where j: "b' = ?b + j" using le_Suc_ex by blast
      then have "j < bi" using that by simp
      then show False using f bi(1,3) inblock [of j] j by simp
    qed
    moreover obtain t where "mbind (log_write i (set_data i (set_bit_used bi (view s (bitmap_of s ?b))) a)) (\<lambda>_ s.
        mbind (brelse i s) (\<lambda>_ s. mbind (bzero 1 (of_nat (?b + bi)) s) (\<lambda>_ s. Ok (of_nat (?b + bi) :: uint32) s))) = Ok (of_nat (?b + bi)) t"
        "lstep 2 s (alloc_view s (?b + bi)) (busy_blocks s) t" "held s t"
      using balloc_found [OF Cons.prems(1-3) free, of a i] Cons.prems(4) free a(2,3,5) bm by auto
    ultimately show ?thesis using a(1,4) Some free by (intro exI [of _ "?b + bi"] exI [of _ t]) simp
  next
    case None
    have "settled a (bitmap_of s ?b)"
      using settled_step [OF settled_free [OF inv mb] a(2)] by simp
    then obtain c where c: "brelse i a = Ok () c" "lstep 0 a (view a) (busy_blocks a - {bitmap_of s ?b}) c"
        "\<forall>j x. x \<noteq> bitmap_of s ?b \<longrightarrow> holds a j x \<longrightarrow> holds c j x"
      using brelse_step [OF fa(9) a(3)] by blast
    have hc: "held s c" by (rule held_release [OF a(5) c(3) mb])
    have "busy_blocks a - {bitmap_of s ?b} = busy_blocks s" using fa(2) mb by auto
    then have sc: "lstep 0 s (view s) (busy_blocks s) c" using lstep_trans [OF a(2) c(2)] fa(1) by simp
    note f = lstep_fields [OF sc]
    have no: "\<not> free_block s b" if "b div BPB = k" for b
    proof
      assume fr: "free_block s b"
      have "b = ?b + b mod BPB" using that div_mult_mod_eq [of b BPB] by simp
      moreover have "b < ?S" using fr by (simp add: free_block_def)
      ultimately have "b mod BPB < min BPB (?S - ?b)" by simp
      then have "\<not> bit_free (view s (bitmap_of s ?b)) (b mod BPB)"
        using None a(4) fa(4) by (auto simp: find_None_iff)
      then show False using fr that by (simp add: free_block_def bitmap_of_def)
    qed
    have ks: "\<forall>b. free_block s b \<longrightarrow> b div BPB \<in> set ks"
    proof (intro allI impI)
      fix b assume fr: "free_block s b"
      then have "b div BPB \<in> set (k # ks)" using Cons.prems(6) by blast
      moreover have "b div BPB \<noteq> k" using no fr by blast
      ultimately show "b div BPB \<in> set ks" by simp
    qed
    have "room 2 1 c" by (rule room_step [OF room_mono [OF Cons.prems(1)] sc, of 2 1 0]) simp_all
    moreover have "fs_geom c" "free_block c = free_block s"
      using fs_geom_cong [of c s] free_block_cong [of c s] f Cons.prems(2) by simp_all
    ultimately obtain b t where "balloc_loop 1 (map (\<lambda>k. k * BPB) ks) c = Ok (of_nat b) t" "free_block s b" "\<forall>b'<b. \<not> free_block s b'"
        "lstep 2 c (alloc_view c b) (busy_blocks c) t" "held c t"
      using Cons.IH [of c] Cons.prems(3-5,7,8) f ks by auto
    moreover have "alloc_view c = alloc_view s" using f by (simp add: alloc_view_def fun_eq_iff)
    ultimately have t: "balloc_loop 1 (map (\<lambda>k. k * BPB) ks) c = Ok (of_nat b) t" "free_block s b" "\<forall>b'<b. \<not> free_block s b'"
        "lstep 2 s (alloc_view s b) (busy_blocks s) t" "held s t"
      using lstep_trans0 [OF sc, of 2 "alloc_view s b" "busy_blocks s" t] f(2) held_trans [OF hc] by simp_all
    have "balloc_loop 1 (map (\<lambda>k. k * BPB) (k # ks)) s = Ok (of_nat b) t" using a(1) None c(1) t(1) by simp
    then show ?thesis using t(2-5) by blast
  qed
qed simp


lemma balloc_step:
  assumes "room 2 1 s" "fs_geom s" "busy_blocks s \<inter> bmap_blocks s = {}" "\<forall>b. free_block s b \<longrightarrow> b \<notin> busy_blocks s" "free_block s b0"
  shows "\<exists>b t. balloc 1 s = Ok (of_nat b) t \<and> free_block s b \<and> (\<forall>b'<b. \<not> free_block s b') \<and>
    lstep 2 s (alloc_view s b) (busy_blocks s) t \<and> held s t"
proof -
  let ?S = "unat (sb_size (sb s))"
  let ?ks = "[0..<(?S + BPB - 1) div BPB]"
  have "\<forall>b. free_block s b \<longrightarrow> b div BPB \<in> set ?ks"
    using bitmap_of_mem [of _ s] by (auto simp: free_block_def bitmap_of_def bmap_blocks_def)
  moreover have "\<forall>k\<in>set ?ks. k * BPB < ?S"
  proof
    fix k assume "k \<in> set ?ks"
    then have "Suc k \<le> (?S + BPB - 1) div BPB" by auto
    then have "Suc k * BPB \<le> ?S + BPB - 1" using less_eq_div_iff_mult_less_eq [of BPB "Suc k"] by simp
    then show "k * BPB < ?S" by simp
  qed
  ultimately show ?thesis unfolding balloc_def using balloc_loop_step [OF assms(1-4) _ _ _ assms(5), of ?ks] by simp
qed

text \<open>What allocating block \<open>b\<close> does to contents and marks.\<close>

lemma alloc_effect:
  fixes s t :: "'a kfs_scheme"
  assumes inv: "log_inv s" "fs_geom s" and b: "free_block s b" and t: "lstep 2 s (alloc_view s b) B t"
  shows "view t b = replicate BSIZE 0" "\<forall>x. x \<noteq> b \<and> x \<notin> bmap_blocks s \<longrightarrow> view t x = view s x"
    "\<forall>x. free_block t x \<longleftrightarrow> free_block s x \<and> x \<noteq> b" "fs_geom t"
proof -
  note f = lstep_fields [OF t]
  have bS: "b < unat (sb_size (sb s))" using b by (simp add: free_block_def)
  note m = BBLOCK_unat [OF inv bS] and mb = bitmap_of_mem [OF bS]
  have len: "length (view s (bitmap_of s b)) = BSIZE" using view_length [of s] m(2) inv(1) by (simp add: log_inv_def)
  have nb: "b \<notin> bmap_blocks s" using inv(2) b by (auto simp: fs_geom_def)
  have "free_block t x \<longleftrightarrow> free_block s x \<and> x \<noteq> b" for x
  proof (cases "x < unat (sb_size (sb s))")
    case True
    then have "bitmap_of s x \<noteq> b" using bitmap_of_mem [of x s] nb by blast
    then have v: "view t (bitmap_of s x) = (if bitmap_of s x = bitmap_of s b then set_bit_used (b mod BPB) (view s (bitmap_of s b)) else view s (bitmap_of s x))"
      using f(1) by (simp add: alloc_view_def)
    have "x = b \<longleftrightarrow> bitmap_of s x = bitmap_of s b \<and> x mod BPB = b mod BPB" by (auto simp: bitmap_of_def) (metis div_mult_mod_eq)
    then show ?thesis using True v f(4,8) bit_free_used [OF len, of "b mod BPB" "x mod BPB"] by (auto simp: free_block_def)
  next
    case False
    then show ?thesis using f(4) by (simp add: free_block_def)
  qed
  then show fr: "\<forall>x. free_block t x \<longleftrightarrow> free_block s x \<and> x \<noteq> b" by blast
  show "view t b = replicate BSIZE 0" "\<forall>x. x \<noteq> b \<and> x \<notin> bmap_blocks s \<longrightarrow> view t x = view s x"
    using f(1) mb by (auto simp: alloc_view_def)
  show "fs_geom t" using inv(2) fr f(4,5,6,7) by (simp add: fs_geom_def)
qed

text \<open>C14. \<open>balloc\<close> returns the lowest-numbered free block: it is marked used in the bitmap, it reads as zeros, no other block
  changes its content or its mark, and nothing panics while a block is free and the transaction has room for
  two more blocks.\<close>

theorem balloc_first_free:
  assumes "room 2 1 s" "fs_geom s" "busy_blocks s \<inter> bmap_blocks s = {}" "\<forall>b. free_block s b \<longrightarrow> b \<notin> busy_blocks s" "free_block s b0"
  shows "\<exists>b t. balloc 1 s = Ok (of_nat b) t \<and> free_block s b \<and> (\<forall>b'<b. \<not> free_block s b') \<and> log_inv t \<and>
    view t b = replicate BSIZE 0 \<and> (\<forall>x. x \<noteq> b \<and> x \<notin> bmap_blocks s \<longrightarrow> view t x = view s x) \<and>
    (\<forall>x. free_block t x \<longleftrightarrow> free_block s x \<and> x \<noteq> b)"
proof -
  obtain b t where t: "balloc 1 s = Ok (of_nat b) t" "free_block s b" "\<forall>b'<b. \<not> free_block s b'" "lstep 2 s (alloc_view s b) (busy_blocks s) t"
    using balloc_step [OF assms] by blast
  show ?thesis using t(1-3) alloc_effect [OF room_log_inv [OF assms(1)] assms(2) t(2,4)] lstep_fields(9) [OF t(4)] by blast
qed


section \<open>Freeing\<close>

definition sb_ok :: "'a kfs_scheme \<Rightarrow> bool" where
  "sb_ok s \<longleftrightarrow> sb_of_bytes (view s 1) = sb s \<and> 1 < disksize s"

lemma read_step:
  assumes "room k 1 s" "unat bn < disksize s" "unat bn \<notin> busy_blocks s"
  shows "\<exists>i a t. bread 1 bn s = Ok i a \<and> b_data (bufs a ! i) = view s (unat bn) \<and>
    lstep 0 s (view s) (insert (unat bn) (busy_blocks s)) a \<and> brelse i a = Ok () t \<and> lstep 0 s (view s) (busy_blocks s) t"
proof -
  obtain i a where a: "bread 1 bn s = Ok i a" "lstep 0 s (view s) (insert (unat bn) (busy_blocks s)) a" "holds a i (unat bn)"
      "b_data (bufs a ! i) = view s (unat bn)"
    using bread_step [OF assms] by blast
  have va: "view a = view s" "busy_blocks a = insert (unat bn) (busy_blocks s)" "log_inv a" using a(2) by (auto simp: lstep_def)
  have "settled a (unat bn)" using settled_step [OF settled_free [OF room_log_inv [OF assms(1)] assms(3)] a(2)] by simp
  then obtain t where t: "brelse i a = Ok () t" "lstep 0 a (view a) (busy_blocks a - {unat bn}) t"
    using brelse_step [OF va(3) a(3)] by blast
  have "busy_blocks a - {unat bn} = busy_blocks s" using va(2) assms(3) by auto
  then have "lstep 0 s (view s) (busy_blocks s) t" using lstep_trans0 [OF a(2) t(2)] va(1) by simp
  then show ?thesis using a t(1) by blast
qed

lemma readsb_step:
  assumes "room k 1 s" "sb_ok s" "1 \<notin> busy_blocks s"
  shows "\<exists>t. readsb 1 s = Ok (sb s) t \<and> lstep 0 s (view s) (busy_blocks s) t"
proof -
  have "unat (1 :: uint32) < disksize s" "unat (1 :: uint32) \<notin> busy_blocks s" using assms by (simp_all add: sb_ok_def)
  then obtain i a t where "bread 1 1 s = Ok i a" "b_data (bufs a ! i) = view s 1" "brelse i a = Ok () t" "lstep 0 s (view s) (busy_blocks s) t"
    using read_step [OF assms(1), of 1] by auto
  then show ?thesis using assms(2) by (simp add: readsb_def sb_ok_def Let_def)
qed

definition freed_view :: "'a kfs_scheme \<Rightarrow> nat \<Rightarrow> nat \<Rightarrow> uchar list" where
  "freed_view s b = (view s)(bitmap_of s b := set_bit_free (b mod BPB) (view s (bitmap_of s b)))"

lemma bfree_step:
  assumes "room 1 1 s" "fs_geom s" "sb_ok s" "1 \<notin> busy_blocks s" "busy_blocks s \<inter> bmap_blocks s = {}" "unat b < unat (sb_size (sb s))"
  shows "free_block s (unat b) \<Longrightarrow> bfree 1 b s = Panic ''freeing free block''"
    "\<not> free_block s (unat b) \<Longrightarrow> \<exists>t. bfree 1 b s = Ok () t \<and> lstep 1 s (freed_view s (unat b)) (busy_blocks s) t"
proof -
  obtain u where u: "readsb 1 s = Ok (sb s) u" "lstep 0 s (view s) (busy_blocks s) u"
    using readsb_step [OF assms(1,3,4)] by blast
  note fu = lstep_fields [OF u(2)]
  have sbu: "u\<lparr>sb := sb s\<rparr> = u" using fu(4) by (cases u) simp
  have gu: "fs_geom u" using fs_geom_cong [of u s] fu assms(2) by simp
  have ru: "room 1 1 u" by (rule room_step [OF room_mono [OF assms(1)] u(2), of 1 1 0]) simp_all
  note m = BBLOCK_unat [OF fu(9) gu, of "unat b", unfolded fu(4,5,6,8), OF assms(6)] and mb = bitmap_of_mem [OF assms(6)]
  have mbusy: "bitmap_of s (unat b) \<notin> busy_blocks s" using mb assms(5) by blast
  obtain i a where a: "bread 1 (BBLOCK (unat b) u) u = Ok i a" "lstep 0 u (view s) (insert (bitmap_of s (unat b)) (busy_blocks s)) a"
      "holds a i (bitmap_of s (unat b))" "b_data (bufs a ! i) = view s (bitmap_of s (unat b))"
    using bread_step [OF ru, of "BBLOCK (unat b) u"] m mbusy fu(1,2,5) by auto
  let ?d = "view s (bitmap_of s (unat b))"
  have fr: "free_block s (unat b) \<longleftrightarrow> bit_free ?d (unat b mod BPB)" using assms(6) by (simp add: free_block_def)
  show "free_block s (unat b) \<Longrightarrow> bfree 1 b s = Panic ''freeing free block''"
    using u(1) sbu a(1,4) fr by (simp add: bfree_def Let_def)
  assume nf: "\<not> free_block s (unat b)"
  let ?f = "\<lambda>d. set_bit_free (unat b mod BPB) d"
  have len: "length (?f (view u (unat (BBLOCK (unat b) u)))) = BSIZE"
    using view_length [of u "unat (BBLOCK (unat b) u)"] m fu(5,9) by (simp add: set_bit_free_def log_inv_def)
  obtain t where t: "mbind (bread 1 (BBLOCK (unat b) u) u) (\<lambda>i s. mbind (log_write i (set_data i (?f (b_data (bufs s ! i))) s)) (\<lambda>_. brelse i)) = Ok () t"
      "lstep 1 u ((view u)(unat (BBLOCK (unat b) u) := ?f (view u (unat (BBLOCK (unat b) u))))) (busy_blocks u) t"
    using update_step [OF ru, of "BBLOCK (unat b) u" ?f] len m mbusy fu(2,5,6) by auto
  have "bfree 1 b s = Ok () t" using u(1) sbu a(1,4) fr nf t(1) by (simp add: bfree_def Let_def)
  moreover have "lstep 1 s (freed_view s (unat b)) (busy_blocks s) t"
    using lstep_trans0 [OF u(2) t(2)] fu(1,2) m(1) by (simp add: freed_view_def)
  ultimately show "\<exists>t. bfree 1 b s = Ok () t \<and> lstep 1 s (freed_view s (unat b)) (busy_blocks s) t" by blast
qed

lemma freed_view_free:
  assumes "log_inv s" "fs_geom s" "b < unat (sb_size (sb s))" "view t = freed_view s b" "sb t = sb s"
  shows "free_block t x \<longleftrightarrow> free_block s x \<or> x = b"
proof -
  note m = BBLOCK_unat [OF assms(1-3)]
  have len: "length (view s (bitmap_of s b)) = BSIZE" using view_length [of s] m(2) assms(1) by (simp add: log_inv_def)
  have "x = b \<longleftrightarrow> bitmap_of s x = bitmap_of s b \<and> x mod BPB = b mod BPB" by (auto simp: bitmap_of_def) (metis div_mult_mod_eq)
  then show ?thesis using assms(3-5) bit_free_freed [OF len, of "b mod BPB" "x mod BPB"]
    by (auto simp: free_block_def freed_view_def bitmap_of_def)
qed

text \<open>C38. \<open>bfree\<close> frees exactly the given block: only its mark changes and the content of no block outside the bitmap does.
  Freeing a block that is already free panics.\<close>

theorem bfree_exact:
  assumes "room 1 1 s" "fs_geom s" "sb_ok s" "1 \<notin> busy_blocks s" "busy_blocks s \<inter> bmap_blocks s = {}" "unat b < unat (sb_size (sb s))"
  shows "if free_block s (unat b) then bfree 1 b s = Panic ''freeing free block''
    else \<exists>t. bfree 1 b s = Ok () t \<and> log_inv t \<and> (\<forall>x. free_block t x \<longleftrightarrow> free_block s x \<or> x = unat b) \<and>
      (\<forall>x. x \<notin> bmap_blocks s \<longrightarrow> view t x = view s x)"
proof (cases "free_block s (unat b)")
  case True
  then show ?thesis using bfree_step(1) [OF assms] by simp
next
  case False
  then obtain t where t: "bfree 1 b s = Ok () t" "lstep 1 s (freed_view s (unat b)) (busy_blocks s) t"
    using bfree_step(2) [OF assms] by blast
  note f = lstep_fields [OF t(2)]
  have "free_block t x \<longleftrightarrow> free_block s x \<or> x = unat b" for x
    using freed_view_free [OF room_log_inv [OF assms(1)] assms(2,6) f(1,4)] .
  moreover have "view t x = view s x" if "x \<notin> bmap_blocks s" for x
    using that f(1) bitmap_of_mem [OF assms(6)] by (auto simp: freed_view_def)
  ultimately show ?thesis using False t(1) f(9) by auto
qed


section \<open>A small file system\<close>

text \<open>
  The disk of eight blocks with a log at block 2, the bitmap in block 6, where blocks 0 to 6 are marked used,
  and a superblock that says so.
\<close>

definition fsdisk :: "nat \<Rightarrow> uchar list" where
  "fsdisk b = (if b = 6 then 0x7f # replicate 511 0
     else if b = 1 then [8, 0, 0, 0, 1, 0, 0, 0, 8, 0, 0, 0, 4, 0, 0, 0, 2, 0, 0, 0, 0, 0, 0, 0, 6, 0, 0, 0] @ replicate 484 0
     else replicate BSIZE 0)"

definition kfs1 :: kfs where
  "kfs1 = klog.extend (klog0\<lparr>memdisk := fsdisk, outstanding := 1\<rparr>)
     (kfs.fields \<lparr>sb_size = 8, sb_nblocks = 1, sb_ninodes = 8, sb_nlog = 4, sb_logstart = 2, sb_inodestart = 0, sb_bmapstart = 6\<rparr> [])"

lemma kfs1_fields: "bufs kfs1 = bufs (binit kbio0)" "memdisk kfs1 = fsdisk" "disksize kfs1 = 8" "lh_n kfs1 = 0" "outstanding kfs1 = 1"
  "log_size kfs1 = 4" "log_start kfs1 = 2" "log_dev kfs1 = 1" "lh_block kfs1 = replicate LOGSIZE 0"
  "sb kfs1 = \<lparr>sb_size = 8, sb_nblocks = 1, sb_ninodes = 8, sb_nlog = 4, sb_logstart = 2, sb_inodestart = 0, sb_bmapstart = 6\<rparr>"
  by (simp_all add: kfs1_def klog.defs kfs.defs klog0_fields)

lemma kfs1_bufs: "b \<in> set (bufs kfs1) \<Longrightarrow> \<not> b_valid b \<and> \<not> b_busy b \<and> \<not> b_dirty b \<and> b_dev b \<noteq> 1"
  by (auto simp: kfs1_fields binit_kbio0_bufs buf0_def)

lemma kfs1_view: "\<not> cached kfs1 i bn" "view kfs1 = fsdisk" "busy_blocks kfs1 = {}" "dirty_blocks kfs1 = {}"
proof -
  show c: "\<not> cached kfs1 i bn" for i bn using kfs1_bufs [of "bufs kfs1 ! i"] by (auto simp: cached_def)
  show "view kfs1 = fsdisk" using view_uncached [of kfs1] c kfs1_fields(2) by (simp add: fun_eq_iff)
  show "busy_blocks kfs1 = {}" "dirty_blocks kfs1 = {}" using c by (simp_all add: busy_blocks_def dirty_blocks_def)
qed

lemma kfs1_log_inv: "log_inv kfs1" "room 2 1 kfs1"
proof -
  obtain xs where "ring klog0 xs" using klog0_ok(1) by (auto simp: cache_ok_def)
  then have "ring kfs1 xs" by (subst ring_cong [of kfs1 klog0]) (simp_all add: kfs1_def klog.defs kfs.defs)
  moreover have "buf_unique kfs1" "\<forall>i<length (bufs kfs1). buf_ok kfs1 (bufs kfs1 ! i)"
    using kfs1_bufs nth_mem [of _ "bufs kfs1"] unfolding buf_unique_def buf_ok_def by blast+
  moreover have "length (memdisk kfs1 b) = BSIZE" for b by (simp add: kfs1_fields fsdisk_def)
  ultimately have "cache_ok kfs1" by (auto simp: cache_ok_def)
  then show l: "log_inv kfs1" by (simp add: log_inv_def logged_def kfs1_fields kfs1_view)
  show "room 2 1 kfs1" using l by (simp add: room_def kfs1_fields kfs1_view binit_kbio0_bufs)
qed

lemma kfs1_free: "free_block kfs1 b \<longleftrightarrow> b = 7"
proof -
  have "bit_free (fsdisk 6) b \<longleftrightarrow> b = 7" if "b < 8"
  proof -
    have "b = 0 \<or> b = 1 \<or> b = 2 \<or> b = 3 \<or> b = 4 \<or> b = 5 \<or> b = 6 \<or> b = 7" using that by linarith
    then show ?thesis by (auto simp: bit_free_def bit_mask_def fsdisk_def)
  qed
  then show ?thesis by (auto simp: free_block_def bitmap_of_def kfs1_fields kfs1_view)
qed

lemma kfs1_geom: "fs_geom kfs1" "bmap_blocks kfs1 = {6}" "sb_ok kfs1"
proof -
  show b: "bmap_blocks kfs1 = {6}" by (auto simp: bmap_blocks_def kfs1_fields)
  show "fs_geom kfs1" by (auto simp: fs_geom_def b kfs1_free kfs1_fields log_blocks_def)
  show "sb_ok kfs1" by (simp add: sb_ok_def sb_of_bytes_def kfs1_view kfs1_fields fsdisk_def get_u32_def)
qed

lemma balloc_first_free_witness: "\<exists>t. balloc 1 kfs1 = Ok 7 t \<and> view t 7 = replicate BSIZE 0 \<and> \<not> free_block t 7"
proof -
  obtain b t where t: "balloc 1 kfs1 = Ok (of_nat b) t" "free_block kfs1 b" "view t b = replicate BSIZE 0"
      "\<forall>x. free_block t x \<longleftrightarrow> free_block kfs1 x \<and> x \<noteq> b"
    using balloc_first_free [OF kfs1_log_inv(2) kfs1_geom(1), of 7] kfs1_view(3) kfs1_free by auto
  then have "b = 7" using kfs1_free by simp
  then show ?thesis using t by auto
qed

lemma bfree_exact_witness:
  "bfree 1 7 kfs1 = Panic ''freeing free block'' \<and> (\<exists>t. bfree 1 5 kfs1 = Ok () t \<and> free_block t 5)"
proof -
  have r: "room 1 1 kfs1" using room_mono [OF kfs1_log_inv(2)] by simp
  have "bfree 1 7 kfs1 = Panic ''freeing free block''"
    using bfree_exact [OF r kfs1_geom(1,3), of 7] kfs1_view(3) by (simp add: kfs1_free kfs1_fields)
  moreover have "\<exists>t. bfree 1 5 kfs1 = Ok () t \<and> free_block t 5"
    using bfree_exact [OF r kfs1_geom(1,3), of 5] kfs1_view(3) by (auto simp: kfs1_free kfs1_fields)
  ultimately show ?thesis ..
qed

end
