(* ===== verification/Ring.thy ===== *)
theory Ring
  imports Proc
begin

text \<open>
  Ring buffers with free-running 32-bit indices, as the pipe and the console have them: entry \<open>k\<close> is stored
  at \<open>k\<close> modulo the size of the buffer, and the indices wrap around at \<open>2 ^ 32\<close>, a multiple of the size. The
  elements between the read and the write index form a queue. The queue's laws are the interface
  \<open>fifo\<close>.
\<close>

definition ring_list :: "'a list \<Rightarrow> uint32 \<Rightarrow> uint32 \<Rightarrow> 'a list" where
  "ring_list buf r w = map (\<lambda>k. buf ! (unat (r + of_nat k) mod length buf)) [0..<unat (w - r)]"

lemma ring_list_length [simp]: "length (ring_list buf r w) = unat (w - r)"
  by (simp add: ring_list_def)

lemma ring_list_empty [simp]: "ring_list buf r r = []"
  by (simp add: ring_list_def)

lemma unat_sub_1: "w \<noteq> (0 :: uint32) \<Longrightarrow> unat w = Suc (unat (w - 1))"
proof -
  assume "w \<noteq> 0"
  then have p: "0 < unat w" by (simp add: unat_gt_0)
  then have "1 \<le> w" by (simp add: word_le_nat_alt)
  then show "unat w = Suc (unat (w - 1))" using p by (simp add: unat_sub)
qed

lemma ring_list_pop:
  assumes "r \<noteq> w"
  shows "ring_list buf r w = buf ! (unat r mod length buf) # ring_list buf (r + 1) w"
proof -
  have n: "unat (w - r) = Suc (unat (w - (r + 1)))"
    using unat_sub_1 [of "w - r"] assms by (simp add: diff_diff_eq)
  have "[0..<Suc (unat (w - (r + 1)))] = 0 # map Suc [0..<unat (w - (r + 1))]"
    by (simp add: upt_conv_Cons map_Suc_upt del: upt_Suc)
  then show ?thesis by (simp add: ring_list_def n add.assoc del: upt_Suc)
qed

text \<open>Distinct entries of a ring that is not overfull lie in distinct places.\<close>

lemma ring_place_inj:
  assumes "0 < n" "n dvd 2 ^ 32" "j < k" "k < n + j"
  shows "unat (r + of_nat j :: uint32) mod n \<noteq> unat (r + of_nat k) mod n"
proof
  have m: "unat (r + of_nat x :: uint32) mod n = (unat r + x) mod n" for x
    using assms(2) by (simp add: unat_word_ariths unat_of_nat mod_mod_cancel mod_add_right_eq)
  assume "unat (r + of_nat j :: uint32) mod n = unat (r + of_nat k) mod n"
  then have "(unat r + j) mod n = (unat r + k) mod n" by (simp only: m)
  then have "(unat r + k) mod n = (unat r + j) mod n" by (rule sym)
  then have "n dvd (unat r + k) - (unat r + j)"
    using assms(3) mod_eq_dvd_iff_nat [THEN iffD1, of "unat r + j" "unat r + k" n] by linarith
  then have "n dvd k - j" by simp
  then show False using assms(3,4) by (auto dest: dvd_imp_le)
qed

lemma ring_list_push:
  assumes "unat (w - r) < length buf" "length buf dvd 2 ^ 32" "length buf < 2 ^ 32"
  shows "ring_list (buf[unat w mod length buf := x]) r (w + 1) = ring_list buf r w @ [x]"
proof -
  have "unat (w - r + 1) = Suc (unat (w - r))" using assms(1,3) unat_add_no_wrap [of "w - r" 1] by simp
  then have n: "unat (w + 1 - r) = Suc (unat (w - r))" by (simp add: add_diff_eq diff_add_eq)
  have w: "r + of_nat (unat (w - r)) = w" by simp
  have l: "0 < length buf" using assms(1) by linarith
  have other: "buf[unat w mod length buf := x] ! (unat (r + of_nat k) mod length buf) = buf ! (unat (r + of_nat k) mod length buf)"
    if "k < unat (w - r)" for k
  proof -
    have "unat (r + of_nat k) mod length buf \<noteq> unat w mod length buf"
      using ring_place_inj [OF l assms(2) that, of r] assms(1) w by simp
    then show ?thesis by simp
  qed
  have "ring_list (buf[unat w mod length buf := x]) r (w + 1) =
      map (\<lambda>k. buf[unat w mod length buf := x] ! (unat (r + of_nat k) mod length buf)) [0..<unat (w - r)] @
        [buf[unat w mod length buf := x] ! (unat w mod length buf)]"
    unfolding ring_list_def n upt_Suc_append [OF le0] map_append w by simp
  then show ?thesis using other l by (simp add: ring_list_def)
qed

lemma ring_list_unpush:
  assumes "r \<noteq> w"
  shows "ring_list buf r (w - 1) = butlast (ring_list buf r w)"
proof -
  have n: "unat (w - r) = Suc (unat (w - 1 - r))"
    using unat_sub_1 [of "w - r"] assms by (simp add: diff_right_commute)
  show ?thesis unfolding ring_list_def n upt_Suc_append [OF le0] map_append by simp
qed

lemma ring_list_last:
  assumes "r \<noteq> w"
  shows "last (ring_list buf r w) = buf ! (unat (w - 1) mod length buf)"
proof -
  have n: "unat (w - r) = Suc (unat (w - 1 - r))"
    using unat_sub_1 [of "w - r"] assms by (simp add: diff_right_commute)
  have "r + of_nat (unat (w - 1 - r)) = w - 1" by simp
  then show ?thesis unfolding ring_list_def n upt_Suc_append [OF le0] map_append by simp
qed

text \<open>A prefix of the ring, up to an index in between.\<close>

lemma upt_append: "i \<le> j \<Longrightarrow> [0..<j] = [0..<i] @ [i..<j]"
  using upt_add_eq_append [of 0 i "j - i"] by simp

lemma ring_list_split:
  assumes "unat (m - r) \<le> unat (w - r)"
  shows "ring_list buf r w = ring_list buf r m @ ring_list buf m w"
proof -
  have le: "m - r \<le> w - r" using assms by (simp add: word_le_nat_alt)
  have "w - m = (w - r) - (m - r)" by simp
  then have n: "unat (w - m) = unat (w - r) - unat (m - r)" using le unat_sub by metis
  have m: "m + of_nat k = r + of_nat (unat (m - r) + k)" for k by simp
  have "[0..<unat (w - r)] = [0..<unat (m - r)] @ map (\<lambda>k. unat (m - r) + k) [0..<unat (w - m)]"
    using assms n upt_append [OF assms] by (simp add: map_add_upt add.commute)
  then show ?thesis unfolding ring_list_def by (simp only: map_append map_map comp_def m)
qed

section \<open>Queues\<close>

text \<open>A sequence of pushes (\<open>Some x\<close>) and pops (\<open>None\<close>), with the elements that went in and those that came out.\<close>

fun queue_run :: "('x \<Rightarrow> 's \<Rightarrow> 's option) \<Rightarrow> ('s \<Rightarrow> ('x \<times> 's) option) \<Rightarrow> 'x option list \<Rightarrow> 's \<Rightarrow> 'x list \<times> 'x list \<times> 's" where
  "queue_run push pop [] s = ([], [], s)"
| "queue_run push pop (Some x # ops) s = (case push x s of None \<Rightarrow> queue_run push pop ops s
     | Some t \<Rightarrow> (let (ins, outs, u) = queue_run push pop ops t in (x # ins, outs, u)))"
| "queue_run push pop (None # ops) s = (case pop s of None \<Rightarrow> queue_run push pop ops s
     | Some (x, t) \<Rightarrow> (let (ins, outs, u) = queue_run push pop ops t in (ins, x # outs, u)))"

locale fifo =
  fixes push :: "'x \<Rightarrow> 's \<Rightarrow> 's option"
    and pop :: "'s \<Rightarrow> ('x \<times> 's) option"
    and queue :: "'s \<Rightarrow> 'x list"
    and inv :: "'s \<Rightarrow> bool"
    and capacity :: nat
  assumes push: "inv s \<Longrightarrow> (case push x s of None \<Rightarrow> length (queue s) = capacity |
      Some t \<Rightarrow> inv t \<and> length (queue s) < capacity \<and> queue t = queue s @ [x])"
    and pop: "inv s \<Longrightarrow> (case pop s of None \<Rightarrow> queue s = [] | Some (x, t) \<Rightarrow> inv t \<and> queue s = x # queue t)"
    and bounded: "inv s \<Longrightarrow> length (queue s) \<le> capacity"
begin

text \<open>What goes in comes out, in order.\<close>

lemma run_fifo:
  assumes "inv s" "queue_run push pop ops s = (ins, outs, t)"
  shows "inv t \<and> queue s @ ins = outs @ queue t"
  using assms
proof (induction ops arbitrary: s ins outs t)
  case (Cons op ops)
  show ?case
  proof (cases op)
    case (Some x)
    show ?thesis
    proof (cases "push x s")
      case None
      then show ?thesis using Cons Some by simp
    next
      case p: (Some u)
      obtain a b c where r: "queue_run push pop ops u = (a, b, c)" by (cases "queue_run push pop ops u") auto
      have "inv u" "queue u = queue s @ [x]" using push [OF Cons.prems(1), of x] p by auto
      then show ?thesis using Cons.IH [OF _ r] Cons.prems(2) p r Some by auto
    qed
  next
    case None
    show ?thesis
    proof (cases "pop s")
      case p: None
      then show ?thesis using Cons None by simp
    next
      case p: (Some xu)
      obtain x u where xu: "xu = (x, u)" by (cases xu)
      obtain a b c where r: "queue_run push pop ops u = (a, b, c)" by (cases "queue_run push pop ops u") auto
      have "inv u" "queue s = x # queue u" using pop [OF Cons.prems(1)] p xu by auto
      then show ?thesis using Cons.IH [OF _ r] Cons.prems(2) p xu r None by auto
    qed
  qed
qed simp

end

end
