(* ===== verification/Console.thy ===== *)
theory Console
  imports Fs Ring
begin

text \<open>
  The console (\<open>console.c\<close>) and the keyboard (\<open>kbd.c\<close>, \<open>kbd.h\<close>): the screen, formatted printing, the line editor
  behind the input buffer, and \<open>consoleread\<close>/\<open>consolewrite\<close>, the only device of the device switch.
\<close>

section \<open>Keyboard\<close>

definition asc :: "string \<Rightarrow> uchar list" where
  "asc s = map of_char s"

definition ctl :: "string \<Rightarrow> uchar list" where
  "ctl s = map (\<lambda>c. of_char c - 64) s"

text \<open>The entries that the three key maps share, after the table of the plain codes.\<close>

definition special_keys :: "(nat \<times> uchar) list" where
  "special_keys = [(0xC8, 0xE2), (0xD0, 0xE3), (0xC9, 0xE6), (0xD1, 0xE7), (0xCB, 0xE4), (0xCD, 0xE5),
     (0x97, 0xE0), (0xCF, 0xE1), (0xD2, 0xE8), (0xD3, 0xE9)]"

definition keymap :: "uchar list \<Rightarrow> (nat \<times> uchar) list \<Rightarrow> uchar list" where
  "keymap xs ps = fold (\<lambda>(i, c) m. m[i := c]) ps (xs @ replicate (256 - length xs) 0)"

definition normalmap :: "uchar list" where
  "normalmap = keymap
    ([0, 0x1B] @ asc ''123456'' @ asc ''7890-='' @ [8, 9] @
     asc ''qwertyui'' @ asc ''op[]'' @ [10, 0] @ asc ''as'' @
     asc ''dfghjkl;'' @ [39, 96, 0, 92] @ asc ''zxcv'' @
     asc ''bnm,./'' @ [0] @ asc ''*'' @ [0] @ asc '' '' @ replicate 6 0 @
     replicate 7 0 @ asc ''7'' @ asc ''89-456+1'' @ asc ''230.'' @ replicate 4 0)
    ([(0x9C, 10), (0xB5, 47)] @ special_keys)"

definition shiftmap :: "uchar list" where
  "shiftmap = keymap
    ([0, 27] @ asc ''!@#$%^'' @ asc ''&*()_+'' @ [8, 9] @
     asc ''QWERTYUI'' @ asc ''OP{}'' @ [10, 0] @ asc ''AS'' @
     asc ''DFGHJKL:'' @ [34, 126, 0, 124] @ asc ''ZXCV'' @
     asc ''BNM<>?'' @ [0] @ asc ''*'' @ [0] @ asc '' '' @ replicate 6 0 @
     replicate 7 0 @ asc ''7'' @ asc ''89-456+1'' @ asc ''230.'' @ replicate 4 0)
    ([(0x9C, 10), (0xB5, 47)] @ special_keys)"

definition ctlmap :: "uchar list" where
  "ctlmap = keymap
    (replicate 16 0 @
     ctl ''QWERTYUI'' @ ctl ''OP'' @ [0, 0, 13, 0] @ ctl ''AS'' @
     ctl ''DFGHJKL'' @ [0] @ [0, 0, 0, 28] @ ctl ''ZXCV'' @
     ctl ''BNM'' @ [0, 0] @ ctl ''/'' @ [0, 0])
    ([(0x9C, 13)] @ [(0xB5, 47 - 64)] @ special_keys)"

definition shiftcode :: "uint32 \<Rightarrow> uint32" where
  "shiftcode d = (if d = 0x1D \<or> d = 0x9D then 2 else if d = 0x2A \<or> d = 0x36 then 1
     else if d = 0x38 \<or> d = 0xB8 then 4 else 0)"

definition togglecode :: "uint32 \<Rightarrow> uint32" where
  "togglecode d = (if d = 0x3A then 8 else if d = 0x45 then 16 else if d = 0x46 then 32 else 0)"

text \<open>\<open>kbdgetc\<close> on the byte the controller delivers, if any; the state is the static variable \<open>shift\<close>.\<close>

definition kbdgetc :: "uchar option \<Rightarrow> uint32 \<Rightarrow> int \<times> uint32" where
  "kbdgetc inp shift =
    (case inp of None \<Rightarrow> (- 1, shift)
     | Some x \<Rightarrow>
         let data = ucast x :: uint32 in
         if data = 0xE0 then (0, shift OR 64)
         else if data AND 0x80 \<noteq> 0 then
           let data = (if shift AND 64 \<noteq> 0 then data else data AND 0x7F)
           in (0, shift AND NOT (shiftcode data OR 64))
         else let (data, shift) = (if shift AND 64 \<noteq> 0 then (data OR 0x80, shift AND NOT 64) else (data, shift));
                  shift = (shift OR shiftcode data) XOR togglecode data;
                  tab = (if shift AND 3 = 0 then normalmap else if shift AND 3 = 1 then shiftmap else ctlmap);
                  c = uint (tab ! unat data);
                  c = (if shift AND 8 \<noteq> 0 then
                         if 97 \<le> c \<and> c \<le> 122 then c - 32 else if 65 \<le> c \<and> c \<le> 90 then c + 32 else c
                       else c)
              in (c, shift))"


section \<open>State\<close>

text \<open>
  The screen memory and the cursor register (two bytes of the CRT controller), the bytes sent to the serial port, and the input buffer with
  its read, write and edit indices. \<open>devsw_console\<close> says that \<open>consoleinit\<close> has filled the device switch.
\<close>

record kcons = kfs +
  crt :: "ushort list"
  crt_pos :: ushort
  uart_out :: "int list"
  panicked :: bool
  input_buf :: "uchar list"
  input_r :: uint32
  input_w :: uint32
  input_e :: uint32
  kbd_shift :: uint32
  devsw_console :: bool

abbreviation (input) INPUT_BUF :: nat where "INPUT_BUF \<equiv> 128"
abbreviation (input) BACKSPACE :: int where "BACKSPACE \<equiv> 256"
abbreviation (input) NDEV :: int where "NDEV \<equiv> 10"
abbreviation (input) CONSOLE :: int where "CONSOLE \<equiv> 1"

definition consoleinit :: "'a kcons_scheme \<Rightarrow> 'a kcons_scheme" where
  "consoleinit s = s\<lparr>devsw_console := True\<rparr>"


section \<open>Output\<close>

text \<open>
  The screen. \<open>pos\<close> is a signed \<open>int\<close>, read from the 16-bit cursor register and written back to it; an access to
  screen memory outside the array is a fault.
\<close>

definition crt_load :: "int \<Rightarrow> int \<Rightarrow> 'a kcons_scheme \<Rightarrow> (ushort list, 'a kcons_scheme) outcome" where
  "crt_load pos n s =
    (if 0 \<le> pos \<and> 0 \<le> n \<and> pos + n \<le> int (length (crt s)) then Ok (slice (crt s) (nat pos) (nat n)) s else out_of_bounds)"

definition crt_store :: "int \<Rightarrow> ushort list \<Rightarrow> 'a kcons_scheme \<Rightarrow> (unit, 'a kcons_scheme) outcome" where
  "crt_store pos vs s =
    (if 0 \<le> pos \<and> pos + int (length vs) \<le> int (length (crt s)) then Ok () (s\<lparr>crt := splice (crt s) (nat pos) vs\<rparr>)
     else out_of_bounds)"

definition cga_step :: "int \<Rightarrow> int \<Rightarrow> 'a kcons_scheme \<Rightarrow> (int, 'a kcons_scheme) outcome" where
  "cga_step c pos s =
    (if c = 10 then Ok (pos + (80 - pos mod 80)) s
     else if c = BACKSPACE then Ok (if pos > 0 then pos - 1 else pos) s
     else mbind (crt_store pos [(word_of_int c AND 0xff) OR 0x0700] s) (\<lambda>_ s. Ok (pos + 1) s))"

definition cga_scroll :: "int \<Rightarrow> 'a kcons_scheme \<Rightarrow> (int, 'a kcons_scheme) outcome" where
  "cga_scroll pos s =
    (if pos div 80 \<ge> 24
     then mbind (crt_load 80 (23 * 80) s) (\<lambda>rows s.
          mbind (crt_store 0 rows s) (\<lambda>_ s.
          let pos = pos - 80
          in if 24 * 80 - pos < 0 then out_of_bounds
             else mbind (crt_store pos (replicate (nat (24 * 80 - pos)) 0) s) (\<lambda>_ s. Ok pos s)))
     else Ok pos s)"

definition cgaputc :: "int \<Rightarrow> 'a kcons_scheme \<Rightarrow> (unit, 'a kcons_scheme) outcome" where
  "cgaputc c s =
    mbind (cga_step c (uint (crt_pos s)) s) (\<lambda>pos s.
      if pos < 0 \<or> pos > 25 * 80 then Panic ''pos under/overflow''
      else mbind (cga_scroll pos s) (\<lambda>pos s.
        crt_store pos [0x0720] (s\<lparr>crt_pos := word_of_int pos\<rparr>)))"

definition consputc :: "int \<Rightarrow> 'a kcons_scheme \<Rightarrow> (unit, 'a kcons_scheme) outcome" where
  "consputc c s =
    (if panicked s then Panic ''halted''
     else cgaputc c (s\<lparr>uart_out := uart_out s @ (if c = BACKSPACE then [8, 32, 8] else [c])\<rparr>))"

fun consputs :: "int list \<Rightarrow> 'a kcons_scheme \<Rightarrow> (unit, 'a kcons_scheme) outcome" where
  "consputs [] s = Ok () s"
| "consputs (c # cs) s = mbind (consputc c s) (\<lambda>_ s. consputs cs s)"

text \<open>The digits of \<open>printint\<close>, least significant first.\<close>

definition digit_char :: "nat \<Rightarrow> int" where
  "digit_char d = (if d < 10 then 48 + int d else 87 + int d)"

function digits_loop :: "nat \<Rightarrow> nat \<Rightarrow> int list" where
  "digits_loop base x = (if base < 2 then [] else
     digit_char (x mod base) # (if x div base \<noteq> 0 then digits_loop base (x div base) else []))"
  by auto
termination by (relation "measure snd") (auto intro!: div_less_dividend gr0I)

definition printint_chars :: "int \<Rightarrow> nat \<Rightarrow> bool \<Rightarrow> int list" where
  "printint_chars xx base sign =
    (let neg = sign \<and> xx < 0; x = unat (word_of_int (if neg then - xx else xx) :: uint32)
     in rev (digits_loop base x @ (if neg then [45] else [])))"

definition printint :: "int \<Rightarrow> nat \<Rightarrow> bool \<Rightarrow> 'a kcons_scheme \<Rightarrow> (unit, 'a kcons_scheme) outcome" where
  "printint xx base sign s = consputs (printint_chars xx base sign) s"

text \<open>A variadic argument: a word, or a pointer to a string, perhaps null.\<close>

datatype vararg = VNum uint32 | VStr "uchar list option"

fun cprintf_loop :: "uchar list \<Rightarrow> vararg list \<Rightarrow> 'a kcons_scheme \<Rightarrow> (unit, 'a kcons_scheme) outcome" where
  "cprintf_loop [] args s = Ok () s"
| "cprintf_loop (c # fmt) args s =
    (if c \<noteq> 37 then mbind (consputc (uint c) s) (\<lambda>_ s. cprintf_loop fmt args s)
     else (case fmt of [] \<Rightarrow> Ok () s
       | k # fmt \<Rightarrow>
          if k = 100 then
            (case args of VNum x # args \<Rightarrow> mbind (printint (sint x) 10 True s) (\<lambda>_ s. cprintf_loop fmt args s) | _ \<Rightarrow> out_of_bounds)
          else if k = 120 \<or> k = 112 then
            (case args of VNum x # args \<Rightarrow> mbind (printint (sint x) 16 False s) (\<lambda>_ s. cprintf_loop fmt args s) | _ \<Rightarrow> out_of_bounds)
          else if k = 115 then
            (case args of VStr x # args \<Rightarrow>
               mbind (consputs (map sint (case x of None \<Rightarrow> asc ''(null)'' | Some t \<Rightarrow> t)) s) (\<lambda>_ s. cprintf_loop fmt args s)
             | _ \<Rightarrow> out_of_bounds)
          else if k = 37 then mbind (consputc 37 s) (\<lambda>_ s. cprintf_loop fmt args s)
          else mbind (consputc 37 s) (\<lambda>_ s. mbind (consputc (uint k) s) (\<lambda>_ s. cprintf_loop fmt args s))))"

definition cprintf :: "uchar list option \<Rightarrow> vararg list \<Rightarrow> 'a kcons_scheme \<Rightarrow> (unit, 'a kcons_scheme) outcome" where
  "cprintf fmt args s = (case fmt of None \<Rightarrow> Panic ''null fmt'' | Some f \<Rightarrow> cprintf_loop f args s)"


text \<open>What output leaves alone.\<close>

definition output_rest :: "'a kcons_scheme \<Rightarrow> 'a kcons_scheme" where
  "output_rest s = s\<lparr>crt := [], crt_pos := 0, uart_out := []\<rparr>"

lemma output_rest_simps [simp]:
  "output_rest (s\<lparr>crt := scr\<rparr>) = output_rest s" "output_rest (s\<lparr>crt_pos := p\<rparr>) = output_rest s"
  "output_rest (s\<lparr>uart_out := out\<rparr>) = output_rest s"
  by (simp_all add: output_rest_def)

lemma crt_store_rest: "crt_store pos vs s = Ok x t \<Longrightarrow> output_rest t = output_rest s"
  by (auto simp: crt_store_def out_of_bounds_def split: if_splits)

lemma cga_step_rest: "cga_step c pos s = Ok x t \<Longrightarrow> output_rest t = output_rest s"
  by (auto simp: cga_step_def mbind_eq_Ok dest: crt_store_rest split: if_splits)

lemma cga_scroll_rest:
  assumes "cga_scroll pos s = Ok x t"
  shows "output_rest t = output_rest s"
proof (cases "pos div 80 \<ge> 24")
  case True
  obtain rows u v where "crt_load 80 (23 * 80) s = Ok rows u" "crt_store 0 rows u = Ok () v"
      "crt_store (pos - 80) (replicate (nat (24 * 80 - (pos - 80))) 0) v = Ok () t"
    using assms True by (auto simp: cga_scroll_def mbind_eq_Ok Let_def out_of_bounds_def split: if_splits)
  then show ?thesis by (auto simp: crt_load_def out_of_bounds_def dest!: crt_store_rest split: if_splits)
qed (use assms in \<open>simp add: cga_scroll_def\<close>)

lemma consputc_rest:
  assumes "consputc c s = Ok x t"
  shows "output_rest t = output_rest s"
proof -
  let ?s = "s\<lparr>uart_out := uart_out s @ (if c = BACKSPACE then [8, 32, 8] else [c])\<rparr>"
  have "cgaputc c ?s = Ok x t" using assms by (simp add: consputc_def split: if_splits)
  then obtain p u q v where "cga_step c (uint (crt_pos ?s)) ?s = Ok p u" "cga_scroll p u = Ok q v"
      "crt_store q [0x0720] (v\<lparr>crt_pos := word_of_int q\<rparr>) = Ok x t"
    unfolding cgaputc_def by (auto simp: mbind_eq_Ok split: if_splits)
  then show ?thesis by (auto dest!: cga_step_rest cga_scroll_rest crt_store_rest)
qed

lemma consputc_input:
  assumes "consputc c s = Ok x t"
  shows "input_e t = input_e s" "input_w t = input_w s" "input_r t = input_r s" "input_buf t = input_buf s"
  using arg_cong [OF consputc_rest [OF assms], of input_e] arg_cong [OF consputc_rest [OF assms], of input_w]
    arg_cong [OF consputc_rest [OF assms], of input_r] arg_cong [OF consputc_rest [OF assms], of input_buf]
  by (simp_all add: output_rest_def)


section \<open>Input\<close>

text \<open>\<open>C('U')\<close>: erase back to the start of the line.\<close>

function kill_line :: "'a kcons_scheme \<Rightarrow> (unit, 'a kcons_scheme) outcome" where
  "kill_line s =
    (if input_e s \<noteq> input_w s \<and> input_buf s ! (unat (input_e s - 1) mod INPUT_BUF) \<noteq> 10
     then mbind (consputc BACKSPACE (s\<lparr>input_e := input_e s - 1\<rparr>)) (\<lambda>_ s. kill_line s)
     else Ok () s)"
  by auto
termination
proof (relation "measure (\<lambda>s. unat (input_e s - input_w s))", goal_cases)
  case (2 s x t)
  have "input_e t = input_e s - 1" "input_w t = input_w s" using consputc_input [OF 2(2)] by simp_all
  then show ?case using unat_sub_1 [of "input_e s - input_w s"] 2(1) by (simp add: diff_right_commute)
qed simp

text \<open>
  One round of the loop of \<open>consoleintr\<close>, for a character from \<open>getc\<close>. The result says whether a process
  listing was asked for.
\<close>

definition consoleintr_char :: "int \<Rightarrow> 'a kcons_scheme \<Rightarrow> (bool, 'a kcons_scheme) outcome" where
  "consoleintr_char c s =
    (if c = 16 then Ok True s
     else if c = 21 then mbind (kill_line s) (\<lambda>_ s. Ok False s)
     else if c = 8 \<or> c = 127 then
       if input_e s \<noteq> input_w s then mbind (consputc BACKSPACE (s\<lparr>input_e := input_e s - 1\<rparr>)) (\<lambda>_ s. Ok False s)
       else Ok False s
     else if c \<noteq> 0 \<and> unat (input_e s - input_r s) < INPUT_BUF then
       let c = (if c = 13 then 10 else c);
           s = s\<lparr>input_buf := (input_buf s)[unat (input_e s) mod INPUT_BUF := word_of_int c], input_e := input_e s + 1\<rparr>
       in mbind (consputc c s) (\<lambda>_ s.
         if c = 10 \<or> c = 4 \<or> input_e s = input_r s + of_nat INPUT_BUF
         then Ok False (wakeup ChanInput (s\<lparr>input_w := input_e s\<rparr>)) else Ok False s)
     else Ok False s)"

fun consoleintr_loop :: "int list \<Rightarrow> bool \<Rightarrow> 'a kcons_scheme \<Rightarrow> (bool, 'a kcons_scheme) outcome" where
  "consoleintr_loop [] dump s = Ok dump s"
| "consoleintr_loop (c # cs) dump s =
    (if c < 0 then Ok dump s else mbind (consoleintr_char c s) (\<lambda>d s. consoleintr_loop cs (dump \<or> d) s))"

text \<open>\<open>getcallerpcs\<close> follows the chain of saved frame pointers through kernel memory.\<close>

definition kload32 :: "uint32 \<Rightarrow> 'a kmem_scheme \<Rightarrow> uint32" where
  "kload32 a s = get_u32 (map (\<lambda>k. mem s (PGROUNDDOWN (a + of_nat k)) ! (unat (a + of_nat k) mod 4096)) [0..<4]) 0"

fun callerpcs_loop :: "nat \<Rightarrow> uint32 \<Rightarrow> 'a kmem_scheme \<Rightarrow> uint32 list" where
  "callerpcs_loop 0 ebp s = []"
| "callerpcs_loop (Suc n) ebp s =
    (if ebp = 0 \<or> ebp < KERNBASE \<or> ebp = 0xffffffff then replicate (Suc n) 0
     else kload32 (ebp + 4) s # callerpcs_loop n (kload32 ebp s) s)"

definition getcallerpcs :: "uint32 \<Rightarrow> 'a kmem_scheme \<Rightarrow> uint32 list" where
  "getcallerpcs v s = callerpcs_loop 10 (v - 8) s"

definition state_name :: "procstate \<Rightarrow> uchar list" where
  "state_name st = asc (case st of UNUSED \<Rightarrow> ''unused'' | EMBRYO \<Rightarrow> ''embryo'' | SLEEPING \<Rightarrow> ''sleep '' |
     RUNNABLE \<Rightarrow> ''runble'' | RUNNING \<Rightarrow> ''run   '' | ZOMBIE \<Rightarrow> ''zombie'')"

fun print_pcs :: "uint32 list \<Rightarrow> 'a kcons_scheme \<Rightarrow> (unit, 'a kcons_scheme) outcome" where
  "print_pcs [] s = Ok () s"
| "print_pcs (p # ps) s = (if p = 0 then Ok () s else mbind (cprintf (Some (asc '' %p'')) [VNum p] s) (\<lambda>_ s. print_pcs ps s))"

definition nl :: "uchar list" where "nl = [10]"

fun procdump_loop :: "nat list \<Rightarrow> 'a kcons_scheme \<Rightarrow> (unit, 'a kcons_scheme) outcome" where
  "procdump_loop [] s = Ok () s"
| "procdump_loop (i # is) s =
    (let p = procs s ! i in
     if p_state p = UNUSED then procdump_loop is s
     else mbind (cprintf (Some (asc ''%d %s %s %d'')) [VNum (word_of_int (p_pid p)), VStr (Some (state_name (p_state p))),
            VStr (Some (cstr 16 (p_name p))), VNum (word_of_int (p_ntickets p))] s) (\<lambda>_ s.
       mbind (if p_state p = SLEEPING then print_pcs (getcallerpcs (c_ebp (p_context p) + 8) s) s else Ok () s) (\<lambda>_ s.
       mbind (cprintf (Some nl) [] s) (\<lambda>_ s.
       mbind (cprintf (Some (asc ''retime:%d'' @ nl)) [VNum (word_of_int (p_retime p))] s) (\<lambda>_ s.
       mbind (cprintf (Some (asc ''rutime:%d'' @ nl)) [VNum (word_of_int (p_rutime p))] s) (\<lambda>_ s.
       mbind (cprintf (Some (asc ''ctime:%d'' @ nl)) [VNum (word_of_int (p_ctime p))] s) (\<lambda>_ s.
       mbind (cprintf (Some (asc ''ttime:%d'' @ nl)) [VNum (word_of_int (p_ttime p))] s) (\<lambda>_ s.
       mbind (cprintf (Some (asc ''stime:%d'' @ nl)) [VNum (word_of_int (p_stime p))] s) (\<lambda>_ s.
       procdump_loop is s)))))))))"

definition procdump :: "'a kcons_scheme \<Rightarrow> (unit, 'a kcons_scheme) outcome" where
  "procdump s = procdump_loop [0..<length (procs s)] (s\<lparr>started := True\<rparr>)"

definition consoleintr :: "int list \<Rightarrow> 'a kcons_scheme \<Rightarrow> (unit, 'a kcons_scheme) outcome" where
  "consoleintr cs s = mbind (consoleintr_loop cs False s) (\<lambda>dump s. if dump then procdump s else Ok () s)"

text \<open>The keyboard interrupt, with the bytes the controller has: \<open>kbdgetc\<close> is called until there are none left.\<close>

fun kbd_chars :: "uchar list \<Rightarrow> uint32 \<Rightarrow> int list \<times> uint32" where
  "kbd_chars [] shift = ([], shift)"
| "kbd_chars (x # xs) shift = (let (c, shift) = kbdgetc (Some x) shift; (cs, shift) = kbd_chars xs shift in (c # cs, shift))"

definition kbdintr :: "uchar list \<Rightarrow> 'a kcons_scheme \<Rightarrow> (unit, 'a kcons_scheme) outcome" where
  "kbdintr xs s = (let (cs, shift) = kbd_chars xs (kbd_shift s) in consoleintr cs (s\<lparr>kbd_shift := shift\<rparr>))"

definition uartintr :: "uchar list \<Rightarrow> 'a kcons_scheme \<Rightarrow> (unit, 'a kcons_scheme) outcome" where
  "uartintr xs s = consoleintr (map uint xs) s"


section \<open>The console device\<close>

text \<open>
  The loop of \<open>consoleread\<close> with \<open>n\<close> bytes still wanted of \<open>target\<close>: the bytes copied to \<open>dst\<close> and the number wanted
  still, or \<open>None\<close> if the process was killed. A \<open>Sleep\<close> keeps the bytes already taken from the buffer in the caller's
  \<open>dst\<close>; the loop goes on from there.
\<close>

fun consoleread_loop :: "nat \<Rightarrow> nat \<Rightarrow> 'a kcons_scheme \<Rightarrow> ((uchar list \<times> nat) option, 'a kcons_scheme) outcome" where
  "consoleread_loop 0 target s = Ok (Some ([], 0)) s"
| "consoleread_loop (Suc n) target s =
    (if input_r s = input_w s then
       mbind (mcur s) (\<lambda>c s. if p_killed (procs s ! c) then Ok None s else sleep ChanInput s)
     else let c = input_buf s ! (unat (input_r s) mod INPUT_BUF); s' = s\<lparr>input_r := input_r s + 1\<rparr> in
       if c = 4 then Ok (Some ([], Suc n)) (if Suc n < target then s else s')
       else if c = 10 then Ok (Some ([c], n)) s'
       else mbind (consoleread_loop n target s') (\<lambda>r s. Ok (map_option (\<lambda>(cs, m). (c # cs, m)) r) s))"

definition consoleread :: "nat \<Rightarrow> int \<Rightarrow> 'a kcons_scheme \<Rightarrow> (int \<times> uchar list, 'a kcons_scheme) outcome" where
  "consoleread ip n s =
     mbind (iunlock (Some ip) s) (\<lambda>_ s.
     mbind (consoleread_loop (nat n) (nat n) s) (\<lambda>r s.
     mbind (ilock (Some ip) s) (\<lambda>_ s.
       case r of None \<Rightarrow> Ok (- 1, []) s
       | Some (cs, m) \<Rightarrow> Ok (n - (if n > 0 then int m else n), cs) s)))"

definition consolewrite :: "nat \<Rightarrow> uchar list \<Rightarrow> 'a kcons_scheme \<Rightarrow> (int, 'a kcons_scheme) outcome" where
  "consolewrite ip cs s =
     mbind (iunlock (Some ip) s) (\<lambda>_ s.
     mbind (consputs (map uint cs) s) (\<lambda>_ s.
     mbind (ilock (Some ip) s) (\<lambda>_ s. Ok (int (length cs)) s)))"


section \<open>The screen\<close>

definition screen_ok :: "'a kcons_scheme \<Rightarrow> bool" where
  "screen_ok s \<longleftrightarrow> length (crt s) = 25 * 80 \<and> uint (crt_pos s) < 24 * 80 \<and> \<not> panicked s"

text \<open>
  What a character does to the screen: it is put at the cursor, which moves on, back or to the next row; when the cursor
  leaves the 24th row the rows move up by one and the 24th is blank. The cursor is shown as a blank.
\<close>

definition screen_put :: "int \<Rightarrow> ushort list \<times> nat \<Rightarrow> ushort list \<times> nat" where
  "screen_put c = (\<lambda>(scr, p).
    let scr = (if c = 10 \<or> c = BACKSPACE then scr else scr[p := (word_of_int c AND 0xff) OR 0x0700]);
        q = (if c = 10 then 80 * (p div 80 + 1) else if c = BACKSPACE then p - 1 else p + 1)
    in if q < 24 * 80 then (scr[q := 0x0720], q)
       else (take (23 * 80) (drop 80 scr) @ 0x0720 # replicate 79 0 @ drop (24 * 80) scr, 23 * 80))"

definition screen :: "'a kcons_scheme \<Rightarrow> ushort list \<times> nat" where
  "screen s = (crt s, unat (crt_pos s))"

lemma crt_store_one: "0 \<le> pos \<Longrightarrow> pos < int (length (crt s)) \<Longrightarrow>
    crt_store pos [v] s = Ok () (s\<lparr>crt := (crt s)[nat pos := v]\<rparr>)"
  by (simp add: crt_store_def splice_def upd_conv_take_nth_drop)

lemma cga_scroll_exact:
  assumes "length (crt s) = 25 * 80" "0 \<le> pos" "pos \<le> 24 * 80"
  shows "cga_scroll pos s = (if pos < 24 * 80 then Ok pos s
    else Ok (23 * 80) (s\<lparr>crt := take (23 * 80) (drop 80 (crt s)) @ replicate 80 0 @ drop (24 * 80) (crt s)\<rparr>))"
proof (cases "pos < 24 * 80")
  case True
  then have "pos div 80 < 24" by linarith
  then show ?thesis using True by (simp add: cga_scroll_def)
next
  case False
  then have "pos = 24 * 80" using assms(3) by simp
  then show ?thesis using assms(1)
    by (simp add: cga_scroll_def crt_load_def crt_store_def slice_def splice_def)
qed

lemma screen_put_ok: "screen_put c (scr, p) = (scr', q) \<Longrightarrow> length scr = 25 * 80 \<Longrightarrow> p < 24 * 80 \<Longrightarrow>
    length scr' = 25 * 80 \<and> q < 24 * 80"
  by (auto simp: screen_put_def Let_def split: if_splits)

lemma cga_step_exact:
  assumes "length (crt s) = 25 * 80" "0 \<le> pos" "pos < 24 * 80"
  shows "cga_step c pos s = Ok (if c = 10 then 80 * (pos div 80 + 1) else if c = BACKSPACE then max 0 (pos - 1) else pos + 1)
    (s\<lparr>crt := (if c = 10 \<or> c = BACKSPACE then crt s else (crt s)[nat pos := (word_of_int c AND 0xff) OR 0x0700])\<rparr>)"
proof -
  have "pos + (80 - pos mod 80) = 80 * (pos div 80 + 1)" using mult_div_mod_eq [of 80 pos] by (simp add: algebra_simps)
  then show ?thesis using assms by (simp add: cga_step_def crt_store_one max_def)
qed

lemma cgaputc_exact:
  assumes "length (crt s) = 25 * 80" "uint (crt_pos s) < 24 * 80"
  shows "\<exists>t. cgaputc c s = Ok () t \<and> screen t = screen_put c (screen s) \<and> output_rest t = output_rest s \<and> uart_out t = uart_out s"
proof -
  let ?p = "uint (crt_pos s)"
  define q where "q = (if c = 10 then 80 * (?p div 80 + 1) else if c = BACKSPACE then max 0 (?p - 1) else ?p + 1)"
  define scr where "scr = (if c = 10 \<or> c = BACKSPACE then crt s else (crt s)[nat ?p := (word_of_int c AND 0xff) OR 0x0700])"
  have "?p div 80 < 24" "0 \<le> ?p div 80" using assms(2) by (linarith, simp add: pos_imp_zdiv_nonneg_iff)
  then have q: "0 \<le> q" "q \<le> 24 * 80" using assms(2) by (auto simp: q_def)
  have step: "cga_step c ?p s = Ok q (s\<lparr>crt := scr\<rparr>)" using assms by (simp add: cga_step_exact q_def scr_def)
  have len: "length scr = 25 * 80" using assms(1) by (simp add: scr_def)
  have nq: "nat q = (if c = 10 then 80 * (unat (crt_pos s) div 80 + 1) else if c = BACKSPACE then unat (crt_pos s) - 1 else unat (crt_pos s) + 1)"
    unfolding q_def uint_nat by (cases "unat (crt_pos s)") (auto simp: nat_add_distrib nat_mult_distrib nat_div_distrib)
  show ?thesis
  proof (cases "q < 24 * 80")
    case True
    then have "unat (word_of_int q :: ushort) = nat q" using q by (simp add: unsigned_of_int take_bit_int_eq_self)
    moreover have "nat q < 24 * 80" using True by simp
    ultimately show ?thesis using step len q True nq scr_def
      by (simp add: cgaputc_def cga_scroll_exact crt_store_one screen_def screen_put_def Let_def output_rest_def nat_uint_eq)
  next
    case False
    then have "q = 24 * 80" using q by simp
    moreover have "(replicate 80 0)[0 := 0x0720] = (0x0720 # replicate 79 0 :: ushort list)" by (simp add: numeral_eq_Suc)
    ultimately show ?thesis using step len nq scr_def
      by (simp add: cgaputc_def cga_scroll_exact crt_store_one screen_def screen_put_def Let_def output_rest_def nat_uint_eq
        list_update_append)
  qed
qed

lemma consputc_exact:
  assumes "screen_ok s"
  shows "\<exists>t. consputc c s = Ok () t \<and> screen_ok t \<and> screen t = screen_put c (screen s) \<and>
    uart_out t = uart_out s @ (if c = BACKSPACE then [8, 32, 8] else [c]) \<and> output_rest t = output_rest s"
proof -
  let ?s = "s\<lparr>uart_out := uart_out s @ (if c = BACKSPACE then [8, 32, 8] else [c])\<rparr>"
  obtain t where t: "cgaputc c ?s = Ok () t" "screen t = screen_put c (screen ?s)" "output_rest t = output_rest ?s"
      "uart_out t = uart_out ?s"
    using cgaputc_exact [of ?s c] assms by (auto simp: screen_ok_def)
  have "panicked t = panicked s" using arg_cong [OF t(3), of panicked] by (simp add: output_rest_def)
  moreover have p: "screen_put c (crt s, unat (crt_pos s)) = (crt t, unat (crt_pos t))" using t(2) by (simp add: screen_def)
  have "length (crt s) = 25 * 80" "unat (crt_pos s) < 24 * 80" using assms unfolding screen_ok_def uint_nat by linarith+
  from screen_put_ok [OF p this] have "length (crt t) = 25 * 80" "uint (crt_pos t) < 24 * 80" unfolding uint_nat by linarith+
  ultimately have "screen_ok t" using assms unfolding screen_ok_def by blast
  moreover have "consputc c s = Ok () t" using t(1) assms by (simp add: consputc_def screen_ok_def)
  moreover have "screen t = screen_put c (screen s)" "output_rest t = output_rest s" using t(2,3) by (simp_all add: screen_def)
  ultimately show ?thesis using t(4) by simp
qed

text \<open>C39. Output never drives the cursor off the screen: whatever is written, \<open>consputc\<close> neither panics nor touches
  memory outside the screen, the cursor stays within the first 24 rows, and the screen afterwards is the one before with the
  character at the cursor, the cursor moved and the rows scrolled up when it leaves the 24th; the serial port gets the
  character too, a backspace as backspace, blank, backspace.\<close>

theorem consputc_safe:
  assumes "screen_ok s"
  shows "\<exists>t. consputc c s = Ok () t \<and> screen_ok t \<and> screen t = screen_put c (screen s) \<and>
    uart_out t = uart_out s @ (if c = BACKSPACE then [8, 32, 8] else [c])"
  using consputc_exact [OF assms] by blast

lemma consputc_ok:
  assumes "screen_ok s"
  shows "\<exists>t. consputc c s = Ok () t \<and> screen_ok t \<and> output_rest t = output_rest s"
  using consputc_exact [OF assms] by blast


section \<open>The line editor\<close>

text \<open>
  The input buffer holds the completed lines, between the read and the write index, and the line being
  edited, between the write and the edit index. The abstract editor is a pair of lists.
\<close>

definition input_inv :: "'a kcons_scheme \<Rightarrow> bool" where
  "input_inv s \<longleftrightarrow> length (input_buf s) = INPUT_BUF \<and> unat (input_w s - input_r s) \<le> unat (input_e s - input_r s) \<and>
     unat (input_e s - input_r s) \<le> INPUT_BUF \<and> 10 \<notin> set (ring_list (input_buf s) (input_w s) (input_e s))"

definition editor :: "'a kcons_scheme \<Rightarrow> uchar list \<times> uchar list" where
  "editor s = (ring_list (input_buf s) (input_r s) (input_w s), ring_list (input_buf s) (input_w s) (input_e s))"

definition edit_spec :: "int \<Rightarrow> uchar list \<times> uchar list \<Rightarrow> uchar list \<times> uchar list" where
  "edit_spec c = (\<lambda>(lines, line).
     if c = 16 then (lines, line)
     else if c = 21 then (lines, [])
     else if c = 8 \<or> c = 127 then (lines, butlast line)
     else if c \<noteq> 0 \<and> length (lines @ line) < INPUT_BUF then
       let c = (if c = 13 then 10 else c) in
       if c = 10 \<or> c = 4 \<or> length (lines @ line) = INPUT_BUF - 1 then (lines @ line @ [word_of_int c], [])
       else (lines, line @ [word_of_int c])
     else (lines, line))"

lemma input_cong:
  assumes "output_rest t = output_rest s"
  shows "input_e t = input_e s" "input_w t = input_w s" "input_r t = input_r s" "input_buf t = input_buf s"
  using arg_cong [OF assms, of input_e] arg_cong [OF assms, of input_w] arg_cong [OF assms, of input_r]
    arg_cong [OF assms, of input_buf] by (simp_all add: output_rest_def)

lemma input_split:
  assumes "input_inv s"
  shows "ring_list (input_buf s) (input_r s) (input_e s) = fst (editor s) @ snd (editor s)"
  using ring_list_split [of "input_w s" "input_r s" "input_e s" "input_buf s"] assms by (simp add: editor_def input_inv_def)

lemma input_back:
  assumes "input_inv s" "input_e s \<noteq> input_w s" "input_e t = input_e s - 1" "input_w t = input_w s" "input_r t = input_r s"
    "input_buf t = input_buf s"
  shows "input_inv t \<and> editor t = (fst (editor s), butlast (snd (editor s)))"
proof -
  have "unat (input_e s - input_w s) = unat (input_e s - input_r s) - unat (input_w s - input_r s)"
    using unat_sub [of "input_w s - input_r s" "input_e s - input_r s"] assms(1) by (simp add: input_inv_def word_le_nat_alt)
  moreover have "unat (input_e s - input_w s) \<noteq> 0" using assms(2) by (simp add: unat_gt_0)
  ultimately have "unat (input_w s - input_r s) < unat (input_e s - input_r s)" by linarith
  moreover from this have "unat (input_e s - input_r s) = Suc (unat (input_e s - 1 - input_r s))"
    using unat_sub_1 [of "input_e s - input_r s"] by (fastforce simp: diff_right_commute)
  ultimately show ?thesis
    using assms ring_list_unpush [of "input_w s" "input_e s" "input_buf s"] by (auto simp: input_inv_def editor_def dest: in_set_butlastD)
qed

lemma kill_line_ok:
  assumes "screen_ok s" "input_inv s"
  shows "\<exists>t. kill_line s = Ok () t \<and> screen_ok t \<and> input_inv t \<and> editor t = (fst (editor s), [])"
  using assms
proof (induction s rule: kill_line.induct)
  case (1 s)
  show ?case
  proof (cases "input_e s = input_w s")
    case True
    then show ?thesis using 1(2,3) by (subst kill_line.simps) (simp add: editor_def)
  next
    case False
    have "last (snd (editor s)) \<in> set (snd (editor s))"
      using False ring_list_pop [of "input_w s" "input_e s" "input_buf s"] by (intro last_in_set) (auto simp: editor_def)
    then have nl: "input_buf s ! (unat (input_e s - 1) mod INPUT_BUF) \<noteq> 10"
      using ring_list_last [of "input_w s" "input_e s" "input_buf s"] False 1(3) by (auto simp: editor_def input_inv_def)
    let ?u = "s\<lparr>input_e := input_e s - 1\<rparr>"
    have "screen_ok ?u" using 1(2) by (simp add: screen_ok_def)
    then obtain t where t: "consputc BACKSPACE ?u = Ok () t" "screen_ok t" "output_rest t = output_rest ?u"
      using consputc_ok by blast
    note f = input_cong [OF t(3)]
    have b: "input_inv t \<and> editor t = (fst (editor s), butlast (snd (editor s)))"
      using f by (intro input_back [OF 1(3) False]) simp_all
    then obtain v where "kill_line t = Ok () v" "screen_ok v" "input_inv v" "editor v = (fst (editor t), [])"
      using 1(1) [OF _ t(1) t(2)] False nl by auto
    then show ?thesis using False nl t(1) b by (subst kill_line.simps) simp
  qed
qed


lemma edit_length: "input_inv s \<Longrightarrow> length (fst (editor s) @ snd (editor s)) = unat (input_e s - input_r s)"
  using input_split [of s] ring_list_length [of "input_buf s" "input_r s" "input_e s"] by simp

lemma edit_gap:
  assumes "input_inv s"
  shows "unat (input_e s - input_w s) = unat (input_e s - input_r s) - unat (input_w s - input_r s)"
  using unat_sub [of "input_w s - input_r s" "input_e s - input_r s"] assms by (simp add: input_inv_def word_le_nat_alt)

text \<open>Typing one more character, before the line is completed.\<close>

lemma input_type:
  fixes x :: uchar
  assumes "input_inv s" "unat (input_e s - input_r s) < INPUT_BUF"
  defines "u \<equiv> s\<lparr>input_buf := (input_buf s)[unat (input_e s) mod INPUT_BUF := x], input_e := input_e s + 1\<rparr>"
  shows "ring_list (input_buf u) (input_r u) (input_e u) = fst (editor s) @ snd (editor s) @ [x]"
    "editor u = (fst (editor s), snd (editor s) @ [x])" "unat (input_e u - input_r u) = Suc (unat (input_e s - input_r s))"
    "length (input_buf u) = INPUT_BUF"
proof -
  have l: "length (input_buf s) = INPUT_BUF" using assms(1) by (simp add: input_inv_def)
  have w: "unat (input_e s - input_w s) < INPUT_BUF" using edit_gap [OF assms(1)] assms(2) by linarith
  have "unat (input_e s - input_r s + 1) = Suc (unat (input_e s - input_r s))"
    using assms(2) unat_add_no_wrap [of "input_e s - input_r s" 1] by simp
  then show n: "unat (input_e u - input_r u) = Suc (unat (input_e s - input_r s))"
    by (simp add: u_def add_diff_eq diff_add_eq)
  show a: "ring_list (input_buf u) (input_r u) (input_e u) = fst (editor s) @ snd (editor s) @ [x]"
    using ring_list_push [of "input_e s" "input_r s" "input_buf s" x] l assms(2) input_split [OF assms(1)] by (simp add: u_def)
  have e: "ring_list (input_buf u) (input_w u) (input_e u) = snd (editor s) @ [x]"
    using ring_list_push [of "input_e s" "input_w s" "input_buf s" x] l w by (simp add: u_def editor_def)
  have "unat (input_w u - input_r u) \<le> unat (input_e u - input_r u)" using assms(1) n by (simp add: u_def input_inv_def)
  then have "ring_list (input_buf u) (input_r u) (input_w u) @ ring_list (input_buf u) (input_w u) (input_e u) =
      fst (editor s) @ snd (editor s) @ [x]"
    using ring_list_split [of "input_w u" "input_r u" "input_e u" "input_buf u"] a by simp
  then show "editor u = (fst (editor s), snd (editor s) @ [x])" using e by (simp add: editor_def)
  show "length (input_buf u) = INPUT_BUF" using l by (simp add: u_def)
qed

lemma wakeup_cons [simp]: "crt (wakeup ch s) = crt s" "crt_pos (wakeup ch s) = crt_pos s" "panicked (wakeup ch s) = panicked s"
  "input_buf (wakeup ch s) = input_buf s" "input_r (wakeup ch s) = input_r s" "input_w (wakeup ch s) = input_w s"
  "input_e (wakeup ch s) = input_e s"
  by (simp_all add: wakeup_def wakeup1_def Let_def)

lemma word_of_int_10: "0 \<le> c \<Longrightarrow> c < 256 \<Longrightarrow> (word_of_int c = (10 :: uchar)) = (c = 10)"
proof
  assume c: "0 \<le> c" "c < 256" "word_of_int c = (10 :: uchar)"
  then have "uint (word_of_int c :: uchar) = 10" by simp
  then show "c = 10" using c(1,2) by (simp add: unsigned_of_int take_bit_int_eq_self)
qed simp

lemma type_char_ok:
  assumes "screen_ok s" "input_inv s" "0 \<le> c" "c < 256" "unat (input_e s - input_r s) < INPUT_BUF" "c \<noteq> 13"
  defines "u \<equiv> s\<lparr>input_buf := (input_buf s)[unat (input_e s) mod INPUT_BUF := word_of_int c], input_e := input_e s + 1\<rparr>"
  shows "\<exists>t. mbind (consputc c u) (\<lambda>_ s. if c = 10 \<or> c = 4 \<or> input_e s = input_r s + of_nat INPUT_BUF
         then Ok False (wakeup ChanInput (s\<lparr>input_w := input_e s\<rparr>)) else Ok False s) = Ok False t \<and>
      screen_ok t \<and> input_inv t \<and>
      editor t = (if c = 10 \<or> c = 4 \<or> length (fst (editor s) @ snd (editor s)) = INPUT_BUF - 1
        then (fst (editor s) @ snd (editor s) @ [word_of_int c], []) else (fst (editor s), snd (editor s) @ [word_of_int c]))"
proof -
  note u = input_type [OF assms(2,5), where x = "word_of_int c", folded u_def]
  have "screen_ok u" using assms(1) by (simp add: u_def screen_ok_def)
  then obtain t where t: "consputc c u = Ok () t" "screen_ok t" "output_rest t = output_rest u" using consputc_ok by blast
  note f = input_cong [OF t(3)]
  have full: "input_e t = input_r t + of_nat INPUT_BUF \<longleftrightarrow> length (fst (editor s) @ snd (editor s)) = INPUT_BUF - 1"
  proof -
    have "input_e u = input_r u + of_nat INPUT_BUF \<longleftrightarrow> input_e u - input_r u = of_nat INPUT_BUF"
      by (auto simp: algebra_simps)
    also have "\<dots> \<longleftrightarrow> unat (input_e u - input_r u) = INPUT_BUF" by (simp add: word_unat_eq_iff)
    finally show ?thesis using u(3) edit_length [OF assms(2)] f by simp
  qed
  let ?commit = "c = 10 \<or> c = 4 \<or> length (fst (editor s) @ snd (editor s)) = INPUT_BUF - 1"
  show ?thesis
  proof (cases ?commit)
    case True
    define v where "v = wakeup ChanInput (t\<lparr>input_w := input_e t\<rparr>)"
    have "editor v = (fst (editor s) @ snd (editor s) @ [word_of_int c], [])" "input_inv v" "screen_ok v"
      using u f t(2) assms(5) by (simp_all add: v_def editor_def input_inv_def screen_ok_def)
    then show ?thesis using True full t(1) by (auto simp: v_def)
  next
    case False
    have "editor t = editor u" using f by (simp add: editor_def)
    moreover have "input_inv t"
    proof -
      have "unat (input_w u - input_r u) = unat (input_w s - input_r s)" by (simp add: u_def)
      moreover have "10 \<notin> set (snd (editor u))"
        using u(2) assms(2,3,4) False word_of_int_10 [of c] by (auto simp: input_inv_def editor_def)
      ultimately show ?thesis using u(3,4) f assms(2,5) by (simp add: input_inv_def editor_def)
    qed
    ultimately show ?thesis using False full t(1,2) u(2) by auto
  qed
qed

text \<open>C23. The interrupt handler implements a line editor on the ring buffer: for every character typed it does not
  panic, keeps the indices in order, and changes the completed lines and the line being edited as the
  editor's specification says: erase a character, erase the line, append, complete on newline, end of file or a full
  buffer, and drop what does not fit.\<close>

theorem consoleintr_edits:
  assumes "screen_ok s" "input_inv s" "0 \<le> c" "c < 256"
  shows "\<exists>d t. consoleintr_char c s = Ok d t \<and> screen_ok t \<and> input_inv t \<and> editor t = edit_spec c (editor s)"
proof -
  obtain ls l where e: "editor s = (ls, l)" by fastforce
  consider "c = 16" | "c = 21" | "c = 8 \<or> c = 127" | "c \<noteq> 16" "c \<noteq> 21" "c \<noteq> 8" "c \<noteq> 127" by blast
  then show ?thesis
  proof cases
    case 1
    then show ?thesis using assms e by (auto simp: consoleintr_char_def edit_spec_def)
  next
    case 2
    then show ?thesis using kill_line_ok [OF assms(1,2)] e by (auto simp: consoleintr_char_def edit_spec_def)
  next
    case 3
    show ?thesis
    proof (cases "input_e s = input_w s")
      case True
      then have "l = []" using e by (simp add: editor_def)
      then show ?thesis using 3 True assms e by (auto simp: consoleintr_char_def edit_spec_def)
    next
      case False
      let ?u = "s\<lparr>input_e := input_e s - 1\<rparr>"
      have "screen_ok ?u" using assms(1) by (simp add: screen_ok_def)
      then obtain t where t: "consputc BACKSPACE ?u = Ok () t" "screen_ok t" "output_rest t = output_rest ?u"
        using consputc_ok by blast
      have "input_inv t \<and> editor t = (fst (editor s), butlast (snd (editor s)))"
        using input_cong [OF t(3)] by (intro input_back [OF assms(2) False]) simp_all
      then show ?thesis using 3 False t e by (auto simp: consoleintr_char_def edit_spec_def)
    qed
  next
    case 4
    have len: "length (ls @ l) = unat (input_e s - input_r s)" using edit_length [OF assms(2)] e by simp
    show ?thesis
    proof (cases "c \<noteq> 0 \<and> unat (input_e s - input_r s) < INPUT_BUF")
      case True
      define c' where "c' = (if c = 13 then 10 else c)"
      have c': "0 \<le> c'" "c' < 256" "c' \<noteq> 13" using assms(3,4) by (auto simp: c'_def)
      show ?thesis using type_char_ok [OF assms(1,2) c'(1,2) _ c'(3)] True 4 e len
        by (auto simp: consoleintr_char_def edit_spec_def c'_def Let_def)
    next
      case False
      then show ?thesis using 4 e len assms by (auto simp: consoleintr_char_def edit_spec_def)
    qed
  qed
qed


section \<open>A machine with a console\<close>

definition sb0 :: superblock where
  "sb0 = \<lparr>sb_size = 8, sb_nblocks = 2, sb_ninodes = 8, sb_nlog = 4, sb_logstart = 2, sb_inodestart = 6, sb_bmapstart = 7\<rparr>"

definition inode0 :: inode where
  "inode0 = \<lparr>i_dev = 0, i_inum = 0, i_ref = 0, i_busy = False, i_valid = False, i_type = 0, i_major = 0, i_minor = 0,
     i_nlink = 0, i_size = 0, i_addrs = replicate 13 0\<rparr>"

definition kfs0 :: kfs where
  "kfs0 = klog.extend klog0 (kfs.fields sb0 (replicate 50 inode0))"

definition kcons0 :: kcons where
  "kcons0 = kfs.extend kfs0 (kcons.fields (replicate 2000 0) 0 [] False (replicate INPUT_BUF 0) 0 0 0 0 True)"

lemma kcons0_ok: "screen_ok kcons0" "input_inv kcons0" "editor kcons0 = ([], [])"
  by (simp_all add: kcons0_def kfs.defs kcons.defs screen_ok_def input_inv_def editor_def)

lemma consputc_safe_witness:
  "\<exists>t. consputc 65 (kcons0\<lparr>crt_pos := 1919\<rparr>) = Ok () t \<and> screen_ok t \<and> crt t ! 1839 = 0x0741 \<and> unat (crt_pos t) = 1840"
proof -
  have l: "crt kcons0 = replicate 2000 0" by (simp add: kcons0_def kfs.defs kcons.defs)
  have ok: "screen_ok (kcons0\<lparr>crt_pos := 1919\<rparr>)" using kcons0_ok(1) by (simp add: screen_ok_def)
  obtain t where t: "consputc 65 (kcons0\<lparr>crt_pos := 1919\<rparr>) = Ok () t" "screen_ok t"
      "screen t = screen_put 65 (screen (kcons0\<lparr>crt_pos := 1919\<rparr>))"
    using consputc_safe [OF ok, of 65] by blast
  have "crt t ! 1839 = 0x0741 \<and> unat (crt_pos t) = 1840"
    using t(3) l by (simp add: screen_def screen_put_def Let_def nth_append)
  then show ?thesis using t(1,2) by blast
qed

lemma consoleintr_edits_witness: "\<exists>d t. consoleintr_char 97 kcons0 = Ok d t \<and> editor t = ([], [97])"
  using consoleintr_edits [OF kcons0_ok(1,2), of 97] by (auto simp: kcons0_ok(3) edit_spec_def)

end
