(* ===== verification/Dir.thy ===== *)
theory Dir
  imports Console
begin

text \<open>
  File contents, directories and path names: the second half of \<open>fs.c\<close>. \<open>readi\<close> returns the bytes read, which its callers
  store at the destination; \<open>writei\<close> takes the bytes to write.
\<close>

abbreviation (input) DIRSIZ :: nat where "DIRSIZ \<equiv> 14"

section \<open>Reading and writing\<close>

function readi_loop :: "nat \<Rightarrow> nat \<Rightarrow> nat \<Rightarrow> 'a kfs_scheme \<Rightarrow> (uchar list, 'a kfs_scheme) outcome" where
  "readi_loop i off n s =
    (if n = 0 then Ok [] s
     else let m = min n (BSIZE - off mod BSIZE) in
       mbind (bmap i (of_nat (off div BSIZE)) s) (\<lambda>addr s.
       mbind (bread (i_dev (inodes s ! i)) addr s) (\<lambda>bp s.
         let x = slice (b_data (bufs s ! bp)) (off mod BSIZE) m in
         mbind (brelse bp s) (\<lambda>_ s.
         mbind (readi_loop i (off + m) (n - m) s) (\<lambda>y s. Ok (x @ y) s)))))"
  by auto
termination by (relation "measure (\<lambda>(i, off, n, s). n)") auto

definition readi :: "nat \<Rightarrow> uint32 \<Rightarrow> uint32 \<Rightarrow> 'a kcons_scheme \<Rightarrow> (int \<times> uchar list, 'a kcons_scheme) outcome" where
  "readi i off n s =
    (let ip = inodes s ! i in
     if i_type ip = T_DEV then
       if i_major ip < 0 \<or> i_major ip \<ge> NDEV \<or> \<not> (i_major ip = CONSOLE \<and> devsw_console s) then Ok (- 1, []) s
       else consoleread i (sint n) s
     else if off > i_size ip \<or> off + n < off then Ok (- 1, []) s
     else let n = (if off + n > i_size ip then i_size ip - off else n) in
       mbind (readi_loop i (unat off) (unat n) s) (\<lambda>x s. Ok (sint n, x) s))"

function writei_loop :: "nat \<Rightarrow> uchar list \<Rightarrow> nat \<Rightarrow> 'a kfs_scheme \<Rightarrow> (unit, 'a kfs_scheme) outcome" where
  "writei_loop i src off s =
    (if src = [] then Ok () s
     else let m = min (length src) (BSIZE - off mod BSIZE) in
       mbind (bmap i (of_nat (off div BSIZE)) s) (\<lambda>addr s.
       mbind (bread (i_dev (inodes s ! i)) addr s) (\<lambda>bp s.
       mbind (log_write bp (set_data bp (splice (b_data (bufs s ! bp)) (off mod BSIZE) (take m src)) s)) (\<lambda>_ s.
       mbind (brelse bp s) (\<lambda>_ s. writei_loop i (drop m src) (off + m) s)))))"
  by auto
termination by (relation "measure (\<lambda>(i, src, off, s). length src)") auto

definition writei :: "nat \<Rightarrow> uchar list \<Rightarrow> uint32 \<Rightarrow> 'a kcons_scheme \<Rightarrow> (int, 'a kcons_scheme) outcome" where
  "writei i src off s =
    (let ip = inodes s ! i; n = of_nat (length src) :: uint32 in
     if i_type ip = T_DEV then
       if i_major ip < 0 \<or> i_major ip \<ge> NDEV \<or> \<not> (i_major ip = CONSOLE \<and> devsw_console s) then Ok (- 1) s
       else consolewrite i src s
     else if off > i_size ip \<or> off + n < off then Ok (- 1) s
     else if unat (off + n) > MAXFILE * BSIZE then Ok (- 1) s
     else mbind (writei_loop i src (unat off) s) (\<lambda>_ s.
       mbind (if n > 0 \<and> off + n > i_size (inodes s ! i)
              then iupdate i (updi i (\<lambda>ip. ip\<lparr>i_size := off + n\<rparr>) s)
              else Ok () s) (\<lambda>_ s. Ok (sint n) s)))"


section \<open>Directories\<close>

record dirent =
  de_inum :: ushort
  de_name :: "uchar list"

definition dirent_of :: "uchar list \<Rightarrow> dirent" where
  "dirent_of d = \<lparr>de_inum = get_u16 d 0, de_name = slice d 2 DIRSIZ\<rparr>"

definition dirent_bytes :: "dirent \<Rightarrow> uchar list" where
  "dirent_bytes de = put_u16 [0, 0] 0 (de_inum de) @ de_name de"

definition namecmp :: "uchar list \<Rightarrow> uchar list \<Rightarrow> int" where
  "namecmp s t = strncmp s t DIRSIZ"

text \<open>The entry at offset \<open>off\<close>, read as both loops over a directory do.\<close>

definition read_dirent :: "nat \<Rightarrow> nat \<Rightarrow> 'a kcons_scheme \<Rightarrow> (dirent, 'a kcons_scheme) outcome" where
  "read_dirent dp off s = mbind (readi dp (of_nat off) 16 s) (\<lambda>(r, d) s.
     if r \<noteq> 16 then Panic ''dirlink read'' else Ok (dirent_of d) s)"

definition dir_offsets :: "uint32 \<Rightarrow> nat list" where
  "dir_offsets sz = map (\<lambda>k. 16 * k) [0..<(unat sz + 15) div 16]"

fun dirlookup_loop :: "nat \<Rightarrow> uchar list \<Rightarrow> nat list \<Rightarrow> 'a kcons_scheme \<Rightarrow> ((nat \<times> nat) option, 'a kcons_scheme) outcome" where
  "dirlookup_loop dp name [] s = Ok None s"
| "dirlookup_loop dp name (off # offs) s = mbind (read_dirent dp off s) (\<lambda>de s.
     if de_inum de = 0 then dirlookup_loop dp name offs s
     else if namecmp name (de_name de) = 0 then
       mbind (iget (i_dev (inodes s ! dp)) (ucast (de_inum de)) s) (\<lambda>ip s. Ok (Some (ip, off)) s)
     else dirlookup_loop dp name offs s)"

definition dirlookup :: "nat \<Rightarrow> uchar list \<Rightarrow> 'a kcons_scheme \<Rightarrow> ((nat \<times> nat) option, 'a kcons_scheme) outcome" where
  "dirlookup dp name s =
    (if i_type (inodes s ! dp) \<noteq> T_DIR then Panic ''dirlookup not DIR''
     else dirlookup_loop dp name (dir_offsets (i_size (inodes s ! dp))) s)"

text \<open>The offset of the first empty entry, or of the end of the directory.\<close>

fun dirlink_slot :: "nat \<Rightarrow> nat list \<Rightarrow> 'a kcons_scheme \<Rightarrow> (nat, 'a kcons_scheme) outcome" where
  "dirlink_slot dp [] s = Ok (16 * ((unat (i_size (inodes s ! dp)) + 15) div 16)) s"
| "dirlink_slot dp (off # offs) s = mbind (read_dirent dp off s) (\<lambda>de s.
     if de_inum de = 0 then Ok off s else dirlink_slot dp offs s)"

definition dirlink :: "nat \<Rightarrow> uchar list \<Rightarrow> uint32 \<Rightarrow> 'a kcons_scheme \<Rightarrow> (int, 'a kcons_scheme) outcome" where
  "dirlink dp name inum s =
     mbind (dirlookup dp name s) (\<lambda>r s.
       case r of Some (ip, _) \<Rightarrow> mbind (iput (Some ip) s) (\<lambda>_ s. Ok (- 1) s)
       | None \<Rightarrow>
           mbind (dirlink_slot dp (dir_offsets (i_size (inodes s ! dp))) s) (\<lambda>off s.
           let de = \<lparr>de_inum = ucast inum, de_name = strncpy (replicate DIRSIZ 0) name DIRSIZ\<rparr> in
           mbind (writei dp (dirent_bytes de) (of_nat off) s) (\<lambda>r s.
             if r \<noteq> 16 then Panic ''dirlink'' else Ok 0 s)))"


section \<open>Paths\<close>

definition skip_slashes :: "uchar list \<Rightarrow> uchar list" where
  "skip_slashes path = dropWhile (\<lambda>c. c = 47) path"

text \<open>The next element of a path, cut to \<open>DIRSIZ\<close> bytes, and the rest of the path.\<close>

definition skipelem :: "uchar list \<Rightarrow> (uchar list \<times> uchar list) option" where
  "skipelem path =
    (let path = skip_slashes path in
     if path = [] then None
     else Some (take DIRSIZ (takeWhile (\<lambda>c. c \<noteq> 47) path), skip_slashes (dropWhile (\<lambda>c. c \<noteq> 47) path)))"

lemma skipelem_shorter: "skipelem path = Some (name, rest) \<Longrightarrow> length rest < length path"
proof -
  assume a: "skipelem path = Some (name, rest)"
  let ?p = "skip_slashes path"
  have p: "?p \<noteq> []" "rest = skip_slashes (dropWhile (\<lambda>c. c \<noteq> 47) ?p)"
    using a by (auto simp: skipelem_def Let_def split: if_splits)
  then obtain c q where c: "?p = c # q" by (cases ?p) auto
  then have "c \<noteq> 47" using hd_dropWhile [of "\<lambda>c. c = 47" path] p(1) by (simp add: skip_slashes_def)
  then have "length (dropWhile (\<lambda>c. c \<noteq> 47) ?p) \<le> length q" using c length_dropWhile_le [of _ q] by simp
  moreover have "length rest \<le> length (dropWhile (\<lambda>c. c \<noteq> 47) ?p)" unfolding p(2) skip_slashes_def by (rule length_dropWhile_le)
  moreover have "length ?p \<le> length path" unfolding skip_slashes_def by (rule length_dropWhile_le)
  ultimately show "length rest < length path" using c by simp
qed

text \<open>The walk of \<open>namex\<close>: with \<open>parent\<close> set, the last element is returned beside the inode of its directory.\<close>

function namex_loop :: "nat \<Rightarrow> uchar list \<Rightarrow> bool \<Rightarrow> 'a kcons_scheme \<Rightarrow> ((nat \<times> uchar list) option, 'a kcons_scheme) outcome" where
  "namex_loop ip path parent s =
    (case skipelem path of
       None \<Rightarrow> if parent then mbind (iput (Some ip) s) (\<lambda>_ s. Ok None s) else Ok (Some (ip, [])) s
     | Some (name, rest) \<Rightarrow>
         mbind (ilock (Some ip) s) (\<lambda>_ s.
           if i_type (inodes s ! ip) \<noteq> T_DIR then mbind (iunlockput (Some ip) s) (\<lambda>_ s. Ok None s)
           else if parent \<and> rest = [] then mbind (iunlock (Some ip) s) (\<lambda>_ s. Ok (Some (ip, name)) s)
           else mbind (dirlookup ip name s) (\<lambda>r s.
             case r of None \<Rightarrow> mbind (iunlockput (Some ip) s) (\<lambda>_ s. Ok None s)
             | Some (next, _) \<Rightarrow> mbind (iunlockput (Some ip) s) (\<lambda>_ s. namex_loop next rest parent s))))"
  by pat_completeness auto
termination by (relation "measure (\<lambda>(ip, path, parent, s). length path)") (auto dest: skipelem_shorter)

definition namex :: "uchar list \<Rightarrow> bool \<Rightarrow> 'a kcons_scheme \<Rightarrow> ((nat \<times> uchar list) option, 'a kcons_scheme) outcome" where
  "namex path parent s =
     mbind (if rd path = 47 then iget ROOTDEV ROOTINO s
            else mbind (mcur s) (\<lambda>c s. case p_cwd (procs s ! c) of None \<Rightarrow> null_deref | Some d \<Rightarrow> idup d s)) (\<lambda>ip s.
     namex_loop ip path parent s)"

definition namei :: "uchar list \<Rightarrow> 'a kcons_scheme \<Rightarrow> (nat option, 'a kcons_scheme) outcome" where
  "namei path s = mbind (namex path False s) (\<lambda>r s. Ok (map_option fst r) s)"

definition nameiparent :: "uchar list \<Rightarrow> 'a kcons_scheme \<Rightarrow> ((nat \<times> uchar list) option, 'a kcons_scheme) outcome" where
  "nameiparent path s = namex path True s"

end
