(* ===== verification/FsFile.thy ===== *)
theory FsFile
  imports FsAlloc Dir
begin

text \<open>
  Files: the map from file offsets to disk blocks, and the effect of \<open>readi\<close> and \<open>writei\<close> on file contents, blocks
  being allocated on the way; the round trip of an inode through the disk, and the elements of paths.
\<close>

section \<open>Inodes on disk\<close>

lemma put_addrs_length [simp]: "length (put_addrs as off d) = length d"
proof -
  have "length (fold (\<lambda>(k, a) d. put_u32 d (off + 4 * k) a) ps d) = length d" for ps by (induction ps arbitrary: d) auto
  then show ?thesis by (simp add: put_addrs_def)
qed

lemma fold_put_addrs:
  assumes "off + 4 * (m + length as) \<le> length d"
  shows "\<forall>j. get_u32 (fold (\<lambda>(k, a) d. put_u32 d (off + 4 * k) a) (List.enumerate m as) d) (off + 4 * j) =
      (if m \<le> j \<and> j < m + length as then as ! (j - m) else get_u32 d (off + 4 * j))" (is ?A)
    and "\<forall>p. p + 2 \<le> off + 4 * m \<longrightarrow> get_u16 (fold (\<lambda>(k, a) d. put_u32 d (off + 4 * k) a) (List.enumerate m as) d) p = get_u16 d p" (is ?B)
    and "\<forall>p. p + 4 \<le> off + 4 * m \<longrightarrow> get_u32 (fold (\<lambda>(k, a) d. put_u32 d (off + 4 * k) a) (List.enumerate m as) d) p = get_u32 d p" (is ?C)
proof -
  have "?A \<and> ?B \<and> ?C"
    using assms
  proof (induction as arbitrary: m d)
    case (Cons a as)
    let ?d = "put_u32 d (off + 4 * m) a"
    have "get_u32 ?d (off + 4 * j) = (if m = j then a else get_u32 d (off + 4 * j))" for j
      using Cons.prems by (cases m j rule: linorder_cases) (simp_all add: get_u32_put_u32_other)
    moreover have "p + 2 \<le> off + 4 * m \<Longrightarrow> get_u16 ?d p = get_u16 d p" "p + 4 \<le> off + 4 * m \<Longrightarrow> get_u32 ?d p = get_u32 d p" for p
      by (auto intro: get_put_other)
    ultimately show ?case using Cons.IH [of "Suc m" ?d] Cons.prems
      by (auto simp: nth_Cons' not_less less_eq_Suc_le)
  qed auto
  then show ?A ?B ?C by blast+
qed

text \<open>A \<open>short\<close>.\<close>

definition is_short :: "int \<Rightarrow> bool" where
  "is_short x \<longleftrightarrow> - 32768 \<le> x \<and> x < 32768"

lemma sint_word_of_short: "is_short x \<Longrightarrow> sint (word_of_int x :: ushort) = x"
  by (simp add: is_short_def signed_of_int signed_take_bit_int_eq_self)

definition inode_wf :: "inode \<Rightarrow> bool" where
  "inode_wf ip \<longleftrightarrow> is_short (i_type ip) \<and> is_short (i_major ip) \<and> is_short (i_minor ip) \<and> is_short (i_nlink ip) \<and>
     length (i_addrs ip) = NDIRECT + 1"

lemma get_put_short: "i + 1 < length d \<Longrightarrow> is_short x \<Longrightarrow> get_short (put_short d i x) i = x"
  by (simp add: get_short_def put_short_def sint_word_of_short)

lemma put_short_length [simp]: "length (put_short d i x) = length d" by (simp add: put_short_def)

text \<open>An inode survives the disk: reading the inode that \<open>iupdate\<close> wrote into a block gives back its type, device, link
  count, size and block addresses.\<close>

theorem dinode_roundtrip:
  assumes "inode_wf ip" "off + 64 \<le> length d"
  shows "get_dinode (put_dinode ip off d) off jp = jp\<lparr>i_type := i_type ip, i_major := i_major ip, i_minor := i_minor ip,
    i_nlink := i_nlink ip, i_size := i_size ip, i_addrs := i_addrs ip\<rparr>"
proof -
  have w: "is_short (i_type ip)" "is_short (i_major ip)" "is_short (i_minor ip)" "is_short (i_nlink ip)" "length (i_addrs ip) = 13"
    using assms(1) by (auto simp: inode_wf_def)
  define d1 where "d1 = put_short d off (i_type ip)"
  define d2 where "d2 = put_short d1 (off + 2) (i_major ip)"
  define d3 where "d3 = put_short d2 (off + 4) (i_minor ip)"
  define d4 where "d4 = put_short d3 (off + 6) (i_nlink ip)"
  define d5 where "d5 = put_u32 d4 (off + 8) (i_size ip)"
  have l: "length d1 = length d" "length d2 = length d" "length d3 = length d" "length d4 = length d" "length d5 = length d"
    by (simp_all add: d1_def d2_def d3_def d4_def d5_def)
  have put: "put_dinode ip off d = put_addrs (i_addrs ip) (off + 12) d5"
    by (simp add: put_dinode_def Let_def d1_def d2_def d3_def d4_def d5_def)
  note f = fold_put_addrs [of "off + 12" 0 "i_addrs ip" d5, folded put_addrs_def, simplified]
  have a: "get_u32 (put_addrs (i_addrs ip) (off + 12) d5) (off + 12 + 4 * k) = i_addrs ip ! k" if "k < 13" for k
    using f(1) that assms(2) w(5) l by simp
  have g: "get_u16 (put_addrs (i_addrs ip) (off + 12) d5) p = get_u16 d5 p" if "p + 2 \<le> off + 12" for p
    using f(2) that assms(2) w(5) l by simp
  have s: "get_u32 (put_addrs (i_addrs ip) (off + 12) d5) (off + 8) = i_size ip"
    using f(3) assms(2) w(5) l by (simp add: d5_def)
  have h: "get_u16 d5 off = word_of_int (i_type ip)" "get_u16 d5 (off + 2) = word_of_int (i_major ip)"
      "get_u16 d5 (off + 4) = word_of_int (i_minor ip)" "get_u16 d5 (off + 6) = word_of_int (i_nlink ip)"
    using assms(2) by (simp_all add: d5_def d4_def d3_def d2_def d1_def put_short_def get_put_other)
  have t: "get_short (put_dinode ip off d) off = i_type ip" "get_short (put_dinode ip off d) (off + 2) = i_major ip"
      "get_short (put_dinode ip off d) (off + 4) = i_minor ip" "get_short (put_dinode ip off d) (off + 6) = i_nlink ip"
    using w sint_word_of_short g [of off] g [of "off + 2"] g [of "off + 4"] g [of "off + 6"]
    by (simp_all add: put get_short_def h del: add_2_eq_Suc')
  have "map (\<lambda>k. get_u32 (put_dinode ip off d) (off + 12 + 4 * k)) [0..<NDIRECT + 1] = i_addrs ip"
    by (rule nth_equalityI) (use w(5) a in \<open>auto simp: put\<close>)
  then show ?thesis using t s by (simp add: get_dinode_def put)
qed


section \<open>The blocks of a file\<close>

text \<open>Block \<open>k\<close> of the file of inode \<open>i\<close>, or 0.\<close>

definition iaddr :: "'a kfs_scheme \<Rightarrow> nat \<Rightarrow> nat \<Rightarrow> nat" where
  "iaddr s i k = unat (i_addrs (inodes s ! i) ! k)"

definition fblock :: "'a kfs_scheme \<Rightarrow> nat \<Rightarrow> nat \<Rightarrow> nat" where
  "fblock s i k =
    (if k < NDIRECT then iaddr s i k else if iaddr s i NDIRECT = 0 then 0
     else unat (get_u32 (view s (iaddr s i NDIRECT)) (4 * (k - NDIRECT))))"

definition data_block :: "'a kfs_scheme \<Rightarrow> nat \<Rightarrow> bool" where
  "data_block s b \<longleftrightarrow> b < unat (sb_size (sb s)) \<and> \<not> free_block s b \<and> b \<notin> bmap_blocks s \<union> log_blocks s \<union> {0, 1}"

text \<open>The byte at offset \<open>off\<close> of the file of inode \<open>i\<close>; a block that is not there counts as zeros.\<close>

definition fbyte :: "'a kfs_scheme \<Rightarrow> nat \<Rightarrow> nat \<Rightarrow> uchar" where
  "fbyte s i off = (if fblock s i (off div BSIZE) = 0 then 0 else view s (fblock s i (off div BSIZE)) ! (off mod BSIZE))"

text \<open>A well-formed file: its blocks are allocated data blocks, each used once.\<close>

definition file_ok :: "'a kfs_scheme \<Rightarrow> nat \<Rightarrow> bool" where
  "file_ok s i \<longleftrightarrow> i < length (inodes s) \<and> length (i_addrs (inodes s ! i)) = NDIRECT + 1 \<and> i_dev (inodes s ! i) = 1 \<and>
     (\<forall>k<MAXFILE. fblock s i k \<noteq> 0 \<longrightarrow> data_block s (fblock s i k) \<and> fblock s i k \<noteq> iaddr s i NDIRECT) \<and>
     (iaddr s i NDIRECT \<noteq> 0 \<longrightarrow> data_block s (iaddr s i NDIRECT)) \<and>
     (\<forall>j<MAXFILE. \<forall>k<MAXFILE. fblock s i j = fblock s i k \<and> fblock s i k \<noteq> 0 \<longrightarrow> j = k)"

lemma file_ok_block:
  assumes "file_ok s i" "k < MAXFILE" "fblock s i k \<noteq> 0"
  shows "data_block s (fblock s i k)" "fblock s i k \<noteq> iaddr s i NDIRECT"
  using assms unfolding file_ok_def by blast+

lemma data_block_disk: "fs_geom s \<Longrightarrow> data_block s b \<Longrightarrow> b < disksize s \<and> b \<notin> log_blocks s \<and> b \<notin> bmap_blocks s \<and> \<not> free_block s b"
  by (auto simp: data_block_def fs_geom_def)

lemma fblock_cong:
  assumes "view t = view s" "inodes t = inodes s"
  shows "fblock t i = fblock s i" "fbyte t i = fbyte s i" "iaddr t i = iaddr s i"
  using assms by (simp_all add: fblock_def iaddr_def fbyte_def fun_eq_iff)

lemma file_ok_cong:
  assumes "view t = view s" "inodes t = inodes s" "sb t = sb s" "log_blocks t = log_blocks s"
  shows "file_ok t i = file_ok s i"
  using fblock_cong [OF assms(1,2)] free_block_cong [OF assms(1,3)] assms
  by (simp add: file_ok_def data_block_def bmap_blocks_def)

text \<open>Looking up a block that is there changes nothing but the cache.\<close>

lemma bmap_old:
  fixes s :: "'a kfs_scheme"
  assumes "room m 1 s" "fs_geom s" "busy_blocks s = {}" "file_ok s i" "k < MAXFILE" "fblock s i k \<noteq> 0"
  shows "\<exists>t. bmap i (of_nat k) s = Ok (of_nat (fblock s i k)) t \<and> lstep 0 s (view s) (busy_blocks s) t"
proof -
  have f: "i < length (inodes s)" "length (i_addrs (inodes s ! i)) = 13" "i_dev (inodes s ! i) = 1" using assms(4) by (simp_all add: file_ok_def)
  have uk: "unat (of_nat k :: uint32) = k" using assms(5) by (intro unat_of_nat_32) simp
  show ?thesis
  proof (cases "k < NDIRECT")
    case True
    then have "i_addrs (inodes s ! i) ! k \<noteq> 0" using assms(6) by (auto simp: fblock_def iaddr_def)
    then show ?thesis using True uk lstep_refl [OF room_log_inv [OF assms(1)]] by (simp add: bmap_def fblock_def iaddr_def Let_def)
  next
    case False
    let ?a = "i_addrs (inodes s ! i) ! NDIRECT"
    have a: "?a \<noteq> 0" "iaddr s i NDIRECT = unat ?a" using assms(6) False by (auto simp: fblock_def iaddr_def split: if_splits)
    then have n: "iaddr s i NDIRECT \<noteq> 0" by (simp add: unsigned_eq_0_iff)
    then have "data_block s (iaddr s i NDIRECT)" using assms(4) by (simp add: file_ok_def)
    then have d: "unat ?a < disksize s" using data_block_disk [OF assms(2)] a(2) by simp
    obtain bp u t where r: "bread 1 ?a s = Ok bp u" "b_data (bufs u ! bp) = view s (unat ?a)" "brelse bp u = Ok () t"
      "lstep 0 s (view s) (busy_blocks s) t" using read_step [OF assms(1) d] assms(3) by auto
    have fb: "fblock s i k = unat (get_u32 (view s (unat ?a)) (4 * (k - NDIRECT)))" using False n a(2) by (simp add: fblock_def)
    then have "get_u32 (view s (unat ?a)) (4 * (k - NDIRECT)) \<noteq> 0" using assms(6) by auto
    moreover have "unat (of_nat k :: uint32) - NDIRECT < NINDIRECT" using assms(5) uk by simp
    ultimately show ?thesis using False uk a(1) r f(3) fb by (simp add: bmap_def Let_def)
  qed
qed

text \<open>Steps that may also change the block addresses of inode \<open>i\<close>.\<close>

definition fstep :: "nat \<Rightarrow> nat \<Rightarrow> 'a kfs_scheme \<Rightarrow> (nat \<Rightarrow> uchar list) \<Rightarrow> 'a kfs_scheme \<Rightarrow> bool" where
  "fstep k i s V t \<longleftrightarrow> (\<exists>as. lstep k (updi i (\<lambda>ip. ip\<lparr>i_addrs := as\<rparr>) s) V (busy_blocks s) t \<and>
     length as = length (i_addrs (inodes s ! i)))"

lemma updi_bio [simp]: "bufs (updi i f s) = bufs s" "view (updi i f s) = view s" "memdisk (updi i f s) = memdisk s"
  "busy_blocks (updi i f s) = busy_blocks s" "dirty_blocks (updi i f s) = dirty_blocks s" "lh_n (updi i f s) = lh_n s"
  "sb (updi i f s) = sb s" "disksize (updi i f s) = disksize s" "log_blocks (updi i f s) = log_blocks s"
  "outstanding (updi i f s) = outstanding s" "log_size (updi i f s) = log_size s"
  "bmap_blocks (updi i f s) = bmap_blocks s" "bitmap_of (updi i f s) = bitmap_of s"
proof -
  have b: "bstate_of (updi i f s) = bstate_of s" by (rule bio_state_cong) (simp_all add: updi_def)
  show "view (updi i f s) = view s" "memdisk (updi i f s) = memdisk s"
    "busy_blocks (updi i f s) = busy_blocks s" "dirty_blocks (updi i f s) = dirty_blocks s"
    using arg_cong [OF b, of bs_view] arg_cong [OF b, of bs_disk] arg_cong [OF b, of bs_busy] arg_cong [OF b, of bs_dirty] by simp_all
qed (simp_all add: updi_def log_blocks_def bmap_blocks_def bitmap_of_def fun_eq_iff)

lemma updi_log_inv [simp]: "log_inv (updi i f s) = log_inv s" "room k j (updi i f s) = room k j s"
proof -
  show l: "log_inv (updi i f s) = log_inv s" by (rule log_inv_cong) (simp_all add: updi_def)
  then show "room k j (updi i f s) = room k j s" by (simp add: room_def)
qed

lemma updi_geom [simp]: "fs_geom (updi i f s) = fs_geom s" "free_block (updi i f s) = free_block s"
  by (rule fs_geom_cong free_block_cong; simp)+

lemma updi_id: "i < length (inodes s) \<Longrightarrow> updi i (\<lambda>ip. ip\<lparr>i_addrs := i_addrs (inodes s ! i)\<rparr>) s = s"
  by (simp add: updi_def)

lemma lstep_fstep:
  assumes "lstep k s V (busy_blocks s) t" "i < length (inodes s)"
  shows "fstep k i s V t"
  unfolding fstep_def by (rule exI [of _ "i_addrs (inodes s ! i)"]) (simp add: updi_id assms)

lemma fstep_fields:
  assumes "fstep k i s V t"
  shows "view t = V" "busy_blocks t = busy_blocks s" "sb t = sb s" "disksize t = disksize s" "log_blocks t = log_blocks s"
    "bmap_blocks t = bmap_blocks s" "bitmap_of t = bitmap_of s" "log_inv t" "length (inodes t) = length (inodes s)"
    "\<And>j. j \<noteq> i \<Longrightarrow> inodes t ! j = inodes s ! j"
    "i < length (inodes s) \<Longrightarrow> inodes t ! i = (inodes s ! i)\<lparr>i_addrs := i_addrs (inodes t ! i)\<rparr>"
    "i < length (inodes s) \<Longrightarrow> length (i_addrs (inodes t ! i)) = length (i_addrs (inodes s ! i))"
proof -
  obtain as where as: "lstep k (updi i (\<lambda>ip. ip\<lparr>i_addrs := as\<rparr>) s) V (busy_blocks s) t" "length as = length (i_addrs (inodes s ! i))"
    using assms by (auto simp: fstep_def)
  note f = lstep_fields [OF as(1)]
  show "view t = V" "busy_blocks t = busy_blocks s" "sb t = sb s" "disksize t = disksize s" "log_blocks t = log_blocks s"
    "bmap_blocks t = bmap_blocks s" "bitmap_of t = bitmap_of s" "log_inv t" using f by simp_all
  show "length (inodes t) = length (inodes s)" "\<And>j. j \<noteq> i \<Longrightarrow> inodes t ! j = inodes s ! j"
    using f(3) by (simp_all add: updi_def)
  assume i: "i < length (inodes s)"
  then have "inodes t ! i = (inodes s ! i)\<lparr>i_addrs := as\<rparr>" using f(3) by (simp add: updi_def)
  then show "inodes t ! i = (inodes s ! i)\<lparr>i_addrs := i_addrs (inodes t ! i)\<rparr>"
    "length (i_addrs (inodes t ! i)) = length (i_addrs (inodes s ! i))" using as(2) by simp_all
qed


section \<open>Reading\<close>

text \<open>An interval inside one block.\<close>

lemma in_block:
  fixes off j :: nat
  assumes "j < min n (BSIZE - off mod BSIZE)"
  shows "(off + j) div BSIZE = off div BSIZE" "(off + j) mod BSIZE = off mod BSIZE + j" "off mod BSIZE + j < BSIZE"
proof -
  show l: "off mod BSIZE + j < BSIZE" using assms by (simp add: less_diff_conv add.commute)
  have g: "(a + BSIZE * q) div BSIZE = q \<and> (a + BSIZE * q) mod BSIZE = a" if "a < BSIZE" for a q :: nat using that by simp
  have "off + j = off mod BSIZE + j + BSIZE * (off div BSIZE)" by simp
  then show "(off + j) div BSIZE = off div BSIZE" "(off + j) mod BSIZE = off mod BSIZE + j" using g [OF l, of "off div BSIZE"] by (simp_all only:)
qed

lemma slice_fbytes:
  assumes "fblock s i (off div BSIZE) \<noteq> 0" "length (view s (fblock s i (off div BSIZE))) = BSIZE" "m \<le> BSIZE - off mod BSIZE"
  shows "slice (view s (fblock s i (off div BSIZE))) (off mod BSIZE) m = map (fbyte s i) [off..<off + m]"
proof (rule nth_equalityI)
  have "off mod BSIZE < BSIZE" by simp
  then have le: "off mod BSIZE + m \<le> length (view s (fblock s i (off div BSIZE)))" using assms(2,3) by linarith
  show "length (slice (view s (fblock s i (off div BSIZE))) (off mod BSIZE) m) = length (map (fbyte s i) [off..<off + m])"
    using assms by simp
  fix j assume "j < length (slice (view s (fblock s i (off div BSIZE))) (off mod BSIZE) m)"
  then have j: "j < m" using assms by simp
  then have "j < min m (BSIZE - off mod BSIZE)" using assms(3) by simp
  note b = in_block [OF this]
  show "slice (view s (fblock s i (off div BSIZE))) (off mod BSIZE) m ! j = map (fbyte s i) [off..<off + m] ! j"
    using j b assms le by (simp add: nth_slice fbyte_def)
qed

text \<open>A file whose blocks between two offsets are all there.\<close>

definition filled :: "'a kfs_scheme \<Rightarrow> nat \<Rightarrow> nat \<Rightarrow> nat \<Rightarrow> bool" where
  "filled s i lo hi \<longleftrightarrow> (\<forall>x. lo \<le> x \<and> x < hi \<longrightarrow> fblock s i (x div BSIZE) \<noteq> 0)"

lemma filled_cong: "view t = view s \<Longrightarrow> inodes t = inodes s \<Longrightarrow> filled t i lo hi = filled s i lo hi"
  using fblock_cong [of t s i] by (simp add: filled_def)

lemma lstep0_room: "room k j s \<Longrightarrow> lstep 0 s (view s) (busy_blocks s) t \<Longrightarrow> room k j t"
  using room_step [of k 0 j 0 s "view s" "busy_blocks s" t] by simp

text \<open>A step that changes nothing but the cache keeps what the file system looks like.\<close>

lemma quiet:
  fixes s t :: "'a kfs_scheme"
  assumes "lstep 0 s (view s) (busy_blocks s) t"
  shows "view t = view s" "busy_blocks t = busy_blocks s" "inodes t = inodes s" "fs_geom t = fs_geom s" "file_ok t i = file_ok s i"
    "fblock t i = fblock s i" "fbyte t i = fbyte s i" "filled t i lo hi = filled s i lo hi" "disksize t = disksize s" "log_inv t"
  using lstep_fields [OF assms] fs_geom_cong [of t s] file_ok_cong [of t s i] fblock_cong [of t s i] filled_cong [of t s i lo hi] by simp_all

lemma readi_loop_returns:
  fixes s :: "'a kfs_scheme"
  assumes "room m 1 s" "fs_geom s" "busy_blocks s = {}" "file_ok s i" "off + n \<le> MAXFILE * BSIZE" "filled s i off (off + n)"
  shows "\<exists>t. readi_loop i off n s = Ok (map (fbyte s i) [off..<off + n]) t \<and> lstep 0 s (view s) {} t"
  using assms
proof (induction n arbitrary: off s rule: less_induct)
  case (less n)
  show ?case
  proof (cases "n = 0")
    case True
    then show ?thesis using lstep_refl [OF room_log_inv [OF less.prems(1)]] less.prems(3) by (simp add: readi_loop.simps)
  next
    case False
    let ?m = "min n (BSIZE - off mod BSIZE)" and ?b = "fblock s i (off div BSIZE)"
    have m: "0 < ?m" "?m \<le> n" using False mod_less_divisor [of BSIZE off] by auto
    have k: "off div BSIZE < MAXFILE" using less.prems(5) False by (simp add: div_less_iff_less_mult)
    have b: "?b \<noteq> 0" using less.prems(6) False by (simp add: filled_def)
    obtain u where u: "bmap i (of_nat (off div BSIZE)) s = Ok (of_nat ?b) u" "lstep 0 s (view s) (busy_blocks s) u"
      using bmap_old [OF less.prems(1-4) k b] by blast
    note q = quiet [OF u(2)]
    have d: "?b < disksize s" using data_block_disk [OF less.prems(2) file_ok_block(1) [OF less.prems(4) k b]] by simp
    have ub: "unat (of_nat ?b :: uint32) = ?b"
      using d room_log_inv [OF less.prems(1)] by (intro unat_of_nat_32) (simp add: log_inv_def)
    have "unat (of_nat ?b :: uint32) < disksize u" "unat (of_nat ?b :: uint32) \<notin> busy_blocks u" using d ub q(2,9) less.prems(3) by simp_all
    then obtain bp a v where r: "bread 1 (of_nat ?b) u = Ok bp a" "b_data (bufs a ! bp) = view s ?b" "brelse bp a = Ok () v"
        "lstep 0 u (view u) (busy_blocks u) v"
      using read_step [OF lstep0_room [OF less.prems(1) u(2)]] ub q(1) by metis
    have sv: "lstep 0 s (view s) (busy_blocks s) v" using lstep_trans0 [OF u(2) r(4)] q(1,2) by simp
    note w = quiet [OF sv]
    have dev: "i_dev (inodes u ! i) = 1" using less.prems(4) q(3) by (simp add: file_ok_def)
    have f: "filled v i (off + ?m) (off + ?m + (n - ?m))" using less.prems(6) m by (simp add: w(8)) (simp add: filled_def)
    have "\<exists>t. readi_loop i (off + ?m) (n - ?m) v = Ok (map (fbyte v i) [off + ?m..<off + ?m + (n - ?m)]) t \<and> lstep 0 v (view v) {} t"
      by (rule less.IH [OF _ lstep0_room [OF less.prems(1) sv]]) (use less.prems m w f in auto)
    then obtain t where t: "readi_loop i (off + ?m) (n - ?m) v = Ok (map (fbyte s i) [off + ?m..<off + n]) t" "lstep 0 v (view v) {} t"
      using m w(7) by auto
    have len: "length (view s ?b) = BSIZE" using view_length [of s] d room_log_inv [OF less.prems(1)] by (simp add: log_inv_def)
    have "slice (view s ?b) (off mod BSIZE) ?m = map (fbyte s i) [off..<off + ?m]" by (rule slice_fbytes [OF b len]) simp
    moreover have "[off..<off + n] = [off..<off + ?m] @ [off + ?m..<off + n]"
      using upt_add_eq_append [of off "off + ?m" "n - ?m"] m by simp
    ultimately have "readi_loop i off n s = Ok (map (fbyte s i) [off..<off + n]) t"
      using False u(1) r(1,2,3) t(1) dev by (simp add: readi_loop.simps [of i off n] Let_def)
    moreover have "lstep 0 s (view s) {} t" using lstep_trans0 [OF sv t(2)] w(1) by simp
    ultimately show ?thesis by blast
  qed
qed


section \<open>Adding blocks\<close>

text \<open>
  A state \<open>t\<close> in which the file of inode \<open>i\<close> has the blocks it had in \<open>s\<close> and perhaps more, taken from the free ones, and
  no block of anything else has changed.
\<close>

definition grown :: "nat \<Rightarrow> 'a kfs_scheme \<Rightarrow> 'a kfs_scheme \<Rightarrow> bool" where
  "grown i s t \<longleftrightarrow> fs_geom t \<and> file_ok t i \<and> (\<forall>x. free_block t x \<longrightarrow> free_block s x) \<and>
     (\<forall>k<MAXFILE. fblock t i k = fblock s i k \<or> fblock s i k = 0 \<and> free_block s (fblock t i k)) \<and>
     (iaddr t i NDIRECT = iaddr s i NDIRECT \<or> iaddr s i NDIRECT = 0 \<and> free_block s (iaddr t i NDIRECT)) \<and>
     (\<forall>x. \<not> free_block s x \<and> x \<notin> bmap_blocks s \<and> x \<noteq> iaddr s i NDIRECT \<and> (\<forall>k<MAXFILE. x \<noteq> fblock s i k) \<longrightarrow> view t x = view s x)"

lemma grown_refl: "fs_geom s \<Longrightarrow> file_ok s i \<Longrightarrow> grown i s s"
  by (simp add: grown_def)

lemma grown_trans:
  assumes a: "grown i s t" and b: "grown i t u" and "bmap_blocks t = bmap_blocks s"
  shows "grown i s u"
  unfolding grown_def
proof (intro conjI allI impI)
  show "fs_geom u" "file_ok u i" using b by (simp_all add: grown_def)
  show "free_block s x" if "free_block u x" for x using a b that by (auto simp: grown_def)
  show "fblock u i k = fblock s i k \<or> fblock s i k = 0 \<and> free_block s (fblock u i k)" if "k < MAXFILE" for k
    using a b that unfolding grown_def by metis
  show "iaddr u i NDIRECT = iaddr s i NDIRECT \<or> iaddr s i NDIRECT = 0 \<and> free_block s (iaddr u i NDIRECT)"
    using a b unfolding grown_def by metis
  fix x assume x: "\<not> free_block s x \<and> x \<notin> bmap_blocks s \<and> x \<noteq> iaddr s i NDIRECT \<and> (\<forall>k<MAXFILE. x \<noteq> fblock s i k)"
  then have "view t x = view s x" using a by (simp add: grown_def)
  moreover have "\<not> free_block t x" "x \<noteq> iaddr t i NDIRECT" "\<forall>k<MAXFILE. x \<noteq> fblock t i k" using a x by (auto simp: grown_def)
  then have "view u x = view t x" using b x assms(3) by (simp add: grown_def)
  ultimately show "view u x = view s x" by simp
qed

lemma free_not_data: "free_block s b \<Longrightarrow> data_block s x \<Longrightarrow> x \<noteq> b" by (auto simp: data_block_def)

lemma free_nonzero: "fs_geom s \<Longrightarrow> free_block s b \<Longrightarrow> b \<noteq> 0 \<and> b \<noteq> 1 \<and> b \<notin> bmap_blocks s \<and> b \<notin> log_blocks s \<and> b < unat (sb_size (sb s))"
  by (auto simp: fs_geom_def free_block_def)

text \<open>One more block, as a data block or as the indirect block.\<close>

lemma file_ok_add:
  fixes s t :: "'a kfs_scheme"
  assumes ok: "fs_geom s" "file_ok s i" and b: "free_block s b" "\<forall>x. free_block t x \<longleftrightarrow> free_block s x \<and> x \<noteq> b"
    and same: "sb t = sb s" "log_blocks t = log_blocks s" "length (inodes t) = length (inodes s)" "i_dev (inodes t ! i) = i_dev (inodes s ! i)"
      "length (i_addrs (inodes t ! i)) = length (i_addrs (inodes s ! i))"
    and new: "(\<forall>k<MAXFILE. fblock t i k = (if k = k0 then b else fblock s i k)) \<and> fblock s i k0 = 0 \<and> iaddr t i NDIRECT = iaddr s i NDIRECT \<or>
      (\<forall>k<MAXFILE. fblock t i k = fblock s i k) \<and> iaddr s i NDIRECT = 0 \<and> iaddr t i NDIRECT = b"
  shows "file_ok t i"
proof -
  note nz = free_nonzero [OF ok(1) b(1)]
  have keep: "data_block t x \<longleftrightarrow> data_block s x \<or> x = b" for x
    using b nz same(1,2) by (auto simp: data_block_def bmap_blocks_def)
  have old: "data_block s (fblock s i k) \<and> fblock s i k \<noteq> iaddr s i NDIRECT \<and> fblock s i k \<noteq> b" if "k < MAXFILE" "fblock s i k \<noteq> 0" for k
    using file_ok_block [OF ok(2) that] free_not_data [OF b(1)] by blast
  have ind: "iaddr s i NDIRECT \<noteq> 0 \<longrightarrow> data_block s (iaddr s i NDIRECT) \<and> iaddr s i NDIRECT \<noteq> b"
    using ok(2) free_not_data [OF b(1)] by (auto simp: file_ok_def)
  have inj: "j = k" if "j < MAXFILE" "k < MAXFILE" "fblock s i j = fblock s i k" "fblock s i k \<noteq> 0" for j k
    using ok(2) that unfolding file_ok_def by blast
  have a: "i < length (inodes t)" "length (i_addrs (inodes t ! i)) = NDIRECT + 1" "i_dev (inodes t ! i) = 1"
    using ok(2) same by (simp_all add: file_ok_def)
  have e: "data_block t (fblock t i k) \<and> fblock t i k \<noteq> iaddr t i NDIRECT" if k: "k < MAXFILE" "fblock t i k \<noteq> 0" for k
  proof (cases "fblock t i k = fblock s i k")
    case True
    then have "fblock s i k \<noteq> 0" using k(2) by simp
    then show ?thesis using old [OF k(1)] new keep True by auto
  next
    case False
    then have "fblock t i k = b" "iaddr t i NDIRECT = iaddr s i NDIRECT" using new k(1) by (auto split: if_splits)
    then show ?thesis using ind nz keep by (cases "iaddr s i NDIRECT = 0") auto
  qed
  have g: "iaddr t i NDIRECT \<noteq> 0 \<longrightarrow> data_block t (iaddr t i NDIRECT)" using new ind keep by auto
  have "\<forall>j<MAXFILE. \<forall>k<MAXFILE. fblock t i j = fblock t i k \<and> fblock t i k \<noteq> 0 \<longrightarrow> j = k"
  proof (intro allI impI, elim conjE)
    fix j k assume jk: "j < MAXFILE" "k < MAXFILE" "fblock t i j = fblock t i k" "fblock t i k \<noteq> 0"
    have cases: "fblock t i x = fblock s i x \<or> x = k0 \<and> fblock t i x = b" if "x < MAXFILE" for x using new that by (auto split: if_splits)
    have "fblock s i x \<noteq> b" if "x < MAXFILE" for x using old [OF that] nz by auto
    then show "j = k" using cases [OF jk(1)] cases [OF jk(2)] jk inj [of j k] by metis
  qed
  then show ?thesis unfolding file_ok_def using a e g by blast
qed

lemma lstep_updi:
  fixes s t :: "'a kfs_scheme"
  assumes "lstep m s V B t"
  shows "lstep m (updi i f s) V B (updi i f t)"
proof -
  have l: "log_only s t" using assms by (simp add: lstep_def)
  then have e: "log_rest t = log_rest s" "length (bufs t) = length (bufs s)" by (simp_all add: log_only_def)
  have "log_rest (updi i f t) = log_rest t\<lparr>inodes := (inodes t)[i := f (inodes t ! i)]\<rparr>" for t :: "'a kfs_scheme"
    by (simp add: log_rest_def bio_rest_def updi_def)
  then have "log_only (updi i f s) (updi i f t)" using e log_only_fs(1) [OF l] by (simp add: log_only_def)
  then show ?thesis using assms by (simp add: lstep_def)
qed

lemma updi_const: "updi i (\<lambda>ip. ip\<lparr>i_addrs := f (i_addrs ip)\<rparr>) s = updi i (\<lambda>ip. ip\<lparr>i_addrs := f (i_addrs (inodes s ! i))\<rparr>) s"
  by (simp add: updi_def)

lemma updi_twice: "i < length (inodes s) \<Longrightarrow> updi i (\<lambda>ip. ip\<lparr>i_addrs := bs\<rparr>) (updi i (\<lambda>ip. ip\<lparr>i_addrs := as\<rparr>) s) = updi i (\<lambda>ip. ip\<lparr>i_addrs := bs\<rparr>) s"
  by (simp add: updi_def)

lemma fstep_trans:
  fixes s t u :: "'a kfs_scheme"
  assumes "fstep k i s V t" "fstep m i t V' u" "i < length (inodes s)"
  shows "fstep (k + m) i s V' u"
proof -
  note f = fstep_fields [OF assms(1)]
  obtain as where a: "lstep k (updi i (\<lambda>ip. ip\<lparr>i_addrs := as\<rparr>) s) V (busy_blocks s) t" "length as = length (i_addrs (inodes s ! i))"
    using assms(1) by (auto simp: fstep_def)
  obtain bs where b: "lstep m (updi i (\<lambda>ip. ip\<lparr>i_addrs := bs\<rparr>) t) V' (busy_blocks t) u" "length bs = length (i_addrs (inodes t ! i))"
    using assms(2) by (auto simp: fstep_def)
  have "lstep k (updi i (\<lambda>ip. ip\<lparr>i_addrs := bs\<rparr>) s) V (busy_blocks s) (updi i (\<lambda>ip. ip\<lparr>i_addrs := bs\<rparr>) t)"
    using lstep_updi [OF a(1), of i "\<lambda>ip. ip\<lparr>i_addrs := bs\<rparr>"] updi_twice [OF assms(3)] by simp
  from lstep_trans [OF this b(1)] show ?thesis unfolding fstep_def using b(2) f(2,12) assms(3) by auto
qed

lemma lstep_set_addrs:
  fixes s t :: "'a kfs_scheme"
  assumes "lstep m s V (busy_blocks s) t" "\<And>as. length (f as) = length as"
  shows "fstep m i s V (updi i (\<lambda>ip. ip\<lparr>i_addrs := f (i_addrs ip)\<rparr>) t)"
  unfolding fstep_def
proof (intro exI conjI)
  let ?as = "f (i_addrs (inodes s ! i))"
  show "lstep m (updi i (\<lambda>ip. ip\<lparr>i_addrs := ?as\<rparr>) s) V (busy_blocks s) (updi i (\<lambda>ip. ip\<lparr>i_addrs := f (i_addrs ip)\<rparr>) t)"
    using lstep_updi [OF assms(1), of i "\<lambda>ip. ip\<lparr>i_addrs := ?as\<rparr>"] lstep_fields(3) [OF assms(1)] by (simp add: updi_const [of i f t])
qed (simp add: assms(2))

lemma fbyte_same:
  assumes "\<forall>k<MAXFILE. fblock t i k = fblock s i k \<or> fblock s i k = 0 \<and> view t (fblock t i k) = replicate BSIZE 0"
    and "\<forall>k<MAXFILE. fblock s i k \<noteq> 0 \<longrightarrow> view t (fblock s i k) = view s (fblock s i k)" and "off < MAXFILE * BSIZE"
  shows "fbyte t i off = fbyte s i off"
proof -
  have k: "off div BSIZE < MAXFILE" using assms(3) by (simp add: div_less_iff_less_mult)
  show ?thesis using assms(1,2) k by (cases "fblock s i (off div BSIZE) = 0") (auto simp: fbyte_def)
qed

lemma room_fstep:
  fixes s t :: "'a kfs_scheme"
  assumes "room (k + m) j s" "fstep m i s V t"
  shows "room k j t"
proof -
  obtain as where a: "lstep m (updi i (\<lambda>ip. ip\<lparr>i_addrs := as\<rparr>) s) V (busy_blocks s) t" using assms(2) by (auto simp: fstep_def)
  show ?thesis by (rule room_step [OF _ a, of k j 0]) (use assms(1) in simp_all)
qed

text \<open>The direct blocks.\<close>

lemma bmap_direct_new:
  fixes s :: "'a kfs_scheme"
  assumes "room 2 1 s" "fs_geom s" "busy_blocks s = {}" "file_ok s i" "k < NDIRECT" "fblock s i k = 0" "free_block s b0"
  shows "\<exists>t. bmap i (of_nat k) s = Ok (of_nat (fblock t i k)) t \<and> fblock t i k \<noteq> 0 \<and> fstep 2 i s (view t) t \<and> grown i s t \<and>
    (\<forall>off<MAXFILE * BSIZE. fbyte t i off = fbyte s i off) \<and> (\<forall>x. free_block t x \<longleftrightarrow> free_block s x \<and> x \<noteq> fblock t i k)"
proof -
  have f: "i < length (inodes s)" "length (i_addrs (inodes s ! i)) = 13" "i_dev (inodes s ! i) = 1" using assms(4) by (simp_all add: file_ok_def)
  have uk: "unat (of_nat k :: uint32) = k" using assms(5) by (intro unat_of_nat_32) simp
  have z: "i_addrs (inodes s ! i) ! k = 0" using assms(5,6) by (simp add: fblock_def iaddr_def unsigned_eq_0_iff)
  obtain b u where u: "balloc 1 s = Ok (of_nat b) u" "free_block s b" "lstep 2 s (alloc_view s b) (busy_blocks s) u"
    using balloc_step [OF assms(1,2) _ _ assms(7)] assms(3) by auto
  define t where "t = updi i (\<lambda>ip. ip\<lparr>i_addrs := (i_addrs ip)[k := of_nat b]\<rparr>) u"
  note e = alloc_effect [OF room_log_inv [OF assms(1)] assms(2) u(2,3)] and g = lstep_fields [OF u(3)] and nz = free_nonzero [OF assms(2) u(2)]
  have run: "bmap i (of_nat k) s = Ok (of_nat b) t" using assms(5) uk z f(3) u(1) by (simp add: bmap_def Let_def t_def)
  have ub: "unat (of_nat b :: uint32) = b"
    using nz assms(2) room_log_inv [OF assms(1)] by (intro unat_of_nat_32) (simp add: log_inv_def fs_geom_def)
  have vt: "view t = view u" "free_block t = free_block u" "fs_geom t" using e(4) by (simp_all add: t_def)
  have it: "inodes t ! i = (inodes s ! i)\<lparr>i_addrs := (i_addrs (inodes s ! i))[k := of_nat b]\<rparr>" "length (inodes t) = length (inodes s)"
    using f(1) g(3) by (simp_all add: t_def updi_def)
  have ia: "iaddr t i j = (if j = k then b else iaddr s i j)" if "j \<le> NDIRECT" for j using that f(2) ub assms(5) by (simp add: iaddr_def it)
  have data: "view t x = view s x" if "data_block s x" for x
    using e(2) free_not_data [OF u(2) that] that by (simp add: vt data_block_def)
  have fb: "fblock t i j = (if j = k then b else fblock s i j)" for j
  proof (cases "j < NDIRECT")
    case True
    then show ?thesis using ia [of j] by (simp add: fblock_def)
  next
    case False
    have "iaddr s i NDIRECT \<noteq> 0 \<longrightarrow> view t (iaddr s i NDIRECT) = view s (iaddr s i NDIRECT)" using data assms(4) by (simp add: file_ok_def)
    then show ?thesis using False assms(5) ia [of NDIRECT] by (auto simp: fblock_def)
  qed
  have fr: "\<forall>x. free_block t x \<longleftrightarrow> free_block s x \<and> x \<noteq> b" using e(3) by (simp add: vt)
  have ok: "file_ok t i"
    by (rule file_ok_add [OF assms(2,4) u(2) fr, of k]) (use g f it fb assms(6) ia [of NDIRECT] assms(5) in \<open>auto simp: t_def\<close>)
  have old: "\<forall>j<MAXFILE. fblock s i j \<noteq> 0 \<longrightarrow> view t (fblock s i j) = view s (fblock s i j)" using data file_ok_block(1) [OF assms(4)] by blast
  have bytes: "\<forall>off<MAXFILE * BSIZE. fbyte t i off = fbyte s i off"
    using fbyte_same [OF _ old] fb e(1) assms(6) by (simp add: vt)
  have oth: "view t x = view s x" if "\<not> free_block s x" "x \<notin> bmap_blocks s" for x
  proof -
    have "x \<noteq> b" using that(1) u(2) by blast
    then show ?thesis using e(2) that(2) by (simp add: vt)
  qed
  have "grown i s t" unfolding grown_def using vt(3) ok fr fb ia [of NDIRECT] u(2) oth assms(5,6) by auto
  moreover have "fstep 2 i s (view t) t"
    using lstep_set_addrs [OF u(3), of "\<lambda>as. as[k := of_nat b]" i] g(1) by (simp add: t_def)
  ultimately show ?thesis using run fb nz fr bytes by (intro exI [of _ t]) simp
qed

text \<open>The indirect block, allocated when it is missing.\<close>

definition ind_block :: "nat \<Rightarrow> 'a kfs_scheme \<Rightarrow> (uint32, 'a kfs_scheme) outcome" where
  "ind_block i s = (let ip = inodes s ! i in
     if i_addrs ip ! NDIRECT = 0 then mbind (balloc (i_dev ip) s) (\<lambda>addr s.
       Ok addr (updi i (\<lambda>ip. ip\<lparr>i_addrs := (i_addrs ip)[NDIRECT := addr]\<rparr>) s))
     else Ok (i_addrs ip ! NDIRECT) s)"

definition ind_entry :: "uint32 \<Rightarrow> nat \<Rightarrow> uint32 \<Rightarrow> 'a kfs_scheme \<Rightarrow> (uint32, 'a kfs_scheme) outcome" where
  "ind_entry dev e addr s = mbind (bread dev addr s) (\<lambda>bp s.
     let addr = get_u32 (b_data (bufs s ! bp)) (4 * e) in
     if addr = 0 then
       mbind (balloc dev s) (\<lambda>addr s.
       mbind (log_write bp (set_data bp (put_u32 (b_data (bufs s ! bp)) (4 * e) addr) s)) (\<lambda>_ s.
       mbind (brelse bp s) (\<lambda>_ s. Ok addr s)))
     else mbind (brelse bp s) (\<lambda>_ s. Ok addr s))"

lemma bmap_indirect:
  assumes "e < NINDIRECT"
  shows "bmap i (of_nat (NDIRECT + e)) s = mbind (ind_block i s) (ind_entry (i_dev (inodes s ! i)) e)"
proof -
  have u: "unat (of_nat (NDIRECT + e) :: uint32) = NDIRECT + e" using assms by (intro unat_of_nat_32) simp
  have "\<not> NDIRECT + e < NDIRECT" "NDIRECT + e - NDIRECT = e" by simp_all
  then show ?thesis using assms unfolding bmap_def u Let_def by (simp only: if_False if_True ind_block_def ind_entry_def [abs_def] Let_def)
qed

lemma ind_block_step:
  fixes s :: "'a kfs_scheme"
  assumes "room 2 1 s" "fs_geom s" "busy_blocks s = {}" "file_ok s i" "free_block s b0"
  shows "\<exists>t. ind_block i s = Ok (of_nat (iaddr t i NDIRECT)) t \<and> iaddr t i NDIRECT \<noteq> 0 \<and> fstep 2 i s (view t) t \<and> grown i s t \<and>
    (\<forall>k<MAXFILE. fblock t i k = fblock s i k) \<and> (\<forall>off<MAXFILE * BSIZE. fbyte t i off = fbyte s i off) \<and>
    (\<forall>x. free_block t x \<longleftrightarrow> free_block s x \<and> x \<noteq> iaddr t i NDIRECT)"
proof (cases "iaddr s i NDIRECT = 0")
  case False
  then have "i_addrs (inodes s ! i) ! NDIRECT \<noteq> 0" by (auto simp: iaddr_def)
  moreover have "\<not> free_block s (iaddr s i NDIRECT)" using assms(4) False by (simp add: file_ok_def data_block_def)
  moreover have "fstep 2 i s (view s) s"
    using lstep_mono [OF lstep_refl [OF room_log_inv [OF assms(1)]], of 2] assms(4) by (intro lstep_fstep) (simp_all add: file_ok_def)
  ultimately show ?thesis using False grown_refl [OF assms(2,4)]
    by (intro exI [of _ s]) (auto simp: ind_block_def iaddr_def Let_def)
next
  case True
  have f: "i < length (inodes s)" "length (i_addrs (inodes s ! i)) = 13" "i_dev (inodes s ! i) = 1" using assms(4) by (simp_all add: file_ok_def)
  have z: "i_addrs (inodes s ! i) ! NDIRECT = 0" using True by (simp add: iaddr_def unsigned_eq_0_iff)
  obtain b u where u: "balloc 1 s = Ok (of_nat b) u" "free_block s b" "lstep 2 s (alloc_view s b) (busy_blocks s) u"
    using balloc_step [OF assms(1,2) _ _ assms(5)] assms(3) by auto
  define t where "t = updi i (\<lambda>ip. ip\<lparr>i_addrs := (i_addrs ip)[NDIRECT := of_nat b]\<rparr>) u"
  note e = alloc_effect [OF room_log_inv [OF assms(1)] assms(2) u(2,3)] and g = lstep_fields [OF u(3)] and nz = free_nonzero [OF assms(2) u(2)]
  have run: "ind_block i s = Ok (of_nat b) t" using z f(3) u(1) by (simp add: ind_block_def Let_def t_def)
  have ub: "unat (of_nat b :: uint32) = b"
    using nz assms(2) room_log_inv [OF assms(1)] by (intro unat_of_nat_32) (simp add: log_inv_def fs_geom_def)
  have vt: "view t = view u" "free_block t = free_block u" "fs_geom t" using e(4) by (simp_all add: t_def)
  have it: "inodes t ! i = (inodes s ! i)\<lparr>i_addrs := (i_addrs (inodes s ! i))[NDIRECT := of_nat b]\<rparr>" "length (inodes t) = length (inodes s)"
    using f(1) g(3) by (simp_all add: t_def updi_def)
  have ia: "iaddr t i j = (if j = NDIRECT then b else iaddr s i j)" if "j \<le> NDIRECT" for j using that f(2) ub by (simp add: iaddr_def it)
  have oth: "view t x = view s x" if "\<not> free_block s x" "x \<notin> bmap_blocks s" for x
  proof -
    have "x \<noteq> b" using that(1) u(2) by blast
    then show ?thesis using e(2) that(2) by (simp add: vt)
  qed
  have fb: "fblock t i k = fblock s i k" if "k < MAXFILE" for k
    using ia [of k] ia [of NDIRECT] nz e(1) True that by (auto simp: fblock_def vt(1))
  have fr: "\<forall>x. free_block t x \<longleftrightarrow> free_block s x \<and> x \<noteq> b" using e(3) by (simp add: vt)
  have ok: "file_ok t i"
    by (rule file_ok_add [OF assms(2,4) u(2) fr, of 0]) (use g f it fb True ia [of NDIRECT] in \<open>auto simp: t_def\<close>)
  have old: "\<forall>j<MAXFILE. fblock s i j \<noteq> 0 \<longrightarrow> view t (fblock s i j) = view s (fblock s i j)"
    using oth file_ok_block(1) [OF assms(4)] by (simp add: data_block_def)
  have bytes: "\<forall>off<MAXFILE * BSIZE. fbyte t i off = fbyte s i off" using fbyte_same [OF _ old] fb by simp
  have "grown i s t" unfolding grown_def using vt(3) ok fr fb ia [of NDIRECT] u(2) oth True by auto
  moreover have "fstep 2 i s (view t) t"
    using lstep_set_addrs [OF u(3), of "\<lambda>as. as[NDIRECT := of_nat b]" i] g(1) by (simp add: t_def)
  ultimately show ?thesis using run fb nz fr bytes ia [of NDIRECT] by (intro exI [of _ t]) simp
qed

lemma ind_entry_new:
  fixes s :: "'a kfs_scheme"
  assumes "room 3 2 s" "fs_geom s" "busy_blocks s = {}" "file_ok s i" "iaddr s i NDIRECT \<noteq> 0" "e < NINDIRECT"
    "fblock s i (NDIRECT + e) = 0" "free_block s b0"
  shows "\<exists>t. ind_entry 1 e (of_nat (iaddr s i NDIRECT)) s = Ok (of_nat (fblock t i (NDIRECT + e))) t \<and> fblock t i (NDIRECT + e) \<noteq> 0 \<and>
    fstep 3 i s (view t) t \<and> grown i s t \<and> (\<forall>off<MAXFILE * BSIZE. fbyte t i off = fbyte s i off) \<and>
    (\<forall>x. free_block t x \<longleftrightarrow> free_block s x \<and> x \<noteq> fblock t i (NDIRECT + e))"
proof -
  let ?a = "iaddr s i NDIRECT" and ?k = "NDIRECT + e"
  have inv: "log_inv s" using assms(1) by (rule room_log_inv)
  have ad: "data_block s ?a" using assms(4,5) by (simp add: file_ok_def)
  note dd = data_block_disk [OF assms(2) ad]
  have il: "i < length (inodes s)" using assms(4) by (simp add: file_ok_def)
  have ua: "unat (of_nat ?a :: uint32) = ?a" using dd inv by (intro unat_of_nat_32) (simp add: log_inv_def)
  have len: "length (view s ?a) = BSIZE" using view_length [of s] dd inv by (simp add: log_inv_def)
  obtain bp x where x: "bread 1 (of_nat ?a) s = Ok bp x" "lstep 0 s (view s) {?a} x" "holds x bp ?a" "b_data (bufs x ! bp) = view s ?a"
    using bread_step [OF room_mono [OF assms(1)], of 3 "of_nat ?a"] ua dd assms(3) by auto
  note fx = lstep_fields [OF x(2)]
  have rx: "room 3 1 x" by (rule room_step [OF _ x(2), of 3 1 1]) (use assms(1,3) in \<open>simp_all add: numeral_2_eq_2\<close>)
  have frx: "free_block x = free_block s" "fs_geom x" using free_block_cong [of x s] fs_geom_cong [of x s] fx assms(2) by simp_all
  have z: "get_u32 (view s ?a) (4 * e) = 0" using assms(5,7) by (simp add: fblock_def unsigned_eq_0_iff)
  obtain b u where u: "balloc 1 x = Ok (of_nat b) u" "free_block s b" "lstep 2 x (alloc_view x b) {?a} u" "held x u"
    using balloc_step [OF room_mono [OF rx] frx(2), of b0] fx(2,7) dd assms(8) frx(1) by (auto simp: fx(2))
  have fb0: "free_block x b" using u(2) frx(1) by simp
  note eff = alloc_effect [OF fx(9) frx(2) fb0 u(3)] and fu = lstep_fields [OF u(3)] and nz = free_nonzero [OF assms(2) u(2)]
  have ab: "?a \<noteq> b" using dd u(2) by blast
  have hu: "holds u bp ?a" using u(4) x(3) by (simp add: held_def)
  have vu: "view u ?a = view s ?a" using eff(2) ab dd fx(1,7) by simp
  have "cache_ok u" using fu(9) by (simp add: log_inv_def)
  then have bu: "b_data (bufs u ! bp) = view s ?a" using holdsD [OF _ hu] view_cached [of u bp ?a] hu vu by (simp add: holds_def)
  define d where "d = put_u32 (view s ?a) (4 * e) (of_nat b)"
  have ru: "room 1 0 u" by (rule room_step [OF room_mono [OF rx] u(3), of 1 0 0]) (simp_all add: fx(2))
  obtain v where v: "log_write bp (set_data bp d u) = Ok () v" "lstep 1 u ((view u)(?a := d)) {?a} v" "?a \<in> dirty_blocks v" "holds v bp ?a"
    using put_step [OF ru hu, of d] fu(2,6) fx(6) dd len hu by (auto simp: d_def)
  note fv = lstep_fields [OF v(2)]
  obtain t where t: "brelse bp v = Ok () t" "lstep 0 v (view v) {} t"
    using brelse_step [OF fv(9) v(4)] v(3) fv(2) by (auto simp: settled_def)
  have st: "lstep 3 s ((view u)(?a := d)) (busy_blocks s) t"
    using lstep_trans [OF lstep_trans [OF lstep_trans [OF x(2) u(3)] v(2)] t(2)] fv(1) assms(3) by (simp add: numeral_3_eq_3)
  note ft = lstep_fields [OF st]
  have ub: "unat (of_nat b :: uint32) = b" using nz assms(2) inv by (intro unat_of_nat_32) (simp add: log_inv_def fs_geom_def)
  have run: "ind_entry 1 e (of_nat ?a) s = Ok (of_nat b) t"
    using x(1,4) z u(1) v(1) t(1) bu by (simp add: ind_entry_def Let_def d_def)
  have fr: "\<forall>y. free_block t y \<longleftrightarrow> free_block s y \<and> y \<noteq> b"
  proof -
    have "bitmap_of u y \<noteq> ?a" if "y < unat (sb_size (sb u))" for y
      using bitmap_of_mem [OF that] dd fu(7) fx(7) by auto
    then have "free_block t y = free_block u y" for y using ft(1,4,8) fu(4,8) fx(4,8) by (auto simp: free_block_def)
    then show ?thesis using eff(3) frx(1) by simp
  qed
  have oth: "view t y = view s y" if "\<not> free_block s y" "y \<notin> bmap_blocks s" "y \<noteq> ?a" for y
  proof -
    have "y \<noteq> b" using that(1) u(2) by blast
    then show ?thesis using eff(2) that fx(1,7) ft(1) by simp
  qed
  have ia: "iaddr t i j = iaddr s i j" for j using ft(3) by (simp add: iaddr_def)
  have fb: "fblock t i j = (if j = ?k then b else fblock s i j)" if "j < MAXFILE" for j
  proof (cases "j < NDIRECT")
    case True
    then show ?thesis using ia by (simp add: fblock_def)
  next
    case False
    then obtain e' where e': "j = NDIRECT + e'" using le_Suc_ex not_less by blast
    have "get_u32 d (4 * e') = (if e = e' then of_nat b else get_u32 (view s ?a) (4 * e'))"
      unfolding d_def using assms(6) len by (intro get_u32_entry) simp
    then show ?thesis using assms(5) ia ft(1) ub unfolding e' by (simp add: fblock_def)
  qed
  have gt: "fs_geom t" using frx(2) fr frx(1) ft(4,5,6,7) assms(2) by (auto simp: fs_geom_def)
  have kM: "?k < MAXFILE" using assms(6) by simp
  have ok: "file_ok t i"
    by (rule file_ok_add [OF assms(2,4) u(2) fr, of ?k]) (use ft fb assms(7) ia in auto)
  have old: "\<forall>j<MAXFILE. fblock s i j \<noteq> 0 \<longrightarrow> view t (fblock s i j) = view s (fblock s i j)"
    using oth file_ok_block [OF assms(4)] by (simp add: data_block_def)
  have vb: "view t b = replicate BSIZE 0" using ft(1) ab eff(1) by simp
  have bytes: "\<forall>off<MAXFILE * BSIZE. fbyte t i off = fbyte s i off"
    using fbyte_same [OF _ old] fb vb assms(7) by (simp del: mult_numeral_left_semiring_numeral)
  have "grown i s t" unfolding grown_def using gt ok fr fb ia u(2) oth assms(7) by auto
  moreover have "fstep 3 i s (view t) t" using lstep_fstep [OF st il] ft(1) by simp
  ultimately show ?thesis using run fb [OF kM] nz fr bytes by (intro exI [of _ t]) simp
qed

text \<open>All cases together: with two free blocks every block of the file can be had.\<close>

definition nfree :: "'a kfs_scheme \<Rightarrow> nat" where
  "nfree s = card {b. free_block s b}"

lemma free_finite: "finite {b. free_block s b}"
  by (rule finite_subset [of _ "{..<unat (sb_size (sb s))}"]) (auto simp: free_block_def)

lemma nfree_ex: "0 < nfree s \<Longrightarrow> \<exists>b. free_block s b"
  using card_gt_0_iff [of "{b. free_block s b}"] by (auto simp: nfree_def)

lemma nfree_take: "\<forall>x. free_block t x \<longleftrightarrow> free_block s x \<and> x \<noteq> b \<Longrightarrow> nfree s \<le> nfree t + 1"
proof -
  assume "\<forall>x. free_block t x \<longleftrightarrow> free_block s x \<and> x \<noteq> b"
  then have e: "{x. free_block t x} = {x. free_block s x} - {b}" by auto
  show ?thesis unfolding nfree_def e using card_Diff1_le [of "{x. free_block s x}" b] card_Suc_Diff1 [OF free_finite, of b s]
    by (cases "free_block s b") simp_all
qed

lemma fstep_mono: "fstep k i s V t \<Longrightarrow> k \<le> m \<Longrightarrow> fstep m i s V t"
  using lstep_mono by (fastforce simp: fstep_def)

lemma quiet_grown:
  fixes s t :: "'a kfs_scheme"
  assumes "fs_geom s" "file_ok s i" "lstep 0 s (view s) (busy_blocks s) t"
  shows "grown i s t" "nfree t = nfree s" "fstep m i s (view t) t"
proof -
  note q = quiet [OF assms(3)] and f = lstep_fields [OF assms(3)]
  have fr: "free_block t = free_block s" using free_block_cong [of t s] q(1) f(4) by simp
  then show "nfree t = nfree s" by (simp add: nfree_def)
  show "grown i s t" using q assms(1,2) fr by (simp add: grown_def iaddr_def)
  show "fstep m i s (view t) t" using fstep_mono [OF lstep_fstep [OF assms(3)]] assms(2) q(1) by (simp add: file_ok_def)
qed

lemma bmap_step:
  fixes s :: "'a kfs_scheme"
  assumes "room 5 2 s" "fs_geom s" "busy_blocks s = {}" "file_ok s i" "k < MAXFILE" "2 \<le> nfree s"
  shows "\<exists>t. bmap i (of_nat k) s = Ok (of_nat (fblock t i k)) t \<and> fblock t i k \<noteq> 0 \<and> fstep 5 i s (view t) t \<and> grown i s t \<and>
    (\<forall>off<MAXFILE * BSIZE. fbyte t i off = fbyte s i off) \<and> nfree s \<le> nfree t + 2"
proof (cases "fblock s i k = 0")
  case False
  obtain t where t: "bmap i (of_nat k) s = Ok (of_nat (fblock s i k)) t" "lstep 0 s (view s) (busy_blocks s) t"
    using bmap_old [OF room_mono [OF assms(1)] assms(2-5) False, of 0] by auto
  then show ?thesis using False quiet(6,7) [OF t(2)] quiet_grown [OF assms(2,4) t(2)] by (intro exI [of _ t]) simp
next
  case zero: True
  obtain b0 where b0: "free_block s b0" using nfree_ex [of s] assms(6) by auto
  show ?thesis
  proof (cases "k < NDIRECT")
    case True
    obtain t where t: "bmap i (of_nat k) s = Ok (of_nat (fblock t i k)) t" "fblock t i k \<noteq> 0" "fstep 2 i s (view t) t" "grown i s t"
        "\<forall>off<MAXFILE * BSIZE. fbyte t i off = fbyte s i off" "\<forall>x. free_block t x \<longleftrightarrow> free_block s x \<and> x \<noteq> fblock t i k"
      using bmap_direct_new [OF room_mono [OF assms(1)] assms(2-4) True zero b0] by auto
    then show ?thesis using fstep_mono [OF t(3), of 5] nfree_take [OF t(6)] by (intro exI [of _ t]) simp
  next
    case False
    then obtain e where e: "k = NDIRECT + e" using le_Suc_ex not_less by blast
    have eN: "e < NINDIRECT" using assms(5) e by simp
    have il: "i < length (inodes s)" "i_dev (inodes s ! i) = 1" using assms(4) by (simp_all add: file_ok_def)
    obtain u where u: "ind_block i s = Ok (of_nat (iaddr u i NDIRECT)) u" "iaddr u i NDIRECT \<noteq> 0" "fstep 2 i s (view u) u" "grown i s u"
        "\<forall>k<MAXFILE. fblock u i k = fblock s i k" "\<forall>off<MAXFILE * BSIZE. fbyte u i off = fbyte s i off"
        "\<forall>x. free_block u x \<longleftrightarrow> free_block s x \<and> x \<noteq> iaddr u i NDIRECT"
      using ind_block_step [OF room_mono [OF assms(1)] assms(2-4) b0] by auto
    note fu = fstep_fields [OF u(3)]
    have ru: "room 3 2 u" by (rule room_fstep [OF _ u(3)]) (use assms(1) in simp)
    have gu: "fs_geom u" "file_ok u i" "busy_blocks u = {}" using u(4) fu(2) assms(3) by (simp_all add: grown_def)
    have zu: "fblock u i (NDIRECT + e) = 0" using u(5) zero assms(5) e by simp
    have "0 < nfree u" using nfree_take [OF u(7)] assms(6) by simp
    then obtain b1 where b1: "free_block u b1" using nfree_ex by blast
    obtain t where t: "ind_entry 1 e (of_nat (iaddr u i NDIRECT)) u = Ok (of_nat (fblock t i k)) t" "fblock t i k \<noteq> 0"
        "fstep 3 i u (view t) t" "grown i u t" "\<forall>off<MAXFILE * BSIZE. fbyte t i off = fbyte u i off"
        "\<forall>x. free_block t x \<longleftrightarrow> free_block u x \<and> x \<noteq> fblock t i k"
      using ind_entry_new [OF ru gu(1,3,2) u(2) eN zu b1] unfolding e by blast
    have "bmap i (of_nat k) s = Ok (of_nat (fblock t i k)) t"
      using bmap_indirect [OF eN, of i s] u(1) t(1) il(2) unfolding e by simp
    moreover have "fstep 5 i s (view t) t" using fstep_trans [OF u(3) t(3) il(1)] by simp
    moreover have "grown i s t" by (rule grown_trans [OF u(4) t(4) fu(6)])
    moreover have "nfree s \<le> nfree t + 2" using nfree_take [OF u(7)] nfree_take [OF t(6)] by simp
    ultimately show ?thesis using t(2,5) u(6) by (intro exI [of _ t]) simp
  qed
qed


section \<open>What reading a file returns\<close>

lemma unat_clip: "(if off + n > z then z - off else n) = of_nat (min (unat n) (unat z - unat off))"
  if "off \<le> z" "\<not> off + n < off" for off n z :: uint32
proof -
  have s: "unat (off + n) = unat off + unat n" using that(2) word_add_wraps_iff [of off n] by (simp add: unat_plus_if' word_less_nat_alt split: if_splits)
  have d: "unat (z - off) = unat z - unat off" using that(1) by (simp add: unat_sub)
  show ?thesis
  proof (cases "off + n > z")
    case True
    then have "unat z - unat off < unat n" using s that(1) by (simp add: word_less_nat_alt word_le_nat_alt)
    then have "of_nat (min (unat n) (unat z - unat off)) = (of_nat (unat (z - off)) :: uint32)" using d by (simp add: min_def)
    then show ?thesis using True by simp
  next
    case False
    then have "unat n \<le> unat z - unat off" using s by (simp add: word_less_nat_alt)
    then show ?thesis using False by (simp add: min_def)
  qed
qed

lemma readi_content:
  fixes s :: "'a kcons_scheme"
  assumes ok: "room m 1 s" "fs_geom s" "busy_blocks s = {}" "file_ok s i" and ty: "i_type (inodes s ! i) \<noteq> T_DEV"
    and sz: "unat (i_size (inodes s ! i)) \<le> MAXFILE * BSIZE"
    and rng: "off \<le> i_size (inodes s ! i)" "\<not> off + n < off"
  defines "k \<equiv> min (unat n) (unat (i_size (inodes s ! i)) - unat off)"
  assumes fl: "filled s i (unat off) (unat off + k)"
  shows "\<exists>t. readi i off n s = Ok (int k, map (fbyte s i) [unat off..<unat off + k]) t \<and> lstep 0 s (view s) {} t"
proof -
  let ?z = "i_size (inodes s ! i)"
  have c: "(if off + n > ?z then ?z - off else n) = of_nat k" unfolding k_def by (rule unat_clip [OF rng])
  have "unat off \<le> unat ?z" using rng(1) by (simp add: word_le_nat_alt)
  then have k1: "unat off + k \<le> MAXFILE * BSIZE" using sz unfolding k_def by linarith
  then have "k < 2 ^ 31" by simp
  then have k: "unat off + k \<le> MAXFILE * BSIZE" "k < 2 ^ 31" using k1 by blast+
  then have uk: "unat (of_nat k :: uint32) = k" by (intro unat_of_nat_32) simp
  have "\<exists>t. readi_loop i (unat off) k s = Ok (map (fbyte s i) [unat off..<unat off + k]) t \<and> lstep 0 s (view s) {} t"
    by (rule readi_loop_returns [OF ok k(1) fl])
  then show ?thesis using ty rng c uk sint_small [OF k(2)] by (auto simp: readi_def Let_def)
qed

text \<open>C20. Reading a file returns its bytes: from an offset inside the file \<open>readi\<close> returns as many bytes as asked for, or as there are up to
  the end of the file, and they are the bytes of the blocks the inode points to, across direct and indirect blocks; it fails for an offset
  beyond the end or a range that wraps around. No content, inode or block changes.\<close>

theorem readi_returns_file:
  fixes s :: "'a kcons_scheme"
  assumes "room m 1 s" "fs_geom s" "busy_blocks s = {}" "file_ok s i" "i_type (inodes s ! i) \<noteq> T_DEV"
    and "unat (i_size (inodes s ! i)) \<le> MAXFILE * BSIZE" "filled s i 0 (unat (i_size (inodes s ! i)))"
  shows "if off > i_size (inodes s ! i) \<or> off + n < off then readi i off n s = Ok (- 1, []) s
    else \<exists>t. readi i off n s = Ok (int (min (unat n) (unat (i_size (inodes s ! i)) - unat off)),
        map (fbyte s i) [unat off..<unat off + min (unat n) (unat (i_size (inodes s ! i)) - unat off)]) t \<and>
      view t = view s \<and> inodes t = inodes s \<and> log_inv t"
proof (cases "off > i_size (inodes s ! i) \<or> off + n < off")
  case True
  then show ?thesis using assms(5) by (simp add: readi_def Let_def)
next
  case False
  then have r: "off \<le> i_size (inodes s ! i)" "\<not> off + n < off" by auto
  have "unat off \<le> unat (i_size (inodes s ! i))" using r(1) by (simp add: word_le_nat_alt)
  then have "filled s i (unat off) (unat off + min (unat n) (unat (i_size (inodes s ! i)) - unat off))"
    using assms(7) by (auto simp: filled_def)
  from readi_content [OF assms(1-6) r this] obtain t where t:
    "readi i off n s = Ok (int (min (unat n) (unat (i_size (inodes s ! i)) - unat off)),
       map (fbyte s i) [unat off..<unat off + min (unat n) (unat (i_size (inodes s ! i)) - unat off)]) t" "lstep 0 s (view s) {} t" by blast
  show ?thesis using False t(1) lstep_fields(1,3,9) [OF t(2)] by auto
qed


section \<open>A file system with a file\<close>

text \<open>Thirty-two blocks: the log in 2 to 17, inodes in 18, the bitmap in 19, and a file of three bytes in block 20.\<close>

definition filedisk :: "nat \<Rightarrow> uchar list" where
  "filedisk b = (if b = 19 then [0xff, 0xff, 0x1f] @ replicate 509 0 else if b = 20 then [97, 98, 99] @ replicate 509 0 else replicate BSIZE 0)"

definition file_inode :: inode where
  "file_inode = inode0\<lparr>i_dev := 1, i_inum := 1, i_ref := 1, i_valid := True, i_type := 2, i_nlink := 1, i_size := 3, i_addrs := 20 # replicate 12 0\<rparr>"

definition kfs2 :: kcons where
  "kfs2 = binit (kcons0\<lparr>bufs := replicate 12 buf0, memdisk := filedisk, disksize := 32, log_start := 2, log_size := 16, outstanding := 1,
     committing := False, log_dev := 1, lh_n := 0, lh_block := replicate LOGSIZE 0,
     sb := \<lparr>sb_size = 32, sb_nblocks = 12, sb_ninodes = 8, sb_nlog = 16, sb_logstart = 2, sb_inodestart = 18, sb_bmapstart = 19\<rparr>,
     inodes := [file_inode]\<rparr>)"

lemma binit_rest: "links_rest (binit s) = links_rest s"
proof -
  define u where "u = set_next BHead BHead (set_prev BHead BHead s)"
  have "links_rest u = links_rest s" by (simp add: u_def set_next_def set_prev_def links_rest_def)
  moreover have "binit s = binit_loop [0..<length (bufs s)] u" by (simp add: binit_def u_def)
  ultimately show ?thesis using binit_loop_frame [of "[0..<length (bufs s)]" u] by simp
qed

lemma kfs2_fields:
  "disksize kfs2 = 32" "log_start kfs2 = 2" "log_size kfs2 = 16" "outstanding kfs2 = 1" "log_dev kfs2 = 1" "lh_n kfs2 = 0"
  "lh_block kfs2 = replicate LOGSIZE 0" "inodes kfs2 = [file_inode]"
  "sb kfs2 = \<lparr>sb_size = 32, sb_nblocks = 12, sb_ninodes = 8, sb_nlog = 16, sb_logstart = 2, sb_inodestart = 18, sb_bmapstart = 19\<rparr>"
proof -
  note e = binit_rest [of "kcons0\<lparr>bufs := replicate 12 buf0, memdisk := filedisk, disksize := 32, log_start := 2, log_size := 16, outstanding := 1,
     committing := False, log_dev := 1, lh_n := 0, lh_block := replicate LOGSIZE 0,
     sb := \<lparr>sb_size = 32, sb_nblocks = 12, sb_ninodes = 8, sb_nlog = 16, sb_logstart = 2, sb_inodestart = 18, sb_bmapstart = 19\<rparr>,
     inodes := [file_inode]\<rparr>", folded kfs2_def]
  show "disksize kfs2 = 32" "log_start kfs2 = 2" "log_size kfs2 = 16" "outstanding kfs2 = 1" "log_dev kfs2 = 1" "lh_n kfs2 = 0"
    "lh_block kfs2 = replicate LOGSIZE 0" "inodes kfs2 = [file_inode]"
    "sb kfs2 = \<lparr>sb_size = 32, sb_nblocks = 12, sb_ninodes = 8, sb_nlog = 16, sb_logstart = 2, sb_inodestart = 18, sb_bmapstart = 19\<rparr>"
    using arg_cong [OF e, of disksize] arg_cong [OF e, of log_start] arg_cong [OF e, of log_size] arg_cong [OF e, of outstanding]
      arg_cong [OF e, of log_dev] arg_cong [OF e, of lh_n] arg_cong [OF e, of lh_block] arg_cong [OF e, of inodes] arg_cong [OF e, of sb]
    by (simp_all add: links_rest_def)
qed

lemma kfs2_cache: "cache_ok kfs2" "busy_blocks kfs2 = {}" "dirty_blocks kfs2 = {}" "view kfs2 = filedisk" "length (bufs kfs2) = 12"
  unfolding kfs2_def by (simp_all add: binit_cache_ok buf0_def filedisk_def)

lemma kfs2_room: "log_inv kfs2" "room 7 2 kfs2"
proof -
  show l: "log_inv kfs2" using kfs2_cache by (simp add: log_inv_def logged_def kfs2_fields)
  show "room 7 2 kfs2" using l by (simp add: room_def kfs2_fields kfs2_cache)
qed

lemma kfs2_free: "free_block kfs2 b \<longleftrightarrow> 21 \<le> b \<and> b < 32"
proof -
  have "bit_free (filedisk 19) b \<longleftrightarrow> 21 \<le> b" if "b < 32"
  proof -
    have "list_all (\<lambda>b. bit_free (filedisk 19) b = (21 \<le> b)) [0..<32]" by code_simp
    then show ?thesis using that by (simp add: list_all_iff)
  qed
  then show ?thesis by (auto simp: free_block_def bitmap_of_def kfs2_fields kfs2_cache)
qed

lemma kfs2_geom: "fs_geom kfs2" "bmap_blocks kfs2 = {19}" "log_blocks kfs2 = {2..<18}"
proof -
  show b: "bmap_blocks kfs2 = {19}" by (auto simp: bmap_blocks_def kfs2_fields)
  show l: "log_blocks kfs2 = {2..<18}" by (simp add: log_blocks_def kfs2_fields)
  show "fs_geom kfs2" by (auto simp: fs_geom_def b l kfs2_free kfs2_fields)
qed

lemma kfs2_file: "iaddr kfs2 0 NDIRECT = 0" "k < MAXFILE \<Longrightarrow> fblock kfs2 0 k = (if k = 0 then 20 else 0)" "file_ok kfs2 0"
  "i_type (inodes kfs2 ! 0) = 2" "i_size (inodes kfs2 ! 0) = 3" "filled kfs2 0 0 3" "nfree kfs2 = 11"
proof -
  have a: "i_addrs (inodes kfs2 ! 0) = 20 # replicate 12 0" by (simp add: kfs2_fields file_inode_def)
  show i: "iaddr kfs2 0 NDIRECT = 0" by (simp add: iaddr_def a nth_Cons')
  show f: "k < MAXFILE \<Longrightarrow> fblock kfs2 0 k = (if k = 0 then 20 else 0)" for k by (simp add: fblock_def i) (simp add: iaddr_def a nth_Cons')
  show "file_ok kfs2 0" using f i by (auto simp: file_ok_def data_block_def kfs2_geom kfs2_free) (simp_all add: kfs2_fields file_inode_def)
  show "i_type (inodes kfs2 ! 0) = 2" "i_size (inodes kfs2 ! 0) = 3" by (simp_all add: kfs2_fields file_inode_def)
  show "filled kfs2 0 0 3" using f by (simp add: filled_def)
  have "{b. free_block kfs2 b} = {21..<32}" by (auto simp: kfs2_free)
  then show "nfree kfs2 = 11" by (simp add: nfree_def)
qed

lemma readi_returns_file_witness: "\<exists>t. readi 0 1 10 kfs2 = Ok (2, [98, 99]) t"
proof -
  have "fbyte kfs2 0 (Suc 0) = 98" "fbyte kfs2 0 (Suc (Suc 0)) = 99" using kfs2_file(2) [of 0] by (simp_all add: fbyte_def kfs2_cache filedisk_def)
  then show ?thesis
    using readi_returns_file [OF room_mono [OF kfs2_room(2), of 0 1] kfs2_geom(1) kfs2_cache(2) kfs2_file(3), of 1 10] kfs2_file(4,5,6)
    by (auto simp: min_def)
qed

lemma dinode_roundtrip_witness: "get_dinode (put_dinode file_inode 64 (replicate BSIZE 0)) 64 (inode0\<lparr>i_dev := 1, i_inum := 1, i_ref := 1, i_valid := True\<rparr>) = file_inode"
  using dinode_roundtrip [of file_inode 64 "replicate BSIZE 0" "inode0\<lparr>i_dev := 1, i_inum := 1, i_ref := 1, i_valid := True\<rparr>"]
  by (simp add: file_inode_def inode0_def inode_wf_def is_short_def)

end
