(* ===== verification/FsWrite.thy ===== *)
theory FsWrite
  imports FsFile
begin

text \<open>
  The effect of \<open>writei\<close> on file contents, blocks being allocated on the way, and reading back what was written.
\<close>

section \<open>Writing\<close>

text \<open>Overwriting a data block of the file.\<close>

lemma put_block:
  fixes u v :: "'a kfs_scheme"
  assumes ok: "log_inv u" "fs_geom u" "file_ok u i" and k: "k < MAXFILE" "fblock u i k \<noteq> 0"
    and v: "lstep m u ((view u)(fblock u i k := d)) (busy_blocks u) v"
  shows "grown i u v" "nfree v = nfree u" "\<forall>j<MAXFILE. fblock v i j = fblock u i j"
    "\<forall>x<MAXFILE * BSIZE. fbyte v i x = (if x div BSIZE = k then d ! (x mod BSIZE) else fbyte u i x)"
proof -
  let ?b = "fblock u i k"
  note f = lstep_fields [OF v]
  note b = file_ok_block [OF ok(3) k] and dd = data_block_disk [OF ok(2) file_ok_block(1) [OF ok(3) k]]
  have "bitmap_of u y \<noteq> ?b" if "y < unat (sb_size (sb u))" for y using bitmap_of_mem [OF that] dd by auto
  then have fr: "free_block v = free_block u" using f(1,4,8) by (auto simp: free_block_def fun_eq_iff)
  then show "nfree v = nfree u" by (simp add: nfree_def)
  have ia: "iaddr v i = iaddr u i" using f(3) by (simp add: iaddr_def fun_eq_iff)
  have fb: "fblock v i = fblock u i" using b(2) f(1) ia by (auto simp: fblock_def fun_eq_iff)
  then show "\<forall>j<MAXFILE. fblock v i j = fblock u i j" by simp
  have "fs_geom v" using ok(2) fr f(4,5,6,7) by (simp add: fs_geom_def)
  moreover have "file_ok v i" using ok(3) f(3,4,6,7) fr fb ia by (simp add: file_ok_def data_block_def)
  ultimately show "grown i u v" using fr fb ia f(1) k(1) by (auto simp: grown_def)
  have inj: "fblock u i j = ?b \<longleftrightarrow> j = k" if "j < MAXFILE" for j using ok(3) that k unfolding file_ok_def by metis
  show "\<forall>x<MAXFILE * BSIZE. fbyte v i x = (if x div BSIZE = k then d ! (x mod BSIZE) else fbyte u i x)"
  proof (intro allI impI)
    fix x :: nat assume "x < MAXFILE * BSIZE"
    then have "x div BSIZE < MAXFILE" by (simp add: div_less_iff_less_mult)
    then show "fbyte v i x = (if x div BSIZE = k then d ! (x mod BSIZE) else fbyte u i x)"
      using inj [of "x div BSIZE"] k(2) fb f(1) by (auto simp: fbyte_def)
  qed
qed

lemma splice_byte:
  assumes "length d = BSIZE" "m \<le> BSIZE - off mod BSIZE" "m = length ys" "x div BSIZE = off div BSIZE"
  shows "splice d (off mod BSIZE) ys ! (x mod BSIZE) = (if off \<le> x \<and> x < off + m then ys ! (x - off) else d ! (x mod BSIZE))"
proof -
  have xm: "x mod BSIZE < BSIZE" "off mod BSIZE < BSIZE" by simp_all
  have "x = BSIZE * (off div BSIZE) + x mod BSIZE" "off = BSIZE * (off div BSIZE) + off mod BSIZE" using assms(4) by (metis mult_div_mod_eq)+
  then have "off \<le> x \<longleftrightarrow> off mod BSIZE \<le> x mod BSIZE" "x < off + m \<longleftrightarrow> x mod BSIZE < off mod BSIZE + m" "x - off = x mod BSIZE - off mod BSIZE"
    by linarith+
  moreover have "splice d (off mod BSIZE) ys ! (x mod BSIZE) =
      (if off mod BSIZE \<le> x mod BSIZE \<and> x mod BSIZE < off mod BSIZE + length ys then ys ! (x mod BSIZE - off mod BSIZE) else d ! (x mod BSIZE))"
    using assms xm by (intro nth_splice) linarith+
  ultimately show ?thesis using assms(3) by simp
qed

text \<open>One iteration of the loop.\<close>

lemma write_block:
  fixes s :: "'a kfs_scheme"
  assumes "room 6 2 s" "fs_geom s" "busy_blocks s = {}" "file_ok s i" "off < MAXFILE * BSIZE" "2 \<le> nfree s"
    and m: "m = length ys" "m \<le> BSIZE - off mod BSIZE"
  shows "\<exists>u v. bmap i (of_nat (off div BSIZE)) s = Ok (of_nat (fblock u i (off div BSIZE))) u \<and>
    mbind (bread (i_dev (inodes u ! i)) (of_nat (fblock u i (off div BSIZE))) u) (\<lambda>bp s.
      mbind (log_write bp (set_data bp (splice (b_data (bufs s ! bp)) (off mod BSIZE) ys) s)) (\<lambda>_. brelse bp)) = Ok () v \<and>
    fstep 6 i s (view v) v \<and> grown i s v \<and> nfree s \<le> nfree v + 2 \<and> fblock v i (off div BSIZE) \<noteq> 0 \<and>
    (\<forall>x<MAXFILE * BSIZE. fbyte v i x = (if off \<le> x \<and> x < off + m then ys ! (x - off) else fbyte s i x))"
proof -
  let ?k = "off div BSIZE"
  have k: "?k < MAXFILE" using assms(5) by (simp add: div_less_iff_less_mult)
  obtain u where u: "bmap i (of_nat ?k) s = Ok (of_nat (fblock u i ?k)) u" "fblock u i ?k \<noteq> 0" "fstep 5 i s (view u) u" "grown i s u"
      "\<forall>x<MAXFILE * BSIZE. fbyte u i x = fbyte s i x" "nfree s \<le> nfree u + 2"
    using bmap_step [OF room_mono [OF assms(1)] assms(2-4) k assms(6)] by auto
  let ?b = "fblock u i ?k"
  note fu = fstep_fields [OF u(3)]
  have gu: "fs_geom u" "file_ok u i" "busy_blocks u = {}" using u(4) fu(2) assms(3) by (simp_all add: grown_def)
  have il: "i < length (inodes s)" "i < length (inodes u)" "i_dev (inodes u ! i) = 1" using assms(4) gu(2) by (simp_all add: file_ok_def)
  have ru: "room 1 1 u" by (rule room_mono [OF room_fstep [OF _ u(3), of 1 2]]) (use assms(1) in simp_all)
  note dd = data_block_disk [OF gu(1) file_ok_block(1) [OF gu(2) k u(2)]]
  have ub: "unat (of_nat ?b :: uint32) = ?b" using dd fu(8) by (intro unat_of_nat_32) (simp add: log_inv_def)
  have len: "length (view u ?b) = BSIZE" using view_length [of u] dd fu(8) by (simp add: log_inv_def)
  have om: "off mod BSIZE + m \<le> BSIZE" using m(2) mod_less_divisor [of BSIZE off] by linarith
  define d where "d = splice (view u ?b) (off mod BSIZE) ys"
  have "length d = BSIZE" using len om m(1) by (simp add: d_def)
  then obtain v where v: "mbind (bread 1 (of_nat ?b) u) (\<lambda>bp s.
      mbind (log_write bp (set_data bp (splice (b_data (bufs s ! bp)) (off mod BSIZE) ys) s)) (\<lambda>_. brelse bp)) = Ok () v"
      "lstep 1 u ((view u)(?b := d)) (busy_blocks u) v"
    using update_step [OF ru, of "of_nat ?b" "\<lambda>x. splice x (off mod BSIZE) ys"] ub dd gu(3) by (auto simp: d_def)
  note p = put_block [OF fu(8) gu(1,2) k u(2) v(2)]
  have "fstep 1 i u (view v) v" using lstep_fstep [OF v(2) il(2)] lstep_fields(1) [OF v(2)] by simp
  then have "fstep 6 i s (view v) v" using fstep_trans [OF u(3) _ il(1)] by fastforce
  moreover have "grown i s v" by (rule grown_trans [OF u(4) p(1) fu(6)])
  moreover have "fbyte v i x = (if off \<le> x \<and> x < off + m then ys ! (x - off) else fbyte s i x)" if x: "x < MAXFILE * BSIZE" for x
  proof (cases "x div BSIZE = ?k")
    case True
    then have "fbyte v i x = (if off \<le> x \<and> x < off + m then ys ! (x - off) else view u ?b ! (x mod BSIZE))"
      using p(4) x splice_byte [OF len m(2,1) True] by (simp add: d_def)
    moreover have "view u ?b ! (x mod BSIZE) = fbyte s i x" using u(2,5) x True by (auto simp: fbyte_def)
    ultimately show ?thesis by simp
  next
    case False
    have "\<not> (off \<le> x \<and> x < off + m)"
    proof
      assume r: "off \<le> x \<and> x < off + m"
      then have "x - off < min m (BSIZE - off mod BSIZE)" using m(2) by linarith
      then show False using in_block(1) [of "x - off" m off] r False by simp
    qed
    then show ?thesis using p(4) x False u(5) by auto
  qed
  ultimately show ?thesis using u(1,2,6) v(1) p(2,3) k il(3) by (intro exI [of _ u] exI [of _ v]) simp
qed

lemma writei_loop_writes:
  fixes s :: "'a kfs_scheme"
  assumes "room (6 * n) 2 s" "fs_geom s" "busy_blocks s = {}" "file_ok s i" "off + length src \<le> MAXFILE * BSIZE" "2 * n \<le> nfree s"
    "src \<noteq> [] \<longrightarrow> off mod BSIZE + length src \<le> BSIZE * n"
  shows "\<exists>t. writei_loop i src off s = Ok () t \<and> fstep (6 * n) i s (view t) t \<and> grown i s t \<and> nfree s \<le> nfree t + 2 * n \<and>
    filled t i off (off + length src) \<and>
    (\<forall>x<MAXFILE * BSIZE. fbyte t i x = (if off \<le> x \<and> x < off + length src then src ! (x - off) else fbyte s i x))"
  using assms
proof (induction n arbitrary: src off s)
  case 0
  then have "src = []" by auto
  moreover have "fstep 0 i s (view s) s" using quiet_grown(3) [OF 0(2,4) lstep_refl [OF room_log_inv [OF 0(1)]], of 0] by simp
  ultimately show ?case using grown_refl [OF 0(2,4)] by (intro exI [of _ s]) (auto simp: writei_loop.simps filled_def)
next
  case (Suc n)
  show ?case
  proof (cases "src = []")
    case True
    have "fstep (6 * Suc n) i s (view s) s" by (rule quiet_grown(3) [OF Suc.prems(2,4) lstep_refl [OF room_log_inv [OF Suc.prems(1)]]])
    then show ?thesis using True grown_refl [OF Suc.prems(2,4)] by (intro exI [of _ s]) (auto simp: writei_loop.simps filled_def)
  next
    case False
    define m where "m = min (length src) (BSIZE - off mod BSIZE)"
    have m: "m = length (take m src)" "m \<le> BSIZE - off mod BSIZE" "0 < m" "m \<le> length src"
      using False mod_less_divisor [of BSIZE off] by (auto simp: m_def)
    have off: "off < MAXFILE * BSIZE" using Suc.prems(5) m(3,4) by linarith
    obtain u v where uv: "bmap i (of_nat (off div BSIZE)) s = Ok (of_nat (fblock u i (off div BSIZE))) u"
        "mbind (bread (i_dev (inodes u ! i)) (of_nat (fblock u i (off div BSIZE))) u) (\<lambda>bp s.
          mbind (log_write bp (set_data bp (splice (b_data (bufs s ! bp)) (off mod BSIZE) (take m src)) s)) (\<lambda>_. brelse bp)) = Ok () v"
        "fstep 6 i s (view v) v" "grown i s v" "nfree s \<le> nfree v + 2" "fblock v i (off div BSIZE) \<noteq> 0"
        "\<forall>x<MAXFILE * BSIZE. fbyte v i x = (if off \<le> x \<and> x < off + m then take m src ! (x - off) else fbyte s i x)"
      using write_block [OF room_mono [OF Suc.prems(1)] Suc.prems(2-4) off _ m(1,2)] Suc.prems(6) by auto
    note fv = fstep_fields [OF uv(3)]
    have gv: "fs_geom v" "file_ok v i" "busy_blocks v = {}" using uv(4) fv(2) Suc.prems(3) by (simp_all add: grown_def)
    have il: "i < length (inodes s)" using Suc.prems(4) by (simp add: file_ok_def)
    have rest: "drop m src \<noteq> [] \<longrightarrow> (off + m) mod BSIZE + length (drop m src) \<le> BSIZE * n"
    proof
      assume "drop m src \<noteq> []"
      then have e: "m = BSIZE - off mod BSIZE" by (auto simp: m_def min_def split: if_splits)
      have o: "off mod BSIZE < BSIZE" "BSIZE * (off div BSIZE) + off mod BSIZE = off" by simp_all
      have "off + m = BSIZE * (off div BSIZE) + (off mod BSIZE + m)" using o(2) by (simp only: add.assoc [symmetric])
      also have "off mod BSIZE + m = BSIZE" using e o(1) by simp
      finally have z: "(off + m) mod BSIZE = 0" by simp
      have g: "l - (BSIZE - r) \<le> c" if "r + l \<le> c + BSIZE" "r < BSIZE" for r l c :: nat using that by linarith
      have "off mod BSIZE + length src \<le> BSIZE * n + BSIZE" using Suc.prems(7) False by simp
      then have "length src - (BSIZE - off mod BSIZE) \<le> BSIZE * n" using g o(1) by blast
      then show "(off + m) mod BSIZE + length (drop m src) \<le> BSIZE * n" unfolding z by (simp add: e)
    qed
    have rv: "room (6 * n) 2 v" by (rule room_fstep [OF _ uv(3)]) (use Suc.prems(1) in \<open>simp add: add.commute\<close>)
    have "\<exists>t. writei_loop i (drop m src) (off + m) v = Ok () t \<and> fstep (6 * n) i v (view t) t \<and> grown i v t \<and> nfree v \<le> nfree t + 2 * n \<and>
      filled t i (off + m) (off + m + length (drop m src)) \<and>
      (\<forall>x<MAXFILE * BSIZE. fbyte t i x = (if off + m \<le> x \<and> x < off + m + length (drop m src) then drop m src ! (x - (off + m)) else fbyte v i x))"
      by (rule Suc.IH [OF rv gv(1,3,2) _ _ rest]) (use Suc.prems(5,6) uv(5) m in auto)
    then obtain t where t: "writei_loop i (drop m src) (off + m) v = Ok () t" "fstep (6 * n) i v (view t) t" "grown i v t" "nfree v \<le> nfree t + 2 * n"
      "filled t i (off + m) (off + length src)"
      "\<forall>x<MAXFILE * BSIZE. fbyte t i x = (if off + m \<le> x \<and> x < off + length src then drop m src ! (x - (off + m)) else fbyte v i x)"
      using m(4) by auto
    have run: "writei_loop i src off s = Ok () t"
    proof -
      have "writei_loop i src off s = mbind (mbind (bread (i_dev (inodes u ! i)) (of_nat (fblock u i (off div BSIZE))) u) (\<lambda>bp s.
          mbind (log_write bp (set_data bp (splice (b_data (bufs s ! bp)) (off mod BSIZE) (take m src)) s)) (\<lambda>_. brelse bp)))
          (\<lambda>_. writei_loop i (drop m src) (off + m))"
        using False uv(1) by (simp add: writei_loop.simps [of i src] Let_def m_def [symmetric] mbind_assoc)
      then show ?thesis using uv(2) t(1) by simp
    qed
    have "fbyte t i x = (if off \<le> x \<and> x < off + length src then src ! (x - off) else fbyte s i x)" if x: "x < MAXFILE * BSIZE" for x
    proof -
      have "fbyte t i x = (if off + m \<le> x \<and> x < off + length src then drop m src ! (x - (off + m)) else
          if off \<le> x \<and> x < off + m then take m src ! (x - off) else fbyte s i x)" using t(6) uv(7) x by simp
      then show ?thesis using m(4) by auto
    qed
    moreover have "filled t i off (off + length src)"
      unfolding filled_def
    proof (intro allI impI)
      fix x assume x: "off \<le> x \<and> x < off + length src"
      show "fblock t i (x div BSIZE) \<noteq> 0"
      proof (cases "off + m \<le> x")
        case True
        then show ?thesis using t(5) x by (simp add: filled_def)
      next
        case False
        then have "x - off < m" using m(3) by linarith
        then have "x - off < min m (BSIZE - off mod BSIZE)" using m(2) by simp
        then have "x div BSIZE = off div BSIZE" using in_block(1) [of "x - off" m off] x by simp
        moreover have "off div BSIZE < MAXFILE" using off by (simp add: div_less_iff_less_mult)
        ultimately show ?thesis using t(3) uv(6) unfolding grown_def by metis
      qed
    qed
    moreover have "fstep (6 * Suc n) i s (view t) t" using fstep_trans [OF uv(3) t(2) il] by simp
    moreover have "grown i s t" by (rule grown_trans [OF uv(4) t(3) fv(6)])
    ultimately show ?thesis using run t(4) uv(5) by (intro exI [of _ t]) simp
  qed
qed

text \<open>The block that holds the inode is no block of the file.\<close>

definition home :: "'a kfs_scheme \<Rightarrow> nat \<Rightarrow> nat" where
  "home s i = unat (IBLOCK (i_inum (inodes s ! i)) s)"

definition home_ok :: "'a kfs_scheme \<Rightarrow> nat \<Rightarrow> bool" where
  "home_ok s i \<longleftrightarrow> home s i < disksize s \<and> home s i \<notin> log_blocks s \<union> bmap_blocks s \<and> \<not> free_block s (home s i) \<and>
     home s i \<noteq> iaddr s i NDIRECT \<and> (\<forall>k<MAXFILE. fblock s i k \<noteq> home s i)"

lemma home_fstep:
  fixes s t :: "'a kfs_scheme"
  assumes "home_ok s i" "fstep m i s V t" "grown i s t" "i < length (inodes s)"
  shows "home t i = home s i" "home_ok t i"
proof -
  note f = fstep_fields [OF assms(2)]
  have "i_inum (inodes t ! i) = i_inum (inodes s ! i)" using f(11) [OF assms(4)] by (metis inode.select_convs inode.simps inode.surjective)
  then show h: "home t i = home s i" using f(3) by (simp add: home_def IBLOCK_def)
  show "home_ok t i" using assms(1,3) f(4,5,6) unfolding home_ok_def h grown_def by (metis Un_iff)
qed

lemma iupdate_step:
  fixes s :: "'a kfs_scheme"
  assumes "room 1 1 s" "fs_geom s" "busy_blocks s = {}" "file_ok s i" "home_ok s i"
  shows "\<exists>t. iupdate i s = Ok () t \<and> lstep 1 s (view t) {} t \<and> fs_geom t \<and> file_ok t i \<and> fblock t i = fblock s i \<and> (\<forall>x<MAXFILE * BSIZE. fbyte t i x = fbyte s i x) \<and>
    (\<forall>x. x \<noteq> home s i \<longrightarrow> view t x = view s x) \<and> (\<forall>x. free_block t x \<longleftrightarrow> free_block s x)"
proof -
  let ?f = "put_dinode (inodes s ! i) (dip_offset (i_inum (inodes s ! i)))" and ?b = "home s i"
  have dev: "i_dev (inodes s ! i) = 1" using assms(4) by (simp add: file_ok_def)
  have h: "?b < disksize s" "?b \<notin> log_blocks s" "?b \<notin> bmap_blocks s" "?b \<noteq> iaddr s i NDIRECT" "\<forall>k<MAXFILE. fblock s i k \<noteq> ?b"
    using assms(5) by (auto simp: home_ok_def)
  have len: "length (view s ?b) = BSIZE" using view_length [of s] h(1) room_log_inv [OF assms(1)] by (simp add: log_inv_def)
  obtain t where t: "iupdate i s = Ok () t" "lstep 1 s ((view s)(?b := ?f (view s ?b))) {} t"
    using update_step [OF assms(1), of "IBLOCK (i_inum (inodes s ! i)) s" ?f] h assms(3) len dev
    by (auto simp: home_def [symmetric] iupdate_def Let_def put_dinode_def)
  note f = lstep_fields [OF t(2)]
  have "bitmap_of s y \<noteq> ?b" if "y < unat (sb_size (sb s))" for y using bitmap_of_mem [OF that] h(3) by auto
  then have fr: "free_block t = free_block s" using f(1,4,8) by (auto simp: free_block_def fun_eq_iff)
  have ia: "iaddr t i = iaddr s i" using f(3) by (simp add: iaddr_def fun_eq_iff)
  have fb: "fblock t i = fblock s i" using h(4) f(1) ia by (auto simp: fblock_def fun_eq_iff)
  have "fbyte t i x = fbyte s i x" if "x < MAXFILE * BSIZE" for x
  proof -
    have "x div BSIZE < MAXFILE" using that by (simp add: div_less_iff_less_mult)
    then show ?thesis using h(5) fb f(1) by (auto simp: fbyte_def)
  qed
  moreover have "fs_geom t" using assms(2) fr f(4,5,6,7) by (simp add: fs_geom_def)
  moreover have "file_ok t i" using assms(4) f(3,4,6,7) fr fb ia by (simp add: file_ok_def data_block_def)
  ultimately show ?thesis using t f(1) fb fr by (intro exI [of _ t]) auto
qed

text \<open>The size after a write, and what the write may not touch: every block in use by something else.\<close>

definition new_size :: "nat \<Rightarrow> nat \<Rightarrow> nat \<Rightarrow> nat" where
  "new_size z off n = (if 0 < n \<and> z < off + n then off + n else z)"

definition foreign :: "'a kfs_scheme \<Rightarrow> nat \<Rightarrow> nat \<Rightarrow> bool" where
  "foreign s i x \<longleftrightarrow> \<not> free_block s x \<and> x \<notin> bmap_blocks s \<and> x \<noteq> home s i \<and> x \<noteq> iaddr s i NDIRECT \<and> (\<forall>k<MAXFILE. x \<noteq> fblock s i k)"

lemma updi_fields:
  assumes "\<And>ip. i_addrs (f ip) = i_addrs ip" "i < length (inodes s)"
  shows "fblock (updi i f s) j = fblock s j" "fbyte (updi i f s) j = fbyte s j" "iaddr (updi i f s) j = iaddr s j"
proof -
  show a: "iaddr (updi i f s) j = iaddr s j" for j using assms by (cases "i = j") (simp_all add: iaddr_def updi_def fun_eq_iff)
  then show "fblock (updi i f s) j = fblock s j" by (simp add: fblock_def fun_eq_iff)
  then show "fbyte (updi i f s) j = fbyte s j" by (simp add: fbyte_def fun_eq_iff)
qed

lemma set_size_step:
  fixes s :: "'a kfs_scheme"
  assumes "room 1 2 s" "fs_geom s" "busy_blocks s = {}" "file_ok s i" "home_ok s i"
  shows "\<exists>t. iupdate i (updi i (\<lambda>ip. ip\<lparr>i_size := z\<rparr>) s) = Ok () t \<and> log_inv t \<and> room 0 2 t \<and> busy_blocks t = {} \<and> fs_geom t \<and> file_ok t i \<and>
    fblock t i = fblock s i \<and> (\<forall>x<MAXFILE * BSIZE. fbyte t i x = fbyte s i x) \<and> (\<forall>x. x \<noteq> home s i \<longrightarrow> view t x = view s x) \<and>
    inodes t = (inodes s)[i := (inodes s ! i)\<lparr>i_size := z\<rparr>]"
proof -
  let ?u = "updi i (\<lambda>ip. ip\<lparr>i_size := z\<rparr>) s"
  have il: "i < length (inodes s)" using assms(4) by (simp add: file_ok_def)
  note f = updi_fields [of "\<lambda>ip. ip\<lparr>i_size := z\<rparr>" i s, simplified, OF il]
  have h: "home ?u i = home s i" using il by (simp add: home_def IBLOCK_def updi_def)
  have fk: "file_ok ?u i" using assms(4) f il by (simp add: file_ok_def data_block_def) (simp add: updi_def)
  have hk: "home_ok ?u i" using assms(5) f by (simp add: home_ok_def h)
  have r: "room 1 1 ?u" using room_mono [OF assms(1)] by simp
  have g: "fs_geom ?u" "busy_blocks ?u = {}" using assms(2,3) by simp_all
  obtain t where t: "iupdate i ?u = Ok () t" "lstep 1 ?u (view t) {} t" "fs_geom t" "file_ok t i" "fblock t i = fblock ?u i"
      "\<forall>x<MAXFILE * BSIZE. fbyte t i x = fbyte ?u i x" "\<forall>x. x \<noteq> home ?u i \<longrightarrow> view t x = view ?u x"
    using iupdate_step [OF r g fk hk] by blast
  note l = lstep_fields [OF t(2)]
  have "room 0 2 t" by (rule room_step [OF _ t(2), of 0 2 0]) (use assms(1) in simp_all)
  moreover have "inodes ?u = (inodes s)[i := (inodes s ! i)\<lparr>i_size := z\<rparr>]" by (simp add: updi_def)
  ultimately show ?thesis using t l f h by (intro exI [of _ t]) simp
qed

lemma writei_content:
  fixes s :: "'a kcons_scheme"
  assumes rm: "room (6 * n + 1) 2 s" "fs_geom s" "busy_blocks s = {}" "file_ok s i" "home_ok s i" and ty: "i_type (inodes s ! i) \<noteq> T_DEV"
    and rng: "off \<le> i_size (inodes s ! i)" "unat off + length src \<le> MAXFILE * BSIZE" and fr: "2 * n \<le> nfree s"
    and nb: "unat off mod BSIZE + length src \<le> BSIZE * n"
  shows "\<exists>t. writei i src off s = Ok (int (length src)) t \<and> room 0 2 t \<and> fs_geom t \<and> busy_blocks t = {} \<and> file_ok t i \<and>
    unat (i_size (inodes t ! i)) = new_size (unat (i_size (inodes s ! i))) (unat off) (length src) \<and> i_type (inodes t ! i) = i_type (inodes s ! i) \<and>
    (\<forall>x<MAXFILE * BSIZE. fbyte t i x = (if unat off \<le> x \<and> x < unat off + length src then src ! (x - unat off) else fbyte s i x)) \<and>
    filled t i (unat off) (unat off + length src) \<and> (\<forall>j. j \<noteq> i \<longrightarrow> inodes t ! j = inodes s ! j) \<and> (\<forall>x. foreign s i x \<longrightarrow> view t x = view s x)"
proof -
  let ?o = "unat off" and ?n = "length src"
  have il: "i < length (inodes s)" using rm(4) by (simp add: file_ok_def)
  have ls: "?n < 2 ^ 31" using rng(2) by simp
  then have un: "unat (of_nat ?n :: uint32) = ?n" by (intro unat_of_nat_32) simp
  have so: "unat (off + of_nat ?n) = ?o + ?n" using unat_add_no_wrap [of off "of_nat ?n"] un rng(2) by simp
  have nw: "\<not> off + of_nat ?n < off" "\<not> MAXFILE * BSIZE < unat (off + of_nat ?n)" using so rng(2) by (simp_all add: word_less_nat_alt)
  obtain u where u: "writei_loop i src ?o s = Ok () u" "fstep (6 * n) i s (view u) u" "grown i s u" "filled u i ?o (?o + ?n)"
      "\<forall>x<MAXFILE * BSIZE. fbyte u i x = (if ?o \<le> x \<and> x < ?o + ?n then src ! (x - ?o) else fbyte s i x)"
    using writei_loop_writes [OF room_mono [OF rm(1)] rm(2-4) rng(2) fr] nb by auto
  note fu = fstep_fields [OF u(2)] and h = home_fstep [OF rm(5) u(2,3) il]
  have gu: "fs_geom u" "file_ok u i" "busy_blocks u = {}" using u(3) fu(2) rm(3) by (simp_all add: grown_def)
  have ru: "room 1 2 u" by (rule room_fstep [OF _ u(2)]) (use rm(1) in \<open>simp add: add.commute\<close>)
  have iu: "inodes u ! i = (inodes s ! i)\<lparr>i_addrs := i_addrs (inodes u ! i)\<rparr>" by (rule fu(11) [OF il])
  have sz: "i_size (inodes u ! i) = i_size (inodes s ! i)" "i_type (inodes u ! i) = i_type (inodes s ! i)"
    using arg_cong [OF iu, of i_size] arg_cong [OF iu, of i_type] by simp_all
  have fg: "view u x = view s x" if "foreign s i x" for x using u(3) that by (simp add: grown_def foreign_def)
  let ?c = "of_nat ?n > (0 :: uint32) \<and> off + of_nat ?n > i_size (inodes u ! i)"
  have w: "writei i src off s = mbind (if ?c then iupdate i (updi i (\<lambda>ip. ip\<lparr>i_size := off + of_nat ?n\<rparr>) u) else Ok () u) (\<lambda>_ s. Ok (int ?n) s)"
    using ty rng(1) nw u(1) sint_small [OF ls] by (auto simp: writei_def Let_def)
  show ?thesis
  proof (cases ?c)
    case True
    obtain t where t: "iupdate i (updi i (\<lambda>ip. ip\<lparr>i_size := off + of_nat ?n\<rparr>) u) = Ok () t" "room 0 2 t" "busy_blocks t = {}" "fs_geom t" "file_ok t i"
        "fblock t i = fblock u i" "\<forall>x<MAXFILE * BSIZE. fbyte t i x = fbyte u i x" "\<forall>x. x \<noteq> home u i \<longrightarrow> view t x = view u x"
        "inodes t = (inodes u)[i := (inodes u ! i)\<lparr>i_size := off + of_nat ?n\<rparr>]"
      using set_size_step [OF ru gu(1,3,2) h(2)] by blast
    have "filled t i ?o (?o + ?n)" using u(4) t(6) by (simp add: filled_def)
    moreover have "view t x = view s x" if "foreign s i x" for x using fg [OF that] t(8) that h(1) by (simp add: foreign_def)
    moreover have "unat (i_size (inodes t ! i)) = new_size (unat (i_size (inodes s ! i))) ?o ?n"
      using True so un il fu(9) t(9) sz(1) by (auto simp: new_size_def word_less_nat_alt)
    moreover have "i_type (inodes t ! i) = i_type (inodes s ! i)" using t(9) il fu(9) sz(2) by simp
    ultimately show ?thesis using True w t u(5) fu(10) by (intro exI [of _ t]) simp
  next
    case False
    then have "new_size (unat (i_size (inodes s ! i))) ?o ?n = unat (i_size (inodes s ! i))"
      using so un sz(1) by (auto simp: new_size_def word_less_nat_alt)
    moreover have "writei i src off s = Ok (int ?n) u" using w unfolding if_not_P [OF False] by simp
    ultimately show ?thesis using u(4,5) gu fg sz fu(10) room_mono [OF ru, of 0 2] by (intro exI [of _ u]) simp
  qed
qed

text \<open>C2. What is written is read back: with room in the transaction and enough free blocks \<open>writei\<close> writes all the bytes, wherever they
  fall on block boundaries and whether or not blocks have to be allocated, and \<open>readi\<close> of the same range returns them. All
  other bytes of the file stay, the size grows to the end of the range if it was smaller, and no other inode and no block in use by
  anything else changes.\<close>

theorem writei_readi:
  fixes s :: "'a kcons_scheme"
  assumes "room (6 * n + 1) 2 s" "fs_geom s" "busy_blocks s = {}" "file_ok s i" "home_ok s i" "i_type (inodes s ! i) \<noteq> T_DEV"
    and "off \<le> i_size (inodes s ! i)" "unat off + length src \<le> MAXFILE * BSIZE" "2 * n \<le> nfree s"
    and "unat off mod BSIZE + length src \<le> BSIZE * n" "unat (i_size (inodes s ! i)) \<le> MAXFILE * BSIZE"
  shows "\<exists>t u. writei i src off s = Ok (int (length src)) t \<and> readi i off (of_nat (length src)) t = Ok (int (length src), src) u \<and>
    (\<forall>x<MAXFILE * BSIZE. x < unat off \<or> unat off + length src \<le> x \<longrightarrow> fbyte t i x = fbyte s i x) \<and>
    unat (i_size (inodes t ! i)) = new_size (unat (i_size (inodes s ! i))) (unat off) (length src) \<and> log_inv t \<and> fs_geom t \<and> file_ok t i \<and>
    (\<forall>j. j \<noteq> i \<longrightarrow> inodes t ! j = inodes s ! j) \<and> (\<forall>x. foreign s i x \<longrightarrow> view t x = view s x)"
proof -
  let ?o = "unat off" and ?n = "length src"
  obtain t where t: "writei i src off s = Ok (int ?n) t" "room 0 2 t" "fs_geom t" "busy_blocks t = {}" "file_ok t i"
      "unat (i_size (inodes t ! i)) = new_size (unat (i_size (inodes s ! i))) ?o ?n" "i_type (inodes t ! i) = i_type (inodes s ! i)"
      "\<forall>x<MAXFILE * BSIZE. fbyte t i x = (if ?o \<le> x \<and> x < ?o + ?n then src ! (x - ?o) else fbyte s i x)"
      "filled t i ?o (?o + ?n)" "\<forall>j. j \<noteq> i \<longrightarrow> inodes t ! j = inodes s ! j" "\<forall>x. foreign s i x \<longrightarrow> view t x = view s x"
    using writei_content [OF assms(1-10)] by blast
  have "?n < 2 ^ 32" using assms(8) by simp
  then have un: "unat (of_nat ?n :: uint32) = ?n" by (rule unat_of_nat_32)
  have "\<not> off + of_nat ?n < off" using unat_add_no_wrap [of off "of_nat ?n"] un assms(8) by (simp add: word_less_nat_alt)
  moreover have le: "?o \<le> unat (i_size (inodes s ! i))" using assms(7) by (simp add: word_le_nat_alt)
  then have "off \<le> i_size (inodes t ! i)" "?n \<le> unat (i_size (inodes t ! i)) - ?o" "unat (i_size (inodes t ! i)) \<le> MAXFILE * BSIZE"
    using t(6) assms(8,11) by (auto simp: new_size_def word_le_nat_alt split: if_splits)
  moreover have "map (fbyte t i) [?o..<?o + ?n] = src" by (rule nth_equalityI) (use t(8) assms(8) in auto)
  ultimately obtain u where u: "readi i off (of_nat ?n) t = Ok (int ?n, src) u"
    using readi_content [OF room_mono [OF t(2)] t(3,4,5), of 0 off "of_nat ?n"] assms(6) t(7,9) un by (auto simp: min_def)
  then show ?thesis using t room_log_inv [OF t(2)] by (intro exI [of _ t] exI [of _ u]) auto
qed

lemma writei_readi_witness: "\<exists>t u. writei 0 [120, 121] 2 kfs2 = Ok 2 t \<and> readi 0 2 2 t = Ok (2, [120, 121]) u \<and> unat (i_size (inodes t ! 0)) = 4"
proof -
  have h: "home kfs2 0 = 18" by (simp add: home_def IBLOCK_def kfs2_fields file_inode_def)
  have "home_ok kfs2 0" using kfs2_file(1,2) by (auto simp: home_ok_def h kfs2_geom kfs2_free kfs2_fields)
  from writei_readi [of 1 kfs2 0 2 "[120, 121]", OF _ kfs2_geom(1) kfs2_cache(2) kfs2_file(3) this] kfs2_room(2) kfs2_file(4,5,7)
  show ?thesis by (auto simp: new_size_def)
qed

end
