(* ===== verification/Pipe.thy ===== *)
theory Pipe
  imports Dir Ring
begin

text \<open>
  Open files (\<open>file.c\<close>) and pipes (\<open>pipe.c\<close>). A pipe lives in a page from \<open>kalloc\<close>; the model keeps its fields beside
  the page, under the page's address.
\<close>

section \<open>State\<close>

abbreviation (input) PIPESIZE :: nat where "PIPESIZE \<equiv> 512"

record pipe =
  pi_data :: "uchar list"
  pi_nread :: uint32
  pi_nwrite :: uint32
  pi_readopen :: bool
  pi_writeopen :: bool

datatype fdtype = FD_NONE | FD_PIPE | FD_INODE

record file_s =
  f_type :: fdtype
  f_ref :: int
  f_readable :: bool
  f_writable :: bool
  f_pipe :: uint32
  f_ip :: "nat option"
  f_off :: uint32

record kfile = kcons +
  ftable :: "file_s list"
  pipes :: "uint32 \<Rightarrow> pipe"

definition updf :: "nat \<Rightarrow> (file_s \<Rightarrow> file_s) \<Rightarrow> 'a kfile_scheme \<Rightarrow> 'a kfile_scheme" where
  "updf i f s = s\<lparr>ftable := (ftable s)[i := f (ftable s ! i)]\<rparr>"

definition updpipe :: "uint32 \<Rightarrow> (pipe \<Rightarrow> pipe) \<Rightarrow> 'a kfile_scheme \<Rightarrow> 'a kfile_scheme" where
  "updpipe p f s = s\<lparr>pipes := (pipes s)(p := f (pipes s p))\<rparr>"


section \<open>Pipes\<close>

text \<open>One byte into a pipe that is not full, and out of one that is not empty.\<close>

definition pipe_put :: "uchar \<Rightarrow> pipe \<Rightarrow> pipe option" where
  "pipe_put c p = (if pi_nwrite p = pi_nread p + of_nat PIPESIZE then None
     else Some (p\<lparr>pi_data := (pi_data p)[unat (pi_nwrite p) mod PIPESIZE := c], pi_nwrite := pi_nwrite p + 1\<rparr>))"

definition pipe_get :: "pipe \<Rightarrow> (uchar \<times> pipe) option" where
  "pipe_get p = (if pi_nread p = pi_nwrite p then None
     else Some (pi_data p ! (unat (pi_nread p) mod PIPESIZE), p\<lparr>pi_nread := pi_nread p + 1\<rparr>))"

definition pipeclose :: "uint32 \<Rightarrow> bool \<Rightarrow> 'a kfile_scheme \<Rightarrow> (unit, 'a kfile_scheme) outcome" where
  "pipeclose p w s =
    (let s = (if w then wakeup (ChanPipeRead p) (updpipe p (\<lambda>q. q\<lparr>pi_writeopen := False\<rparr>) s)
              else wakeup (ChanPipeWrite p) (updpipe p (\<lambda>q. q\<lparr>pi_readopen := False\<rparr>) s))
     in if \<not> pi_readopen (pipes s p) \<and> \<not> pi_writeopen (pipes s p) then kfree p s else Ok () s)"

text \<open>
  The buffer of a write is the list of its bytes, of which the first \<open>n\<close> are written; a negative \<open>n\<close> writes none.
  The loop of \<open>pipewrite\<close> runs over the bytes still to be written, and its result is whether all were. When it sleeps, the bytes
  written so far are in the pipe and the loop goes on with the rest.
\<close>

fun pipewrite_loop :: "uint32 \<Rightarrow> uchar list \<Rightarrow> 'a kfile_scheme \<Rightarrow> (bool, 'a kfile_scheme) outcome" where
  "pipewrite_loop p [] s = Ok True s"
| "pipewrite_loop p (c # cs) s =
    (case pipe_put c (pipes s p) of
       None \<Rightarrow> if \<not> pi_readopen (pipes s p) then Ok False s
         else mbind (mcur s) (\<lambda>i s.
           if p_killed (procs s ! i) then Ok False s
           else sleep (ChanPipeWrite p) (wakeup (ChanPipeRead p) s))
     | Some q \<Rightarrow> pipewrite_loop p cs (updpipe p (\<lambda>_. q) s))"

definition pipewrite :: "uint32 \<Rightarrow> uchar list \<Rightarrow> int \<Rightarrow> 'a kfile_scheme \<Rightarrow> (int, 'a kfile_scheme) outcome" where
  "pipewrite p cs n s = mbind (pipewrite_loop p (take (nat n) cs) s) (\<lambda>ok s.
     if ok then Ok n (wakeup (ChanPipeRead p) s) else Ok (- 1) s)"

fun piperead_loop :: "uint32 \<Rightarrow> nat \<Rightarrow> 'a kfile_scheme \<Rightarrow> uchar list \<times> 'a kfile_scheme" where
  "piperead_loop p 0 s = ([], s)"
| "piperead_loop p (Suc n) s =
    (case pipe_get (pipes s p) of None \<Rightarrow> ([], s)
     | Some (c, q) \<Rightarrow> (let (cs, s) = piperead_loop p n (updpipe p (\<lambda>_. q) s) in (c # cs, s)))"

definition piperead :: "uint32 \<Rightarrow> int \<Rightarrow> 'a kfile_scheme \<Rightarrow> (int \<times> uchar list, 'a kfile_scheme) outcome" where
  "piperead p n s =
    (if pi_nread (pipes s p) = pi_nwrite (pipes s p) \<and> pi_writeopen (pipes s p) then
       mbind (mcur s) (\<lambda>i s. if p_killed (procs s ! i) then Ok (- 1, []) s else sleep (ChanPipeRead p) s)
     else let (cs, s) = piperead_loop p (nat n) s
       in Ok (int (length cs), cs) (wakeup (ChanPipeWrite p) s))"


section \<open>Open files\<close>

definition filealloc :: "'a kfile_scheme \<Rightarrow> (nat \<times> 'a kfile_scheme) option" where
  "filealloc s = (case ffind (\<lambda>f. f_ref f = 0) (ftable s) of None \<Rightarrow> None
     | Some i \<Rightarrow> Some (i, updf i (\<lambda>f. f\<lparr>f_ref := 1\<rparr>) s))"

definition filedup :: "nat \<Rightarrow> 'a kfile_scheme \<Rightarrow> (nat, 'a kfile_scheme) outcome" where
  "filedup i s = (if f_ref (ftable s ! i) < 1 then Panic ''filedup''
     else Ok i (updf i (\<lambda>f. f\<lparr>f_ref := f_ref f + 1\<rparr>) s))"

definition fileclose :: "nat \<Rightarrow> 'a kfile_scheme \<Rightarrow> (unit, 'a kfile_scheme) outcome" where
  "fileclose i s =
    (let ff = ftable s ! i in
     if f_ref ff < 1 then Panic ''fileclose''
     else if f_ref ff - 1 > 0 then Ok () (updf i (\<lambda>f. f\<lparr>f_ref := f_ref f - 1\<rparr>) s)
     else let s = updf i (\<lambda>f. f\<lparr>f_ref := 0, f_type := FD_NONE\<rparr>) s in
       case f_type ff of
         FD_PIPE \<Rightarrow> pipeclose (f_pipe ff) (f_writable ff) s
       | FD_INODE \<Rightarrow> mbind (begin_op s) (\<lambda>_ s. mbind (iput (f_ip ff) s) (\<lambda>_ s. end_op s))
       | FD_NONE \<Rightarrow> Ok () s)"

text \<open>\<open>pipealloc\<close>: on success the read end and the write end; on every failure what was allocated is given back.\<close>

definition pipealloc :: "'a kfile_scheme \<Rightarrow> ((nat \<times> nat) option, 'a kfile_scheme) outcome" where
  "pipealloc s =
    (case filealloc s of
       None \<Rightarrow> Ok None s
     | Some (f0, s) \<Rightarrow>
         (case filealloc s of
            None \<Rightarrow> mbind (fileclose f0 s) (\<lambda>_ s. Ok None s)
          | Some (f1, s) \<Rightarrow> mbind (kalloc s) (\<lambda>p s.
              if p = 0 then mbind (fileclose f0 s) (\<lambda>_ s. mbind (fileclose f1 s) (\<lambda>_ s. Ok None s))
              else Ok (Some (f0, f1))
                (updf f1 (\<lambda>f. f\<lparr>f_type := FD_PIPE, f_readable := False, f_writable := True, f_pipe := p\<rparr>)
                (updf f0 (\<lambda>f. f\<lparr>f_type := FD_PIPE, f_readable := True, f_writable := False, f_pipe := p\<rparr>)
                (updpipe p (\<lambda>q. q\<lparr>pi_readopen := True, pi_writeopen := True, pi_nwrite := 0, pi_nread := 0\<rparr>) s))))))"

definition filestat :: "nat \<Rightarrow> 'a kfile_scheme \<Rightarrow> (stat option, 'a kfile_scheme) outcome" where
  "filestat i s =
    (let f = ftable s ! i in
     if f_type f = FD_INODE then
       mbind (ilock (f_ip f) s) (\<lambda>_ s. case f_ip f of None \<Rightarrow> null_deref
         | Some ip \<Rightarrow> let st = stati (inodes s ! ip) in mbind (iunlock (f_ip f) s) (\<lambda>_ s. Ok (Some st) s))
     else Ok None s)"

definition fileread :: "nat \<Rightarrow> int \<Rightarrow> 'a kfile_scheme \<Rightarrow> (int \<times> uchar list, 'a kfile_scheme) outcome" where
  "fileread i n s =
    (let f = ftable s ! i in
     if \<not> f_readable f then Ok (- 1, []) s
     else case f_type f of
       FD_PIPE \<Rightarrow> piperead (f_pipe f) n s
     | FD_INODE \<Rightarrow> (case f_ip f of None \<Rightarrow> Panic ''ilock''
         | Some ip \<Rightarrow> mbind (ilock (Some ip) s) (\<lambda>_ s.
             mbind (readi ip (f_off (ftable s ! i)) (word_of_int n) s) (\<lambda>(r, cs) s.
             let s = (if r > 0 then updf i (\<lambda>f. f\<lparr>f_off := f_off f + word_of_int r\<rparr>) s else s) in
             mbind (iunlock (Some ip) s) (\<lambda>_ s. Ok (r, cs) s))))
     | FD_NONE \<Rightarrow> Panic ''fileread'')"

text \<open>The chunks of \<open>filewrite\<close>, each its own transaction; \<open>max\<close> is the chunk size of the code.\<close>

definition write_max :: nat where
  "write_max = ((LOGSIZE - 1 - 1 - 2) div 2) * 512"

function filewrite_loop :: "nat \<Rightarrow> nat \<Rightarrow> uchar list \<Rightarrow> 'a kfile_scheme \<Rightarrow> (bool, 'a kfile_scheme) outcome" where
  "filewrite_loop i ip cs s =
    (if cs = [] then Ok True s
     else let chunk = take write_max cs in
       mbind (begin_op s) (\<lambda>_ s.
       mbind (ilock (Some ip) s) (\<lambda>_ s.
       mbind (writei ip chunk (f_off (ftable s ! i)) s) (\<lambda>r s.
       let s = (if r > 0 then updf i (\<lambda>f. f\<lparr>f_off := f_off f + word_of_int r\<rparr>) s else s) in
       mbind (iunlock (Some ip) s) (\<lambda>_ s.
       mbind (end_op s) (\<lambda>_ s.
         if r < 0 then Ok False s
         else if r \<noteq> int (length chunk) then Panic ''short filewrite''
         else filewrite_loop i ip (drop write_max cs) s))))))"
  by auto
termination by (relation "measure (\<lambda>(i, ip, cs, s). length cs)") (auto simp: write_max_def)

definition filewrite :: "nat \<Rightarrow> uchar list \<Rightarrow> int \<Rightarrow> 'a kfile_scheme \<Rightarrow> (int, 'a kfile_scheme) outcome" where
  "filewrite i cs n s =
    (let f = ftable s ! i in
     if \<not> f_writable f then Ok (- 1) s
     else case f_type f of
       FD_PIPE \<Rightarrow> pipewrite (f_pipe f) cs n s
     | FD_INODE \<Rightarrow> (case f_ip f of None \<Rightarrow> Panic ''ilock''
         | Some ip \<Rightarrow> if n < 0 then Ok (- 1) s
             else mbind (filewrite_loop i ip (take (nat n) cs) s) (\<lambda>ok s. Ok (if ok then n else - 1) s))
     | FD_NONE \<Rightarrow> Panic ''filewrite'')"


section \<open>The pipe as a queue\<close>

definition pipe_ok :: "pipe \<Rightarrow> bool" where
  "pipe_ok p \<longleftrightarrow> length (pi_data p) = PIPESIZE \<and> unat (pi_nwrite p - pi_nread p) \<le> PIPESIZE"

definition pipe_queue :: "pipe \<Rightarrow> uchar list" where
  "pipe_queue p = ring_list (pi_data p) (pi_nread p) (pi_nwrite p)"

lemma pipe_full: "pi_nwrite p = pi_nread p + of_nat PIPESIZE \<longleftrightarrow> unat (pi_nwrite p - pi_nread p) = PIPESIZE"
proof -
  have "pi_nwrite p = pi_nread p + of_nat PIPESIZE \<longleftrightarrow> pi_nwrite p - pi_nread p = (512 :: uint32)"
    by (simp add: diff_eq_eq add.commute)
  then show ?thesis by (simp add: word_unat_eq_iff)
qed

lemma pipe_push_law:
  assumes "pipe_ok p"
  shows "case pipe_put c p of None \<Rightarrow> length (pipe_queue p) = PIPESIZE
    | Some q \<Rightarrow> pipe_ok q \<and> length (pipe_queue p) < PIPESIZE \<and> pipe_queue q = pipe_queue p @ [c]"
proof (cases "pi_nwrite p = pi_nread p + of_nat PIPESIZE")
  case True
  then show ?thesis using pipe_full [of p] by (simp add: pipe_put_def pipe_queue_def)
next
  case False
  then have lt: "unat (pi_nwrite p - pi_nread p) < PIPESIZE" using assms pipe_full [of p] by (auto simp: pipe_ok_def)
  have len: "length (pi_data p) = 512" using assms by (simp add: pipe_ok_def)
  have q: "ring_list ((pi_data p)[unat (pi_nwrite p) mod 512 := c]) (pi_nread p) (pi_nwrite p + 1) = pipe_queue p @ [c]"
    using ring_list_push [of "pi_nwrite p" "pi_nread p" "pi_data p" c] lt len by (simp add: pipe_queue_def)
  have n: "unat (pi_nwrite p + 1 - pi_nread p) = Suc (unat (pi_nwrite p - pi_nread p))"
    using arg_cong [OF q, of length] by (simp add: pipe_queue_def)
  show ?thesis using False lt len q n by (simp add: pipe_put_def pipe_ok_def pipe_queue_def)
qed

lemma pipe_pop_law:
  assumes "pipe_ok p"
  shows "case pipe_get p of None \<Rightarrow> pipe_queue p = [] | Some (c, q) \<Rightarrow> pipe_ok q \<and> pipe_queue p = c # pipe_queue q"
proof (cases "pi_nread p = pi_nwrite p")
  case False
  have r: "pipe_queue p = pi_data p ! (unat (pi_nread p) mod 512) # ring_list (pi_data p) (pi_nread p + 1) (pi_nwrite p)"
    using ring_list_pop [OF False, of "pi_data p"] assms by (simp add: pipe_queue_def pipe_ok_def)
  have n: "unat (pi_nwrite p - pi_nread p) = Suc (unat (pi_nwrite p - (pi_nread p + 1)))"
    using arg_cong [OF r, of length] by (simp add: pipe_queue_def)
  show ?thesis using False assms r n by (simp add: pipe_get_def pipe_ok_def pipe_queue_def)
qed (simp add: pipe_get_def pipe_queue_def)

interpretation pq: fifo pipe_put pipe_get pipe_queue pipe_ok PIPESIZE
  by unfold_locales (rule pipe_push_law pipe_pop_law | simp add: pipe_ok_def pipe_queue_def)+


section \<open>Whole reads and writes\<close>

lemma updpipe_simps [simp]:
  "pipes (updpipe p f s) q = (if q = p then f (pipes s p) else pipes s q)" "procs (updpipe p f s) = procs s"
  "cur (updpipe p f s) = cur s" "updpipe p f (updpipe p g s) = updpipe p (\<lambda>x. f (g x)) s"
  by (simp_all add: updpipe_def)

lemma updpipe_id [simp]: "updpipe p (\<lambda>_. pipes s p) s = s"
  by (simp add: updpipe_def)

lemma updpipe_same: "updpipe p (\<lambda>_. q) s = updpipe p (\<lambda>_. r) s \<longleftrightarrow> q = r"
  by (metis updpipe_simps(1))

lemma wakeup_pipes [simp]: "pipes (wakeup ch s) = pipes s"
  by (simp add: wakeup_def wakeup1_def Let_def)

lemma wakeup_procs [simp]: "procs (wakeup ch s) = map (wake ch) (procs s)"
  by (simp add: wakeup_def wakeup1_def Let_def)

lemma wakeup_cur [simp]: "cur (wakeup ch s) = cur s"
  by (simp add: wakeup_def wakeup1_def Let_def)

text \<open>The bytes a pipe takes in, as many as fit, and the pipe that holds them.\<close>

fun pipe_puts :: "uchar list \<Rightarrow> pipe \<Rightarrow> pipe" where
  "pipe_puts [] q = q"
| "pipe_puts (c # cs) q = (case pipe_put c q of None \<Rightarrow> q | Some r \<Rightarrow> pipe_puts cs r)"

lemma pipe_put_open: "pipe_put c q = Some r \<Longrightarrow> pi_readopen r = pi_readopen q \<and> pi_writeopen r = pi_writeopen q"
  by (auto simp: pipe_put_def split: if_splits)

lemma pipe_get_open: "pipe_get q = Some (c, r) \<Longrightarrow> pi_readopen r = pi_readopen q \<and> pi_writeopen r = pi_writeopen q"
  by (auto simp: pipe_get_def split: if_splits)

lemma pipe_puts_queue:
  "pipe_ok q \<Longrightarrow> pipe_ok (pipe_puts cs q) \<and>
    pipe_queue (pipe_puts cs q) = pipe_queue q @ take (PIPESIZE - length (pipe_queue q)) cs \<and>
    pi_readopen (pipe_puts cs q) = pi_readopen q \<and> pi_writeopen (pipe_puts cs q) = pi_writeopen q"
proof (induction cs arbitrary: q)
  case (Cons c cs)
  show ?case
  proof (cases "pipe_put c q")
    case None
    then show ?thesis using pq.push [OF Cons.prems, of c] Cons.prems by simp
  next
    case (Some r)
    have r: "pipe_ok r" "length (pipe_queue q) < PIPESIZE" "pipe_queue r = pipe_queue q @ [c]"
      using pq.push [OF Cons.prems, of c] Some by auto
    have "PIPESIZE - length (pipe_queue q) = Suc (PIPESIZE - length (pipe_queue r))" using r(2,3) by simp
    then show ?thesis using Cons.IH [OF r(1)] Some r(3) pipe_put_open [OF Some] by simp
  qed
qed simp

text \<open>What the loop of \<open>pipewrite\<close> does: it fills the pipe, and then finishes, gives up or sleeps.\<close>

lemma pipewrite_loop_spec:
  assumes "pipe_ok (pipes s p)" "cur s = Some i" "i < length (procs s)"
  shows "pipewrite_loop p cs s =
    (let t = updpipe p (\<lambda>_. pipe_puts cs (pipes s p)) s in
     if length cs \<le> PIPESIZE - length (pipe_queue (pipes s p)) then Ok True t
     else if \<not> pi_readopen (pipes s p) \<or> p_killed (procs s ! i) then Ok False t
     else sleep (ChanPipeWrite p) (wakeup (ChanPipeRead p) t))"
  using assms
proof (induction cs arbitrary: s)
  case (Cons c cs)
  show ?case
  proof (cases "pipe_put c (pipes s p)")
    case None
    then have "length (pipe_queue (pipes s p)) = PIPESIZE" using pq.push [OF Cons.prems(1), of c] by simp
    then show ?thesis using None Cons.prems(2,3) by (simp add: mcur_def)
  next
    case (Some r)
    have r: "pipe_ok r" "length (pipe_queue (pipes s p)) < PIPESIZE" "pipe_queue r = pipe_queue (pipes s p) @ [c]"
      using pq.push [OF Cons.prems(1), of c] Some by auto
    have l: "length (c # cs) \<le> PIPESIZE - length (pipe_queue (pipes s p)) \<longleftrightarrow> length cs \<le> PIPESIZE - length (pipe_queue r)"
      using r(2,3) by auto
    let ?s = "updpipe p (\<lambda>_. r) s"
    have "pipe_ok (pipes ?s p)" "cur ?s = Some i" "i < length (procs ?s)" using r(1) Cons.prems(2,3) by simp_all
    from Cons.IH [OF this] show ?thesis using Some l pipe_put_open [OF Some] by (simp add: Let_def)
  qed
qed (simp add: Let_def)

lemma piperead_loop_spec:
  assumes "pipe_ok (pipes s p)"
  shows "\<exists>q. piperead_loop p n s = (take n (pipe_queue (pipes s p)), updpipe p (\<lambda>_. q) s) \<and> pipe_ok q \<and>
    pipe_queue q = drop n (pipe_queue (pipes s p)) \<and> pi_readopen q = pi_readopen (pipes s p) \<and>
    pi_writeopen q = pi_writeopen (pipes s p)"
  using assms
proof (induction n arbitrary: s)
  case 0
  then show ?case by (intro exI [of _ "pipes s p"]) simp
next
  case (Suc n)
  show ?case
  proof (cases "pipe_get (pipes s p)")
    case None
    then have "pipe_queue (pipes s p) = []" using pq.pop [OF Suc.prems] by simp
    then show ?thesis using None Suc.prems by (intro exI [of _ "pipes s p"]) simp
  next
    case (Some cr)
    obtain c r where cr: "cr = (c, r)" by (cases cr)
    have r: "pipe_ok r" "pipe_queue (pipes s p) = c # pipe_queue r" using pq.pop [OF Suc.prems] Some cr by auto
    have "pipe_ok (pipes (updpipe p (\<lambda>_. r) s) p)" using r(1) by simp
    from Suc.IH [OF this] show ?thesis using Some cr r(2) pipe_get_open [of "pipes s p" c r] by auto
  qed
qed

text \<open>C13. A pipe is a queue of at most 512 bytes: under any interleaving of bytes written and bytes read, what
comes out of it is what went in, in order, also across the wrap-around of the 32-bit counters.\<close>

theorem pipe_fifo:
  assumes "pipe_ok p" "queue_run pipe_put pipe_get ops p = (ins, outs, q)"
  shows "pipe_queue p @ ins = outs @ pipe_queue q \<and> length (pipe_queue q) \<le> PIPESIZE \<and> pipe_ok q"
  using pq.run_fifo [OF assms] pq.bounded by blast

text \<open>C34. \<open>pipewrite\<close> never panics. It appends all the bytes and wakes every reader, or it appends as many as fit,
which leaves the pipe full, and then fails if there is no reader any more or the writer was killed, and otherwise
wakes every reader and goes to sleep. A write that fails keeps what it has put into the pipe and changes no process.\<close>

theorem pipewrite_exact:
  assumes "pipe_ok (pipes s p)" "cur s = Some i" "i < length (procs s)"
  shows "case pipewrite p cs (int (length cs)) s of
      Ok r t \<Rightarrow> pipe_ok (pipes t p) \<and>
        (if length (pipe_queue (pipes s p)) + length cs \<le> PIPESIZE
         then r = int (length cs) \<and> pipe_queue (pipes t p) = pipe_queue (pipes s p) @ cs \<and>
           procs t = map (wake (ChanPipeRead p)) (procs s)
         else r = - 1 \<and> (\<not> pi_readopen (pipes s p) \<or> p_killed (procs s ! i)) \<and>
           length (pipe_queue (pipes t p)) = PIPESIZE \<and>
           (\<exists>m. pipe_queue (pipes t p) = pipe_queue (pipes s p) @ take m cs \<and> m < length cs) \<and> procs t = procs s)
    | Sleep ch t \<Rightarrow> ch = ChanPipeWrite p \<and> pi_readopen (pipes s p) \<and> \<not> p_killed (procs s ! i) \<and>
        length (pipe_queue (pipes t p)) = PIPESIZE \<and>
        (\<exists>m. pipe_queue (pipes t p) = pipe_queue (pipes s p) @ take m cs \<and> m < length cs) \<and>
        (\<forall>j<length (procs s). j \<noteq> i \<longrightarrow> procs t ! j = wake (ChanPipeRead p) (procs s ! j))
    | Panic m \<Rightarrow> False"
proof -
  let ?q = "pipe_puts cs (pipes s p)"
  have q: "pipe_ok ?q" "pipe_queue ?q = pipe_queue (pipes s p) @ take (PIPESIZE - length (pipe_queue (pipes s p))) cs"
    using pipe_puts_queue [OF assms(1), of cs] by auto
  have b: "length (pipe_queue (pipes s p)) \<le> PIPESIZE" by (rule pq.bounded [OF assms(1)])
  show ?thesis
  proof (cases "length cs \<le> PIPESIZE - length (pipe_queue (pipes s p))")
    case True
    then show ?thesis using pipewrite_loop_spec [OF assms, of cs] q b by (simp add: pipewrite_def Let_def)
  next
    case False
    then have m: "\<exists>m. take (PIPESIZE - length (pipe_queue (pipes s p))) cs = take m cs \<and> m < length cs"
      by (intro exI [of _ "PIPESIZE - length (pipe_queue (pipes s p))"]) simp
    show ?thesis
    proof (cases "\<not> pi_readopen (pipes s p) \<or> p_killed (procs s ! i)")
      case True
      then show ?thesis using False m pipewrite_loop_spec [OF assms, of cs] q b by (simp add: pipewrite_def Let_def)
    next
      case c: False
      show ?thesis using False c m pipewrite_loop_spec [OF assms, of cs] q b assms(2,3)
        by (simp add: pipewrite_def Let_def sleep_def updp_def)
    qed
  qed
qed

text \<open>A writer that is killed while the pipe is full gives up without waking anyone: the pipe then holds 512 bytes
and every process of the table is as before, so a reader that was asleep stays asleep.\<close>

theorem killed_writer_wakes_nobody:
  assumes "pipe_ok (pipes s p)" "cur s = Some i" "i < length (procs s)" "p_killed (procs s ! i)"
    and "PIPESIZE < length (pipe_queue (pipes s p)) + length cs"
  shows "\<exists>t. pipewrite p cs (int (length cs)) s = Ok (- 1) t \<and> procs t = procs s \<and> length (pipe_queue (pipes t p)) = PIPESIZE"
proof -
  have b: "length (pipe_queue (pipes s p)) \<le> PIPESIZE" by (rule pq.bounded [OF assms(1)])
  show ?thesis using pipewrite_loop_spec [OF assms(1-3), of cs] pipe_puts_queue [OF assms(1), of cs] assms(4,5) b
    by (simp add: pipewrite_def Let_def)
qed

text \<open>
  The steps that concern one pipe: the scheduler gives the processor to a process that is not asleep, a process is killed, and the
  running process, killed or not, writes, reads or closes an end, whatever ends are open. A step is labelled with what it is: a
  write with whether the writer was killed, the bytes asked for and the result; \<open>PWait\<close> is a write that goes to sleep.
\<close>

datatype pipe_event = PSwitch | PKill | PWrite bool int int | PWait | PRead | PClose bool

inductive pipe_step :: "uint32 \<Rightarrow> pipe_event \<Rightarrow> 'a kfile_scheme \<Rightarrow> 'a kfile_scheme \<Rightarrow> bool" where
  pswitch: "i < length (procs s) \<Longrightarrow> p_state (procs s ! i) \<in> {RUNNABLE, RUNNING} \<Longrightarrow>
    pipe_step p PSwitch s (updp i (\<lambda>r. r\<lparr>p_state := RUNNING\<rparr>) (s\<lparr>cur := Some i\<rparr>))"
| pkill: "kill pid s = Ok r t \<Longrightarrow> pipe_step p PKill s t"
| pwrite: "cur s = Some i \<Longrightarrow> i < length (procs s) \<Longrightarrow> pipewrite p cs n s = Ok r t \<Longrightarrow>
    pipe_step p (PWrite (p_killed (procs s ! i)) n r) s t"
| pwait: "cur s = Some i \<Longrightarrow> i < length (procs s) \<Longrightarrow> pipewrite p cs n s = Sleep ch t \<Longrightarrow> pipe_step p PWait s t"
| pread: "cur s = Some i \<Longrightarrow> i < length (procs s) \<Longrightarrow> piperead p n s \<in> {Ok r t, Sleep ch t} \<Longrightarrow> pipe_step p PRead s t"
| pclose: "pipeclose p w s = Ok u t \<Longrightarrow> pipe_step p (PClose w) s t"

inductive_cases pipe_stepE: "pipe_step p e s t"

inductive pipe_run :: "uint32 \<Rightarrow> 'a kfile_scheme \<Rightarrow> pipe_event list \<Rightarrow> 'a kfile_scheme \<Rightarrow> bool" where
  run_start: "pipe_run p s [] s"
| run_step: "pipe_run p s es t \<Longrightarrow> pipe_step p e t u \<Longrightarrow> pipe_run p s (es @ [e]) u"

text \<open>
  A write that ends well or waits wakes the readers, and so does closing the write end; a write that gives up does not.
  \<open>missed es readopen\<close>: some write gave up, because its writer was killed or (\<open>\<not> readopen\<close>) there is no read end, and
  nothing has woken the readers since.
\<close>

definition wakes_readers :: "pipe_event \<Rightarrow> bool" where
  "wakes_readers e = (case e of PWrite k n r \<Rightarrow> r = n | PWait \<Rightarrow> True | PClose w \<Rightarrow> w | _ \<Rightarrow> False)"

definition gives_up :: "pipe_event \<Rightarrow> bool \<Rightarrow> bool" where
  "gives_up e readopen = (case e of PWrite k n r \<Rightarrow> r \<noteq> n \<and> (k \<or> \<not> readopen) | _ \<Rightarrow> False)"

definition missed_after :: "pipe_event \<Rightarrow> (bool \<Rightarrow> bool) \<Rightarrow> bool \<Rightarrow> bool" where
  "missed_after e m readopen = (\<not> wakes_readers e \<and> (m readopen \<or> gives_up e readopen))"

definition missed :: "pipe_event list \<Rightarrow> bool \<Rightarrow> bool" where
  "missed es = foldl (\<lambda>m e. missed_after e m) (\<lambda>_. False) es"

lemma missed_cases: "missed es ro \<Longrightarrow> \<exists>xs k n r ys. es = xs @ PWrite k n r # ys \<and> r \<noteq> n \<and> (k \<or> \<not> ro) \<and> (\<forall>e\<in>set ys. \<not> wakes_readers e)"
proof (induction es rule: rev_induct)
  case (snoc e es)
  then have n: "\<not> wakes_readers e" and "missed es ro \<or> gives_up e ro" by (auto simp: missed_def missed_after_def)
  then consider "missed es ro" | k n r where "e = PWrite k n r" "r \<noteq> n" "k \<or> \<not> ro"
    by (cases e) (auto simp: gives_up_def)
  then show ?case
  proof cases
    case 1
    then obtain xs k m r ys where "es = xs @ PWrite k m r # ys" "r \<noteq> m \<and> (k \<or> \<not> ro) \<and> (\<forall>e\<in>set ys. \<not> wakes_readers e)"
      using snoc.IH by blast
    then have "es @ [e] = xs @ PWrite k m r # (ys @ [e])" "r \<noteq> m \<and> (k \<or> \<not> ro) \<and> (\<forall>e\<in>set (ys @ [e]). \<not> wakes_readers e)"
      using n by auto
    then show ?thesis by blast
  next
    case 2
    then have "es @ [e] = es @ PWrite k n r # []" "\<forall>e\<in>set []. \<not> wakes_readers e" by simp_all
    then show ?thesis using 2(2,3) by blast
  qed
qed (simp add: missed_def)

text \<open>
  A process that sleeps on a pipe has a reason to: a reader sleeps only while the pipe is empty and some writer is left, a
  writer only while it is full and some reader is left; the exception are readers when a wakeup was missed.
\<close>

definition waits_ok :: "(bool \<Rightarrow> bool) \<Rightarrow> uint32 \<Rightarrow> pipe \<Rightarrow> proc \<Rightarrow> bool" where
  "waits_ok m p q r \<longleftrightarrow> p_state r \<noteq> SLEEPING \<or>
    (p_chan r = Some (ChanPipeRead p) \<longrightarrow> pipe_queue q = [] \<and> pi_writeopen q \<or> m (pi_readopen q)) \<and>
    (p_chan r = Some (ChanPipeWrite p) \<longrightarrow> length (pipe_queue q) = PIPESIZE \<and> pi_readopen q)"

definition pipe_inv :: "(bool \<Rightarrow> bool) \<Rightarrow> uint32 \<Rightarrow> 'a kfile_scheme \<Rightarrow> bool" where
  "pipe_inv m p s \<longleftrightarrow> pipe_ok (pipes s p) \<and> (\<forall>r\<in>set (procs s). waits_ok m p (pipes s p) r)"

definition pipe_left :: "(bool \<Rightarrow> bool) \<Rightarrow> uint32 \<Rightarrow> ('x, 'a kfile_scheme) outcome \<Rightarrow> bool" where
  "pipe_left m p r = (case r of Ok _ t \<Rightarrow> pipe_inv m p t | Sleep _ t \<Rightarrow> pipe_inv m p t | Panic _ \<Rightarrow> False)"

lemma waits_ok_mono: "waits_ok m p q r \<Longrightarrow> (\<And>ro. m ro \<Longrightarrow> m' ro) \<Longrightarrow> waits_ok m' p q r"
  by (auto simp: waits_ok_def)

lemma waits_ok_wake_read:
  "waits_ok m p q r \<Longrightarrow> length (pipe_queue q) < PIPESIZE \<or> pipe_queue q' = pipe_queue q \<Longrightarrow>
    pi_readopen q' = pi_readopen q \<Longrightarrow> waits_ok m' p q' (wake (ChanPipeRead p) r)"
  by (auto simp: waits_ok_def wake_def)

lemma waits_ok_wake_write:
  "waits_ok m p q r \<Longrightarrow> pipe_queue q = [] \<longrightarrow> pipe_queue q' = [] \<Longrightarrow> pi_writeopen q' = pi_writeopen q \<Longrightarrow>
    pi_readopen q' = pi_readopen q \<Longrightarrow> waits_ok m p q' (wake (ChanPipeWrite p) r)"
  by (auto simp: waits_ok_def wake_def)

lemma sleep_on_inv:
  assumes "pipe_inv m p s" "cur s = Some i" "i < length (procs s)"
    and "waits_ok m p (pipes s p) ((procs s ! i)\<lparr>p_chan := Some ch, p_state := SLEEPING\<rparr>)"
  shows "pipe_left m p (sleep ch s)"
  using assms by (auto simp: pipe_left_def sleep_def updp_def pipe_inv_def dest!: subsetD [OF set_update_subset_insert])

text \<open>A write, with its bytes cut to the length asked for: what fits is in the pipe, and unless it gives up the readers are woken.\<close>

lemma pipewrite_puts:
  fixes n :: int and cs :: "uchar list"
  assumes inv: "pipe_inv m p s" and i: "cur s = Some i" "i < length (procs s)"
  defines "q \<equiv> pipe_puts (take (nat n) cs) (pipes s p)"
  shows "pipe_inv m' p (wakeup (ChanPipeRead p) (updpipe p (\<lambda>_. q) s))"
    "pipe_ok q" "pi_readopen q = pi_readopen (pipes s p)"
    "length (pipe_queue (pipes s p)) = PIPESIZE \<Longrightarrow> pipe_queue q = pipe_queue (pipes s p)"
    "\<not> length (take (nat n) cs) \<le> PIPESIZE - length (pipe_queue (pipes s p)) \<Longrightarrow> length (pipe_queue q) = PIPESIZE"
proof -
  have ok: "pipe_ok (pipes s p)" using inv by (simp add: pipe_inv_def)
  note q = pipe_puts_queue [OF ok, of "take (nat n) cs", folded q_def] and b = pq.bounded [OF ok]
  show "pipe_ok q" "pi_readopen q = pi_readopen (pipes s p)"
    "length (pipe_queue (pipes s p)) = PIPESIZE \<Longrightarrow> pipe_queue q = pipe_queue (pipes s p)" using q by simp_all
  show "\<not> length (take (nat n) cs) \<le> PIPESIZE - length (pipe_queue (pipes s p)) \<Longrightarrow> length (pipe_queue q) = PIPESIZE"
    using q b by simp
  show "pipe_inv m' p (wakeup (ChanPipeRead p) (updpipe p (\<lambda>_. q) s))"
    using inv q b by (auto simp: pipe_inv_def le_less intro!: waits_ok_wake_read [where q = "pipes s p" and m = m])
qed

lemma pipewrite_waits:
  assumes inv: "pipe_inv m p s" and i: "cur s = Some i" "i < length (procs s)"
  shows "case pipewrite p cs n s of
      Ok r t \<Rightarrow> pipe_inv (missed_after (PWrite (p_killed (procs s ! i)) n r) m) p t
    | Sleep ch t \<Rightarrow> pipe_inv m' p t | Panic _ \<Rightarrow> False"
proof -
  have ok: "pipe_ok (pipes s p)" using inv by (simp add: pipe_inv_def)
  let ?cs = "take (nat n) cs" and ?k = "p_killed (procs s ! i)"
  let ?q = "pipe_puts ?cs (pipes s p)"
  note loop = pipewrite_loop_spec [OF ok i, of ?cs] and put = pipewrite_puts [OF inv i, where n = n and cs = cs]
  consider (all) "length ?cs \<le> PIPESIZE - length (pipe_queue (pipes s p))"
    | (give_up) "\<not> length ?cs \<le> PIPESIZE - length (pipe_queue (pipes s p))" "\<not> pi_readopen (pipes s p) \<or> ?k"
    | (wait) "\<not> length ?cs \<le> PIPESIZE - length (pipe_queue (pipes s p))" "pi_readopen (pipes s p)" "\<not> ?k"
    by fastforce
  then show ?thesis
  proof cases
    case all
    then show ?thesis using loop put(1) by (simp add: pipewrite_def Let_def)
  next
    case give_up
    then have "0 < nat n" by (cases "nat n") auto
    then have n: "- 1 \<noteq> n" by simp
    have r: "pipewrite p cs n s = Ok (- 1) (updpipe p (\<lambda>_. ?q) s)" using give_up loop by (simp add: pipewrite_def Let_def)
    have "waits_ok (missed_after (PWrite ?k n (- 1)) m) p ?q x" if "waits_ok m p (pipes s p) x" for x
      using that give_up(2) n put(3,4)
      by (auto simp: waits_ok_def missed_after_def gives_up_def wakes_readers_def)
    then show ?thesis using inv put(2) r by (simp add: pipe_inv_def)
  next
    case wait
    have l: "pipewrite p cs n s = sleep (ChanPipeWrite p) (wakeup (ChanPipeRead p) (updpipe p (\<lambda>_. ?q) s))"
      using wait loop i by (simp add: pipewrite_def Let_def sleep_def)
    have "pipe_left m' p (pipewrite p cs n s)"
      unfolding l using put(1) by (rule sleep_on_inv) (use i wait put(3,5) in \<open>auto simp: waits_ok_def\<close>)
    then show ?thesis using i unfolding l by (simp add: pipe_left_def sleep_def)
  qed
qed

lemma piperead_waits:
  assumes inv: "pipe_inv m p s" and i: "cur s = Some i" "i < length (procs s)"
  shows "pipe_left m p (piperead p n s)"
proof (cases "pi_nread (pipes s p) = pi_nwrite (pipes s p) \<and> pi_writeopen (pipes s p)")
  case True
  then have e: "pipe_queue (pipes s p) = []" "pi_writeopen (pipes s p)" by (simp_all add: pipe_queue_def)
  show ?thesis
  proof (cases "p_killed (procs s ! i)")
    case False
    have "waits_ok m p (pipes s p) ((procs s ! i)\<lparr>p_chan := Some (ChanPipeRead p), p_state := SLEEPING\<rparr>)"
      using e by (simp add: waits_ok_def)
    from sleep_on_inv [OF inv i this] show ?thesis using True False i by (simp add: piperead_def mcur_def pipe_left_def)
  qed (use True i inv in \<open>simp add: piperead_def mcur_def pipe_left_def\<close>)
next
  case False
  have ok: "pipe_ok (pipes s p)" using inv by (simp add: pipe_inv_def)
  obtain q where q: "piperead_loop p (nat n) s = (take (nat n) (pipe_queue (pipes s p)), updpipe p (\<lambda>_. q) s)" "pipe_ok q"
    "pipe_queue q = drop (nat n) (pipe_queue (pipes s p))" "pi_readopen q = pi_readopen (pipes s p)"
    "pi_writeopen q = pi_writeopen (pipes s p)"
    using piperead_loop_spec [OF ok, of "nat n"] by blast
  have "\<And>r. r \<in> set (procs s) \<Longrightarrow> waits_ok m p q (wake (ChanPipeWrite p) r)"
    using inv q(3-5) by (auto simp: pipe_inv_def intro!: waits_ok_wake_write [where q = "pipes s p"])
  then show ?thesis using False q(1,2) by (auto simp: piperead_def pipe_left_def pipe_inv_def)
qed

lemma kfree_rest: "kfree v s = Ok x t \<Longrightarrow> pipes t = pipes s \<and> procs t = procs s \<and> cur t = cur s"
  by (auto simp: kfree_def Let_def split: if_splits)

lemma pipeclose_waits:
  assumes "pipe_inv m p s" "pipeclose p w s = Ok x t" "m True \<longrightarrow> m False"
  shows "pipe_inv (missed_after (PClose w) m) p t"
proof -
  let ?s = "if w then wakeup (ChanPipeRead p) (updpipe p (\<lambda>q. q\<lparr>pi_writeopen := False\<rparr>) s)
    else wakeup (ChanPipeWrite p) (updpipe p (\<lambda>q. q\<lparr>pi_readopen := False\<rparr>) s)"
  have "waits_ok (missed_after (PClose w) m) p (pipes ?s p) r" if "r \<in> set (procs ?s)" for r
    using assms(1,3) that unfolding pipe_inv_def
    by (cases w; cases "pi_readopen (pipes s p)")
      (auto simp: waits_ok_def wake_def pipe_queue_def missed_after_def gives_up_def wakes_readers_def)
  then have "pipe_inv (missed_after (PClose w) m) p ?s"
    using assms(1) by (auto simp: pipe_inv_def pipe_ok_def pipe_queue_def)
  moreover have "pipes t = pipes ?s \<and> procs t = procs ?s"
    using assms(2) by (auto simp: pipeclose_def Let_def dest: kfree_rest split: if_splits)
  ultimately show ?thesis by (simp add: pipe_inv_def)
qed

lemma kill_waits: "pipe_inv m p s \<Longrightarrow> kill pid s = Ok r t \<Longrightarrow> pipe_inv m p t"
  by (auto simp: kill_def pipe_inv_def updp_def waits_ok_def Let_def split: option.splits if_splits
    dest!: subsetD [OF set_update_subset_insert] ffind_SomeD)

lemma missed_mono: "missed es True \<longrightarrow> missed es False"
  by (induction es rule: rev_induct) (auto simp: missed_def missed_after_def gives_up_def split: pipe_event.splits)

lemma missed_after_other: "e \<in> {PSwitch, PKill, PRead} \<Longrightarrow> missed_after e m = m"
  by (auto simp: missed_after_def gives_up_def wakes_readers_def)

lemma pipe_step_inv: "pipe_step p e s t \<Longrightarrow> pipe_inv m p s \<Longrightarrow> m True \<longrightarrow> m False \<Longrightarrow> pipe_inv (missed_after e m) p t"
proof (induction rule: pipe_step.induct)
  case (pswitch i s p)
  then show ?case
    by (auto simp: missed_after_other pipe_inv_def updp_def waits_ok_def dest!: subsetD [OF set_update_subset_insert])
next
  case (pkill pid s r t p)
  then show ?case by (simp add: missed_after_other kill_waits)
next
  case (pwrite s i p cs n r t)
  then show ?case using pipewrite_waits [of m p s i, where cs = cs and n = n] by simp
next
  case (pwait s i p cs n ch t)
  then show ?case using pipewrite_waits [of m p s i, where cs = cs and n = n] by simp
next
  case (pread s i p n r t ch)
  then show ?case using piperead_waits [of m p s i n] by (auto simp: pipe_left_def missed_after_other)
next
  case (pclose p w s u t)
  then show ?case by (blast intro: pipeclose_waits)
qed

lemma pipe_run_inv: "pipe_run p s es t \<Longrightarrow> pipe_inv (missed []) p s \<Longrightarrow> pipe_inv (missed es) p t"
proof (induction rule: pipe_run.induct)
  case (run_step p s es t e u)
  have "pipe_inv (missed_after e (missed es)) p u"
    by (rule pipe_step_inv [OF run_step.hyps(2) run_step.IH [OF run_step.prems] missed_mono])
  then show ?case by (simp add: missed_def)
qed

text \<open>C22. Which wakeups of a pipe can be lost. In every run of writes, reads, closes, kills and context switches from a state in
which nobody sleeps on the pipe, a writer that sleeps on it waits for a full pipe that can still be read. A reader that sleeps on it
waits for an empty pipe that can still be written, except in one case: some write gave up, its writer killed or no read end left, and
since then no write has ended well or gone to sleep and the write end has not been closed.\<close>

theorem pipe_no_lost_wakeup:
  assumes "pipe_ok (pipes s p)"
    and "\<forall>r\<in>set (procs s). p_state r = SLEEPING \<longrightarrow> p_chan r \<notin> {Some (ChanPipeRead p), Some (ChanPipeWrite p)}"
    and "pipe_run p s es t" "j < length (procs t)" "p_state (procs t ! j) = SLEEPING"
  shows "(p_chan (procs t ! j) = Some (ChanPipeRead p) \<longrightarrow>
      pipe_queue (pipes t p) = [] \<and> pi_writeopen (pipes t p) \<or>
      (\<exists>xs k n r ys. es = xs @ PWrite k n r # ys \<and> r \<noteq> n \<and> (k \<or> \<not> pi_readopen (pipes t p)) \<and> (\<forall>e\<in>set ys. \<not> wakes_readers e))) \<and>
    (p_chan (procs t ! j) = Some (ChanPipeWrite p) \<longrightarrow> length (pipe_queue (pipes t p)) = PIPESIZE \<and> pi_readopen (pipes t p))"
proof -
  have "pipe_inv (missed []) p s" using assms(1,2) by (auto simp: pipe_inv_def waits_ok_def)
  then have "pipe_inv (missed es) p t" by (rule pipe_run_inv [OF assms(3)])
  then have "waits_ok (missed es) p (pipes t p) (procs t ! j)" using assms(4) by (simp add: pipe_inv_def)
  then show ?thesis using assms(5) missed_cases [of es "pi_readopen (pipes t p)"] unfolding waits_ok_def by blast
qed

section \<open>The file table\<close>

interpretation ft: slot_table ftable "\<lambda>f. f_ref f = 0" filealloc
proof (unfold_locales, goal_cases)
  case (1 s)
  have "filealloc s = None \<longleftrightarrow> ffind (\<lambda>f. f_ref f = 0) (ftable s) = None"
    by (auto simp: filealloc_def split: option.splits)
  then show ?case by (simp add: ffind_None)
next
  case (2 s i s')
  then have "ffind (\<lambda>f. f_ref f = 0) (ftable s) = Some i" "s' = updf i (\<lambda>f. f\<lparr>f_ref := 1\<rparr>) s"
    by (auto simp: filealloc_def split: option.splits)
  then show ?case unfolding ffind_Some
    by (auto simp: updf_def intro!: exI [of _ "(ftable s ! i)\<lparr>f_ref := 1\<rparr>"])
qed

definition ftable_ok :: "'a kfile_scheme \<Rightarrow> bool" where
  "ftable_ok s \<longleftrightarrow> (\<forall>f\<in>set (ftable s). 0 \<le> f_ref f \<and> (f_ref f = 0 \<longrightarrow> f_type f = FD_NONE))"

lemma updf_simps [simp]: "length (ftable (updf i f s)) = length (ftable s)" "pipes (updf i f s) = pipes s"
  "freelist (updf i f s) = freelist s" "mem (updf i f s) = mem s"
  "ftable (updf i f s) ! j = (if i = j \<and> j < length (ftable s) then f (ftable s ! j) else ftable s ! j)"
  by (auto simp: updf_def nth_upd)

lemma filealloc_SomeD:
  assumes "filealloc s = Some (i, t)" "ftable_ok s"
  shows "i < length (ftable s)" "f_ref (ftable s ! i) = 0" "f_type (ftable s ! i) = FD_NONE"
    "t = updf i (\<lambda>f. f\<lparr>f_ref := 1\<rparr>) s" "ftable_ok t"
proof -
  have f: "ffind (\<lambda>f. f_ref f = 0) (ftable s) = Some i" "t = updf i (\<lambda>f. f\<lparr>f_ref := 1\<rparr>) s"
    using assms(1) by (auto simp: filealloc_def split: option.splits)
  then show i: "i < length (ftable s)" "f_ref (ftable s ! i) = 0" "t = updf i (\<lambda>f. f\<lparr>f_ref := 1\<rparr>) s"
    unfolding ffind_Some by auto
  show "f_type (ftable s ! i) = FD_NONE" using assms(2) i nth_mem [OF i(1)] by (auto simp: ftable_ok_def)
  show "ftable_ok t" using assms(2) by (auto simp: f(2) ftable_ok_def updf_def dest!: subsetD [OF set_update_subset_insert])
qed

text \<open>Closing a file that was just allocated undoes the allocation.\<close>

lemma fileclose_fresh:
  assumes "filealloc s = Some (i, t)" "ftable_ok s"
  shows "fileclose i t = Ok () s"
proof -
  note f = filealloc_SomeD [OF assms]
  have "(ftable s ! i)\<lparr>f_ref := 0, f_type := FD_NONE\<rparr> = ftable s ! i" using f(2,3) by (cases "ftable s ! i") simp
  then show ?thesis using f(1,3) unfolding f(4)
    by (simp add: fileclose_def updf_def Let_def)
qed

lemma fileclose_fresh_other:
  assumes "filealloc s = Some (i, t)" "ftable_ok s" "filealloc t = Some (j, u)"
  shows "mbind (fileclose i u) (\<lambda>_ s. fileclose j s) = Ok () s"
proof -
  note f = filealloc_SomeD [OF assms(1,2)]
  note g = filealloc_SomeD [OF assms(3) f(5)]
  have ij: "i \<noteq> j" using g(2) f(1,4) by auto
  have e: "(ftable s ! i)\<lparr>f_ref := 0, f_type := FD_NONE\<rparr> = ftable s ! i" using f(2,3) by (cases "ftable s ! i") simp
  have h: "(ftable s ! j)\<lparr>f_ref := 0, f_type := FD_NONE\<rparr> = ftable s ! j"
    using g(2,3) ij unfolding f(4) by (cases "ftable s ! j") simp
  have t: "f_type (ftable s ! j) = FD_NONE" using g(3) ij unfolding f(4) by simp
  have l: "j < length (ftable s)" using g(1) unfolding f(4) by simp
  show ?thesis using f(1,3) ij e h t l unfolding g(4) f(4)
    by (simp add: fileclose_def updf_def Let_def list_update_swap [of j i])
qed


section \<open>A machine with open files\<close>

definition file0 :: file_s where
  "file0 = \<lparr>f_type = FD_NONE, f_ref = 0, f_readable = False, f_writable = False, f_pipe = 0, f_ip = None, f_off = 0\<rparr>"

text \<open>A pipe that is empty, with counters about to wrap around.\<close>

definition pipe0 :: pipe where
  "pipe0 = \<lparr>pi_data = replicate PIPESIZE 0, pi_nread = 0xffffffff, pi_nwrite = 0xffffffff, pi_readopen = True, pi_writeopen = True\<rparr>"

definition kfile0 :: kfile where
  "kfile0 = (kcons.extend kcons0 (kfile.fields (replicate 100 file0) (\<lambda>_. pipe0)))
     \<lparr>procs := [proc0\<lparr>p_state := RUNNING, p_pid := 1\<rparr>, proc0\<lparr>p_state := RUNNABLE, p_pid := 2\<rparr>], cur := Some 0\<rparr>"

lemma kfile0_fields: "procs kfile0 = [proc0\<lparr>p_state := RUNNING, p_pid := 1\<rparr>, proc0\<lparr>p_state := RUNNABLE, p_pid := 2\<rparr>]"
  "cur kfile0 = Some 0" "pipes kfile0 = (\<lambda>_. pipe0)" "ftable kfile0 = replicate 100 file0"
  by (simp_all add: kfile0_def kcons.defs kfile.defs)

lemma pipe0_ok: "pipe_ok pipe0" "pipe_queue pipe0 = []"
  by (simp_all add: pipe_ok_def pipe_queue_def pipe0_def)

lemma pipe_fifo_witness:
  "(case queue_run pipe_put pipe_get [Some 1, Some 2, None, Some 3] pipe0 of (ins, outs, q) \<Rightarrow>
     pi_nwrite q = 2 \<and> ins = outs @ pipe_queue q \<and> outs = [1])"
proof -
  obtain q where q: "queue_run pipe_put pipe_get [Some 1, Some 2, None, Some 3] pipe0 = ([1, 2, 3], [1], q)" "pi_nwrite q = 2"
    by (simp add: pipe_put_def pipe_get_def pipe0_def Let_def)
  then show ?thesis using pipe_fifo [OF pipe0_ok(1) q(1)] by (simp add: pipe0_ok(2))
qed

lemma pipewrite_exact_witness: "\<exists>t. pipewrite 7 [1, 2] 2 kfile0 = Ok 2 t \<and> pipe_queue (pipes t 7) = [1, 2]"
  using pipewrite_exact [of kfile0 7 0 "[1, 2]"]
  by (cases "pipewrite 7 [1, 2] 2 kfile0") (auto simp: kfile0_fields pipe0_ok)

lemma killed_writer_wakes_nobody_witness:
  "\<exists>t. pipewrite 7 (replicate 600 65) 600 (updp 0 (\<lambda>p. p\<lparr>p_killed := True\<rparr>) kfile0) = Ok (- 1) t \<and>
     length (pipe_queue (pipes t 7)) = 512"
  using killed_writer_wakes_nobody [of "updp 0 (\<lambda>p. p\<lparr>p_killed := True\<rparr>) kfile0" 7 0 "replicate 600 65"]
  by (auto simp: updp_def kfile0_fields pipe0_ok)

text \<open>A reader goes to sleep on the empty pipe; nothing has given up, so it has a reason to.\<close>

lemma pipe_no_lost_wakeup_witness:
  "\<exists>t. pipe_run 7 kfile0 [PRead] t \<and> p_chan (procs t ! 0) = Some (ChanPipeRead 7) \<and> pipe_queue (pipes t 7) = [] \<and>
     pi_writeopen (pipes t 7)"
proof -
  obtain t where t: "piperead 7 1 kfile0 = Sleep (ChanPipeRead 7) t" "procs t ! 0 = proc0\<lparr>p_state := SLEEPING, p_pid := 1, p_chan := Some (ChanPipeRead 7)\<rparr>"
      "0 < length (procs t)"
    by (simp add: piperead_def kfile0_fields pipe0_def mcur_def sleep_def updp_def proc0_def)
  have "pipe_step 7 PRead kfile0 t" using t(1) by (intro pread [of _ 0]) (auto simp: kfile0_fields)
  then have r: "pipe_run 7 kfile0 [PRead] t" using run_step [OF run_start] by fastforce
  have "PRead \<noteq> PWrite k n x" for k n x by simp
  then show ?thesis using pipe_no_lost_wakeup [OF _ _ r t(3)] t(2) r
    by (auto simp: kfile0_fields pipe0_ok proc0_def Cons_eq_append_conv)
qed


end
