(* ===== verification/Process.thy ===== *)
theory Process
  imports Pipe
begin

text \<open>
  The life of a process, \<open>proc.c\<close>: the first process, \<open>fork\<close>, \<open>exit\<close>, and the first return to user mode. The segment and
  interrupt descriptors of \<open>mmu.h\<close> are here too.
\<close>

section \<open>Descriptors\<close>

record segdesc =
  sd_lim_15_0 :: "16 word"
  sd_base_15_0 :: "16 word"
  sd_base_23_16 :: "8 word"
  sd_type :: "4 word"
  sd_s :: "1 word"
  sd_dpl :: "2 word"
  sd_p :: "1 word"
  sd_lim_19_16 :: "4 word"
  sd_avl :: "1 word"
  sd_rsv1 :: "1 word"
  sd_db :: "1 word"
  sd_g :: "1 word"
  sd_base_31_24 :: "8 word"

definition SEG :: "4 word \<Rightarrow> uint32 \<Rightarrow> uint32 \<Rightarrow> 2 word \<Rightarrow> segdesc" where
  "SEG ty base lim dpl =
    \<lparr>sd_lim_15_0 = ucast (drop_bit 12 lim AND 0xffff), sd_base_15_0 = ucast (base AND 0xffff),
     sd_base_23_16 = ucast (drop_bit 16 base AND 0xff), sd_type = ty, sd_s = 1, sd_dpl = dpl, sd_p = 1,
     sd_lim_19_16 = ucast (drop_bit 28 lim), sd_avl = 0, sd_rsv1 = 0, sd_db = 1, sd_g = 1, sd_base_31_24 = ucast (drop_bit 24 base)\<rparr>"

record gatedesc =
  gd_off_15_0 :: "16 word"
  gd_cs :: "16 word"
  gd_args :: "5 word"
  gd_rsv1 :: "3 word"
  gd_type :: "4 word"
  gd_s :: "1 word"
  gd_dpl :: "2 word"
  gd_p :: "1 word"
  gd_off_31_16 :: "16 word"

definition SETGATE :: "bool \<Rightarrow> 16 word \<Rightarrow> uint32 \<Rightarrow> 2 word \<Rightarrow> gatedesc" where
  "SETGATE istrap sel off d =
    \<lparr>gd_off_15_0 = ucast (off AND 0xffff), gd_cs = sel, gd_args = 0, gd_rsv1 = 0,
     gd_type = (if istrap then 0xf else 0xe), gd_s = 0, gd_dpl = d, gd_p = 1, gd_off_31_16 = ucast (drop_bit 16 off)\<rparr>"


section \<open>State\<close>

text \<open>
  \<open>fork_first\<close> is the static \<open>first\<close> of \<open>forkret\<close>; \<open>gdt\<close> and \<open>cpu_addr\<close> are \<open>cpu->gdt\<close> and the address of \<open>cpu->cpu\<close>, of
  the processor the model runs on, whose \<open>id\<close> is \<open>cpu_id\<close>.
\<close>

record ksys = kfile +
  fork_first :: bool
  idt :: "gatedesc list"
  gdt :: "segdesc list"
  cpu_addr :: uint32
  cpu_id :: int

abbreviation (input) NOFILE :: nat where "NOFILE \<equiv> 16"
abbreviation (input) DPL_USER :: "'x::len word" where "DPL_USER \<equiv> 3"

text \<open>The entries 1 to 5 of the table, as \<open>seginit\<close> fills them in; it ends with no current process.\<close>

definition seginit :: "'a ksys_scheme \<Rightarrow> 'a ksys_scheme" where
  "seginit s = s\<lparr>gdt := (gdt s)[1 := SEG 0xa 0 0xffffffff 0, 2 := SEG 2 0 0xffffffff 0, 4 := SEG 0xa 0 0xffffffff DPL_USER,
     5 := SEG 2 0 0xffffffff DPL_USER, 3 := SEG 2 (cpu_addr s) 8 0], cur := None\<rparr>"


section \<open>The first process\<close>

definition ticket_note :: "string \<Rightarrow> nat \<Rightarrow> 'a kcons_scheme \<Rightarrow> (unit, 'a kcons_scheme) outcome" where
  "ticket_note pol i s = cprintf (Some (asc ''p->ntickets from userinit (policy '' @ asc pol @ asc ''): %d'' @ nl))
     [VNum (word_of_int (p_ntickets (procs s ! i)))] s"

text \<open>\<open>initcode\<close> is the program the build links into the kernel.\<close>

definition userinit :: "uchar list \<Rightarrow> 'a ksys_scheme \<Rightarrow> (unit, 'a ksys_scheme) outcome" where
  "userinit initcode s = mbind (allocproc s) (\<lambda>p s.
     let s = s\<lparr>initproc := p\<rparr> in
     mbind (setupkvm s) (\<lambda>pgdir s. case p of None \<Rightarrow> null_deref | Some i \<Rightarrow>
       let s = updp i (\<lambda>p. p\<lparr>p_pgdir := pgdir\<rparr>) s in
       if pgdir = 0 then Panic ''userinit: out of memory?''
       else mbind (inituvm pgdir initcode (of_nat (length initcode)) s) (\<lambda>_ s.
         let s = updp i (\<lambda>p. p\<lparr>p_sz := PGSIZE,
                   p_tf := tf0\<lparr>tf_cs := 0x23, tf_ds := 0x2b, tf_es := 0x2b, tf_ss := 0x2b, tf_eflags := 0x200,
                     tf_esp := PGSIZE, tf_eip := 0\<rparr>,
                   p_name := safestrcpy (p_name p) (asc ''initcode'') 16\<rparr>) s
         in mbind (namei (asc ''/'') s) (\<lambda>d s.
           let s = updp i (\<lambda>p. new_tickets (currentPolicy s) (p\<lparr>p_cwd := d\<rparr>)) s in
           mbind (if currentPolicy s = 1 then ticket_note ''1'' i s
                  else if currentPolicy s = 2 then ticket_note ''2'' i s
                  else if currentPolicy s = 3 then ticket_note ''3'' i s
                  else Ok () s) (\<lambda>_ s.
           Ok () (updp i (\<lambda>p. p\<lparr>p_state := RUNNABLE, p_ctime := sint (ticks s)\<rparr>) s))))))"


section \<open>Fork\<close>

text \<open>The files of process \<open>c\<close>, duplicated for process \<open>np\<close>.\<close>

fun fork_files :: "nat list \<Rightarrow> nat \<Rightarrow> nat \<Rightarrow> 'a kfile_scheme \<Rightarrow> (unit, 'a kfile_scheme) outcome" where
  "fork_files [] c np s = Ok () s"
| "fork_files (i # is) c np s =
    (case p_ofile (procs s ! c) ! i of
       None \<Rightarrow> fork_files is c np s
     | Some f \<Rightarrow> mbind (filedup f s) (\<lambda>f s.
         fork_files is c np (updp np (\<lambda>p. p\<lparr>p_ofile := (p_ofile p)[i := Some f]\<rparr>) s)))"

definition fork :: "'a ksys_scheme \<Rightarrow> (int, 'a ksys_scheme) outcome" where
  "fork s = mbind (allocproc s) (\<lambda>r s. case r of None \<Rightarrow> Ok (- 1) s
     | Some np \<Rightarrow> mbind (mcur s) (\<lambda>c s.
         mbind (copyuvm (p_pgdir (procs s ! c)) (p_sz (procs s ! c)) s) (\<lambda>d s.
         let s = updp np (\<lambda>p. p\<lparr>p_pgdir := d\<rparr>) s in
         if d = 0 then mbind (kfree (p_kstack (procs s ! np)) s) (\<lambda>_ s.
           Ok (- 1) (updp np (\<lambda>p. p\<lparr>p_kstack := 0, p_state := UNUSED\<rparr>) s))
         else
           let cp = procs s ! c;
               s = updp np (\<lambda>p. p\<lparr>p_sz := p_sz cp, p_parent := Some c, p_tf := (p_tf cp)\<lparr>tf_eax := 0\<rparr>\<rparr>) s
           in mbind (fork_files [0..<NOFILE] c np s) (\<lambda>_ s.
              case p_cwd (procs s ! c) of None \<Rightarrow> null_deref | Some d \<Rightarrow>
              mbind (idup d s) (\<lambda>d s.
              let s = updp np (\<lambda>p. p\<lparr>p_cwd := Some d, p_name := safestrcpy (p_name p) (p_name (procs s ! c)) 16\<rparr>) s;
                  pid = p_pid (procs s ! np);
                  s = updp np (\<lambda>p. new_tickets (currentPolicy s) p) s
              in Ok pid (updp np (\<lambda>p. p\<lparr>p_stime := 0, p_rutime := 0, p_retime := 0, p_state := RUNNABLE,
                   p_ctime := sint (ticks s)\<rparr>) s))))))"


section \<open>Exit\<close>

fun exit_files :: "nat list \<Rightarrow> nat \<Rightarrow> 'a kfile_scheme \<Rightarrow> (unit, 'a kfile_scheme) outcome" where
  "exit_files [] c s = Ok () s"
| "exit_files (i # is) c s =
    (case p_ofile (procs s ! c) ! i of
       None \<Rightarrow> exit_files is c s
     | Some f \<Rightarrow> mbind (fileclose f s) (\<lambda>_ s.
         exit_files is c (updp c (\<lambda>p. p\<lparr>p_ofile := (p_ofile p)[i := None]\<rparr>) s)))"

text \<open>\<open>wakeup1\<close> on a process; a null pointer is the channel nobody has, or a sleeper that was never given one.\<close>

definition wakeup1_proc :: "nat option \<Rightarrow> 'a kproc_scheme \<Rightarrow> 'a kproc_scheme" where
  "wakeup1_proc q s =
    (case q of Some i \<Rightarrow> wakeup1 (ChanProc i) s
     | None \<Rightarrow>
        let s = s\<lparr>procs := map (\<lambda>p. if p_state p = SLEEPING \<and> p_chan p = None then p\<lparr>p_state := RUNNABLE\<rparr> else p) (procs s)\<rparr>
        in if currentPolicy s = 3 \<and> oob_ntickets s < 90 then s\<lparr>oob_ntickets := oob_ntickets s + 10\<rparr> else s)"

fun reparent :: "nat list \<Rightarrow> nat \<Rightarrow> 'a kproc_scheme \<Rightarrow> 'a kproc_scheme" where
  "reparent [] c s = s"
| "reparent (i # is) c s =
    (if p_parent (procs s ! i) = Some c then
       let s = updp i (\<lambda>p. p\<lparr>p_parent := initproc s\<rparr>) s
       in reparent is c (if p_state (procs s ! i) = ZOMBIE then wakeup1_proc (initproc s) s else s)
     else reparent is c s)"

text \<open>\<open>exit\<close> never returns: it ends in the scheduler, which does not resume it.\<close>

definition exit :: "int \<Rightarrow> 'a ksys_scheme \<Rightarrow> ('x, 'a ksys_scheme) outcome" where
  "exit status s = mbind (mcur s) (\<lambda>c s.
     if initproc s = Some c then Panic ''init exiting''
     else mbind (exit_files [0..<NOFILE] c s) (\<lambda>_ s.
       mbind (begin_op s) (\<lambda>_ s.
       mbind (iput (p_cwd (procs s ! c)) s) (\<lambda>_ s.
       mbind (end_op s) (\<lambda>_ s.
       let s = updp c (\<lambda>p. p\<lparr>p_cwd := None\<rparr>) s;
           s = wakeup1_proc (p_parent (procs s ! c)) s;
           s = reparent [0..<length (procs s)] c s
       in Sleep ChanExit (updp c (\<lambda>p. p\<lparr>p_ttime := sint (ticks s), p_state := ZOMBIE, p_status := status, p_ntickets := 0\<rparr>) s))))))"

definition forkret :: "'a ksys_scheme \<Rightarrow> (unit, 'a ksys_scheme) outcome" where
  "forkret s = (if fork_first s then mbind (iinit ROOTDEV (s\<lparr>fork_first := False\<rparr>)) (\<lambda>_ s. initlog ROOTDEV s) else Ok () s)"

end
