(* ===== verification/Syscall.thy ===== *)
theory Syscall
  imports Process Reap
begin

text \<open>
  The arguments of system calls (\<open>syscall.c\<close>) and the calls on processes (\<open>sysproc.c\<close>). An argument that is refused is
  \<open>None\<close>; user memory is read and written through the page table of the calling process.
\<close>

section \<open>Arguments\<close>

definition fetchint :: "uint32 \<Rightarrow> 'a kproc_scheme \<Rightarrow> (uint32 option, 'a kproc_scheme) outcome" where
  "fetchint addr s = mbind (mcur s) (\<lambda>c s.
     let p = procs s ! c in
     if addr \<ge> p_sz p \<or> addr + 4 > p_sz p then Ok None s
     else mbind (load32 (p_pgdir p) addr s) (\<lambda>x s. Ok (Some x) s))"

text \<open>The scan for the NUL, with \<open>n\<close> bytes left before the end of the process; the result is the string.\<close>

fun fetchstr_loop :: "nat \<Rightarrow> uint32 \<Rightarrow> uint32 \<Rightarrow> 'a kmem_scheme \<Rightarrow> (uchar list option, 'a kmem_scheme) outcome" where
  "fetchstr_loop 0 pgdir a s = Ok None s"
| "fetchstr_loop (Suc n) pgdir a s =
    (if \<not> present s pgdir a then Panic ''trap''
     else let x = ubyte s pgdir a in
       if x = 0 then Ok (Some []) s
       else mbind (fetchstr_loop n pgdir (a + 1) s) (\<lambda>r s. Ok (map_option (\<lambda>xs. x # xs) r) s))"

definition fetchstr :: "uint32 \<Rightarrow> 'a kproc_scheme \<Rightarrow> (uchar list option, 'a kproc_scheme) outcome" where
  "fetchstr addr s = mbind (mcur s) (\<lambda>c s.
     let p = procs s ! c in
     if addr \<ge> p_sz p then Ok None s
     else fetchstr_loop (unat (p_sz p) - unat addr) (p_pgdir p) addr s)"

definition argint :: "int \<Rightarrow> 'a kproc_scheme \<Rightarrow> (int option, 'a kproc_scheme) outcome" where
  "argint n s = mbind (mcur s) (\<lambda>c s.
     mbind (fetchint (tf_esp (p_tf (procs s ! c)) + 4 + 4 * word_of_int n) s) (\<lambda>r s. Ok (map_option sint r) s))"

definition argptr :: "int \<Rightarrow> int \<Rightarrow> 'a kproc_scheme \<Rightarrow> (uint32 option, 'a kproc_scheme) outcome" where
  "argptr n sz s = mbind (argint n s) (\<lambda>r s. case r of None \<Rightarrow> Ok None s
     | Some i \<Rightarrow> mbind (mcur s) (\<lambda>c s.
         let p = procs s ! c; u = word_of_int i :: uint32 in
         if u \<ge> p_sz p \<or> u + word_of_int sz > p_sz p then Ok None s else Ok (Some u) s))"

definition argstr :: "int \<Rightarrow> 'a kproc_scheme \<Rightarrow> (uchar list option, 'a kproc_scheme) outcome" where
  "argstr n s = mbind (argint n s) (\<lambda>r s. case r of None \<Rightarrow> Ok None s | Some a \<Rightarrow> fetchstr (word_of_int a) s)"


section \<open>Calls on processes\<close>

text \<open>
  \<open>junk\<close> is the value of a local variable that was never assigned, which \<open>sys_schedp\<close> prints and \<open>sys_priority\<close> uses when
  the argument cannot be fetched.
\<close>

definition sys_schedp :: "uint32 \<Rightarrow> 'a ksys_scheme \<Rightarrow> (int, 'a ksys_scheme) outcome" where
  "sys_schedp junk s = mbind (argint 0 s) (\<lambda>r s. case r of
       None \<Rightarrow> mbind (cprintf (Some (asc ''sys_schedp: policy is %d'')) [VNum junk] s) (\<lambda>_ s. Ok (- 1) s)
     | Some p \<Rightarrow> schedp p s)"

definition sys_wait_stat :: "'a kproc_scheme \<Rightarrow> (int, 'a kproc_scheme) outcome" where
  "sys_wait_stat s = mbind (argptr 0 4 s) (\<lambda>r s. case r of None \<Rightarrow> Ok (- 1) s
     | Some st \<Rightarrow> mbind (argptr 1 4 s) (\<lambda>r s. case r of None \<Rightarrow> Ok (- 1) s | Some perf \<Rightarrow> wait_stat st perf s))"

definition sys_priority :: "uint32 \<Rightarrow> 'a ksys_scheme \<Rightarrow> (unit, 'a ksys_scheme) outcome" where
  "sys_priority junk s = mbind (argint 0 s) (\<lambda>r s. case r of
       None \<Rightarrow> mbind (cprintf (Some (asc ''sys_priority priority is %d'')) [VNum junk] s) (\<lambda>_ s. priority (sint junk) s)
     | Some p \<Rightarrow> priority p s)"

definition sys_fork :: "'a ksys_scheme \<Rightarrow> (int, 'a ksys_scheme) outcome" where
  "sys_fork s = fork s"

definition sys_exit :: "'a ksys_scheme \<Rightarrow> (int, 'a ksys_scheme) outcome" where
  "sys_exit s = mbind (argint 0 s) (\<lambda>r s. case r of None \<Rightarrow> Ok (- 1) s
     | Some status \<Rightarrow> exit status s)"

definition sys_wait :: "'a kproc_scheme \<Rightarrow> (int, 'a kproc_scheme) outcome" where
  "sys_wait s = mbind (argptr 0 4 s) (\<lambda>r s. case r of None \<Rightarrow> Ok (- 1) s | Some st \<Rightarrow> wait st s)"

definition sys_kill :: "'a kproc_scheme \<Rightarrow> (int, 'a kproc_scheme) outcome" where
  "sys_kill s = mbind (argint 0 s) (\<lambda>r s. case r of None \<Rightarrow> Ok (- 1) s | Some pid \<Rightarrow> kill pid s)"

definition sys_getpid :: "'a kproc_scheme \<Rightarrow> (int, 'a kproc_scheme) outcome" where
  "sys_getpid s = mbind (mcur s) (\<lambda>c s. Ok (p_pid (procs s ! c)) s)"

definition sys_sbrk :: "'a kproc_scheme \<Rightarrow> (int, 'a kproc_scheme) outcome" where
  "sys_sbrk s = mbind (argint 0 s) (\<lambda>r s. case r of None \<Rightarrow> Ok (- 1) s
     | Some n \<Rightarrow> mbind (mcur s) (\<lambda>c s. let addr = sint (p_sz (procs s ! c)) in
         mbind (growproc n s) (\<lambda>g s. Ok (if g < 0 then - 1 else addr) s)))"

text \<open>The test of the loop of \<open>sys_sleep\<close>, which is repeated with the same \<open>ticks0\<close> after every wakeup.\<close>

definition sys_sleep_loop :: "uint32 \<Rightarrow> int \<Rightarrow> 'a kproc_scheme \<Rightarrow> (int, 'a kproc_scheme) outcome" where
  "sys_sleep_loop ticks0 n s =
    (if ticks s - ticks0 < word_of_int n then
       mbind (mcur s) (\<lambda>c s. if p_killed (procs s ! c) then Ok (- 1) s else sleep ChanTicks s)
     else Ok 0 s)"

definition sys_sleep :: "'a kproc_scheme \<Rightarrow> (int, 'a kproc_scheme) outcome" where
  "sys_sleep s = mbind (argint 0 s) (\<lambda>r s. case r of None \<Rightarrow> Ok (- 1) s | Some n \<Rightarrow> sys_sleep_loop (ticks s) n s)"

definition sys_uptime :: "'a kproc_scheme \<Rightarrow> (int, 'a kproc_scheme) outcome" where
  "sys_uptime s = Ok (sint (ticks s)) s"

definition sys_signal :: "'a kproc_scheme \<Rightarrow> (int, 'a kproc_scheme) outcome" where
  "sys_signal s = mbind (argint 0 s) (\<lambda>r s. case r of None \<Rightarrow> Ok (- 1) s
     | Some signum \<Rightarrow> mbind (argptr 1 4 s) (\<lambda>r s. case r of None \<Rightarrow> Ok (- 1) s
       | Some handler \<Rightarrow> if signum < 0 \<or> signum > 31 then Ok (- 1) s
           else mbind (signal signum handler s) (\<lambda>x s. Ok (sint x) s)))"

definition sys_sigsend :: "'a kproc_scheme \<Rightarrow> (int, 'a kproc_scheme) outcome" where
  "sys_sigsend s = mbind (argint 0 s) (\<lambda>r s. case r of None \<Rightarrow> Ok (- 1) s
     | Some pid \<Rightarrow> mbind (argint 1 s) (\<lambda>r s. case r of None \<Rightarrow> Ok (- 1) s
       | Some signum \<Rightarrow> if signum < 0 \<or> signum > 31 then Ok (- 1) s else sigsend pid signum s))"

definition sys_sigreturn :: "'a kproc_scheme \<Rightarrow> (int, 'a kproc_scheme) outcome" where
  "sys_sigreturn s = sigreturn s"


section \<open>The checks are exact\<close>

text \<open>The memory of a process: all of it below \<open>sz\<close> is mapped, and it ends below the kernel.\<close>

definition user_mem :: "'a kproc_scheme \<Rightarrow> proc \<Rightarrow> bool" where
  "user_mem s p \<longleftrightarrow> p_sz p \<le> KERNBASE \<and> (\<forall>a<p_sz p. present s (p_pgdir p) a)"

lemma user_memD:
  assumes "user_mem s p" "unat a + n \<le> unat (p_sz p)" "i < n"
  shows "present s (p_pgdir p) (a + of_nat i)"
proof -
  have "unat a + i < 2 ^ 32" using unat_less_32 [of "p_sz p"] assms(2,3) by (simp del: unat_less_32)
  then have "unat (a + of_nat i) = unat a + i" using unat_add_no_wrap [of a "of_nat i"] by (simp add: unat_of_nat_32)
  then have "a + of_nat i < p_sz p" using assms(2,3) by (simp add: word_less_nat_alt)
  then show ?thesis using assms(1) by (simp add: user_mem_def)
qed

text \<open>The guards of \<open>fetchint\<close> and \<open>argptr\<close> do not wrap around below the kernel.\<close>

lemma range_guard:
  assumes "sz \<le> KERNBASE" "0 \<le> n" "n < 2 ^ 31"
  shows "(a \<ge> sz \<or> a + word_of_int n > sz) \<longleftrightarrow> \<not> (unat a < unat sz \<and> unat a + nat n \<le> unat sz)"
proof (cases "a < sz")
  case True
  have s: "unat sz \<le> 2 ^ 31" using assms(1) by (simp add: word_le_nat_alt)
  have a: "unat a < unat sz" using True by (simp add: word_less_nat_alt)
  have "unat (word_of_int n :: uint32) = nat n" using assms(2,3) by (simp add: unsigned_of_int take_bit_int_eq_self)
  then have "unat (a + word_of_int n) = unat a + nat n"
    using unat_add_no_wrap [of a "word_of_int n"] s a assms(3) by simp
  then show ?thesis using a by (auto simp: word_less_nat_alt word_le_nat_alt)
qed (auto simp: word_less_nat_alt word_le_nat_alt)

definition user_bytes :: "'a kproc_scheme \<Rightarrow> proc \<Rightarrow> uint32 \<Rightarrow> nat \<Rightarrow> uchar list" where
  "user_bytes s p a n = map (\<lambda>i. ubyte s (p_pgdir p) (a + of_nat i)) [0..<n]"

text \<open>C32. \<open>fetchint\<close> refuses an address exactly when some of the four bytes lie outside the process, and otherwise returns
the word that is there; it never faults.\<close>

theorem fetchint_exact:
  assumes "cur s = Some c" "user_mem s (procs s ! c)"
  shows "fetchint a s = Ok (if unat a + 4 \<le> unat (p_sz (procs s ! c)) then Some (get_u32 (user_bytes s (procs s ! c) a 4) 0) else None) s"
proof -
  let ?p = "procs s ! c"
  have g: "(a \<ge> p_sz ?p \<or> a + 4 > p_sz ?p) \<longleftrightarrow> \<not> unat a + 4 \<le> unat (p_sz ?p)"
    using range_guard [of "p_sz ?p" 4 a] assms(2) by (auto simp: user_mem_def)
  have "load32 (p_pgdir ?p) a s = Ok (get_u32 (user_bytes s ?p a 4) 0) s" if "unat a + 4 \<le> unat (p_sz ?p)"
    using load_bytes_eq [of 4 s "p_pgdir ?p" a] user_memD [OF assms(2) that] by (simp add: load32_def user_bytes_def)
  then show ?thesis using g assms(1) by (simp add: fetchint_def mcur_def Let_def)
qed

lemma fetchstr_loop_exact:
  assumes "\<forall>i<n. present s pgdir (a + of_nat i)"
  shows "fetchstr_loop n pgdir a s =
    (let bs = map (\<lambda>i. ubyte s pgdir (a + of_nat i)) [0..<n] in Ok (if 0 \<in> set bs then Some (takeWhile (\<lambda>x. x \<noteq> 0) bs) else None) s)"
  using assms
proof (induction n arbitrary: a)
  case (Suc n)
  have p: "present s pgdir a" using spec [OF Suc.prems, of 0] by simp
  have "\<forall>i<n. present s pgdir (a + 1 + of_nat i)"
  proof (intro allI impI)
    fix i assume "i < n"
    then show "present s pgdir (a + 1 + of_nat i)" using spec [OF Suc.prems, of "Suc i"] by (simp add: add.assoc)
  qed
  note IH = Suc.IH [OF this]
  have u: "[0..<Suc n] = 0 # map Suc [0..<n]" by (simp add: upt_conv_Cons map_Suc_upt del: upt_Suc)
  show ?case using p IH unfolding u by (auto simp: Let_def comp_def add.assoc)
qed simp

text \<open>\<open>fetchstr\<close> accepts an address exactly when a NUL follows it within the process, and then returns the bytes before the
first NUL; it never faults and never looks beyond the end of the process.\<close>

theorem fetchstr_exact:
  assumes "cur s = Some c" "user_mem s (procs s ! c)"
  shows "fetchstr a s = (let bs = user_bytes s (procs s ! c) a (unat (p_sz (procs s ! c)) - unat a) in
    Ok (if 0 \<in> set bs then Some (takeWhile (\<lambda>x. x \<noteq> 0) bs) else None) s)"
proof (cases "a < p_sz (procs s ! c)")
  case True
  then have "unat a + (unat (p_sz (procs s ! c)) - unat a) \<le> unat (p_sz (procs s ! c))" by (simp add: word_less_nat_alt)
  from user_memD [OF assms(2) this] show ?thesis using True assms(1)
    by (simp add: fetchstr_def mcur_def Let_def fetchstr_loop_exact user_bytes_def)
next
  case False
  then have "unat (p_sz (procs s ! c)) - unat a = 0" by (simp add: word_less_nat_alt)
  then show ?thesis using False assms(1) by (simp add: fetchstr_def mcur_def user_bytes_def not_less Let_def)
qed

text \<open>C33. \<open>argptr\<close> with a size that is not negative hands out a pointer exactly when the whole block lies inside the process. With a
negative size it hands out every pointer into the process that is not smaller than the size.\<close>

theorem argptr_exact:
  assumes "cur s = Some c" "user_mem s (procs s ! c)" "argint n s = Ok (Some i) s" "- (2 ^ 31) < sz" "sz < 2 ^ 31"
  shows "argptr n sz s = Ok (if (let a = nat (i mod 2 ^ 32); e = unat (p_sz (procs s ! c)) in
      a < e \<and> (0 \<le> sz \<longrightarrow> a + nat sz \<le> e) \<and> (sz < 0 \<longrightarrow> nat (- sz) \<le> a)) then Some (word_of_int i) else None) s"
proof -
  let ?p = "procs s ! c" and ?u = "word_of_int i :: uint32"
  have u: "unat ?u = nat (i mod 2 ^ 32)" by (simp add: unsigned_of_int take_bit_eq_mod)
  have z: "p_sz ?p \<le> KERNBASE" "unat (p_sz ?p) \<le> 2 ^ 31" using assms(2) by (simp_all add: user_mem_def word_le_nat_alt)
  have d: "argptr n sz s = Ok (if ?u \<ge> p_sz ?p \<or> ?u + word_of_int sz > p_sz ?p then None else Some ?u) s"
    using assms(1,3) by (simp add: argptr_def mcur_def Let_def)
  show ?thesis
  proof (cases "0 \<le> sz")
    case True
    then show ?thesis using d range_guard [OF z(1) True assms(5), of ?u] u by (auto simp: Let_def)
  next
    case False
    define m where "m = nat (- sz)"
    have m: "0 < m" "m < 2 ^ 31" "sz = - int m" using False assms(4) by (auto simp: m_def)
    have w: "?u + word_of_int sz = ?u - of_nat m" by (simp add: m(3))
    have mm: "unat (of_nat m :: uint32) = m" using m(2) by (simp add: unat_of_nat)
    have "?u + word_of_int sz > p_sz ?p \<longleftrightarrow> unat ?u < m" if "unat ?u < unat (p_sz ?p)"
      unfolding w word_less_nat_alt using that z(2) m(1,2) mm unat_less_32 [of ?u] by (auto simp: unat_sub_if')
    then show ?thesis using d u False m by (auto simp: Let_def word_le_nat_alt)
  qed
qed

section \<open>A machine with a user page\<close>

text \<open>The process 0 has one page of zeroes.\<close>

definition sys_wit :: kproc where
  "sys_wit = updp 0 (\<lambda>p. p\<lparr>p_sz := 4096\<rparr>) wait_wit"

lemma sys_wit_proc: "cur sys_wit = Some 0" "procs sys_wit ! 0 = proc0\<lparr>p_state := RUNNING, p_pid := 1, p_pgdir := 0x80404000, p_sz := 4096\<rparr>"
  by (simp_all add: sys_wit_def updp_def wait_wit_def kproc0_def)

lemma sys_wit_pte: "pte_of sys_wit 0x80404000 x = (if unat x < 4096 then 0x406007 else 0)"
proof -
  have m: "mem sys_wit = mem wait_wit" by (simp add: sys_wit_def updp_def)
  show ?thesis
    by (rule one_page_view(4) [where T = "0x80405000" and W = "0x405007"])
      (simp_all add: m wait_wit_mem PTE_ADDR_def p2v_def)
qed

lemma sys_wit_user: "user_mem sys_wit (procs sys_wit ! 0)"
  by (simp add: user_mem_def sys_wit_proc present_def sys_wit_pte word_less_nat_alt)

lemma sys_wit_bytes:
  assumes "unat a + n \<le> 4096"
  shows "user_bytes sys_wit (procs sys_wit ! 0) a n = replicate n 0"
proof (rule nth_equalityI)
  fix i assume "i < length (user_bytes sys_wit (procs sys_wit ! 0) a n)"
  then have i: "i < n" by (simp add: user_bytes_def)
  then have u: "unat (a + of_nat i) < 4096" using assms unat_add_no_wrap [of a "of_nat i"] by (simp add: unat_of_nat_32)
  then have "frame_of sys_wit 0x80404000 (a + of_nat i) = 0x80406000"
    by (simp add: frame_of_def sys_wit_pte PTE_ADDR_def p2v_def)
  moreover have "mem sys_wit 0x80406000 = replicate 4096 0" by (simp add: sys_wit_def updp_def wait_wit_def)
  ultimately show "user_bytes sys_wit (procs sys_wit ! 0) a n ! i = replicate n 0 ! i"
    using u i by (simp add: user_bytes_def ubyte_def sys_wit_proc)
qed (simp add: user_bytes_def)

lemma fetchint_exact_witness: "fetchint 8 sys_wit = Ok (Some 0) sys_wit \<and> fetchint 4093 sys_wit = Ok None sys_wit"
  using fetchint_exact [OF sys_wit_proc(1) sys_wit_user, of 8] fetchint_exact [OF sys_wit_proc(1) sys_wit_user, of 4093] sys_wit_bytes [of 8 4]
  by (simp add: sys_wit_proc(2) get_u32_def)

lemma fetchstr_exact_witness: "fetchstr 4095 sys_wit = Ok (Some []) sys_wit \<and> fetchstr 4096 sys_wit = Ok None sys_wit"
proof -
  have b: "user_bytes sys_wit (procs sys_wit ! 0) 4095 1 = [0]" using sys_wit_bytes [of 4095 1] by simp
  show ?thesis
    using fetchstr_exact [OF sys_wit_proc(1) sys_wit_user, of 4095] fetchstr_exact [OF sys_wit_proc(1) sys_wit_user, of 4096] b
    by (simp add: sys_wit_proc(2) user_bytes_def)
qed

lemma argptr_exact_witness: "argptr 0 4096 sys_wit = Ok (Some 0) sys_wit \<and> argptr 0 4097 sys_wit = Ok None sys_wit"
proof -
  have "fetchint 4 sys_wit = Ok (Some 0) sys_wit"
    using sys_wit_bytes [of 4 4] user_memD [OF sys_wit_user, of 4 4]
    by (simp add: fetchint_def mcur_def sys_wit_proc load32_def load_bytes_eq user_bytes_def get_u32_def)
  then have "argint 0 sys_wit = Ok (Some 0) sys_wit"
    by (simp add: argint_def mcur_def sys_wit_proc(1) sys_wit_proc(2) proc0_def tf0_def)
  from argptr_exact [OF sys_wit_proc(1) sys_wit_user this, of 4096] argptr_exact [OF sys_wit_proc(1) sys_wit_user this, of 4097]
  show ?thesis by (simp add: sys_wit_proc(2) Let_def)
qed

end
