(* ===== verification/Exec.thy ===== *)
theory Exec
  imports Syscall
begin

text \<open>
  \<open>exec.c\<close>, with \<open>loaduvm\<close> of \<open>vm.c\<close>: a program is loaded from a file into a new address space, its stack is built, and
  the process switches over. \<open>exit_code\<close> and \<open>sigret\<close> are the machine code that \<open>exec\<close> copies on the stack (the bytes
  between \<open>exit_start\<close> and \<open>exit_end\<close>, and the \<open>sig_ret_len + 1\<close> bytes at \<open>_sigreturn\<close>), which the build produces.
\<close>

section \<open>Loading\<close>

abbreviation (input) ELF_MAGIC :: uint32 where "ELF_MAGIC \<equiv> 0x464C457F"
abbreviation (input) MAXARG :: nat where "MAXARG \<equiv> 32"

record elfhdr =
  elf_magic :: uint32
  elf_entry :: uint32
  elf_phoff :: uint32
  elf_phnum :: ushort

definition elf_of :: "uchar list \<Rightarrow> elfhdr" where
  "elf_of d = \<lparr>elf_magic = get_u32 d 0, elf_entry = get_u32 d 24, elf_phoff = get_u32 d 28, elf_phnum = get_u16 d 44\<rparr>"

record proghdr =
  ph_type :: uint32
  ph_off :: uint32
  ph_vaddr :: uint32
  ph_paddr :: uint32
  ph_filesz :: uint32
  ph_memsz :: uint32
  ph_flags :: uint32
  ph_align :: uint32

definition ph_of :: "uchar list \<Rightarrow> proghdr" where
  "ph_of d = \<lparr>ph_type = get_u32 d 0, ph_off = get_u32 d 4, ph_vaddr = get_u32 d 8, ph_paddr = get_u32 d 12,
     ph_filesz = get_u32 d 16, ph_memsz = get_u32 d 20, ph_flags = get_u32 d 24, ph_align = get_u32 d 28\<rparr>"

function loaduvm_loop :: "uint32 \<Rightarrow> uint32 \<Rightarrow> nat \<Rightarrow> uint32 \<Rightarrow> nat \<Rightarrow> nat \<Rightarrow> 'a kcons_scheme \<Rightarrow> (int, 'a kcons_scheme) outcome" where
  "loaduvm_loop pgdir addr ip offset sz i s =
    (if i < sz then
       mbind (walkpgdir pgdir (addr + of_nat i) False s) (\<lambda>r s. case r of
         None \<Rightarrow> Panic ''loaduvm: address should exist''
       | Some pte \<Rightarrow>
           let pa = PTE_ADDR (read_pte s pte); n = of_nat (min (sz - i) 4096) :: uint32 in
           mbind (readi ip (offset + of_nat i) n s) (\<lambda>(r, cs) s.
             let s = write_page (p2v pa) (splice (mem s (p2v pa)) 0 cs) s in
             if word_of_int r \<noteq> n then Ok (- 1) s else loaduvm_loop pgdir addr ip offset sz (i + 4096) s))
     else Ok 0 s)"
  by pat_completeness auto
termination by (relation "measure (\<lambda>(pgdir, addr, ip, offset, sz, i, s). sz - i)") auto

definition loaduvm :: "uint32 \<Rightarrow> uint32 \<Rightarrow> nat \<Rightarrow> uint32 \<Rightarrow> uint32 \<Rightarrow> 'a kcons_scheme \<Rightarrow> (int, 'a kcons_scheme) outcome" where
  "loaduvm pgdir addr ip offset sz s =
    (if addr mod PGSIZE \<noteq> 0 then Panic ''loaduvm: addr must be page aligned''
     else loaduvm_loop pgdir addr ip offset (unat sz) 0 s)"

text \<open>The program headers that are left, from offset \<open>off\<close>; the result is the size of the image, or \<open>None\<close> for \<open>goto bad\<close>.\<close>

fun load_segments :: "nat \<Rightarrow> nat \<Rightarrow> uint32 \<Rightarrow> uint32 \<Rightarrow> uint32 \<Rightarrow> 'a kcons_scheme \<Rightarrow> (uint32 option, 'a kcons_scheme) outcome" where
  "load_segments 0 ip off pgdir sz s = Ok (Some sz) s"
| "load_segments (Suc k) ip off pgdir sz s =
     mbind (readi ip off 32 s) (\<lambda>(r, cs) s.
       if r \<noteq> 32 then Ok None s
       else let ph = ph_of cs in
         if ph_type ph \<noteq> 1 then load_segments k ip (off + 32) pgdir sz s
         else if ph_memsz ph < ph_filesz ph then Ok None s
         else mbind (allocuvm pgdir sz (ph_vaddr ph + ph_memsz ph) s) (\<lambda>sz s.
           if sz = 0 then Ok None s
           else mbind (loaduvm pgdir (ph_vaddr ph) ip (ph_off ph) (ph_filesz ph) s) (\<lambda>e s.
             if e < 0 then Ok None s else load_segments k ip (off + 32) pgdir sz s)))"


section \<open>The stack\<close>

definition align_down4 :: "uint32 \<Rightarrow> uint32" where
  "align_down4 x = x AND NOT 3"

text \<open>The argument strings: the stack pointer below them, and where each string is.\<close>

fun push_args :: "uchar list list \<Rightarrow> nat \<Rightarrow> uint32 \<Rightarrow> uint32 \<Rightarrow> 'a kmem_scheme \<Rightarrow> ((uint32 \<times> uint32 list) option, 'a kmem_scheme) outcome" where
  "push_args [] argc pgdir sp s = Ok (Some (sp, [])) s"
| "push_args (a # argv) argc pgdir sp s =
    (if argc \<ge> MAXARG then Ok None s
     else let sp = align_down4 (sp - of_nat (length a + 1)) in
       mbind (copyout pgdir sp (a @ [0]) s) (\<lambda>e s.
         if e < 0 then Ok None s
         else mbind (push_args argv (argc + 1) pgdir sp s) (\<lambda>r s.
           Ok (map_option (\<lambda>(sp', us). (sp', sp # us)) r) s)))"

definition words_bytes :: "uint32 list \<Rightarrow> uchar list" where
  "words_bytes ws = concat (map (\<lambda>w. put_u32 [0, 0, 0, 0] 0 w) ws)"

text \<open>The name of the program: what follows the last slash of the path.\<close>

definition last_elem :: "uchar list \<Rightarrow> uchar list" where
  "last_elem path = rev (takeWhile (\<lambda>c. c \<noteq> 47) (rev path))"

text \<open>The label \<open>bad\<close>.\<close>

definition exec_bad :: "uint32 \<Rightarrow> nat option \<Rightarrow> 'a kcons_scheme \<Rightarrow> (int, 'a kcons_scheme) outcome" where
  "exec_bad pgdir ip s =
     mbind (if pgdir \<noteq> 0 then freevm pgdir s else Ok () s) (\<lambda>_ s.
       case ip of None \<Rightarrow> Ok (- 1) s
       | Some i \<Rightarrow> mbind (iunlockput (Some i) s) (\<lambda>_ s. mbind (end_op s) (\<lambda>_ s. Ok (- 1) s)))"

text \<open>From the allocation of the stack to the return, with the image loaded and the file closed.\<close>

definition exec_stack :: "uchar list \<Rightarrow> uchar list \<Rightarrow> uchar list \<Rightarrow> uchar list list \<Rightarrow> uint32 \<Rightarrow> uint32 \<Rightarrow> uint32 \<Rightarrow>
    'a ksys_scheme \<Rightarrow> (int, 'a ksys_scheme) outcome" where
  "exec_stack exit_code sigret path argv entry pgdir sz s =
    (let sz = PGROUNDUP sz in
     mbind (allocuvm pgdir sz (sz + 2 * PGSIZE) s) (\<lambda>sz s.
     if sz = 0 then exec_bad pgdir None s
     else mbind (clearpteu pgdir (sz - 2 * PGSIZE) s) (\<lambda>_ s.
       let ret = sz - of_nat (length exit_code) in
       mbind (copyout pgdir ret exit_code s) (\<lambda>e s.
       if e < 0 then exec_bad pgdir None s
       else let sp = align_down4 (ret - of_nat (length sigret)) in
         mbind (copyout pgdir sp sigret s) (\<lambda>e s.
         if e < 0 then exec_bad pgdir None s
         else mbind (mcur s) (\<lambda>c s.
           mbind (push_args argv 0 pgdir sp (updp c (\<lambda>p. p\<lparr>p_ret_add := sp\<rparr>) s)) (\<lambda>r s.
           case r of None \<Rightarrow> exec_bad pgdir None s
           | Some (sp, us) \<Rightarrow>
             let argc = length us;
                 ustack = [ret, of_nat argc, sp - of_nat ((argc + 1) * 4)] @ us @ [0];
                 sp = sp - of_nat ((3 + argc + 1) * 4)
             in mbind (copyout pgdir sp (words_bytes ustack) s) (\<lambda>e s.
               if e < 0 then exec_bad pgdir None s
               else let old = p_pgdir (procs s ! c);
                        s = updp c (\<lambda>p. p\<lparr>p_name := safestrcpy (p_name p) (last_elem path) 16, p_pgdir := pgdir, p_sz := sz,
                              p_tf := (p_tf p)\<lparr>tf_eip := entry, tf_esp := sp\<rparr>\<rparr>) s
                 in mbind (switchuvm c s) (\<lambda>_ s. mbind (freevm old s) (\<lambda>_ s. Ok 0 s))))))))))"

text \<open>
  \<open>junk\<close> are the 52 bytes of the variable \<open>elf\<close> before it is read. The result of \<open>readi\<close> is compared with a \<open>sizeof\<close>, as
  unsigned numbers.
\<close>

definition exec :: "uchar list \<Rightarrow> uchar list \<Rightarrow> uchar list \<Rightarrow> uchar list \<Rightarrow> uchar list list \<Rightarrow> 'a ksys_scheme \<Rightarrow> (int, 'a ksys_scheme) outcome" where
  "exec exit_code sigret junk path argv s =
     mbind (begin_op s) (\<lambda>_ s.
     mbind (namei path s) (\<lambda>r s. case r of None \<Rightarrow> mbind (end_op s) (\<lambda>_ s. Ok (- 1) s)
     | Some ip \<Rightarrow> mbind (ilock (Some ip) s) (\<lambda>_ s.
         mbind (readi ip 0 52 s) (\<lambda>(r, cs) s.
         let elf = elf_of (splice junk 0 cs) in
         if (word_of_int r :: uint32) < 52 then exec_bad 0 (Some ip) s
         else if elf_magic elf \<noteq> ELF_MAGIC then exec_bad 0 (Some ip) s
         else mbind (setupkvm s) (\<lambda>pgdir s.
           if pgdir = 0 then exec_bad 0 (Some ip) s
           else mbind (load_segments (unat (elf_phnum elf)) ip (elf_phoff elf) pgdir 0 s) (\<lambda>r s.
             case r of None \<Rightarrow> exec_bad pgdir (Some ip) s
             | Some sz \<Rightarrow> mbind (iunlockput (Some ip) s) (\<lambda>_ s. mbind (end_op s) (\<lambda>_ s.
                 exec_stack exit_code sigret path argv (elf_entry elf) pgdir sz s))))))))"

end
