(* ===== verification/Sysfile.thy ===== *)
theory Sysfile
  imports Exec
begin

text \<open>
  The system calls on files, \<open>sysfile.c\<close>: they fetch and check their arguments, call the file, directory and program
  layers inside a transaction, and pass data to and from user memory.
\<close>

section \<open>Descriptors\<close>

definition argfd :: "int \<Rightarrow> 'a kfile_scheme \<Rightarrow> ((int \<times> nat) option, 'a kfile_scheme) outcome" where
  "argfd n s = mbind (argint n s) (\<lambda>r s. case r of None \<Rightarrow> Ok None s
     | Some fd \<Rightarrow> mbind (mcur s) (\<lambda>c s.
         if fd < 0 \<or> fd \<ge> int NOFILE then Ok None s
         else Ok (map_option (\<lambda>f. (fd, f)) (p_ofile (procs s ! c) ! nat fd)) s))"

definition fdalloc :: "nat \<Rightarrow> 'a kproc_scheme \<Rightarrow> (int, 'a kproc_scheme) outcome" where
  "fdalloc f s = mbind (mcur s) (\<lambda>c s.
     case ffind (\<lambda>x. x = None) (p_ofile (procs s ! c)) of
       None \<Rightarrow> Ok (- 1) s
     | Some fd \<Rightarrow> Ok (int fd) (updp c (\<lambda>p. p\<lparr>p_ofile := (p_ofile p)[fd := Some f]\<rparr>) s))"

definition set_fd :: "nat \<Rightarrow> nat option \<Rightarrow> 'a kproc_scheme \<Rightarrow> (unit, 'a kproc_scheme) outcome" where
  "set_fd fd x s = mbind (mcur s) (\<lambda>c s. Ok () (updp c (\<lambda>p. p\<lparr>p_ofile := (p_ofile p)[fd := x]\<rparr>) s))"

definition sys_dup :: "'a kfile_scheme \<Rightarrow> (int, 'a kfile_scheme) outcome" where
  "sys_dup s = mbind (argfd 0 s) (\<lambda>r s. case r of None \<Rightarrow> Ok (- 1) s
     | Some (_, f) \<Rightarrow> mbind (fdalloc f s) (\<lambda>fd s. if fd < 0 then Ok (- 1) s
         else mbind (filedup f s) (\<lambda>_ s. Ok fd s)))"

text \<open>The arguments of \<open>read\<close> and \<open>write\<close>: the file, the count and the buffer.\<close>

definition rw_args :: "'a kfile_scheme \<Rightarrow> ((nat \<times> int \<times> uint32) option, 'a kfile_scheme) outcome" where
  "rw_args s = mbind (argfd 0 s) (\<lambda>r s. case r of None \<Rightarrow> Ok None s
     | Some (_, f) \<Rightarrow> mbind (argint 2 s) (\<lambda>r s. case r of None \<Rightarrow> Ok None s
       | Some n \<Rightarrow> mbind (argptr 1 n s) (\<lambda>r s. Ok (map_option (\<lambda>p. (f, n, p)) r) s)))"

definition sys_read :: "'a kfile_scheme \<Rightarrow> (int, 'a kfile_scheme) outcome" where
  "sys_read s = mbind (rw_args s) (\<lambda>r s. case r of None \<Rightarrow> Ok (- 1) s
     | Some (f, n, p) \<Rightarrow> mbind (fileread f n s) (\<lambda>(r, cs) s.
         mbind (mcur s) (\<lambda>c s. mbind (store_bytes (p_pgdir (procs s ! c)) p cs s) (\<lambda>_ s. Ok r s))))"

definition sys_write :: "'a kfile_scheme \<Rightarrow> (int, 'a kfile_scheme) outcome" where
  "sys_write s = mbind (rw_args s) (\<lambda>r s. case r of None \<Rightarrow> Ok (- 1) s
     | Some (f, n, p) \<Rightarrow> mbind (mcur s) (\<lambda>c s.
         mbind (if f_writable (ftable s ! f) then load_bytes (p_pgdir (procs s ! c)) p (nat n) s else Ok [] s) (\<lambda>cs s.
         filewrite f cs n s)))"

definition sys_close :: "'a kfile_scheme \<Rightarrow> (int, 'a kfile_scheme) outcome" where
  "sys_close s = mbind (argfd 0 s) (\<lambda>r s. case r of None \<Rightarrow> Ok (- 1) s
     | Some (fd, f) \<Rightarrow> mbind (set_fd (nat fd) None s) (\<lambda>_ s. mbind (fileclose f s) (\<lambda>_ s. Ok 0 s)))"

text \<open>The fields of \<open>struct stat\<close>, in the order in which \<open>stati\<close> writes them.\<close>

definition store_stat :: "uint32 \<Rightarrow> uint32 \<Rightarrow> stat \<Rightarrow> 'a kmem_scheme \<Rightarrow> (unit, 'a kmem_scheme) outcome" where
  "store_stat pgdir a st s =
     mbind (store32 pgdir (a + 4) (st_dev st) s) (\<lambda>_ s.
     mbind (store32 pgdir (a + 8) (st_ino st) s) (\<lambda>_ s.
     mbind (store_bytes pgdir a (put_short [0, 0] 0 (st_type st)) s) (\<lambda>_ s.
     mbind (store_bytes pgdir (a + 12) (put_short [0, 0] 0 (st_nlink st)) s) (\<lambda>_ s.
     store32 pgdir (a + 16) (st_size st) s))))"

definition sys_fstat :: "'a kfile_scheme \<Rightarrow> (int, 'a kfile_scheme) outcome" where
  "sys_fstat s = mbind (argfd 0 s) (\<lambda>r s. case r of None \<Rightarrow> Ok (- 1) s
     | Some (_, f) \<Rightarrow> mbind (argptr 1 20 s) (\<lambda>r s. case r of None \<Rightarrow> Ok (- 1) s
       | Some a \<Rightarrow> mbind (filestat f s) (\<lambda>r s. case r of None \<Rightarrow> Ok (- 1) s
         | Some st \<Rightarrow> mbind (mcur s) (\<lambda>c s. mbind (store_stat (p_pgdir (procs s ! c)) a st s) (\<lambda>_ s. Ok 0 s)))))"


section \<open>Links\<close>

text \<open>Arithmetic on a \<open>short\<close>.\<close>

definition to_short :: "int \<Rightarrow> int" where
  "to_short x = sint (word_of_int x :: ushort)"

definition add_nlink :: "nat \<Rightarrow> int \<Rightarrow> 'a kfs_scheme \<Rightarrow> (unit, 'a kfs_scheme) outcome" where
  "add_nlink ip d s = iupdate ip (updi ip (\<lambda>i. i\<lparr>i_nlink := to_short (i_nlink i + d)\<rparr>) s)"

definition fail_op :: "'a klog_scheme \<Rightarrow> (int, 'a klog_scheme) outcome" where
  "fail_op s = mbind (end_op s) (\<lambda>_ s. Ok (- 1) s)"

definition link_bad :: "nat \<Rightarrow> 'a kfs_scheme \<Rightarrow> (int, 'a kfs_scheme) outcome" where
  "link_bad ip s = mbind (ilock (Some ip) s) (\<lambda>_ s. mbind (add_nlink ip (- 1) s) (\<lambda>_ s.
     mbind (iunlockput (Some ip) s) (\<lambda>_ s. fail_op s)))"

definition sys_link :: "'a kfile_scheme \<Rightarrow> (int, 'a kfile_scheme) outcome" where
  "sys_link s = mbind (argstr 0 s) (\<lambda>r s. case r of None \<Rightarrow> Ok (- 1) s
     | Some old \<Rightarrow> mbind (argstr 1 s) (\<lambda>r s. case r of None \<Rightarrow> Ok (- 1) s
       | Some new \<Rightarrow> mbind (begin_op s) (\<lambda>_ s.
           mbind (namei old s) (\<lambda>r s. case r of None \<Rightarrow> fail_op s
           | Some ip \<Rightarrow> mbind (ilock (Some ip) s) (\<lambda>_ s.
               if i_type (inodes s ! ip) = T_DIR then mbind (iunlockput (Some ip) s) (\<lambda>_ s. fail_op s)
               else mbind (add_nlink ip 1 s) (\<lambda>_ s. mbind (iunlock (Some ip) s) (\<lambda>_ s.
                 mbind (nameiparent new s) (\<lambda>r s. case r of None \<Rightarrow> link_bad ip s
                 | Some (dp, name) \<Rightarrow> mbind (ilock (Some dp) s) (\<lambda>_ s.
                     mbind (if i_dev (inodes s ! dp) \<noteq> i_dev (inodes s ! ip) then Ok (- 1) s
                            else dirlink dp name (i_inum (inodes s ! ip)) s) (\<lambda>e s.
                     mbind (iunlockput (Some dp) s) (\<lambda>_ s.
                       if e < 0 then link_bad ip s
                       else mbind (iput (Some ip) s) (\<lambda>_ s. mbind (end_op s) (\<lambda>_ s. Ok 0 s)))))))))))))"

fun isdirempty_loop :: "nat \<Rightarrow> nat list \<Rightarrow> 'a kcons_scheme \<Rightarrow> (bool, 'a kcons_scheme) outcome" where
  "isdirempty_loop dp [] s = Ok True s"
| "isdirempty_loop dp (off # offs) s = mbind (readi dp (of_nat off) 16 s) (\<lambda>(r, d) s.
     if r \<noteq> 16 then Panic ''isdirempty: readi''
     else if de_inum (dirent_of d) \<noteq> 0 then Ok False s else isdirempty_loop dp offs s)"

definition isdirempty :: "nat \<Rightarrow> 'a kcons_scheme \<Rightarrow> (bool, 'a kcons_scheme) outcome" where
  "isdirempty dp s = isdirempty_loop dp (drop 2 (dir_offsets (i_size (inodes s ! dp)))) s"

definition unlink_bad :: "nat \<Rightarrow> 'a kfs_scheme \<Rightarrow> (int, 'a kfs_scheme) outcome" where
  "unlink_bad dp s = mbind (iunlockput (Some dp) s) (\<lambda>_ s. fail_op s)"

text \<open>From the clearing of the directory entry at \<open>off\<close> on.\<close>

definition unlink_entry :: "nat \<Rightarrow> nat \<Rightarrow> nat \<Rightarrow> 'a kcons_scheme \<Rightarrow> (int, 'a kcons_scheme) outcome" where
  "unlink_entry dp ip off s = mbind (writei dp (replicate 16 0) (of_nat off) s) (\<lambda>r s.
     if r \<noteq> 16 then Panic ''unlink: writei''
     else mbind (if i_type (inodes s ! ip) = T_DIR then add_nlink dp (- 1) s else Ok () s) (\<lambda>_ s.
       mbind (iunlockput (Some dp) s) (\<lambda>_ s.
       mbind (add_nlink ip (- 1) s) (\<lambda>_ s.
       mbind (iunlockput (Some ip) s) (\<lambda>_ s.
       mbind (end_op s) (\<lambda>_ s. Ok 0 s))))))"

definition sys_unlink :: "'a kfile_scheme \<Rightarrow> (int, 'a kfile_scheme) outcome" where
  "sys_unlink s = mbind (argstr 0 s) (\<lambda>r s. case r of None \<Rightarrow> Ok (- 1) s
     | Some path \<Rightarrow> mbind (begin_op s) (\<lambda>_ s.
         mbind (nameiparent path s) (\<lambda>r s. case r of None \<Rightarrow> fail_op s
         | Some (dp, name) \<Rightarrow> mbind (ilock (Some dp) s) (\<lambda>_ s.
             if namecmp name (asc ''.'') = 0 \<or> namecmp name (asc ''..'') = 0 then unlink_bad dp s
             else mbind (dirlookup dp name s) (\<lambda>r s. case r of None \<Rightarrow> unlink_bad dp s
               | Some (ip, off) \<Rightarrow> mbind (ilock (Some ip) s) (\<lambda>_ s.
                   if i_nlink (inodes s ! ip) < 1 then Panic ''unlink: nlink < 1''
                   else mbind (if i_type (inodes s ! ip) = T_DIR then isdirempty ip s else Ok True s) (\<lambda>e s.
                     if \<not> e then mbind (iunlockput (Some ip) s) (\<lambda>_ s. unlink_bad dp s)
                     else unlink_entry dp ip off s)))))))"


section \<open>Creating and opening\<close>

definition create :: "uchar list \<Rightarrow> int \<Rightarrow> int \<Rightarrow> int \<Rightarrow> 'a kcons_scheme \<Rightarrow> (nat option, 'a kcons_scheme) outcome" where
  "create path ty major minor s =
     mbind (nameiparent path s) (\<lambda>r s. case r of None \<Rightarrow> Ok None s
     | Some (dp, name) \<Rightarrow> mbind (ilock (Some dp) s) (\<lambda>_ s.
         mbind (dirlookup dp name s) (\<lambda>r s. case r of
           Some (ip, _) \<Rightarrow> mbind (iunlockput (Some dp) s) (\<lambda>_ s. mbind (ilock (Some ip) s) (\<lambda>_ s.
             if ty = T_FILE \<and> i_type (inodes s ! ip) = T_FILE then Ok (Some ip) s
             else mbind (iunlockput (Some ip) s) (\<lambda>_ s. Ok None s)))
         | None \<Rightarrow> mbind (ialloc (i_dev (inodes s ! dp)) ty s) (\<lambda>ip s.
             mbind (ilock (Some ip) s) (\<lambda>_ s.
             mbind (iupdate ip (updi ip (\<lambda>i. i\<lparr>i_major := to_short major, i_minor := to_short minor, i_nlink := 1\<rparr>) s)) (\<lambda>_ s.
             mbind (if ty = T_DIR then
                      mbind (add_nlink dp 1 s) (\<lambda>_ s.
                      mbind (dirlink ip (asc ''.'') (i_inum (inodes s ! ip)) s) (\<lambda>e s.
                      if e < 0 then Panic ''create dots''
                      else mbind (dirlink ip (asc ''..'') (i_inum (inodes s ! dp)) s) (\<lambda>e s.
                        if e < 0 then Panic ''create dots'' else Ok () s)))
                    else Ok () s) (\<lambda>_ s.
             mbind (dirlink dp name (i_inum (inodes s ! ip)) s) (\<lambda>e s.
             if e < 0 then Panic ''create: dirlink''
             else mbind (iunlockput (Some dp) s) (\<lambda>_ s. Ok (Some ip) s)))))))))"

definition has_bits :: "int \<Rightarrow> uint32 \<Rightarrow> bool" where
  "has_bits omode m \<longleftrightarrow> (word_of_int omode :: uint32) AND m \<noteq> 0"

text \<open>The end of \<open>sys_open\<close>, with the inode locked.\<close>

definition open_file :: "nat \<Rightarrow> int \<Rightarrow> 'a kfile_scheme \<Rightarrow> (int, 'a kfile_scheme) outcome" where
  "open_file ip omode s =
    (case filealloc s of None \<Rightarrow> mbind (iunlockput (Some ip) s) (\<lambda>_ s. fail_op s)
     | Some (f, s) \<Rightarrow> mbind (fdalloc f s) (\<lambda>fd s.
         if fd < 0 then mbind (fileclose f s) (\<lambda>_ s. mbind (iunlockput (Some ip) s) (\<lambda>_ s. fail_op s))
         else mbind (iunlock (Some ip) s) (\<lambda>_ s. mbind (end_op s) (\<lambda>_ s.
           Ok fd (updf f (\<lambda>x. x\<lparr>f_type := FD_INODE, f_ip := Some ip, f_off := 0, f_readable := \<not> has_bits omode 1,
             f_writable := has_bits omode 1 \<or> has_bits omode 2\<rparr>) s)))))"

definition sys_open :: "'a kfile_scheme \<Rightarrow> (int, 'a kfile_scheme) outcome" where
  "sys_open s = mbind (argstr 0 s) (\<lambda>r s. case r of None \<Rightarrow> Ok (- 1) s
     | Some path \<Rightarrow> mbind (argint 1 s) (\<lambda>r s. case r of None \<Rightarrow> Ok (- 1) s
       | Some omode \<Rightarrow> mbind (begin_op s) (\<lambda>_ s.
           if has_bits omode 0x200 then
             mbind (create path T_FILE 0 0 s) (\<lambda>r s. case r of None \<Rightarrow> fail_op s | Some ip \<Rightarrow> open_file ip omode s)
           else mbind (namei path s) (\<lambda>r s. case r of None \<Rightarrow> fail_op s
             | Some ip \<Rightarrow> mbind (ilock (Some ip) s) (\<lambda>_ s.
                 if i_type (inodes s ! ip) = T_DIR \<and> omode \<noteq> 0 then mbind (iunlockput (Some ip) s) (\<lambda>_ s. fail_op s)
                 else open_file ip omode s)))))"

text \<open>What \<open>sys_mkdir\<close> and \<open>sys_mknod\<close> do with the inode \<open>create\<close> made, if any.\<close>

definition created :: "nat option \<Rightarrow> 'a kfs_scheme \<Rightarrow> (int, 'a kfs_scheme) outcome" where
  "created r s = (case r of None \<Rightarrow> fail_op s
     | Some ip \<Rightarrow> mbind (iunlockput (Some ip) s) (\<lambda>_ s. mbind (end_op s) (\<lambda>_ s. Ok 0 s)))"

definition sys_mkdir :: "'a kcons_scheme \<Rightarrow> (int, 'a kcons_scheme) outcome" where
  "sys_mkdir s = mbind (begin_op s) (\<lambda>_ s. mbind (argstr 0 s) (\<lambda>r s. case r of None \<Rightarrow> fail_op s
     | Some path \<Rightarrow> mbind (create path T_DIR 0 0 s) created))"

definition sys_mknod :: "'a kcons_scheme \<Rightarrow> (int, 'a kcons_scheme) outcome" where
  "sys_mknod s = mbind (begin_op s) (\<lambda>_ s. mbind (argstr 0 s) (\<lambda>r s. case r of None \<Rightarrow> fail_op s
     | Some path \<Rightarrow> mbind (argint 1 s) (\<lambda>r s. case r of None \<Rightarrow> fail_op s
       | Some major \<Rightarrow> mbind (argint 2 s) (\<lambda>r s. case r of None \<Rightarrow> fail_op s
         | Some minor \<Rightarrow> mbind (create path T_DEV major minor s) created))))"

definition sys_chdir :: "'a kcons_scheme \<Rightarrow> (int, 'a kcons_scheme) outcome" where
  "sys_chdir s = mbind (begin_op s) (\<lambda>_ s. mbind (argstr 0 s) (\<lambda>r s. case r of None \<Rightarrow> fail_op s
     | Some path \<Rightarrow> mbind (namei path s) (\<lambda>r s. case r of None \<Rightarrow> fail_op s
       | Some ip \<Rightarrow> mbind (ilock (Some ip) s) (\<lambda>_ s.
           if i_type (inodes s ! ip) \<noteq> T_DIR then mbind (iunlockput (Some ip) s) (\<lambda>_ s. fail_op s)
           else mbind (iunlock (Some ip) s) (\<lambda>_ s. mbind (mcur s) (\<lambda>c s.
             mbind (iput (p_cwd (procs s ! c)) s) (\<lambda>_ s. mbind (end_op s) (\<lambda>_ s.
             Ok 0 (updp c (\<lambda>p. p\<lparr>p_cwd := Some ip\<rparr>) s)))))))))"


section \<open>Programs and pipes\<close>

text \<open>The argument vector at \<open>uargv\<close>; \<open>k\<close> places of \<open>argv\<close> are left.\<close>

fun fetch_argv :: "nat \<Rightarrow> uint32 \<Rightarrow> 'a kproc_scheme \<Rightarrow> (uchar list list option, 'a kproc_scheme) outcome" where
  "fetch_argv 0 a s = Ok None s"
| "fetch_argv (Suc k) a s = mbind (fetchint a s) (\<lambda>r s. case r of None \<Rightarrow> Ok None s
     | Some u \<Rightarrow> if u = 0 then Ok (Some []) s
         else mbind (fetchstr u s) (\<lambda>r s. case r of None \<Rightarrow> Ok None s
           | Some x \<Rightarrow> mbind (fetch_argv k (a + 4) s) (\<lambda>r s. Ok (map_option (\<lambda>xs. x # xs) r) s)))"

definition sys_exec :: "uchar list \<Rightarrow> uchar list \<Rightarrow> uchar list \<Rightarrow> 'a ksys_scheme \<Rightarrow> (int, 'a ksys_scheme) outcome" where
  "sys_exec exit_code sigret junk s = mbind (argstr 0 s) (\<lambda>r s. case r of None \<Rightarrow> Ok (- 1) s
     | Some path \<Rightarrow> mbind (argint 1 s) (\<lambda>r s. case r of None \<Rightarrow> Ok (- 1) s
       | Some u \<Rightarrow> mbind (fetch_argv MAXARG (word_of_int u) s) (\<lambda>r s. case r of None \<Rightarrow> Ok (- 1) s
         | Some argv \<Rightarrow> exec exit_code sigret junk path argv s)))"

definition pipe_fail :: "nat \<Rightarrow> nat \<Rightarrow> 'a kfile_scheme \<Rightarrow> (int, 'a kfile_scheme) outcome" where
  "pipe_fail rf wfile s = mbind (fileclose rf s) (\<lambda>_ s. mbind (fileclose wfile s) (\<lambda>_ s. Ok (- 1) s))"

definition sys_pipe :: "'a kfile_scheme \<Rightarrow> (int, 'a kfile_scheme) outcome" where
  "sys_pipe s = mbind (argptr 0 8 s) (\<lambda>r s. case r of None \<Rightarrow> Ok (- 1) s
     | Some a \<Rightarrow> mbind (pipealloc s) (\<lambda>r s. case r of None \<Rightarrow> Ok (- 1) s
       | Some (rf, wfile) \<Rightarrow> mbind (fdalloc rf s) (\<lambda>fd0 s.
           if fd0 < 0 then pipe_fail rf wfile s
           else mbind (fdalloc wfile s) (\<lambda>fd1 s.
             if fd1 < 0 then mbind (set_fd (nat fd0) None s) (\<lambda>_ s. pipe_fail rf wfile s)
             else mbind (mcur s) (\<lambda>c s.
               mbind (store32 (p_pgdir (procs s ! c)) a (word_of_int fd0) s) (\<lambda>_ s.
               mbind (store32 (p_pgdir (procs s ! c)) (a + 4) (word_of_int fd1) s) (\<lambda>_ s. Ok 0 s)))))))"

end
