(* ===== verification/Trap.thy ===== *)
theory Trap
  imports Sysfile
begin

text \<open>
  The entry into the kernel: the dispatch of system calls (\<open>syscall.c\<close>), traps and interrupts and the delivery of signals
  (\<open>trap.c\<close>, \<open>trapasm.S\<close>). A trap frame is a value; on a trap from user mode the processor builds it where the
  \<open>tf\<close> of the process is.
\<close>

section \<open>System calls\<close>

text \<open>
  What comes from outside: the bytes in the keyboard controller and the serial port, the machine code \<open>exec\<close> copies, the
  faulting address, and the contents of variables and registers that were never set.
\<close>

record trap_env =
  te_kbd :: "uchar list"
  te_uart :: "uchar list"
  te_exit_code :: "uchar list"
  te_sigret :: "uchar list"
  te_elf :: "uchar list"
  te_junk :: uint32
  te_eax :: uint32
  te_cr2 :: uint32

text \<open>\<open>sys_priority\<close> returns nothing, so its result is what happens to be in \<open>eax\<close>.\<close>

definition syscalls :: "trap_env \<Rightarrow> ('a ksys_scheme \<Rightarrow> (int, 'a ksys_scheme) outcome) option list" where
  "syscalls e = [None, Some sys_fork, Some sys_exit, Some sys_wait, Some sys_pipe, Some sys_read, Some sys_kill,
     Some (sys_exec (te_exit_code e) (te_sigret e) (te_elf e)), Some sys_fstat, Some sys_chdir, Some sys_dup,
     Some sys_getpid, Some sys_sbrk, Some sys_sleep, Some sys_uptime, Some sys_open, Some sys_write, Some sys_mknod,
     Some sys_unlink, Some sys_link, Some sys_mkdir, Some sys_close, Some (sys_schedp (te_junk e)),
     Some (\<lambda>s. mbind (sys_priority (te_junk e) s) (\<lambda>_ s. Ok (sint (te_eax e)) s)), Some sys_wait_stat,
     Some sys_signal, Some sys_sigsend, Some sys_sigreturn]"

definition set_eax :: "int \<Rightarrow> proc \<Rightarrow> proc" where
  "set_eax r p = p\<lparr>p_tf := (p_tf p)\<lparr>tf_eax := word_of_int r\<rparr>\<rparr>"

definition syscall :: "trap_env \<Rightarrow> 'a ksys_scheme \<Rightarrow> (unit, 'a ksys_scheme) outcome" where
  "syscall e s = mbind (mcur s) (\<lambda>c s.
     let p = procs s ! c; num = sint (tf_eax (p_tf p)) in
     case (if num > 0 \<and> num < int (length (syscalls e :: ('a ksys_scheme \<Rightarrow> (int, 'a ksys_scheme) outcome) option list))
           then syscalls e ! nat num else None) of
       Some f \<Rightarrow> mbind (f s) (\<lambda>r s. Ok () (updp c (set_eax r) s))
     | None \<Rightarrow> mbind (cprintf (Some (asc ''%d %s: unknown sys call %d'' @ nl))
           [VNum (word_of_int (p_pid p)), VStr (Some (cstr 16 (p_name p))), VNum (word_of_int num)] s) (\<lambda>_ s.
         Ok () (updp c (set_eax (- 1)) s)))"


section \<open>Signals\<close>

definition save_tf :: "proc \<Rightarrow> proc" where
  "save_tf p =
    (let t = p_tf p
     in p\<lparr>p_backup_tf := (p_backup_tf p)\<lparr>
       tf_edi := tf_edi t, tf_esi := tf_esi t, tf_ebp := tf_ebp t, tf_oesp := tf_oesp t,
       tf_ebx := tf_ebx t, tf_edx := tf_edx t, tf_ecx := tf_ecx t, tf_eax := tf_eax t,
       tf_gs := tf_gs t, tf_padding1 := tf_padding1 t, tf_fs := tf_fs t, tf_padding2 := tf_padding2 t,
       tf_es := tf_es t, tf_padding3 := tf_padding3 t, tf_ds := tf_ds t, tf_padding4 := tf_padding4 t,
       tf_trapno := tf_trapno t, tf_err := tf_err t, tf_eip := tf_eip t, tf_cs := tf_cs t,
       tf_padding5 := tf_padding5 t, tf_eflags := tf_eflags t, tf_esp := tf_esp t, tf_ss := tf_ss t,
       tf_padding6 := tf_padding6 t\<rparr>\<rparr>)"

definition default_handler :: "int \<Rightarrow> nat \<Rightarrow> 'a kcons_scheme \<Rightarrow> (unit, 'a kcons_scheme) outcome" where
  "default_handler num c s =
     mbind (cprintf (Some (asc ''default_handler: A signal %d was accepted by process %d'' @ nl))
       [VNum (word_of_int num), VNum (word_of_int (p_pid (procs s ! c)))] s) (\<lambda>_ s.
     Ok () (updp c (\<lambda>p. p\<lparr>p_handling_signal := False\<rparr>) s))"

text \<open>The signal that is taken: the lowest one pending.\<close>

definition take_signal :: "uint32 \<Rightarrow> nat option" where
  "take_signal pending = ffind (\<lambda>i. push_bit i 1 AND pending \<noteq> 0) [0..<32]"

definition user_mode :: "trapframe \<Rightarrow> bool" where
  "user_mode tf \<longleftrightarrow> tf_cs tf AND 3 = DPL_USER"

text \<open>One word pushed on the user stack.\<close>

definition push_user :: "nat \<Rightarrow> uint32 \<Rightarrow> 'a kproc_scheme \<Rightarrow> (unit, 'a kproc_scheme) outcome" where
  "push_user c w s =
    (let s = updp c (\<lambda>p. p\<lparr>p_tf := (p_tf p)\<lparr>tf_esp := tf_esp (p_tf p) - 4\<rparr>\<rparr>) s
     in store32 (p_pgdir (procs s ! c)) (tf_esp (p_tf (procs s ! c))) w s)"

definition do_signal :: "trapframe \<Rightarrow> 'a kcons_scheme \<Rightarrow> (unit, 'a kcons_scheme) outcome" where
  "do_signal tf s = (case cur s of None \<Rightarrow> Ok () s
     | Some c \<Rightarrow>
       if user_mode tf \<and> p_pending (procs s ! c) \<noteq> 0 \<and> \<not> p_handling_signal (procs s ! c) then
         let s = updp c (\<lambda>p. p\<lparr>p_handling_signal := True\<rparr>) s in
         case take_signal (p_pending (procs s ! c)) of None \<Rightarrow> out_of_bounds
         | Some signum \<Rightarrow>
           let s = updp c (\<lambda>p. p\<lparr>p_pending := p_pending p AND NOT (push_bit signum 1)\<rparr>) s;
               h = p_handlers_array (procs s ! c) ! signum
           in if h = 0xffffffff then default_handler (int signum) c s
              else mbind (push_user c (of_nat signum) (updp c save_tf s)) (\<lambda>_ s.
                mbind (push_user c (p_ret_add (procs s ! c)) s) (\<lambda>_ s.
                Ok () (updp c (\<lambda>p. p\<lparr>p_tf := (p_tf p)\<lparr>tf_eip := p_handlers_array p ! signum\<rparr>\<rparr>) s)))
       else Ok () s)"


section \<open>Traps\<close>

text \<open>\<open>vectors\<close> are the addresses of the 256 entry points, in a file that the build generates.\<close>

definition tvinit :: "uint32 list \<Rightarrow> 'a ksys_scheme \<Rightarrow> 'a ksys_scheme" where
  "tvinit vectors s = s\<lparr>idt := (map (\<lambda>v. SETGATE False 8 v 0) vectors)[64 := SETGATE True 8 (vectors ! 64) DPL_USER]\<rparr>"

definition exit_if_killed :: "trapframe \<Rightarrow> 'a ksys_scheme \<Rightarrow> (unit, 'a ksys_scheme) outcome" where
  "exit_if_killed tf s = (case cur s of None \<Rightarrow> Ok () s
     | Some c \<Rightarrow> if p_killed (procs s ! c) \<and> user_mode tf then exit 0 s else Ok () s)"

definition timer_tick :: "'a ksys_scheme \<Rightarrow> 'a ksys_scheme" where
  "timer_tick s = (if cpu_id s = 0 then wakeup ChanTicks (updatePerformanceFields (s\<lparr>ticks := ticks s + 1\<rparr>)) else s)"

text \<open>The cases of \<open>trap\<close> other than system calls. The disk in memory needs no interrupt: \<open>ideintr\<close> does nothing.\<close>

definition trap_case :: "trap_env \<Rightarrow> trapframe \<Rightarrow> 'a ksys_scheme \<Rightarrow> (unit, 'a ksys_scheme) outcome" where
  "trap_case e tf s =
    (let n = tf_trapno tf in
     if n = 32 then Ok () (timer_tick s)
     else if n = 46 \<or> n = 47 then Ok () s
     else if n = 33 then kbdintr (te_kbd e) s
     else if n = 36 then uartintr (te_uart e) s
     else if n = 39 \<or> n = 63 then
       cprintf (Some (asc ''cpu%d: spurious interrupt at %x:%x'' @ nl)) [VNum (word_of_int (cpu_id s)), VNum (ucast (tf_cs tf)), VNum (tf_eip tf)] s
     else case cur s of
       Some c \<Rightarrow>
         if tf_cs tf AND 3 = 0 then Panic ''trap''
         else mbind (cprintf (Some (asc ''pid %d %s: trap %d err %d on cpu %d eip 0x%x addr 0x%x--kill proc'' @ nl))
             [VNum (word_of_int (p_pid (procs s ! c))), VStr (Some (cstr 16 (p_name (procs s ! c)))), VNum n, VNum (tf_err tf),
              VNum (word_of_int (cpu_id s)), VNum (tf_eip tf), VNum (te_cr2 e)] s) (\<lambda>_ s.
           Ok () (updp c (\<lambda>p. p\<lparr>p_killed := True\<rparr>) s))
     | None \<Rightarrow> Panic ''trap'')"

text \<open>\<open>others\<close> is what happens while the process that yields waits for the processor, up to its being resumed.\<close>

definition trap :: "trap_env \<Rightarrow> ('a ksys_scheme \<Rightarrow> 'a ksys_scheme) \<Rightarrow> trapframe \<Rightarrow> 'a ksys_scheme \<Rightarrow> (unit, 'a ksys_scheme) outcome" where
  "trap e others tf s =
    (if tf_trapno tf = 64 then
       mbind (mcur s) (\<lambda>c s. if p_killed (procs s ! c) then exit 0 s
         else mbind (syscall e (updp c (\<lambda>p. p\<lparr>p_tf := tf\<rparr>) s)) (\<lambda>_ s.
           if p_killed (procs s ! c) then exit 0 s else Ok () s))
     else mbind (trap_case e tf s) (\<lambda>_ s.
       mbind (exit_if_killed tf s) (\<lambda>_ s.
       mbind (case cur s of None \<Rightarrow> Ok () s
              | Some c \<Rightarrow> if p_state (procs s ! c) = RUNNING \<and> tf_trapno tf = 32
                  then mbind (yield s) (\<lambda>_ s. Ok () (others s)) else Ok () s) (\<lambda>_ s.
       exit_if_killed tf s))))"

text \<open>\<open>alltraps\<close> and \<open>trapret\<close>: the frame is built, and before the registers are restored a pending signal is delivered.\<close>

definition alltraps :: "trap_env \<Rightarrow> ('a ksys_scheme \<Rightarrow> 'a ksys_scheme) \<Rightarrow> trapframe \<Rightarrow> 'a ksys_scheme \<Rightarrow> (unit, 'a ksys_scheme) outcome" where
  "alltraps e others tf s =
    (let s = (case cur s of Some c \<Rightarrow> if user_mode tf then updp c (\<lambda>p. p\<lparr>p_tf := tf\<rparr>) s else s | None \<Rightarrow> s)
     in mbind (trap e others tf s) (\<lambda>_ s.
       do_signal (case cur s of Some c \<Rightarrow> if user_mode tf then p_tf (procs s ! c) else tf | None \<Rightarrow> tf) s))"

section \<open>Delivery and return\<close>

lemma save_tf_eq: "save_tf p = p\<lparr>p_backup_tf := p_tf p\<rparr>"
  by (cases p; cases "p_tf p"; cases "p_backup_tf p") (simp add: save_tf_def Let_def)

lemma restore_tf_eq: "restore_tf p = p\<lparr>p_tf := p_backup_tf p\<rparr>"
  by (cases p; cases "p_tf p"; cases "p_backup_tf p") (simp add: restore_tf_def Let_def)

lemma word_zero_bits: "x = 0 \<longleftrightarrow> (\<forall>k. \<not> bit x k)" for x :: uint32
  using bit_eq_iff [of x 0] bit_imp_le_length [of x] by auto

lemma take_signal_least:
  "take_signal w = Some n \<longleftrightarrow> n < 32 \<and> bit w n \<and> (\<forall>i<n. \<not> bit w i)"
proof -
  have b: "push_bit i 1 AND w = 0 \<longleftrightarrow> \<not> bit w i" if "i < 32" for i
  proof -
    have e: "bit (push_bit i 1 AND w) k \<longleftrightarrow> k = i \<and> bit w i" for k
      using that bit_imp_le_length [of w k] by (auto simp: bit_simps)
    show ?thesis using e word_zero_bits [of "push_bit i 1 AND w"] by simp
  qed
  have "(\<forall>j<n. \<not> push_bit ([0..<32] ! j) 1 AND w \<noteq> 0) \<longleftrightarrow> (\<forall>j<n. \<not> bit w j)" if "n < 32"
    using that b by (auto simp del: push_bit_of_1)
  then show ?thesis using b unfolding take_signal_def ffind_Some by (auto simp del: push_bit_of_1)
qed

lemma take_signal_pending: "w \<noteq> 0 \<Longrightarrow> \<exists>n. take_signal w = Some n"
proof -
  assume "w \<noteq> 0"
  then obtain k where k: "bit w k" by (auto simp: word_zero_bits)
  then have "k < 32" using bit_imp_le_length [of w k] by simp
  define n where "n = (LEAST k. bit w k)"
  have "bit w n" "n \<le> k" using k unfolding n_def by (auto intro: LeastI Least_le)
  moreover have "\<not> bit w i" if "i < n" for i using that not_less_Least unfolding n_def by blast
  ultimately show ?thesis using \<open>k < 32\<close> by (intro exI [of _ n]) (auto simp: take_signal_least)
qed

lemma mem_view_cong:
  assumes "mem t = mem s"
  shows "pte_of t = pte_of s" "present t = present s" "writable t = writable s" "ubyte t = ubyte s" "space_ok A t = space_ok A s"
proof -
  have r: "read_pte t = read_pte s" using assms by (simp add: read_pte_def fun_eq_iff)
  have pd: "pde_present t = pde_present s" "pgtab_of t = pgtab_of s" by (simp_all add: pde_present_def pgtab_of_def r fun_eq_iff)
  show p: "pte_of t = pte_of s" by (simp add: pte_of_def pd r fun_eq_iff)
  have f: "frame_of t = frame_of s" by (simp add: frame_of_def p fun_eq_iff)
  show a: "present t = present s" "writable t = writable s" by (simp_all add: present_def writable_def p fun_eq_iff)
  show "ubyte t = ubyte s" using assms by (simp add: ubyte_def f fun_eq_iff)
  have "pt_pages t = pt_pages s" by (simp add: pt_pages_def pd fun_eq_iff)
  then show "space_ok A t = space_ok A s" using assms by (simp add: space_ok_def a f fun_eq_iff)
qed

lemma load_bytes_upd:
  "load_bytes pg a n s = Ok x s \<Longrightarrow> load_bytes pg a n (updp c f s) = Ok x (updp c f s)"
proof -
  have m: "mem (updp c f s) = mem s" by (simp add: updp_def)
  have g: "\<exists>r. load_bytes pg a n s = (case r of None \<Rightarrow> Panic ''trap'' | Some x \<Rightarrow> Ok x s) \<and>
      load_bytes pg a n (updp c f s) = (case r of None \<Rightarrow> Panic ''trap'' | Some x \<Rightarrow> Ok x (updp c f s))" for n a
  proof (induction n arbitrary: a)
    case 0
    then show ?case by (intro exI [of _ "Some []"]) simp
  next
    case (Suc n)
    obtain r where r: "load_bytes pg (a + 1) n s = (case r of None \<Rightarrow> Panic ''trap'' | Some x \<Rightarrow> Ok x s)"
        "load_bytes pg (a + 1) n (updp c f s) = (case r of None \<Rightarrow> Panic ''trap'' | Some x \<Rightarrow> Ok x (updp c f s))"
      using Suc by blast
    show ?case by (intro exI [of _ "if present s pg a then map_option (\<lambda>x. ubyte s pg a # x) r else None"])
        (use r in \<open>simp add: mem_view_cong [OF m] split: option.splits\<close>)
  qed
  show "load_bytes pg a n s = Ok x s \<Longrightarrow> load_bytes pg a n (updp c f s) = Ok x (updp c f s)"
    using g [of a n] by (auto split: option.splits)
qed

text \<open>A push on the user stack: it changes the stack pointer and four bytes below it.\<close>

lemma push_user_spec:
  fixes s :: "'a kproc_scheme"
  assumes c: "c < length (procs s)" "p_pgdir (procs s ! c) = pg" "tf_esp (p_tf (procs s ! c)) = sp"
    and m: "space_ok A s pg" "4 \<le> unat sp" "\<forall>i<4. sp - 4 + of_nat i \<in> A \<and> writable s pg (sp - 4 + of_nat i)"
  shows "\<exists>t. push_user c w s = Ok () t \<and> mem_only (updp c (\<lambda>p. p\<lparr>p_tf := (p_tf p)\<lparr>tf_esp := sp - 4\<rparr>\<rparr>) s) t \<and>
    (\<forall>x. pte_of t pg x = pte_of s pg x) \<and> space_ok A t pg \<and>
    (\<forall>x\<in>A. present s pg x \<longrightarrow> ubyte t pg x =
      (if unat (sp - 4) \<le> unat x \<and> unat x < unat (sp - 4) + 4 then put_u32 [0, 0, 0, 0] 0 w ! (unat x - unat (sp - 4)) else ubyte s pg x))"
proof -
  let ?u = "updp c (\<lambda>p. p\<lparr>p_tf := (p_tf p)\<lparr>tf_esp := sp - 4\<rparr>\<rparr>) s"
  let ?w = "put_u32 [0, 0, 0, 0] 0 w"
  have mm: "mem ?u = mem s" by (simp add: updp_def)
  have u: "pte_of ?u = pte_of s" "space_ok A ?u = space_ok A s" "writable ?u = writable s" "present ?u = present s" "ubyte ?u = ubyte s"
    by (rule mem_view_cong [OF mm])+
  have "unat (sp - 4) = unat sp - 4" using m(2) by (simp add: unat_sub word_le_nat_alt)
  then have l: "unat (sp - 4) + length ?w \<le> 2 ^ 32" using unat_less_32 [of sp] m(2) by (simp del: unat_less_32)
  obtain t where t: "store_bytes pg (sp - 4) ?w ?u = Ok () t" "\<forall>x. pte_of t pg x = pte_of ?u pg x" "space_ok A t pg"
    "\<forall>x\<in>A. present ?u pg x \<longrightarrow> ubyte t pg x = (if unat (sp - 4) \<le> unat x \<and> unat x < unat (sp - 4) + length ?w
       then ?w ! (unat x - unat (sp - 4)) else ubyte ?u pg x)"
    using store_bytes_eq [of A ?u pg "sp - 4" ?w] m(1,3) l unfolding u by auto
  have "push_user c w s = store_bytes pg (sp - 4) ?w ?u"
    using c by (simp add: push_user_def store32_def Let_def updp_def)
  then show ?thesis using t mem_only_Ok [OF store_bytes_frame t(1)] unfolding u by auto
qed

lemma frame_bytes:
  assumes "8 \<le> unat (sp :: uint32)" "i < 8" "length w1 = 4" "length w2 = 4"
    and "f (sp - 8 + of_nat i) = (if unat (sp - 4) \<le> unat (sp - 8 + of_nat i) \<and> unat (sp - 8 + of_nat i) < unat (sp - 4) + 4
      then w1 ! (unat (sp - 8 + of_nat i) - unat (sp - 4)) else e (sp - 8 + of_nat i))"
    and "g (sp - 8 + of_nat i) = (if unat (sp - 8) \<le> unat (sp - 8 + of_nat i) \<and> unat (sp - 8 + of_nat i) < unat (sp - 8) + 4
      then w2 ! (unat (sp - 8 + of_nat i) - unat (sp - 8)) else f (sp - 8 + of_nat i))"
  shows "g (sp - 8 + of_nat i) = (w2 @ w1) ! i"
proof -
  have a: "unat (sp - 4) = unat sp - 4" "unat (sp - 8) = unat sp - 8" using assms(1) by (simp_all add: unat_sub word_le_nat_alt)
  have "unat (sp - 8 + of_nat i) = unat sp - 8 + i"
    using range_unat [of "sp - 8" 8 i] unat_less_32 [of sp] assms(1,2) by (simp add: a del: unat_less_32)
  then show ?thesis using assms unfolding a by (cases "i < 4") (auto simp: nth_append)
qed

text \<open>Two pushes: the second word lies below the first.\<close>

lemma push_user_twice:
  fixes s :: "'a kproc_scheme"
  assumes c: "c < length (procs s)" "p_pgdir (procs s ! c) = pg" "tf_esp (p_tf (procs s ! c)) = sp"
    and m: "space_ok A s pg" "8 \<le> unat sp" "\<forall>i<8. sp - 8 + of_nat i \<in> A \<and> writable s pg (sp - 8 + of_nat i)"
  shows "\<exists>t u. push_user c w1 s = Ok () t \<and> procs t = procs (updp c (\<lambda>p. p\<lparr>p_tf := (p_tf p)\<lparr>tf_esp := sp - 4\<rparr>\<rparr>) s) \<and>
    push_user c w2 t = Ok () u \<and> procs u = procs (updp c (\<lambda>p. p\<lparr>p_tf := (p_tf p)\<lparr>tf_esp := sp - 8\<rparr>\<rparr>) s) \<and>
    load_bytes pg (sp - 8) 8 u = Ok (put_u32 [0, 0, 0, 0] 0 w2 @ put_u32 [0, 0, 0, 0] 0 w1) u"
proof -
  have w4: "\<forall>i<4. sp - 4 + of_nat i \<in> A \<and> writable s pg (sp - 4 + of_nat i)"
  proof (intro allI impI)
    fix i :: nat assume "i < 4"
    then show "sp - 4 + of_nat i \<in> A \<and> writable s pg (sp - 4 + of_nat i)" using m(3) [rule_format, of "i + 4"] by (simp add: algebra_simps)
  qed
  obtain t where t: "push_user c w1 s = Ok () t" "mem_only (updp c (\<lambda>p. p\<lparr>p_tf := (p_tf p)\<lparr>tf_esp := sp - 4\<rparr>\<rparr>) s) t"
    "\<forall>x. pte_of t pg x = pte_of s pg x" "space_ok A t pg"
    "\<forall>x\<in>A. present s pg x \<longrightarrow> ubyte t pg x = (if unat (sp - 4) \<le> unat x \<and> unat x < unat (sp - 4) + 4
        then put_u32 [0, 0, 0, 0] 0 w1 ! (unat x - unat (sp - 4)) else ubyte s pg x)"
    using push_user_spec [OF c m(1) _ w4, of w1] m(2) by auto
  have pt: "procs t = procs (updp c (\<lambda>p. p\<lparr>p_tf := (p_tf p)\<lparr>tf_esp := sp - 4\<rparr>\<rparr>) s)" using mem_only_procs [OF t(2)] by simp
  have a: "present t pg = present s pg" "writable t pg = writable s pg" using t(3) by (auto simp: present_def writable_def)
  have d: "c < length (procs t)" "p_pgdir (procs t ! c) = pg" "tf_esp (p_tf (procs t ! c)) = sp - 4" using c by (simp_all add: pt)
  have e: "sp - 4 - 4 = sp - 8" "4 \<le> unat (sp - 4)" using m(2) by (simp_all add: unat_sub word_le_nat_alt)
  have "\<forall>i<4. sp - 4 - 4 + of_nat i \<in> A \<and> writable t pg (sp - 4 - 4 + of_nat i)" using m(3) unfolding a e by simp
  from push_user_spec [OF d t(4) e(2) this, of w2]
  obtain u where u: "push_user c w2 t = Ok () u" "mem_only (updp c (\<lambda>p. p\<lparr>p_tf := (p_tf p)\<lparr>tf_esp := sp - 8\<rparr>\<rparr>) t) u"
    "\<forall>x. pte_of u pg x = pte_of t pg x"
    "\<forall>x\<in>A. present t pg x \<longrightarrow> ubyte u pg x = (if unat (sp - 8) \<le> unat x \<and> unat x < unat (sp - 8) + 4
        then put_u32 [0, 0, 0, 0] 0 w2 ! (unat x - unat (sp - 8)) else ubyte t pg x)"
    unfolding e(1) by auto
  have pu: "procs u = procs (updp c (\<lambda>p. p\<lparr>p_tf := (p_tf p)\<lparr>tf_esp := sp - 8\<rparr>\<rparr>) t)" using mem_only_procs [OF u(2)] by simp
  have pr: "sp - 8 + of_nat i \<in> A" "present s pg (sp - 8 + of_nat i)" if "i < 8" for i using m(3) that by (simp_all add: writable_def)
  have "ubyte u pg (sp - 8 + of_nat i) = (put_u32 [0, 0, 0, 0] 0 w2 @ put_u32 [0, 0, 0, 0] 0 w1) ! i" if "i < 8" for i
    by (rule frame_bytes [OF m(2) that, where f = "ubyte t pg" and e = "ubyte s pg"])
      (use t(5) u(4) pr [OF that] in \<open>simp_all add: a\<close>)
  then have l: "map (\<lambda>i. ubyte u pg (sp - 8 + of_nat i)) [0..<8] = put_u32 [0, 0, 0, 0] 0 w2 @ put_u32 [0, 0, 0, 0] 0 w1"
    by (intro nth_equalityI) auto
  have "\<forall>i<8. present u pg (sp - 8 + of_nat i)" using u(3) t(3) pr by (simp add: present_def)
  from load_bytes_eq [OF this] l have "load_bytes pg (sp - 8) 8 u = Ok (put_u32 [0, 0, 0, 0] 0 w2 @ put_u32 [0, 0, 0, 0] 0 w1) u"
    by simp
  moreover have "procs u = procs (updp c (\<lambda>p. p\<lparr>p_tf := (p_tf p)\<lparr>tf_esp := sp - 8\<rparr>\<rparr>) s)"
    using c(1) by (simp add: pu pt updp_def)
  ultimately show ?thesis using t(1) pt u(1) by blast
qed

text \<open>C15. A pending signal with a handler is delivered on the way back to user mode: exactly the lowest pending signal is
taken, the frame is saved, the user stack holds the return address and above it the signal number, the process continues
in the handler, and no other process is touched.\<close>

theorem do_signal_delivers:
  fixes s :: "'a kcons_scheme"
  assumes c: "cur s = Some c" "c < length (procs s)" and u: "user_mode tf" "\<not> p_handling_signal (procs s ! c)"
    and n: "bit (p_pending (procs s ! c)) n" "\<forall>i<n. \<not> bit (p_pending (procs s ! c)) i"
    and h: "p_handlers_array (procs s ! c) ! n \<noteq> 0xffffffff"
    and m: "space_ok A s (p_pgdir (procs s ! c))" "8 \<le> unat (tf_esp (p_tf (procs s ! c)))"
      "\<forall>i<8. tf_esp (p_tf (procs s ! c)) - 8 + of_nat i \<in> A \<and> writable s (p_pgdir (procs s ! c)) (tf_esp (p_tf (procs s ! c)) - 8 + of_nat i)"
  shows "\<exists>t. do_signal tf s = Ok () t \<and>
    load_bytes (p_pgdir (procs s ! c)) (tf_esp (p_tf (procs s ! c)) - 8) 8 t =
      Ok (put_u32 [0, 0, 0, 0] 0 (p_ret_add (procs s ! c)) @ put_u32 [0, 0, 0, 0] 0 (of_nat n)) t \<and>
    procs t = (procs s)[c := (procs s ! c)\<lparr>p_handling_signal := True,
      p_pending := p_pending (procs s ! c) AND NOT (push_bit n 1), p_backup_tf := p_tf (procs s ! c),
      p_tf := (p_tf (procs s ! c))\<lparr>tf_esp := tf_esp (p_tf (procs s ! c)) - 8, tf_eip := p_handlers_array (procs s ! c) ! n\<rparr>\<rparr>]"
proof -
  define p where "p = procs s ! c"
  define q where "q = p\<lparr>p_handling_signal := True, p_pending := p_pending p AND NOT (push_bit n 1), p_backup_tf := p_tf p\<rparr>"
  define s1 where "s1 = updp c (\<lambda>_. q) s"
  have "n < 32" using n(1) bit_imp_le_length by force
  then have tk: "take_signal (p_pending p) = Some n" using n unfolding p_def take_signal_least by blast
  have pn: "p_pending p \<noteq> 0" using n(1) unfolding p_def word_zero_bits by blast
  have c1: "c < length (procs s1)" "p_pgdir (procs s1 ! c) = p_pgdir p" "tf_esp (p_tf (procs s1 ! c)) = tf_esp (p_tf p)"
    using c(2) by (simp_all add: s1_def q_def)
  have mm: "mem s1 = mem s" by (simp add: s1_def updp_def)
  note m' = m [folded p_def, folded mem_view_cong [OF mm]]
  obtain t1 t2 where t: "push_user c (of_nat n) s1 = Ok () t1" "push_user c (p_ret_add p) t1 = Ok () t2"
      "procs t1 = procs (updp c (\<lambda>p'. p'\<lparr>p_tf := (p_tf p')\<lparr>tf_esp := tf_esp (p_tf p) - 4\<rparr>\<rparr>) s1)"
      "procs t2 = procs (updp c (\<lambda>p'. p'\<lparr>p_tf := (p_tf p')\<lparr>tf_esp := tf_esp (p_tf p) - 8\<rparr>\<rparr>) s1)"
      "load_bytes (p_pgdir p) (tf_esp (p_tf p) - 8) 8 t2 = Ok (put_u32 [0, 0, 0, 0] 0 (p_ret_add p) @ put_u32 [0, 0, 0, 0] 0 (of_nat n)) t2"
    using push_user_twice [OF c1 m', of "of_nat n" "p_ret_add p"] by blast
  have ra: "p_ret_add (procs t1 ! c) = p_ret_add p" using c(2) by (simp add: t(3) s1_def q_def)
  define t where "t = updp c (\<lambda>p. p\<lparr>p_tf := (p_tf p)\<lparr>tf_eip := p_handlers_array p ! n\<rparr>\<rparr>) t2"
  have s1: "updp c save_tf (updp c (\<lambda>p. p\<lparr>p_pending := p_pending p AND NOT (push_bit n 1)\<rparr>) (updp c (\<lambda>p. p\<lparr>p_handling_signal := True\<rparr>) s)) = s1"
    using c(2) by (simp add: s1_def q_def p_def updp_def save_tf_eq)
  have "do_signal tf s = Ok () t"
    using c u h pn tk t(1,2) ra s1 by (simp add: do_signal_def t_def p_def [symmetric] Let_def del: push_bit_of_1)
  moreover have "load_bytes (p_pgdir p) (tf_esp (p_tf p) - 8) 8 t = Ok (put_u32 [0, 0, 0, 0] 0 (p_ret_add p) @ put_u32 [0, 0, 0, 0] 0 (of_nat n)) t"
    using load_bytes_upd [OF t(5)] by (simp add: t_def updp_def)
  moreover have "procs t = (procs s)[c := p\<lparr>p_handling_signal := True, p_pending := p_pending p AND NOT (push_bit n 1),
      p_backup_tf := p_tf p, p_tf := (p_tf p)\<lparr>tf_esp := tf_esp (p_tf p) - 8, tf_eip := p_handlers_array p ! n\<rparr>\<rparr>]"
    using c(2) by (simp add: t_def t(4) s1_def q_def updp_def)
  ultimately show ?thesis unfolding p_def [symmetric] by blast
qed

text \<open>C40. A handler that returns through the code on its stack gets into \<open>sys_sigreturn\<close>, which restores every register of the
interrupted program but \<open>eax\<close>: there the dispatcher puts the result of the call, 0.\<close>

theorem sigreturn_clobbers_eax:
  assumes "cur s = Some c" "c < length (procs s)" "tf_eax (p_tf (procs s ! c)) = 27"
  shows "\<exists>t. syscall e s = Ok () t \<and> procs t = (procs s)[c := (procs s ! c)\<lparr>p_handling_signal := False,
    p_tf := (p_backup_tf (procs s ! c))\<lparr>tf_eax := 0\<rparr>\<rparr>]"
  using assms by (simp add: syscall_def mcur_def syscalls_def Let_def sys_sigreturn_def sigreturn_def restore_tf_eq set_eax_def updp_def)

section \<open>A process with a handler\<close>

definition trap_wit :: kfile where
  "trap_wit = kfile0\<lparr>mem := mem wait_wit, cur := Some 0,
     procs := [proc0\<lparr>p_state := RUNNING, p_pid := 1, p_pgdir := 0x80404000, p_sz := 4096, p_pending := 6, p_handlers_array := replicate 32 0x100,
       p_ret_add := 0x300, p_tf := tf0\<lparr>tf_cs := 0x23, tf_esp := 0x800, tf_eip := 0x40, tf_eax := 5\<rparr>\<rparr>]\<rparr>"

lemma trap_wit_writable: "writable trap_wit 0x80404000 x \<longleftrightarrow> unat x < 4096" "space_ok user_addrs trap_wit 0x80404000"
proof -
  have m: "mem trap_wit = mem wait_wit" by (simp add: trap_wit_def)
  show "writable trap_wit 0x80404000 x \<longleftrightarrow> unat x < 4096"
    unfolding mem_view_cong [OF m] by (simp add: writable_def present_def wait_wit_parent(4))
  show "space_ok user_addrs trap_wit 0x80404000"
    unfolding mem_view_cong [OF m]
    by (auto simp: space_ok_def writable_def present_def wait_wit_parent(1,4) wait_wit_frames wait_wit_mem(5) same_page_unat split: if_splits)
qed

lemma do_signal_delivers_witness:
  "\<exists>t. do_signal (tf0\<lparr>tf_cs := 0x23\<rparr>) trap_wit = Ok () t \<and> tf_eip (p_tf (procs t ! 0)) = 0x100 \<and> p_pending (procs t ! 0) = 4 \<and>
     load_bytes 0x80404000 0x7f8 8 t = Ok [0, 3, 0, 0, 1, 0, 0, 0] t"
proof -
  have p: "procs trap_wit = [proc0\<lparr>p_state := RUNNING, p_pid := 1, p_pgdir := 0x80404000, p_sz := 4096, p_pending := 6, p_handlers_array := replicate 32 0x100,
       p_ret_add := 0x300, p_tf := tf0\<lparr>tf_cs := 0x23, tf_esp := 0x800, tf_eip := 0x40, tf_eax := 5\<rparr>\<rparr>]" "cur trap_wit = Some 0"
    by (simp_all add: trap_wit_def)
  have b: "bit (6 :: uint32) 1" "\<not> bit (6 :: uint32) 0" by (simp_all add: bit_iff_odd)
  have w: "unat (0x7f8 + of_nat i :: uint32) < 4096" "unat (0x7f8 + of_nat i :: uint32) < 0x80000000" if "i < 8" for i
    using range_unat [of "0x7f8" 8 i] that by simp_all
  have f: "put_u32 [0, 0, 0, 0] 0 0x300 @ put_u32 [0, 0, 0, 0] 0 1 = [0, 3, 0, 0, 1, 0, 0, 0]" by (simp add: put_u32_def)
  obtain t where "do_signal (tf0\<lparr>tf_cs := 0x23\<rparr>) trap_wit = Ok () t" "load_bytes 0x80404000 0x7f8 8 t = Ok [0, 3, 0, 0, 1, 0, 0, 0] t"
      "p_pending (procs t ! 0) = 4" "tf_eip (p_tf (procs t ! 0)) = 0x100"
    using do_signal_delivers [of trap_wit 0 "tf0\<lparr>tf_cs := 0x23\<rparr>" 1 user_addrs] b w trap_wit_writable f
    by (auto simp: p user_mode_def tf0_def proc0_def)
  then show ?thesis by blast
qed

definition ksys0 :: ksys where
  "ksys0 = kfile.extend (updp 0 (\<lambda>p. p\<lparr>p_tf := tf0\<lparr>tf_eax := 27\<rparr>, p_backup_tf := tf0\<lparr>tf_eax := 5\<rparr>\<rparr>) trap_wit)
     (ksys.fields False [] (replicate 7 (SEG 0 0 0 0)) 0 0)"

lemma sigreturn_clobbers_eax_witness:
  "\<forall>e. \<exists>t. syscall e ksys0 = Ok () t \<and> tf_eax (p_backup_tf (procs ksys0 ! 0)) = 5 \<and> tf_eax (p_tf (procs t ! 0)) = 0"
proof
  fix e
  have "cur ksys0 = Some 0" "0 < length (procs ksys0)" "tf_eax (p_tf (procs ksys0 ! 0)) = 27" "tf_eax (p_backup_tf (procs ksys0 ! 0)) = 5"
    by (simp_all add: ksys0_def kfile.defs ksys.defs trap_wit_def updp_def)
  then show "\<exists>t. syscall e ksys0 = Ok () t \<and> tf_eax (p_backup_tf (procs ksys0 ! 0)) = 5 \<and> tf_eax (p_tf (procs t ! 0)) = 0"
    using sigreturn_clobbers_eax [of ksys0 0 e] by auto
qed

end
