(* ===== verification/Copy.thy ===== *)
theory Copy
  imports Uvm
begin

text \<open>
  New address spaces: \<open>setupkvm\<close> maps the kernel and nothing else, and \<open>copyuvm\<close> makes a copy of a process's memory in pages
  of its own.
\<close>

section \<open>The kernel part\<close>

text \<open>The pages an entry of \<open>kmap\<close> covers, and the translation it asks for.\<close>

definition ksize :: "kmap_entry \<Rightarrow> uint32" where
  "ksize k = phys_end k - phys_start k"

definition covers :: "kmap_entry \<Rightarrow> uint32 \<Rightarrow> bool" where
  "covers k x \<longleftrightarrow> unat (virt k) div 4096 \<le> unat x div 4096 \<and> unat x div 4096 \<le> (unat (virt k) + unat (ksize k) - 1) div 4096"

definition kpte :: "kmap_entry \<Rightarrow> uint32 \<Rightarrow> uint32" where
  "kpte k x = (phys_start k + (PGROUNDDOWN x - PGROUNDDOWN (virt k))) OR kperm k OR PTE_P"

lemma setupkvm_loop_maps:
  assumes "pt_ok s pgdir" "kmem_inv s" "0 \<le> spare s pgdir"
    and "\<forall>k\<in>set ks. 0 < ksize k \<and> unat (virt k) + unat (ksize k) \<le> 2 ^ 32"
    and "\<forall>k\<in>set ks. \<forall>x. covers k x \<longrightarrow> pte_of s pgdir x AND PTE_P = 0"
    and "\<forall>i<length ks. \<forall>j<length ks. i \<noteq> j \<longrightarrow> \<not> (\<exists>x. covers (ks ! i) x \<and> covers (ks ! j) x)"
  shows "\<exists>t. setupkvm_loop ks pgdir s = Ok pgdir t \<and> pt_step pgdir s t \<and> spare t pgdir = spare s pgdir \<and>
    (\<forall>x. pte_of t pgdir x = (case find (\<lambda>k. covers k x) ks of Some k \<Rightarrow> kpte k x | None \<Rightarrow> pte_of s pgdir x))"
  using assms
proof (induction ks arbitrary: s)
  case Nil
  then show ?case by (simp add: pt_step_refl)
next
  case (Cons k ks)
  have k: "0 < ksize k" "unat (virt k) + unat (ksize k) \<le> 2 ^ 32" using Cons.prems(4) by auto
  have ab: "\<forall>x. unat (virt k) div 4096 \<le> unat x div 4096 \<longrightarrow> unat x div 4096 \<le> (unat (virt k) + unat (ksize k) - 1) div 4096 \<longrightarrow>
      pte_of s pgdir x AND PTE_P = 0" using Cons.prems(5) by (auto simp: covers_def)
  obtain u where u: "mappages pgdir (virt k) (ksize k) (phys_start k) (kperm k) s = Ok 0 u" "pt_step pgdir s u" "spare u pgdir = spare s pgdir"
      "\<forall>x. pte_of u pgdir x = (if covers k x then kpte k x else pte_of s pgdir x)"
    using mappages_correct [OF Cons.prems(1,2) k ab, of "phys_start k" "kperm k"] Cons.prems(3)
    by (auto simp: covers_def kpte_def)
  have ok: "pt_ok u pgdir" "kmem_inv u" using u(2) by (simp_all add: pt_step_def)
  have dj: "\<not> (covers k x \<and> covers k' x)" if m: "k' \<in> set ks" for k' x
  proof -
    obtain j where "j < length ks" "ks ! j = k'" using m by (auto simp: in_set_conv_nth)
    then show ?thesis using Cons.prems(6) [rule_format, of 0 "Suc j"] by auto
  qed
  have "\<exists>t. setupkvm_loop ks pgdir u = Ok pgdir t \<and> pt_step pgdir u t \<and> spare t pgdir = spare u pgdir \<and>
    (\<forall>x. pte_of t pgdir x = (case find (\<lambda>k. covers k x) ks of Some k \<Rightarrow> kpte k x | None \<Rightarrow> pte_of u pgdir x))"
  proof (rule Cons.IH [OF ok])
    show "\<forall>k\<in>set ks. \<forall>x. covers k x \<longrightarrow> pte_of u pgdir x AND PTE_P = 0" using Cons.prems(5) dj u(4) by auto
    show "\<forall>i<length ks. \<forall>j<length ks. i \<noteq> j \<longrightarrow> \<not> (\<exists>x. covers (ks ! i) x \<and> covers (ks ! j) x)"
    proof (intro allI impI)
      fix i j assume "i < length ks" "j < length ks" "i \<noteq> j"
      then show "\<not> (\<exists>x. covers (ks ! i) x \<and> covers (ks ! j) x)" using Cons.prems(6) [rule_format, of "Suc i" "Suc j"] by simp
    qed
  qed (use Cons.prems u(3) in auto)
  then obtain t where t: "setupkvm_loop ks pgdir u = Ok pgdir t" "pt_step pgdir u t" "spare t pgdir = spare u pgdir"
    "\<forall>x. pte_of t pgdir x = (case find (\<lambda>k. covers k x) ks of Some k \<Rightarrow> kpte k x | None \<Rightarrow> pte_of u pgdir x)" by blast
  have "pte_of t pgdir x = (case find (\<lambda>k. covers k x) (k # ks) of Some k \<Rightarrow> kpte k x | None \<Rightarrow> pte_of s pgdir x)" for x
  proof (cases "covers k x")
    case True
    then have "find (\<lambda>k. covers k x) ks = None" using dj by (auto simp: find_None_iff)
    then show ?thesis using t(4) u(4) True by simp
  next
    case False
    then show ?thesis using t(4) u(4) by (simp split: option.splits)
  qed
  then show ?case using u t pt_step_trans [OF u(2) t(2)] by (simp add: ksize_def [symmetric])
qed

text \<open>The linker places \<open>data\<close> at a page boundary inside the kernel's memory.\<close>

definition data_ok :: "uint32 \<Rightarrow> bool" where
  "data_ok data \<longleftrightarrow> unat data mod 4096 = 0 \<and> unat KERNLINK < unat data \<and> unat data < unat (p2v PHYSTOP)"

text \<open>The kernel's translations: all of physical memory from \<open>KERNBASE\<close> on, read-only between \<open>KERNLINK\<close> and \<open>data\<close>, and the devices.\<close>

definition kernel_pte :: "uint32 \<Rightarrow> uint32 \<Rightarrow> uint32" where
  "kernel_pte data x =
    (if x < KERNBASE then 0
     else if x < p2v PHYSTOP then PGROUNDDOWN x - KERNBASE OR (if KERNLINK \<le> x \<and> x < data then 0 else PTE_W) OR PTE_P
     else if DEVSPACE \<le> x then PGROUNDDOWN x OR PTE_W OR PTE_P
     else 0)"

lemma covers_range:
  assumes "unat (virt k) = 4096 * l" "unat (virt k) + unat (ksize k) = 4096 * h" "l < h"
  shows "covers k x \<longleftrightarrow> 4096 * l \<le> unat x \<and> unat x < 4096 * h"
proof -
  obtain g where g: "h = Suc g" using assms(3) by (cases h) auto
  have "(4096 * h - 1) div 4096 = g" by (simp add: g div_mult_self3)
  moreover have "unat x div 4096 \<le> g \<longleftrightarrow> unat x < 4096 * h"
    using div_less_iff_less_mult [of 4096 "unat x" h] by (simp add: g mult.commute less_Suc_eq_le)
  moreover have "l \<le> unat x div 4096 \<longleftrightarrow> 4096 * l \<le> unat x" using less_eq_div_iff_mult_less_eq [of 4096 l "unat x"] by (simp add: mult.commute)
  ultimately show ?thesis using assms by (simp add: covers_def)
qed

lemma kmap_sizes:
  assumes "data_ok data"
  shows "unat (ksize (kmap data ! 0)) = 0x100000" "unat (ksize (kmap data ! 1)) = unat data - 0x80100000"
    "unat (ksize (kmap data ! 2)) = 0x8E000000 - unat data" "unat (ksize (kmap data ! 3)) = 0x2000000"
proof -
  have b: "0x80100000 < unat data" "unat data < 0x8E000000" using assms by (simp_all add: data_ok_def p2v_def)
  have vd: "unat (v2p data) = unat data - 0x80000000" using b by (simp add: v2p_def unat_sub word_le_nat_alt)
  show "unat (ksize (kmap data ! 1)) = unat data - 0x80100000" "unat (ksize (kmap data ! 2)) = 0x8E000000 - unat data"
    using vd b by (simp_all add: kmap_def ksize_def unat_sub word_le_nat_alt v2p_def [of KERNLINK])
qed (simp_all add: kmap_def ksize_def)

lemma kmap_covers:
  assumes "data_ok data"
  shows "covers (kmap data ! 0) x \<longleftrightarrow> KERNBASE \<le> x \<and> x < KERNLINK" "covers (kmap data ! 1) x \<longleftrightarrow> KERNLINK \<le> x \<and> x < data"
    "covers (kmap data ! 2) x \<longleftrightarrow> data \<le> x \<and> x < p2v PHYSTOP" "covers (kmap data ! 3) x \<longleftrightarrow> DEVSPACE \<le> x"
proof -
  obtain d where d: "unat data = 4096 * d" using assms by (auto simp: data_ok_def mod_eq_0_iff_dvd)
  have b: "0x80100 < d" "d < 0x8E000" using assms by (simp_all add: data_ok_def d p2v_def)
  note sz = kmap_sizes [OF assms] and le = word_le_nat_alt word_less_nat_alt p2v_def
  have v: "virt (kmap data ! 0) = KERNBASE" "virt (kmap data ! 1) = KERNLINK" "virt (kmap data ! 2) = data" "virt (kmap data ! 3) = DEVSPACE"
    by (simp_all add: kmap_def)
  show "covers (kmap data ! 0) x \<longleftrightarrow> KERNBASE \<le> x \<and> x < KERNLINK"
    using covers_range [of "kmap data ! 0" "0x80000" "0x80100"] sz v by (simp add: le)
  show "covers (kmap data ! 1) x \<longleftrightarrow> KERNLINK \<le> x \<and> x < data"
    using covers_range [of "kmap data ! 1" "0x80100" d] sz(2) v b by (simp add: le d)
  show "covers (kmap data ! 2) x \<longleftrightarrow> data \<le> x \<and> x < p2v PHYSTOP"
    using covers_range [of "kmap data ! 2" d "0x8E000"] sz(3) v b by (simp add: le d)
  show "covers (kmap data ! 3) x \<longleftrightarrow> DEVSPACE \<le> x"
    using covers_range [of "kmap data ! 3" "0xFE000" "0x100000"] sz v unat_less_32 [of x] by (simp add: le)
qed

lemma kmap_index: "i < length (kmap data) \<Longrightarrow> i = 0 \<or> i = 1 \<or> i = 2 \<or> i = 3"
  by (simp add: kmap_def) linarith

lemma kmap_ranges:
  assumes "data_ok data"
  shows "\<forall>k\<in>set (kmap data). 0 < ksize k \<and> unat (virt k) + unat (ksize k) \<le> 2 ^ 32"
    "\<forall>i<length (kmap data). \<forall>j<length (kmap data). i \<noteq> j \<longrightarrow> \<not> (\<exists>x. covers (kmap data ! i) x \<and> covers (kmap data ! j) x)"
proof -
  note b = assms [unfolded data_ok_def p2v_def, simplified]
  have "0 < ksize (kmap data ! i) \<and> unat (virt (kmap data ! i)) + unat (ksize (kmap data ! i)) \<le> 2 ^ 32" if i: "i < length (kmap data)" for i
  proof -
    have "virt (kmap data ! 0) = KERNBASE" "virt (kmap data ! 1) = KERNLINK" "virt (kmap data ! 2) = data" "virt (kmap data ! 3) = DEVSPACE"
      by (simp_all add: kmap_def)
    then show ?thesis using kmap_index [OF i] kmap_sizes [OF assms] b by (elim disjE) (simp_all add: word_less_nat_alt)
  qed
  then show "\<forall>k\<in>set (kmap data). 0 < ksize k \<and> unat (virt k) + unat (ksize k) \<le> 2 ^ 32" by (auto simp: in_set_conv_nth)
  show "\<forall>i<length (kmap data). \<forall>j<length (kmap data). i \<noteq> j \<longrightarrow> \<not> (\<exists>x. covers (kmap data ! i) x \<and> covers (kmap data ! j) x)"
  proof (intro allI impI notI, elim exE conjE)
    fix i j x assume a: "i < length (kmap data)" "j < length (kmap data)" "i \<noteq> j" "covers (kmap data ! i) x" "covers (kmap data ! j) x"
    show False using kmap_index [OF a(1)] kmap_index [OF a(2)] a(3,4,5) b
      by (elim disjE) (simp_all add: kmap_covers [OF assms, unfolded p2v_def, simplified] word_le_nat_alt word_less_nat_alt)
  qed
qed

lemma kmap_kpte:
  assumes "data_ok data"
  shows "kpte (kmap data ! 0) x = PGROUNDDOWN x - KERNBASE OR PTE_W OR PTE_P"
    "kpte (kmap data ! 1) x = PGROUNDDOWN x - KERNBASE OR 0 OR PTE_P"
    "kpte (kmap data ! 2) x = PGROUNDDOWN x - KERNBASE OR PTE_W OR PTE_P"
    "kpte (kmap data ! 3) x = PGROUNDDOWN x OR PTE_W OR PTE_P"
proof -
  have "PGROUNDDOWN data = data" using assms PGROUNDDOWN_unat [of data] by (auto simp: data_ok_def intro: word_unat_eq_iff [THEN iffD2])
  moreover have "PGROUNDDOWN KERNBASE = KERNBASE" "PGROUNDDOWN KERNLINK = KERNLINK" "PGROUNDDOWN DEVSPACE = DEVSPACE"
    by (simp_all add: PGROUNDDOWN_def)
  ultimately show "kpte (kmap data ! 0) x = PGROUNDDOWN x - KERNBASE OR PTE_W OR PTE_P"
    "kpte (kmap data ! 1) x = PGROUNDDOWN x - KERNBASE OR 0 OR PTE_P"
    "kpte (kmap data ! 2) x = PGROUNDDOWN x - KERNBASE OR PTE_W OR PTE_P"
    "kpte (kmap data ! 3) x = PGROUNDDOWN x OR PTE_W OR PTE_P"
    by (simp_all add: kpte_def kmap_def v2p_def)
qed

lemma kmap_lookup:
  assumes "data_ok data"
  shows "(case find (\<lambda>k. covers k x) (kmap data) of Some k \<Rightarrow> kpte k x | None \<Rightarrow> 0) = kernel_pte data x"
proof -
  have l: "kmap data = [kmap data ! 0, kmap data ! 1, kmap data ! 2, kmap data ! 3]" by (simp add: kmap_def)
  have "find P (kmap data) = (if P (kmap data ! 0) then Some (kmap data ! 0) else if P (kmap data ! 1) then Some (kmap data ! 1) else
      if P (kmap data ! 2) then Some (kmap data ! 2) else if P (kmap data ! 3) then Some (kmap data ! 3) else None)" for P
    by (subst l) (simp del: nth.simps)
  moreover have "unat KERNLINK < unat data" "unat data < unat (p2v PHYSTOP)" using assms by (simp_all add: data_ok_def)
  ultimately show ?thesis using kmap_covers [OF assms, of x] kmap_kpte [OF assms, of x]
    by (simp add: kernel_pte_def word_le_nat_alt word_less_nat_alt p2v_def)
qed
lemma mem_only_kdata: "mem_only s t \<Longrightarrow> kdata t = kdata s"
proof -
  assume "mem_only s t"
  then have "t = s\<lparr>mem := mem t, freelist := freelist t\<rparr>" by (simp add: mem_only_def)
  then have "kdata t = kdata (s\<lparr>mem := mem t, freelist := freelist t\<rparr>)" by (rule arg_cong)
  then show ?thesis by simp
qed

lemma mem_only_kend: "mem_only s t \<Longrightarrow> kend t = kend s"
proof -
  assume "mem_only s t"
  then have "t = s\<lparr>mem := mem t, freelist := freelist t\<rparr>" by (simp add: mem_only_def)
  then have "kend t = kend (s\<lparr>mem := mem t, freelist := freelist t\<rparr>)" by (rule arg_cong)
  then show ?thesis by simp
qed

lemma fresh_dir:
  fixes s :: "'a kmem_scheme"
  assumes "kmem_inv s" "kalloc s = Ok p s1" "p \<noteq> 0"
  defines "t \<equiv> write_page p (replicate 4096 0) s1"
  shows "pt_ok t p" "kmem_inv t" "pt_pages t p = {p}" "\<forall>x. pte_of t p x = 0" "spare t p = int (card (free_pages s)) - 1025"
    "p \<in> free_pages s" "free_pages t = free_pages s - {p}" "mem t = (mem s)(p := replicate 4096 0)" "kend t = kend s"
proof -
  have a: "p \<in> free_pages s \<and> free_pages s1 = free_pages s - {p} \<and> kmem_inv s1 \<and> mem s1 = mem s \<and> kend s1 = kend s"
    using assms(1,2,3) by (cases rule: kalloc_cases) simp_all
  then show f: "kmem_inv t" "free_pages t = free_pages s - {p}" "p \<in> free_pages s"
    using write_page_free [of s1 p "replicate 4096 0"] by (simp_all add: t_def)
  show m: "mem t = (mem s)(p := replicate 4096 0)" "kend t = kend s" using a by (simp_all add: t_def)
  have "read_pte t (p, i) = 0" if "i < 1024" for i using that m by (simp add: read_pte_def)
  then have n: "\<not> pde_present t p i" if "i < 1024" for i using that by (simp add: pde_present_def)
  then show pp: "pt_pages t p = {p}" by (auto simp: pt_pages_def)
  show "pt_ok t p" using n pp f m by (simp add: pt_ok_def)
  show "\<forall>x. pte_of t p x = 0" using n PDX_less by (simp add: pte_of_def)
  have "{i. i < 1024 \<and> \<not> pde_present t p i} = {..<1024}" using n by auto
  then have "card {i. i < 1024 \<and> \<not> pde_present t p i} = 1024" by simp
  moreover have "card (free_pages s) = Suc (card (free_pages t))"
    unfolding f(2) by (rule card_Suc_Diff1 [symmetric]) (use assms(1) f(3) finite_free_pages in auto)
  ultimately show "spare t p = int (card (free_pages s)) - 1025" by (simp add: spare_def)
qed

lemma setupkvm_correct:
  fixes s :: "'a kvm_scheme"
  assumes "kmem_inv s" "data_ok (kdata s)" "1025 \<le> card (free_pages s)"
  shows "\<exists>d t. setupkvm s = Ok d t \<and> d \<noteq> 0 \<and> pt_ok t d \<and> kmem_inv t \<and> (\<forall>x. pte_of t d x = kernel_pte (kdata s) x) \<and>
    spare t d = int (card (free_pages s)) - 1025 \<and> free_pages t \<subseteq> free_pages s \<and> pt_pages t d \<subseteq> free_pages s - free_pages t \<and>
    (\<forall>p. p \<notin> free_pages s - free_pages t \<longrightarrow> mem t p = mem s p)"
  using assms(1)
proof (cases rule: kalloc_cases)
  case empty
  then show ?thesis using assms(3) by simp
next
  case (page d s1)
  define u where "u = write_page d (replicate 4096 0) s1"
  note f = fresh_dir [OF assms(1) page(1,8), folded u_def]
  have "mem_only s s1" using kalloc_frame [of s] page(1) by simp
  then have "mem_only s u" unfolding u_def using mem_only_write(1) mem_only_trans by blast
  then have kd: "kdata u = kdata s" by (rule mem_only_kdata)
  have "\<exists>t. setupkvm_loop (kmap (kdata s)) d u = Ok d t \<and> pt_step d u t \<and> spare t d = spare u d \<and>
    (\<forall>x. pte_of t d x = (case find (\<lambda>k. covers k x) (kmap (kdata s)) of Some k \<Rightarrow> kpte k x | None \<Rightarrow> pte_of u d x))"
    by (rule setupkvm_loop_maps [OF f(1,2) _ kmap_ranges(1) [OF assms(2)] _ kmap_ranges(2) [OF assms(2)]]) (use f(4,5) assms(3) in auto)
  then obtain t where t: "setupkvm_loop (kmap (kdata s)) d u = Ok d t" "pt_step d u t" "spare t d = spare u d"
    "\<forall>x. pte_of t d x = kernel_pte (kdata s) x"
    unfolding f(4) [rule_format] kmap_lookup [OF assms(2)] by blast
  have "setupkvm s = Ok d t" using page(1,8) t(1) kd by (simp add: setupkvm_def u_def [symmetric] Let_def p2v_def)
  moreover have "pt_pages t d \<subseteq> free_pages s - free_pages t" "free_pages t \<subseteq> free_pages s"
    using t(2) f(3,6,7) unfolding pt_step_def by auto
  moreover have "mem t p = mem s p" if "p \<notin> free_pages s - free_pages t" for p
    using t(2) f(3,6,7,8) that unfolding pt_step_def by (cases "p = d") auto
  ultimately show ?thesis using t f(5) page(8) by (intro exI [of _ d] exI [of _ t]) (simp add: pt_step_def)
qed


section \<open>Copying a process's memory\<close>

text \<open>Address \<open>x\<close> of \<open>d\<close> is mapped, with flags \<open>fl\<close>, to a page that was free in state \<open>s\<close> and holds \<open>bs\<close>.\<close>

definition page_copy :: "'a kmem_scheme \<Rightarrow> 'a kmem_scheme \<Rightarrow> uint32 \<Rightarrow> uint32 \<Rightarrow> uint32 \<Rightarrow> uchar list \<Rightarrow> bool" where
  "page_copy s t d x fl bs \<longleftrightarrow> PTE_FLAGS (pte_of t d x) = fl \<and> frame_of t d x \<in> free_pages s - free_pages t \<and>
     frame_of t d x \<notin> pt_pages t d \<and> mem t (frame_of t d x) = bs"

lemma page_copy_later:
  assumes "page_copy s t d x fl bs" "pt_step d t u" "pte_of u d x = pte_of t d x"
  shows "page_copy s u d x fl bs"
proof -
  have f: "frame_of u d x = frame_of t d x" using assms(3) by (simp add: frame_of_def)
  have a: "frame_of t d x \<notin> free_pages t" "frame_of t d x \<notin> pt_pages t d" using assms(1) by (simp_all add: page_copy_def)
  then have "frame_of t d x \<notin> free_pages u" "frame_of t d x \<notin> pt_pages u d" "mem u (frame_of t d x) = mem t (frame_of t d x)"
    using assms(2) unfolding pt_step_def by blast+
  then show ?thesis using assms(1,3) by (simp add: page_copy_def f)
qed

lemma PTE_FLAGS_present: "pte AND PTE_P \<noteq> 0 \<Longrightarrow> PTE_FLAGS pte OR PTE_P = PTE_FLAGS pte" for pte :: uint32
proof -
  assume "pte AND PTE_P \<noteq> 0"
  then have b: "bit pte 0" by (simp add: and_one_eq odd_iff_mod_2_eq_one [symmetric] bit_0)
  show ?thesis unfolding PTE_FLAGS_def by (rule bit_word_eqI) (use b in \<open>auto simp: bit_simps bit_1_iff mask_12 le_Suc_eq\<close>)
qed

lemma page_pte_flags:
  assumes "\<not> bad_page p s" "pte AND PTE_P \<noteq> 0"
  shows "p2v (PTE_ADDR (v2p p OR PTE_FLAGS pte OR PTE_P)) = p" "PTE_FLAGS (v2p p OR PTE_FLAGS pte OR PTE_P) = PTE_FLAGS pte"
proof -
  have "unat (p mod PGSIZE) = 0" using assms by (simp add: bad_page_def)
  then have "4096 dvd unat p" by (simp add: unat_mod mod_eq_0_iff_dvd)
  then have "4096 dvd unat (v2p p)" unfolding v2p_def by (intro aligned_diff) simp_all
  then have al: "unat (v2p p) mod 4096 = 0" by simp
  have "PTE_FLAGS pte AND NOT 0xFFF = 0" unfolding PTE_FLAGS_def by (rule bit_word_eqI) (auto simp: bit_simps)
  note a = PTE_ADDR_or [OF al this]
  then show "p2v (PTE_ADDR (v2p p OR PTE_FLAGS pte OR PTE_P)) = p" "PTE_FLAGS (v2p p OR PTE_FLAGS pte OR PTE_P) = PTE_FLAGS pte"
    using PTE_FLAGS_present [OF assms(2)] by (simp_all add: or.assoc)
qed

text \<open>One iteration: a page is taken, filled and mapped in the new table.\<close>

lemma copy_page:
  fixes s :: "'a kmem_scheme"
  assumes ok: "pt_ok s d" "kmem_inv s" and a: "4096 dvd unat a" "pte_of s d a AND PTE_P = 0"
    and room: "1 \<le> spare s d" and pte: "pte AND PTE_P \<noteq> 0"
  obtains p s1 u where "kalloc s = Ok p s1" "p \<noteq> 0" "mem s1 = mem s"
    "mappages d a PGSIZE (v2p p) (PTE_FLAGS pte) (write_page p bs s1) = Ok 0 u"
    "pt_step d s u" "spare u d = spare s d - 1" "page_copy s u d a (PTE_FLAGS pte) bs"
    "\<forall>x. pte_of u d x = (if same_page a x then pte_of u d a else pte_of s d x)"
  using ok(2)
proof (cases rule: kalloc_cases)
  case empty
  then show ?thesis using room by (simp add: spare_def)
next
  case (page p s1)
  define t where "t = write_page p bs s1"
  note tk = take_page(1,2,4,5,6,8) [OF ok page(1,8), of bs, folded t_def]
  have t: "pt_ok t d" "kmem_inv t" using tk(1) by (simp_all add: pt_step_def)
  have ab: "pte_of t d a AND PTE_P = 0" using tk(2) a(2) by simp
  show ?thesis using t a(1) ab
  proof (cases rule: mappages_page [of t d a "v2p p" "PTE_FLAGS pte"])
    case (mapped u)
    have pa: "pte_of u d a = v2p p OR PTE_FLAGS pte OR PTE_P" using mapped(3) by (simp add: same_page_def)
    have fp: "frame_of u d a = p" using page_pte_flags(1) [OF page(7) pte] by (simp add: frame_of_def pa)
    have np: "p \<notin> free_pages u" "p \<notin> pt_pages u d" "mem u p = mem t p"
      using mapped(2) tk(3,5) unfolding pt_step_def by blast+
    have "page_copy s u d a (PTE_FLAGS pte) bs"
      unfolding page_copy_def fp using page_pte_flags(2) [OF page(7) pte] np page(2) tk(4) by (simp add: pa)
    then show ?thesis
      using that [OF page(1,8,5)] mapped(1,3,5) pt_step_trans [OF tk(1) mapped(2)] tk(2,6) pa by (simp add: t_def)
  next
    case full
    then show ?thesis using tk(6) room by simp
  qed
qed

text \<open>The addresses from \<open>lo\<close> to \<open>hi\<close> of \<open>pgdir\<close> have copies in \<open>d\<close>, each page in a frame of its own; the others are as before.\<close>

definition copied_range :: "'a kmem_scheme \<Rightarrow> 'a kmem_scheme \<Rightarrow> uint32 \<Rightarrow> uint32 \<Rightarrow> nat \<Rightarrow> nat \<Rightarrow> bool" where
  "copied_range s t pgdir d lo hi \<longleftrightarrow>
    (\<forall>x. if lo \<le> unat x \<and> unat x < hi
         then page_copy s t d x (PTE_FLAGS (pte_of s pgdir x)) (mem s (frame_of s pgdir x))
         else pte_of t d x = pte_of s d x) \<and>
    (\<forall>x y. lo \<le> unat x \<and> unat x < hi \<and> lo \<le> unat y \<and> unat y < hi \<and> frame_of t d x = frame_of t d y \<longrightarrow> same_page x y)"

lemma copied_range_step:
  assumes one: "pt_step d s u" "page_copy s u d a (PTE_FLAGS (pte_of s pgdir a)) (mem s (frame_of s pgdir a))"
      "\<forall>x. pte_of u d x = (if same_page a x then pte_of u d a else pte_of s d x)"
    and page: "\<And>x. same_page a x \<longleftrightarrow> lo \<le> unat x \<and> unat x < lo + 4096"
    and par: "\<forall>x. lo \<le> unat x \<and> unat x < hi \<longrightarrow> pte_of u pgdir x = pte_of s pgdir x \<and> mem u (frame_of s pgdir x) = mem s (frame_of s pgdir x)"
    and rest: "pt_step d u t" "copied_range u t pgdir d (lo + 4096) hi" and lt: "lo < hi" "4096 dvd hi" "4096 dvd lo"
  shows "copied_range s t pgdir d lo hi"
proof -
  have hi: "lo + 4096 \<le> hi" using lt by (elim dvdE) simp
  have low: "pte_of t d x = pte_of u d x" if "unat x < lo + 4096 \<or> hi \<le> unat x" for x
    using rest(2) that by (auto simp: copied_range_def)
  have high: "page_copy u t d x (PTE_FLAGS (pte_of s pgdir x)) (mem s (frame_of s pgdir x))" if "lo + 4096 \<le> unat x" "unat x < hi" for x
  proof -
    have "pte_of u pgdir x = pte_of s pgdir x" "mem u (frame_of s pgdir x) = mem s (frame_of s pgdir x)" using par that by auto
    moreover have "page_copy u t d x (PTE_FLAGS (pte_of u pgdir x)) (mem u (frame_of u pgdir x))"
      using rest(2) that by (auto simp: copied_range_def)
    ultimately show ?thesis by (simp add: frame_of_def)
  qed
  have sub: "free_pages u \<subseteq> free_pages s" using one(1) by (simp add: pt_step_def)
  have first: "page_copy s t d x (PTE_FLAGS (pte_of s pgdir x)) (mem s (frame_of s pgdir x)) \<and> frame_of t d x = frame_of u d a"
    if "lo \<le> unat x" "unat x < lo + 4096" for x
  proof -
    have sp: "same_page a x" using page that by simp
    have e: "pte_of u d x = pte_of u d a" "pte_of s pgdir x = pte_of s pgdir a"
      by (rule pte_of_same_page [OF sp, symmetric])+
    then have "page_copy s u d x (PTE_FLAGS (pte_of s pgdir x)) (mem s (frame_of s pgdir x))"
      using one(2) by (simp add: page_copy_def frame_of_def)
    then show ?thesis using page_copy_later [OF _ rest(1) low] low [of x] that e by (simp add: frame_of_def)
  qed
  have "page_copy s t d x (PTE_FLAGS (pte_of s pgdir x)) (mem s (frame_of s pgdir x))" if "lo \<le> unat x" "unat x < hi" for x
    using first [of x] high [of x] sub that by (cases "unat x < lo + 4096") (auto simp: page_copy_def)
  moreover have "pte_of t d x = pte_of s d x" if "\<not> (lo \<le> unat x \<and> unat x < hi)" for x
    using low [of x] one(3) page [of x] that hi by auto
  moreover have "same_page x y" if r: "lo \<le> unat x" "unat x < hi" "lo \<le> unat y" "unat y < hi" "frame_of t d x = frame_of t d y" for x y
  proof -
    have apart: "frame_of u d a \<notin> free_pages u" using one(2) by (simp add: page_copy_def)
    have up: "frame_of t d z \<in> free_pages u" if "lo + 4096 \<le> unat z" "unat z < hi" for z using high [OF that] by (simp add: page_copy_def)
    consider "unat x < lo + 4096" "unat y < lo + 4096" | "lo + 4096 \<le> unat x" "lo + 4096 \<le> unat y"
      | "unat x < lo + 4096" "lo + 4096 \<le> unat y" | "lo + 4096 \<le> unat x" "unat y < lo + 4096" by linarith
    then show ?thesis
    proof cases
      case 1
      then show ?thesis using page [of x] page [of y] r by (auto simp: same_page_def)
    next
      case 2
      then show ?thesis using rest(2) r by (auto simp: copied_range_def)
    next
      case 3
      then show ?thesis using first [of x] up [of y] apart r by auto
    next
      case 4
      then show ?thesis using first [of y] up [of x] apart r by auto
    qed
  qed
  ultimately show ?thesis unfolding copied_range_def by auto
qed

lemma apart_step:
  assumes "pt_step d s u" "pt_pages s pgdir \<subseteq> G" "G \<inter> (free_pages s \<union> pt_pages s d) = {}"
  shows "\<forall>p\<in>G. mem u p = mem s p" "pte_of u pgdir x = pte_of s pgdir x" "pt_pages u pgdir = pt_pages s pgdir"
    "G \<inter> (free_pages u \<union> pt_pages u d) = {}"
proof -
  show m: "\<forall>p\<in>G. mem u p = mem s p" using assms(1,3) unfolding pt_step_def by blast
  then have "\<forall>p\<in>pt_pages s pgdir. mem u p = mem s p" using assms(2) by blast
  then show "pte_of u pgdir x = pte_of s pgdir x" "pt_pages u pgdir = pt_pages s pgdir" by (rule pte_of_cong)+
  show "G \<inter> (free_pages u \<union> pt_pages u d) = {}" using assms(1,3) unfolding pt_step_def by blast
qed

lemma copyuvm_loop_correct:
  fixes s :: "'a kmem_scheme"
  assumes "pt_ok s d" "kmem_inv s" "4096 dvd i" "unat sz < 2147483648"
    and "unat sz \<le> i + 4096 * k" "k \<noteq> 0 \<longrightarrow> i + 4096 * k < unat sz + 4096"
    and "\<forall>x. i \<le> unat x \<and> unat x < i + 4096 * k \<longrightarrow> pte_of s d x AND PTE_P = 0"
    and "int k \<le> spare s d" and "pt_pages s pgdir \<subseteq> G" "G \<inter> (free_pages s \<union> pt_pages s d) = {}"
    and "\<forall>x. i \<le> unat x \<and> unat x < i + 4096 * k \<longrightarrow> pte_of s pgdir x AND PTE_P \<noteq> 0 \<and> frame_of s pgdir x \<in> G"
  shows "\<exists>t. copyuvm_loop pgdir d i sz s = Ok d t \<and> pt_step d s t \<and> spare t d = spare s d - int k \<and>
    copied_range s t pgdir d i (i + 4096 * k)"
  using assms
proof (induction k arbitrary: i s)
  case 0
  then show ?case by (auto simp: copyuvm_loop.simps copied_range_def pt_step_refl)
next
  case (Suc k i s)
  let ?a = "of_nat i :: uint32"
  have ua: "unat ?a = i" using Suc.prems(4,6) by (intro unat_of_nat_32) simp
  have lt: "i < unat sz" using Suc.prems(6) by simp
  have dv: "4096 dvd unat ?a" using Suc.prems(3) ua by simp
  have ab: "pte_of s d ?a AND PTE_P = 0" using Suc.prems(7) ua by simp
  have pr: "pte_of s pgdir ?a AND PTE_P \<noteq> 0" using Suc.prems(11) ua by simp
  then have pd: "pde_present s pgdir (PDX ?a)" by (auto simp: pte_of_def split: if_splits)
  have room: "1 \<le> spare s d" using Suc.prems(8) by simp
  obtain p s1 u where g: "kalloc s = Ok p s1" "p \<noteq> 0" "mem s1 = mem s"
    "mappages d ?a PGSIZE (v2p p) (PTE_FLAGS (pte_of s pgdir ?a)) (write_page p (mem s (frame_of s pgdir ?a)) s1) = Ok 0 u"
    "pt_step d s u" "spare u d = spare s d - 1"
    "page_copy s u d ?a (PTE_FLAGS (pte_of s pgdir ?a)) (mem s (frame_of s pgdir ?a))"
    "\<forall>x. pte_of u d x = (if same_page ?a x then pte_of u d ?a else pte_of s d x)"
    using copy_page [OF Suc.prems(1,2) dv ab room pr, of "mem s (frame_of s pgdir ?a)"] .
  obtain j where j: "i = 4096 * j" using Suc.prems(3) by blast
  have "unat ?a div 4096 = j" unfolding ua by (simp add: j)
  then have sp: "same_page ?a x \<longleftrightarrow> i \<le> unat x \<and> unat x < i + 4096" for x
    unfolding same_page_unat by (simp add: div_page_iff j)
  have u: "pt_ok u d" "kmem_inv u" using g(5) by (simp_all add: pt_step_def)
  note ap = apart_step [OF g(5) Suc.prems(9,10)]
  have fr: "frame_of u pgdir x = frame_of s pgdir x" for x using ap(2) by (simp add: frame_of_def)
  have "\<exists>t. copyuvm_loop pgdir d (i + 4096) sz u = Ok d t \<and> pt_step d u t \<and> spare t d = spare u d - int k \<and>
    copied_range u t pgdir d (i + 4096) (i + 4096 + 4096 * k)"
  proof (rule Suc.IH [OF u])
    show "\<forall>x. i + 4096 \<le> unat x \<and> unat x < i + 4096 + 4096 * k \<longrightarrow> pte_of u d x AND PTE_P = 0"
      using Suc.prems(7) g(8) sp by auto
    show "\<forall>x. i + 4096 \<le> unat x \<and> unat x < i + 4096 + 4096 * k \<longrightarrow> pte_of u pgdir x AND PTE_P \<noteq> 0 \<and> frame_of u pgdir x \<in> G"
      using Suc.prems(11) ap(2) fr by simp
    show "pt_pages u pgdir \<subseteq> G" using Suc.prems(9) ap(3) by simp
  qed (use Suc.prems g(6) ap(4) in auto)
  then obtain t where t: "copyuvm_loop pgdir d (i + 4096) sz u = Ok d t" "pt_step d u t" "spare t d = spare u d - int k"
    "copied_range u t pgdir d (i + 4096) (i + 4096 * Suc k)" by (auto simp: add.assoc)
  have run: "copyuvm_loop pgdir d i sz s = Ok d t"
    using g(1,2,3,4) t(1) lt pr pd
    by (simp add: copyuvm_loop.simps [of pgdir d i] walkpgdir_noalloc pte_of_def frame_of_def Let_def)
  have "copied_range s t pgdir d i (i + 4096 * Suc k)"
    by (rule copied_range_step [OF g(5,7,8) sp _ t(2,4)]) (use Suc.prems(3,11) ap(1,2) in auto)
  then show ?case using run pt_step_trans [OF g(5) t(2)] t(3) g(6) by auto
qed

definition npages :: "uint32 \<Rightarrow> nat" where
  "npages sz = (unat sz + 4095) div 4096"

lemma npages_bounds: "unat sz \<le> 4096 * npages sz" "npages sz \<noteq> 0 \<longrightarrow> 4096 * npages sz < unat sz + 4096"
proof -
  have "4096 * npages sz + (unat sz + 4095) mod 4096 = unat sz + 4095" unfolding npages_def by (rule mult_div_mod_eq)
  moreover have "(unat sz + 4095) mod 4096 < 4096" by simp
  ultimately show "unat sz \<le> 4096 * npages sz" "npages sz \<noteq> 0 \<longrightarrow> 4096 * npages sz < unat sz + 4096" by linarith+
qed

text \<open>What a whole copy of the first \<open>sz\<close> bytes of \<open>pgdir\<close> is, in terms of the memory before and after.\<close>

definition copy_of :: "'a kvm_scheme \<Rightarrow> 'a kvm_scheme \<Rightarrow> uint32 \<Rightarrow> uint32 \<Rightarrow> nat \<Rightarrow> bool" where
  "copy_of s t pgdir d n \<longleftrightarrow>
    (\<forall>x. unat x < 4096 * n \<longrightarrow> page_copy s t d x (PTE_FLAGS (pte_of s pgdir x)) (mem s (frame_of s pgdir x))) \<and>
    (\<forall>x. 4096 * n \<le> unat x \<longrightarrow> pte_of t d x = kernel_pte (kdata s) x) \<and>
    (\<forall>x y. unat x < 4096 * n \<and> unat y < 4096 * n \<and> frame_of t d x = frame_of t d y \<longrightarrow> same_page x y)"

lemma copyuvm_correct:
  fixes s :: "'a kvm_scheme"
  assumes "pt_ok s pgdir" "kmem_inv s" "data_ok (kdata s)" "unat sz < 0x80000000" "1025 + npages sz \<le> card (free_pages s)"
    and par: "\<forall>x. unat x < 4096 * npages sz \<longrightarrow> pte_of s pgdir x AND PTE_P \<noteq> 0 \<and> frame_of s pgdir x \<notin> free_pages s"
  shows "\<exists>d t. copyuvm pgdir sz s = Ok d t \<and> d \<noteq> 0 \<and> pt_ok t d \<and> kmem_inv t \<and> copy_of s t pgdir d (npages sz) \<and>
    spare t d = int (card (free_pages s)) - 1025 - int (npages sz) \<and> free_pages t \<subseteq> free_pages s \<and>
    pt_pages t d \<subseteq> free_pages s - free_pages t \<and> (\<forall>p. p \<notin> free_pages s - free_pages t \<longrightarrow> mem t p = mem s p)"
proof -
  let ?n = "npages sz"
  obtain d u where k: "setupkvm s = Ok d u" "d \<noteq> 0" "pt_ok u d" "kmem_inv u" "\<forall>x. pte_of u d x = kernel_pte (kdata s) x"
    "spare u d = int (card (free_pages s)) - 1025" "free_pages u \<subseteq> free_pages s" "pt_pages u d \<subseteq> free_pages s - free_pages u"
    "\<forall>p. p \<notin> free_pages s - free_pages u \<longrightarrow> mem u p = mem s p"
    using setupkvm_correct [OF assms(2,3)] assms(5) by auto
  define G where "G = - free_pages s"
  have pg: "pt_pages s pgdir \<subseteq> G" using assms(1) by (auto simp: pt_ok_def G_def)
  have "\<forall>p\<in>pt_pages s pgdir. mem u p = mem s p" using pg k(9) by (auto simp: G_def)
  note c = pte_of_cong [OF this]
  have fr: "frame_of u pgdir x = frame_of s pgdir x" for x using c(1) by (simp add: frame_of_def)
  have nb: "4096 * ?n < 0x80001000" using npages_bounds(2) [of sz] assms(4) by linarith
  then have n8: "4096 * ?n \<le> 0x80000000" by simp
  have "\<exists>t. copyuvm_loop pgdir d 0 sz u = Ok d t \<and> pt_step d u t \<and> spare t d = spare u d - int ?n \<and> copied_range u t pgdir d 0 (0 + 4096 * ?n)"
  proof (rule copyuvm_loop_correct [OF k(3,4) _ _ _ _ _ _ _ , where G = G])
    show "\<forall>x. 0 \<le> unat x \<and> unat x < 0 + 4096 * ?n \<longrightarrow> pte_of u d x AND PTE_P = 0"
      using k(5) n8 by (auto simp: kernel_pte_def word_less_nat_alt)
    show "\<forall>x. 0 \<le> unat x \<and> unat x < 0 + 4096 * ?n \<longrightarrow> pte_of u pgdir x AND PTE_P \<noteq> 0 \<and> frame_of u pgdir x \<in> G"
      using par c(1) fr by (simp add: G_def)
    show "G \<inter> (free_pages u \<union> pt_pages u d) = {}" using k(7,8) by (auto simp: G_def)
  qed (use npages_bounds [of sz] assms(4,5) k(6) pg c(2) in auto)
  then obtain t where t: "copyuvm_loop pgdir d 0 sz u = Ok d t" "pt_step d u t" "spare t d = spare u d - int ?n"
    "copied_range u t pgdir d 0 (4096 * ?n)" by auto
  have ft: "free_pages t \<subseteq> free_pages u" using t(2) by (simp add: pt_step_def)
  have mem: "mem u (frame_of s pgdir x) = mem s (frame_of s pgdir x)" if "unat x < 4096 * ?n" for x using par k(9) that by auto
  have "page_copy s t d x (PTE_FLAGS (pte_of s pgdir x)) (mem s (frame_of s pgdir x))" if x: "unat x < 4096 * ?n" for x
  proof -
    have "page_copy u t d x (PTE_FLAGS (pte_of u pgdir x)) (mem u (frame_of u pgdir x))" using t(4) x by (auto simp: copied_range_def)
    then show ?thesis using mem [OF x] c(1) fr k(7) by (auto simp: page_copy_def)
  qed
  then have "copy_of s t pgdir d ?n" using t(4) k(5) by (auto simp: copy_of_def copied_range_def)
  moreover have st: "pt_pages t d \<subseteq> pt_pages u d \<union> (free_pages u - free_pages t)"
    "\<forall>p. p \<notin> pt_pages u d \<longrightarrow> p \<notin> free_pages u - free_pages t \<longrightarrow> mem t p = mem u p" using t(2) by (simp_all add: pt_step_def)
  have "pt_pages t d \<subseteq> free_pages s - free_pages t" using st(1) k(7,8) ft by auto
  moreover have "mem t p = mem s p" if "p \<notin> free_pages s - free_pages t" for p
  proof -
    have "p \<notin> pt_pages u d" "p \<notin> free_pages u - free_pages t" "p \<notin> free_pages s - free_pages u" using that k(7,8) ft by auto
    then show ?thesis using st(2) k(9) by simp
  qed
  ultimately show ?thesis using k(1,2,6,7) t(1,2,3) ft
    by (intro exI [of _ d] exI [of _ t]) (auto simp: copyuvm_def pt_step_def)
qed

text \<open>An address space stays one while nothing writes to its page tables and no page of it is freed.\<close>

lemma as_ok_keep:
  assumes "as_ok s pgdir" "\<forall>p\<in>pt_pages s pgdir. mem t p = mem s p" "kmem_inv t" "free_pages t \<subseteq> free_pages s" "kend t = kend s"
  shows "as_ok t pgdir"
proof -
  have m: "\<forall>p\<in>pt_pages s pgdir. mem t p = mem s p" by fact
  note c = pte_of_cong [OF m]
  have f: "frame_of t pgdir x = frame_of s pgdir x" for x using c(1) by (simp add: frame_of_def)
  have dir: "read_pte t (pgdir, i) = read_pte s (pgdir, i)" for i using m by (simp add: read_pte_def pt_pages_def)
  then have e: "pde_present t pgdir = pde_present s pgdir" "pgtab_of t pgdir = pgtab_of s pgdir"
    by (auto simp: pde_present_def pgtab_of_def)
  have b: "bad_page p t = bad_page p s" for p using assms(5) by (rule bad_page_cong)
  have "pt_ok t pgdir" using assms(1,2,4) by (auto simp: as_ok_def pt_ok_def c(2) e)
  then show ?thesis using assms(1,3,4) unfolding as_ok_def c(1) f b c(2) e by blast
qed

lemma copy_present:
  assumes "copy_of s t pgdir d n" "unat x < 0x80000000" "\<forall>x. unat x < 4096 * n \<longrightarrow> pte_of s pgdir x AND PTE_P \<noteq> 0"
  shows "pte_of t d x AND PTE_P \<noteq> 0 \<longleftrightarrow> unat x < 4096 * n"
proof (cases "unat x < 4096 * n")
  case True
  have fl: "PTE_FLAGS w AND PTE_P = w AND PTE_P" for w :: uint32 unfolding PTE_FLAGS_def by (simp add: and.assoc)
  have "PTE_FLAGS (pte_of t d x) = PTE_FLAGS (pte_of s pgdir x)" using assms(1) True by (simp add: copy_of_def page_copy_def)
  then have "pte_of t d x AND PTE_P = pte_of s pgdir x AND PTE_P" using fl [of "pte_of t d x"] fl [of "pte_of s pgdir x"] by simp
  then show ?thesis using assms(3) True by metis
next
  case False
  then have "pte_of t d x = kernel_pte (kdata s) x" using assms(1) by (simp add: copy_of_def)
  then show ?thesis using False assms(2) by (simp add: kernel_pte_def word_less_nat_alt)
qed

lemma copy_as_ok:
  fixes s :: "'a kvm_scheme"
  assumes "pt_ok t d" "kmem_inv t" "copy_of s t pgdir d n" "\<forall>x. unat x < 4096 * n \<longrightarrow> pte_of s pgdir x AND PTE_P \<noteq> 0"
    and "kmem_inv s" "kend t = kend s" "KERNBASE < kend s"
  shows "as_ok t d"
proof -
  note pr = copy_present [OF assms(3) _ assms(4)]
  have good: "\<not> bad_page p t" if "p \<in> free_pages s" for p
    using that assms(6) by (auto simp: free_pages_def kmem_list_def bad_page_cong [of t s])
  have pc: "frame_of t d x \<in> free_pages s - free_pages t \<and> frame_of t d x \<notin> pt_pages t d" if "unat x < 4096 * n" for x
    using assms(3) that by (simp add: copy_of_def page_copy_def)
  have nz: "PTE_ADDR (pte_of t d x) \<noteq> 0" if "unat x < 4096 * n" for x
  proof
    assume "PTE_ADDR (pte_of t d x) = 0"
    then have "frame_of t d x = KERNBASE" by (simp add: frame_of_def p2v_def)
    moreover have "bad_page KERNBASE t" using assms(6,7) by (simp add: bad_page_def)
    ultimately show False using pc [OF that] good by auto
  qed
  have tab: "pte_of t d y AND PTE_P = 0" if "\<not> pde_present t d (PDX x)" "x \<le> y" "unat y < 0x80000000" for x y
  proof -
    have "unat x \<le> unat y" using that(2) by (simp add: word_le_nat_alt)
    moreover have "pte_of t d x = 0" using that(1) by (simp add: pte_of_def)
    ultimately show ?thesis using pr [of x] pr [of y] that(3) by auto
  qed
  have inj: "same_page x y" if "unat x < 4096 * n" "unat y < 4096 * n" "frame_of t d x = frame_of t d y" for x y
    using assms(3) that by (simp add: copy_of_def)
  show ?thesis unfolding as_ok_def using assms(1,2) pr pc nz tab inj good by (simp add: ) blast
qed

text \<open>A process whose first \<open>sz\<close> bytes are mapped, and enough memory to copy them.\<close>

definition can_copy :: "'a kvm_scheme \<Rightarrow> uint32 \<Rightarrow> uint32 \<Rightarrow> bool" where
  "can_copy s pgdir sz \<longleftrightarrow> as_ok s pgdir \<and> data_ok (kdata s) \<and> KERNBASE < kend s \<and> unat sz < 0x80000000 \<and>
    (\<forall>x. unat x < unat sz \<longrightarrow> pte_of s pgdir x AND PTE_P \<noteq> 0) \<and> 1025 + npages sz \<le> card (free_pages s)"

lemma can_copy_pages:
  assumes "can_copy s pgdir sz" "unat x < 4096 * npages sz"
  shows "pte_of s pgdir x AND PTE_P \<noteq> 0" "frame_of s pgdir x \<notin> free_pages s" "unat x < 0x80000000"
proof -
  let ?y = "PGROUNDDOWN x"
  have y: "unat ?y = unat x - unat x mod 4096" by (rule PGROUNDDOWN_unat)
  then have "unat ?y = 4096 * (unat x div 4096)" by (simp add: minus_mod_eq_mult_div)
  moreover have "unat x div 4096 < npages sz" using assms(2) by (simp add: div_less_iff_less_mult mult.commute)
  ultimately have "unat ?y + 4096 \<le> 4096 * npages sz" by simp
  moreover have "4096 * npages sz < unat sz + 4096" using npages_bounds(2) [of sz] assms(2) by simp
  ultimately have "unat ?y < unat sz" by simp
  moreover have "same_page ?y x" unfolding same_page_unat using \<open>unat ?y = 4096 * (unat x div 4096)\<close> by simp
  ultimately have "pte_of s pgdir ?y AND PTE_P \<noteq> 0" "pte_of s pgdir ?y = pte_of s pgdir x"
    using assms(1) pte_of_same_page [of ?y x s pgdir] unfolding can_copy_def by blast+
  then show p: "pte_of s pgdir x AND PTE_P \<noteq> 0" by metis
  show x: "unat x < 0x80000000"
  proof -
    have "npages sz \<le> 0x80000" using \<open>4096 * npages sz < unat sz + 4096\<close> assms(1) by (simp add: can_copy_def)
    then show ?thesis using assms(2) by simp
  qed
  show "frame_of s pgdir x \<notin> free_pages s" using assms(1) p x by (simp add: can_copy_def as_ok_def)
qed

lemma copyuvm_ok:
  fixes s :: "'a kvm_scheme"
  assumes "can_copy s pgdir sz"
  shows "\<exists>d t. copyuvm pgdir sz s = Ok d t \<and> d \<noteq> 0 \<and> as_ok t d \<and> as_ok t pgdir \<and> copy_of s t pgdir d (npages sz) \<and> kend t = kend s \<and>
    spare t d = int (card (free_pages s)) - 1025 - int (npages sz) \<and> free_pages t \<subseteq> free_pages s \<and>
    pt_pages t d \<subseteq> free_pages s - free_pages t \<and> (\<forall>p. p \<notin> free_pages s - free_pages t \<longrightarrow> mem t p = mem s p)"
proof -
  have a: "as_ok s pgdir" using assms by (simp add: can_copy_def)
  then have "pt_ok s pgdir" "kmem_inv s" by (simp_all add: as_ok_def)
  moreover have "data_ok (kdata s)" "unat sz < 0x80000000" "1025 + npages sz \<le> card (free_pages s)" "KERNBASE < kend s"
    using assms by (simp_all add: can_copy_def)
  ultimately have as: "as_ok s pgdir" "pt_ok s pgdir" "kmem_inv s" "data_ok (kdata s)" "unat sz < 0x80000000"
    "1025 + npages sz \<le> card (free_pages s)" "KERNBASE < kend s" using a by blast+
  have par: "\<forall>x. unat x < 4096 * npages sz \<longrightarrow> pte_of s pgdir x AND PTE_P \<noteq> 0 \<and> frame_of s pgdir x \<notin> free_pages s"
    using can_copy_pages [OF assms] by auto
  obtain d t where t: "copyuvm pgdir sz s = Ok d t" "d \<noteq> 0" "pt_ok t d" "kmem_inv t" "copy_of s t pgdir d (npages sz)"
    "spare t d = int (card (free_pages s)) - 1025 - int (npages sz)" "free_pages t \<subseteq> free_pages s"
    "pt_pages t d \<subseteq> free_pages s - free_pages t" "\<forall>p. p \<notin> free_pages s - free_pages t \<longrightarrow> mem t p = mem s p"
    using copyuvm_correct [OF as(2,3,4,5,6) par] by blast
  have ke: "kend t = kend s" by (rule mem_only_kend) (use mem_only_Ok [OF copyuvm_frame t(1)] in simp)
  have "\<forall>p\<in>pt_pages s pgdir. mem t p = mem s p" using t(9) as(2) by (auto simp: pt_ok_def)
  then have "as_ok t pgdir" using as_ok_keep [OF as(1) _ t(4,7) ke] by simp
  moreover have "as_ok t d" by (rule copy_as_ok [OF t(3,4,5) _ as(3) ke as(7)]) (use par in simp)
  ultimately show ?thesis using t ke by blast
qed

lemma copyuvm_bytes:
  fixes s :: "'a kvm_scheme"
  assumes "can_copy s pgdir sz"
  shows "\<exists>d t. copyuvm pgdir sz s = Ok d t \<and> d \<noteq> 0 \<and> as_ok t d \<and> as_ok t pgdir \<and>
    (\<forall>x. unat x < unat sz \<longrightarrow> ubyte t d x = ubyte s pgdir x \<and> PTE_FLAGS (pte_of t d x) = PTE_FLAGS (pte_of s pgdir x)) \<and>
    (\<forall>x. 4096 * npages sz \<le> unat x \<longrightarrow> pte_of t d x = kernel_pte (kdata s) x) \<and>
    (\<forall>x. unat x < unat sz \<longrightarrow> ubyte t pgdir x = ubyte s pgdir x \<and> pte_of t pgdir x = pte_of s pgdir x) \<and>
    (\<forall>x y. unat x < unat sz \<and> unat y < unat sz \<longrightarrow> frame_of t d x \<noteq> frame_of t pgdir y)"
proof -
  obtain d t where t: "copyuvm pgdir sz s = Ok d t" "d \<noteq> 0" "as_ok t d" "as_ok t pgdir" "copy_of s t pgdir d (npages sz)"
    "free_pages t \<subseteq> free_pages s" "\<forall>p. p \<notin> free_pages s - free_pages t \<longrightarrow> mem t p = mem s p"
    using copyuvm_ok [OF assms] by blast
  have lim: "unat x < 4096 * npages sz" if "unat x < unat sz" for x :: uint32 using npages_bounds(1) [of sz] that by linarith
  note par = can_copy_pages [OF assms lim]
  have pc: "page_copy s t d x (PTE_FLAGS (pte_of s pgdir x)) (mem s (frame_of s pgdir x))" if "unat x < unat sz" for x
    using t(5) lim [OF that] by (simp add: copy_of_def)
  have "\<forall>p\<in>pt_pages s pgdir. mem t p = mem s p" using t(7) assms by (auto simp: can_copy_def as_ok_def pt_ok_def)
  note c = pte_of_cong [OF this]
  have f: "frame_of t pgdir x = frame_of s pgdir x" for x using c(1) by (simp add: frame_of_def)
  have "ubyte t pgdir x = ubyte s pgdir x" if "unat x < unat sz" for x using par(2) [OF that] t(7) f by (simp add: ubyte_def)
  moreover have "frame_of t d x \<noteq> frame_of t pgdir y" if "unat x < unat sz" "unat y < unat sz" for x y
    using pc [OF that(1)] par(2) [OF that(2)] f by (auto simp: page_copy_def)
  moreover have "ubyte t d x = ubyte s pgdir x \<and> PTE_FLAGS (pte_of t d x) = PTE_FLAGS (pte_of s pgdir x)" if "unat x < unat sz" for x
    using pc [OF that] by (simp add: page_copy_def ubyte_def)
  ultimately show ?thesis using t c(1) by (intro exI [of _ d] exI [of _ t]) (auto simp: copy_of_def)
qed

text \<open>Taking a page, as \<open>allocproc\<close> does for the kernel stack, leaves the others.\<close>

lemma can_copy_take:
  fixes s t :: "'a kvm_scheme"
  assumes "can_copy s pgdir sz" "1026 + npages sz \<le> card (free_pages s)"
    and t: "mem t = mem s" "freelist t = get_u32 (mem s (freelist s)) 0" "kend t = kend s" "kdata t = kdata s"
  shows "freelist s \<noteq> 0" "can_copy t pgdir sz" "free_pages t \<subseteq> free_pages s"
proof -
  have a: "as_ok s pgdir" using assms(1) by (simp add: can_copy_def)
  then have as: "as_ok s pgdir" "kmem_inv s" by (blast, simp add: as_ok_def)
  obtain vs where vs: "kmem_list s vs" using as(2) by (auto simp: kmem_inv_def)
  then have f: "free_pages s = set vs" by (rule free_pages_list)
  then obtain v ws where w: "vs = v # ws" using assms(2) by (cases vs) auto
  show "freelist s \<noteq> 0" using vs w by (auto simp: kmem_list_def)
  have l: "kmem_list t ws" using vs t bad_page_cong [OF t(3)] unfolding w by (auto simp: kmem_list_def)
  then have ft: "free_pages t = set ws" "kmem_inv t" using free_pages_list by (auto simp: kmem_inv_def)
  then show sub: "free_pages t \<subseteq> free_pages s" using f w by auto
  have "as_ok t pgdir" by (rule as_ok_keep [OF as(1) _ ft(2) sub t(3)]) (simp add: t(1))
  moreover have "pte_of t pgdir x = pte_of s pgdir x" for x by (rule pte_of_cong) (simp add: t(1))
  moreover have "card (free_pages s) = Suc (card (free_pages t))" using vs f ft(1) w by (simp add: kmem_list_def)
  ultimately show "can_copy t pgdir sz" using assms(1,2) t(3,4) by (simp add: can_copy_def)
qed

lemma ubyte_cong: "mem t = mem s \<Longrightarrow> ubyte t pgdir x = ubyte s pgdir x \<and> pte_of t pgdir x = pte_of s pgdir x"
  by (simp add: ubyte_def frame_of_def pte_of_def pde_present_def pgtab_of_def read_pte_def)

text \<open>C8. Copying an address space: if there is memory enough, \<open>copyuvm\<close> returns a page directory that maps every address below the size
  with the parent's flags to a byte equal to the parent's, in frames the parent does not use, that maps the kernel above and nothing between;
  the parent's memory is not changed, and both are address spaces that \<open>freevm\<close> can give back.\<close>

theorem copyuvm_copies:
  fixes s :: "'a kvm_scheme"
  assumes "can_copy s pgdir sz"
  shows "\<exists>d t. copyuvm pgdir sz s = Ok d t \<and> d \<noteq> 0 \<and> as_ok t d \<and> as_ok t pgdir \<and>
    (\<forall>x. unat x < unat sz \<longrightarrow> ubyte t d x = ubyte s pgdir x \<and> PTE_FLAGS (pte_of t d x) = PTE_FLAGS (pte_of s pgdir x)) \<and>
    (\<forall>x. 4096 * npages sz \<le> unat x \<longrightarrow> pte_of t d x = kernel_pte (kdata s) x) \<and>
    (\<forall>x. unat x < unat sz \<longrightarrow> ubyte t pgdir x = ubyte s pgdir x \<and> pte_of t pgdir x = pte_of s pgdir x) \<and>
    (\<forall>x y. unat x < unat sz \<and> unat y < unat sz \<longrightarrow> frame_of t d x \<noteq> frame_of t pgdir y)"
  using assms by (rule copyuvm_bytes)

lemma pt_pages_card:
  assumes "pt_ok s pgdir"
  shows "int (card (pt_pages s pgdir)) = 1025 - int (card {i. i < 1024 \<and> \<not> pde_present s pgdir i})"
proof -
  let ?P = "{i. i < 1024 \<and> pde_present s pgdir i}" and ?N = "{i. i < 1024 \<and> \<not> pde_present s pgdir i}"
  have "{..<1024} = ?P \<union> ?N" by auto
  then have "card {..<1024 :: nat} = card (?P \<union> ?N)" by simp
  also have "\<dots> = card ?P + card ?N" by (rule card_Un_disjoint) auto
  finally have c: "card ?P + card ?N = 1024" by simp
  have "inj_on (pgtab_of s pgdir) ?P" using pt_ok_inj [OF assms] by (auto intro!: inj_onI)
  then have i: "card (pgtab_of s pgdir ` ?P) = card ?P" by (rule card_image)
  have "pt_pages s pgdir = insert pgdir (pgtab_of s pgdir ` ?P)" by (auto simp: pt_pages_def)
  moreover have "pgdir \<notin> pgtab_of s pgdir ` ?P" using assms by (auto simp: pt_ok_def)
  ultimately have "card (pt_pages s pgdir) = Suc (card ?P)" using i by simp
  then show ?thesis using c by simp
qed

lemma copy_frames_card:
  assumes "copy_of s t pgdir d n" "4096 * n \<le> 0x80000000" "\<forall>x. unat x < 4096 * n \<longrightarrow> pte_of s pgdir x AND PTE_P \<noteq> 0"
  shows "card (user_frames t d 0 0x80000000) = n" "user_frames t d 0 0x80000000 \<subseteq> free_pages s - free_pages t - pt_pages t d"
proof -
  have fr: "user_frames t d 0 0x80000000 = frame_of t d ` {x. unat x < 4096 * n}"
  proof -
    have "0 \<le> unat x \<and> unat x < 0x80000000 \<and> pte_of t d x AND PTE_P \<noteq> 0 \<longleftrightarrow> unat x < 4096 * n" for x
      using copy_present [OF assms(1) _ assms(3), of x] assms(2) by linarith
    then show ?thesis unfolding user_frames_def by presburger
  qed
  then show "user_frames t d 0 0x80000000 \<subseteq> free_pages s - free_pages t - pt_pages t d"
    using assms(1) by (auto simp: copy_of_def page_copy_def)
  let ?f = "\<lambda>i. of_nat (4096 * i) :: uint32"
  have u: "unat (?f i) = 4096 * i" if "i < n" for i using that assms(2) by (intro unat_of_nat_32) simp
  have "frame_of t d ` {x. unat x < 4096 * n} = (\<lambda>i. frame_of t d (?f i)) ` {..<n}"
  proof (intro equalityI subsetI)
    fix p assume "p \<in> frame_of t d ` {x. unat x < 4096 * n}"
    then obtain x where x: "p = frame_of t d x" "unat x < 4096 * n" by auto
    then have i: "unat x div 4096 < n" by (simp add: div_less_iff_less_mult mult.commute)
    have "same_page x (?f (unat x div 4096))" unfolding same_page_unat using u [OF i] by simp
    then have "p = frame_of t d (?f (unat x div 4096))" unfolding x(1) by (rule frame_of_same_page)
    then show "p \<in> (\<lambda>i. frame_of t d (?f i)) ` {..<n}" using i by blast
  next
    fix p assume "p \<in> (\<lambda>i. frame_of t d (?f i)) ` {..<n}"
    then obtain i where "i < n" "p = frame_of t d (?f i)" by auto
    then show "p \<in> frame_of t d ` {x. unat x < 4096 * n}" using u [of i] by (intro image_eqI [of _ _ "?f i"]) simp_all
  qed
  moreover have "inj_on (\<lambda>i. frame_of t d (?f i)) {..<n}"
  proof (rule inj_onI)
    fix i j assume "i \<in> {..<n}" "j \<in> {..<n}" "frame_of t d (?f i) = frame_of t d (?f j)"
    moreover have "\<forall>x y. unat x < 4096 * n \<and> unat y < 4096 * n \<and> frame_of t d x = frame_of t d y \<longrightarrow> same_page x y"
      using assms(1) by (simp add: copy_of_def)
    ultimately have "same_page (?f i) (?f j)" using u [of i] u [of j] by (simp del: of_nat_mult)
    then show "i = j" unfolding same_page_unat using u [of i] u [of j] \<open>i \<in> {..<n}\<close> \<open>j \<in> {..<n}\<close> by simp
  qed
  ultimately show "card (user_frames t d 0 0x80000000) = n" unfolding fr by (simp add: card_image)
qed

text \<open>C28. No page leaks: freeing the address space that \<open>copyuvm\<close> made puts the set of free pages back to exactly what it was before the copy.\<close>

theorem copy_free_roundtrip:
  fixes s :: "'a kvm_scheme"
  assumes "can_copy s pgdir sz"
  shows "\<exists>d t u. copyuvm pgdir sz s = Ok d t \<and> freevm d t = Ok () u \<and> kmem_inv u \<and> free_pages u = free_pages s"
proof -
  obtain d t where t: "copyuvm pgdir sz s = Ok d t" "d \<noteq> 0" "as_ok t d" "copy_of s t pgdir d (npages sz)" "kend t = kend s"
    "spare t d = int (card (free_pages s)) - 1025 - int (npages sz)" "free_pages t \<subseteq> free_pages s" "pt_pages t d \<subseteq> free_pages s - free_pages t"
    using copyuvm_ok [OF assms] by blast
  have "kmem_inv s" using assms by (simp add: can_copy_def as_ok_def)
  then have fin: "finite (free_pages s)" by (rule finite_free_pages)
  have good: "\<forall>p\<in>pt_pages t d. \<not> bad_page p t"
    using t(5,8) by (auto simp: free_pages_def kmem_list_def bad_page_cong [of t s])
  obtain u where u: "freevm d t = Ok () u" "kmem_inv u" "free_pages u = free_pages t \<union> user_frames t d 0 0x80000000 \<union> pt_pages t d"
    using freevm_correct [OF t(3,2) good] by blast
  have le: "4096 * npages sz \<le> 0x80000000"
    using npages_bounds(2) [of sz] assms by (cases "npages sz = 0") (simp_all add: can_copy_def)
  have cf: "card (user_frames t d 0 0x80000000) = npages sz" "user_frames t d 0 0x80000000 \<subseteq> free_pages s - free_pages t - pt_pages t d"
    using copy_frames_card [OF t(4) le] can_copy_pages(1) [OF assms] by blast+
  have sub: "free_pages u \<subseteq> free_pages s" using u(3) t(7,8) cf(2) by blast
  have f: "finite (free_pages t)" "finite (user_frames t d 0 0x80000000)" "finite (pt_pages t d)"
    using finite_subset [OF _ fin] t(7,8) cf(2) by blast+
  have "card (free_pages u) = card (free_pages t \<union> user_frames t d 0 0x80000000) + card (pt_pages t d)"
    unfolding u(3) by (rule card_Un_disjoint) (use f cf(2) t(8) in auto)
  also have "card (free_pages t \<union> user_frames t d 0 0x80000000) = card (free_pages t) + npages sz"
    unfolding cf(1) [symmetric] by (rule card_Un_disjoint) (use f cf(2) in auto)
  finally have "card (free_pages u) = card (free_pages t) + npages sz + card (pt_pages t d)" .
  moreover have "pt_ok t d" using t(3) by (simp add: as_ok_def)
  ultimately have "card (free_pages u) = card (free_pages s)" using pt_pages_card [of t d] t(6) by (simp add: spare_def)
  then have "free_pages u = free_pages s" using card_subset_eq [OF fin sub] by blast
  then show ?thesis using t(1) u(1,2) by blast
qed

section \<open>A machine with memory to copy into\<close>

text \<open>One process of one page at \<open>0x80400000\<close> and 1100 free pages from \<open>0x80500000\<close> on.\<close>

definition pool_page :: "nat \<Rightarrow> uint32" where
  "pool_page i = of_nat (0x80500000 + 4096 * i)"

definition pool_mem :: "uint32 \<Rightarrow> uchar list" where
  "pool_mem p =
    (if 0x80500000 \<le> p then put_u32 (replicate 4096 0) 0 (if p = pool_page 1099 then 0 else p + 0x1000)
     else if p = 0x80400000 then put_u32 (replicate 4096 0) 0 0x401007
     else if p = 0x80401000 then put_u32 (replicate 4096 0) 0 0x402007
     else replicate 4096 0)"

definition pool_wit :: kvm where
  "pool_wit = \<lparr>use_lock = True, freelist = 0x80500000, mem = pool_mem, kend = 0x80400000, kdata = 0x80108000, kpgdir = 0, cr3 = 0\<rparr>"

lemma pool_page_unat: "i < 1100 \<Longrightarrow> unat (pool_page i) = 0x80500000 + 4096 * i"
  unfolding pool_page_def by (rule unat_of_nat_32) simp

lemma pool_page_inj: "i < 1100 \<Longrightarrow> j < 1100 \<Longrightarrow> pool_page i = pool_page j \<longleftrightarrow> i = j"
  unfolding word_unat_eq_iff by (simp only: pool_page_unat add_left_cancel mult_cancel1) simp

lemma pool_run: "i \<le> 1100 \<Longrightarrow> run_list pool_mem (if i < 1100 then pool_page i else 0) (map pool_page [i..<1100])"
proof (induction rule: inc_induct)
  case base
  then show ?case by simp
next
  case (step i)
  have u: "unat (pool_page i) = 0x80500000 + 4096 * i" using step.hyps by (simp add: pool_page_unat)
  have le: "0x80500000 \<le> pool_page i" using u by (simp add: word_le_nat_alt)
  then have nz: "pool_page i \<noteq> 0" by auto
  have nx: "pool_page i + 0x1000 = pool_page (Suc i)" by (simp add: pool_page_def algebra_simps)
  have "pool_page i = pool_page 1099 \<longleftrightarrow> \<not> Suc i < 1100" using pool_page_inj [of i 1099] step.hyps by auto
  then have "get_u32 (pool_mem (pool_page i)) 0 = (if Suc i < 1100 then pool_page (Suc i) else 0)"
    using le nx by (simp add: pool_mem_def)
  moreover have "[i..<1100] = i # [Suc i..<1100]" using step.hyps by (simp add: upt_conv_Cons)
  ultimately show ?case using step nz by simp
qed

lemma pool_view:
  assumes "mem s = pool_mem" "freelist s = 0x80500000" "kend s = 0x80400000"
  shows "kmem_inv s" "free_pages s = pool_page ` {..<1100}" "card (free_pages s) = 1100" "p < 0x80500000 \<Longrightarrow> p \<notin> free_pages s"
    "as_ok s 0x80400000" "pte_of s 0x80400000 x = (if unat x < 4096 then 0x402007 else 0)"
proof -
  have inj: "inj_on pool_page {..<1100}" using pool_page_inj by (auto intro!: inj_onI)
  have l: "kmem_list s (map pool_page [0..<1100])"
    unfolding kmem_list_def
  proof (intro conjI ballI)
    have "pool_page 0 = 0x80500000" by (simp add: pool_page_def)
    then show "run_list (mem s) (freelist s) (map pool_page [0..<1100])" using pool_run [of 0] assms by simp
    show "distinct (map pool_page [0..<1100])" using inj by (simp add: distinct_map atLeast0LessThan)
    fix v assume "v \<in> set (map pool_page [0..<1100])"
    then obtain i where i: "i < 1100" "v = pool_page i" by auto
    then have u: "unat v = 0x80500000 + 4096 * i" by (simp add: pool_page_unat)
    have "unat (v - 0x80000000) = 0x500000 + 4096 * i" using u by (simp add: unat_sub word_le_nat_alt)
    moreover have "unat (v mod 4096) = 0" using u by (simp add: unat_mod)
    then have "v mod 4096 = 0" by (simp only: unsigned_eq_0_iff)
    ultimately show "\<not> bad_page v s"
      using assms(3) u i(1) by (simp add: bad_page_def v2p_def word_le_nat_alt word_less_nat_alt)
    show "length (mem s v) = 4096" using assms(1) by (simp add: pool_mem_def)
  qed
  then show inv: "kmem_inv s" by (auto simp: kmem_inv_def)
  show f: "free_pages s = pool_page ` {..<1100}" using free_pages_list [OF l] by (simp add: atLeast0LessThan)
  then show "card (free_pages s) = 1100" using card_image [OF inj] by simp
  show nf: "p \<notin> free_pages s" if "p < 0x80500000" for p
    using that pool_page_unat by (auto simp: f word_less_nat_alt)
  have m: "mem s 0x80400000 = put_u32 (replicate 4096 0) 0 0x401007" "mem s 0x80401000 = put_u32 (replicate 4096 0) 0 0x402007"
    using assms(1) by (simp_all add: pool_mem_def)
  show "pte_of s 0x80400000 x = (if unat x < 4096 then 0x402007 else 0)"
    by (rule one_page_view [OF m]) (simp_all add: PTE_ADDR_def p2v_def)
  show "as_ok s 0x80400000"
    by (rule one_page_as_ok [OF m]) (simp_all add: inv nf bad_page_def v2p_def p2v_def PTE_ADDR_def assms(3))
qed

lemma pool_can_copy:
  assumes "mem s = pool_mem" "freelist s = 0x80500000" "kend s = 0x80400000" "kdata s = 0x80108000"
  shows "can_copy s 0x80400000 0x10"
  using pool_view [OF assms(1,2,3)] assms(3,4) by (simp add: can_copy_def data_ok_def p2v_def npages_def)

lemma copyuvm_copies_witness:
  "\<exists>d t. copyuvm 0x80400000 0x10 pool_wit = Ok d t \<and> d \<noteq> 0 \<and> ubyte t d 0xF = ubyte pool_wit 0x80400000 0xF"
proof -
  have "can_copy pool_wit 0x80400000 0x10" by (rule pool_can_copy) (simp_all add: pool_wit_def)
  from copyuvm_copies [OF this] obtain d t where "copyuvm 0x80400000 0x10 pool_wit = Ok d t" "d \<noteq> 0"
    "\<forall>x. unat x < unat (0x10 :: uint32) \<longrightarrow> ubyte t d x = ubyte pool_wit 0x80400000 x" by blast
  then show ?thesis by (intro exI [of _ d] exI [of _ t]) simp
qed

lemma copy_free_roundtrip_witness:
  "\<exists>d t u. copyuvm 0x80400000 0x10 pool_wit = Ok d t \<and> freevm d t = Ok () u \<and> free_pages u = free_pages pool_wit"
proof -
  have "can_copy pool_wit 0x80400000 0x10" by (rule pool_can_copy) (simp_all add: pool_wit_def)
  from copy_free_roundtrip [OF this] show ?thesis by blast
qed

end
