(* ===== verification/Life.thy ===== *)
theory Life
  imports Process Copy
begin

text \<open>
  What becomes of processes: the file system touches no process but to wake it, \<open>exit\<close> closes the files of a process, hands its
  children to \<open>init\<close>, wakes its parent and leaves a zombie, and \<open>fork\<close> makes a copy of its parent that shares the open files.
\<close>

section \<open>The file system only wakes processes\<close>

definition woken :: "proc \<Rightarrow> proc \<Rightarrow> bool" where
  "woken p q \<longleftrightarrow> q = p \<or> p_state p = SLEEPING \<and> q = p\<lparr>p_state := RUNNABLE\<rparr>"

definition wakes :: "'a kproc_scheme \<Rightarrow> 'a kproc_scheme \<Rightarrow> bool" where
  "wakes s t \<longleftrightarrow> list_all2 woken (procs s) (procs t) \<and> cur t = cur s \<and> ticks t = ticks s \<and> initproc t = initproc s \<and>
     currentPolicy t = currentPolicy s"

text \<open>What the layers below the files do is calm: it wakes processes, and keeps the reference counts of the inodes and all that is
  kept above the file system.\<close>

definition refs :: "'a kfs_scheme \<Rightarrow> int list" where
  "refs s = map i_ref (inodes s)"

definition calm :: "'a kfs_scheme \<Rightarrow> 'a kfs_scheme \<Rightarrow> bool" where
  "calm s t \<longleftrightarrow> wakes s t \<and> refs t = refs s \<and> kfs.more t = kfs.more s"

definition calm_only :: "'a kfs_scheme \<Rightarrow> ('x, 'a kfs_scheme) outcome \<Rightarrow> bool" where
  "calm_only s m \<longleftrightarrow> (\<forall>x t. m = Ok x t \<longrightarrow> calm s t)"

named_theorems calming

lemma wakes_refl [simp]: "wakes s s"
  by (simp add: wakes_def list_all2_same woken_def)

lemma woken_trans: "woken p q \<Longrightarrow> woken q r \<Longrightarrow> woken p r"
  by (auto simp: woken_def)

lemma wakes_trans: "wakes s t \<Longrightarrow> wakes t u \<Longrightarrow> wakes s u"
  unfolding wakes_def by (auto intro: list_all2_trans [OF woken_trans])

lemma wakes_wakeup: "wakes s (wakeup ch s)"
  by (auto simp: wakes_def wakeup_def wakeup1_def Let_def list_all2_map2 list_all2_same woken_def wake_def)

lemma calm_refl [simp]: "calm s s"
  by (simp add: calm_def)

lemma calm_trans: "calm s t \<Longrightarrow> calm t u \<Longrightarrow> calm s u"
  unfolding calm_def by (auto intro: wakes_trans)

lemma calmD: "calm_only s m \<Longrightarrow> m = Ok x t \<Longrightarrow> wakes s t \<and> refs t = refs s \<and> kfs.more t = kfs.more s"
  by (simp add: calm_only_def calm_def)

lemma calm_wakeup: "calm s (wakeup ch s)"
  using wakes_wakeup [of s ch] by (simp add: calm_def refs_def wakeup_def wakeup1_def Let_def)

lemma calm_only_simps [simp]:
  "calm_only s (Ok x t) \<longleftrightarrow> calm s t" "calm_only s (Panic m)" "calm_only s (Sleep c t)" "calm_only s null_deref"
  "calm_only s out_of_bounds"
  by (simp_all add: calm_only_def null_deref_def out_of_bounds_def)

lemma calm_only_sleep [simp]: "calm_only s (sleep ch t)"
  by (simp add: sleep_def calm_only_def split: option.splits)

lemma calm_only_mbind:
  assumes "calm_only s m" "\<And>x t. m = Ok x t \<Longrightarrow> calm_only t (f x t)"
  shows "calm_only s (mbind m f)"
  using assms by (cases m) (auto simp: calm_only_def intro: calm_trans)

lemma calm_only_after: "calm s t \<Longrightarrow> calm_only t m \<Longrightarrow> calm_only s m"
  unfolding calm_only_def by (blast intro: calm_trans)

lemma calm_after_wakeup: "calm s t \<Longrightarrow> calm s (wakeup ch t)"
  by (rule calm_trans [OF _ calm_wakeup])

lemma calm_updates [simp]:
  "calm s (t\<lparr>bufs := x1\<rparr>) = calm s t" "calm s (t\<lparr>head_next := x2\<rparr>) = calm s t" "calm s (t\<lparr>head_prev := x3\<rparr>) = calm s t"
  "calm s (t\<lparr>memdisk := x4\<rparr>) = calm s t" "calm s (t\<lparr>dtrace := x5\<rparr>) = calm s t"
  for t :: "'a kfs_scheme"
  by (simp_all add: calm_def wakes_def refs_def)

lemma calm_updates_log [simp]:
  "calm s (t\<lparr>outstanding := x1\<rparr>) = calm s t" "calm s (t\<lparr>committing := x2\<rparr>) = calm s t"
  "calm s (t\<lparr>lh_n := x3\<rparr>) = calm s t" "calm s (t\<lparr>lh_block := x4\<rparr>) = calm s t"
  for t :: "'a kfs_scheme"
  by (simp_all add: calm_def wakes_def refs_def)

lemma calm_updates_fs [simp]: "calm s (t\<lparr>sb := x1\<rparr>) = calm s t" for t :: "'a kfs_scheme"
  by (simp_all add: calm_def wakes_def refs_def)

lemma calm_upds [simp]: "calm s (updb i f t) = calm s t" "calm s (set_data i d t) = calm s t" "calm s (pin i t) = calm s t"
  "calm s (set_next p q t) = calm s t" "calm s (set_prev p q t) = calm s t" "calm s (link_front i t) = calm s t"
  by (simp_all add: updb_def set_data_def pin_def set_next_def set_prev_def link_front_def Let_def split: bptr.splits)

lemma refs_updi: "refs (updi i g s) = (refs s)[i := i_ref (g (inodes s ! i))]"
  by (simp add: refs_def updi_def map_update)

lemma calm_updi [simp]: "(\<And>ip. i_ref (g ip) = i_ref ip) \<Longrightarrow> calm s (updi i g t) = calm s t"
proof -
  assume "\<And>ip. i_ref (g ip) = i_ref ip"
  then have "refs (updi i g t) = refs t"
    unfolding refs_updi by (cases "i < length (inodes t)") (simp_all add: refs_def list_update_same_conv list_update_beyond)
  then show ?thesis by (simp add: calm_def wakes_def) (simp add: updi_def)
qed

lemma iderw_calm [calming]: "calm_only s (iderw i s)"
  by (simp add: iderw_def Let_def)

lemma bget_calm [calming]: "calm_only s (bget dev bn s)"
  by (auto simp: bget_def split: option.splits)

lemma bread_calm [calming]: "calm_only s (bread dev bn s)"
  unfolding bread_def by (intro calm_only_mbind calming) (auto intro!: calm_only_mbind calming)

lemma bwrite_calm [calming]: "calm_only s (bwrite i s)"
  unfolding bwrite_def by (auto intro!: calm_only_after [OF _ iderw_calm])

lemma brelse_calm [calming]: "calm_only s (brelse i s)"
  by (auto simp: brelse_def Let_def intro!: calm_after_wakeup)

lemma log_write_calm [calming]: "calm_only s (log_write b s)"
  by (auto simp: log_write_def Let_def)

lemma readsb_calm [calming]: "calm_only s (readsb dev s)"
  unfolding readsb_def Let_def by (auto intro!: calm_only_mbind calming)

lemma bwrite_data_calm [calming]: "calm_only s (bwrite i (set_data i d s))"
  by (rule calm_only_after [OF _ bwrite_calm]) simp

lemma log_write_data_calm [calming]: "calm_only s (log_write i (set_data i d s))"
  by (rule calm_only_after [OF _ log_write_calm]) simp

lemma install_loop_calm [calming]: "calm_only s (install_loop ts s)"
  by (induction ts arbitrary: s) (auto intro!: calm_only_mbind calming calm_after_wakeup)

lemma write_log_loop_calm [calming]: "calm_only s (write_log_loop ts s)"
  by (induction ts arbitrary: s) (auto intro!: calm_only_mbind calming calm_after_wakeup)

lemma write_head_calm [calming]: "calm_only s (write_head s)"
  unfolding write_head_def by (auto intro!: calm_only_mbind calming calm_after_wakeup)

lemma commit_calm [calming]: "calm_only s (commit s)"
  unfolding commit_def write_log_def install_trans_def
  by (auto intro!: calm_only_mbind calming calm_after_wakeup intro: calm_only_after [OF _ write_head_calm])

lemma begin_op_calm [calming]: "calm_only s (begin_op s)"
  by (simp add: begin_op_def)

lemma end_op_calm [calming]: "calm_only s (end_op s)"
proof -
  have "calm_only s (commit (s\<lparr>outstanding := x, committing := True\<rparr>))" for x
    by (rule calm_only_after [OF _ commit_calm]) simp
  then show ?thesis unfolding end_op_def Let_def by (auto intro!: calm_only_mbind calm_after_wakeup)
qed

lemma bfree_calm [calming]: "calm_only s (bfree dev b s)"
  unfolding bfree_def Let_def
  by (auto intro!: calm_only_mbind calming calm_only_after [OF _ bread_calm])


lemma iupdate_calm [calming]: "calm_only s (iupdate i s)"
  unfolding iupdate_def Let_def by (auto intro!: calm_only_mbind calming)

lemma iupdate_updi_calm [calming]: "(\<And>ip. i_ref (g ip) = i_ref ip) \<Longrightarrow> calm_only s (iupdate i (updi i g s))"
  by (rule calm_only_after [OF _ iupdate_calm]) simp

lemma itrunc_direct_calm [calming]:
  fixes s :: "'a kfs_scheme"
  shows "calm_only s (itrunc_direct i ks s)"
proof (induction ks arbitrary: s)
  case (Cons k ks)
  have "calm_only t (itrunc_direct i ks (updi i (\<lambda>ip. ip\<lparr>i_addrs := (i_addrs ip)[k := 0]\<rparr>) t))" for t :: "'a kfs_scheme"
    by (rule calm_only_after [OF _ Cons]) simp
  then show ?case using Cons by (auto simp: Let_def intro!: calm_only_mbind calming)
qed simp

lemma itrunc_indirect_calm [calming]: "calm_only s (itrunc_indirect dev bp js s)"
  by (induction js arbitrary: s) (auto simp: Let_def intro!: calm_only_mbind calming)

lemma itrunc_calm [calming]: "calm_only s (itrunc i s)"
  unfolding itrunc_def Let_def by (auto intro!: calm_only_mbind calming)

lemma itrunc_updi_calm [calming]: "(\<And>ip. i_ref (g ip) = i_ref ip) \<Longrightarrow> calm_only s (itrunc i (updi i g s))"
  by (rule calm_only_after [OF _ itrunc_calm]) simp

text \<open>\<open>iput\<close> gives up one reference.\<close>

lemma iput_effect:
  assumes "iput p s = Ok x t"
  shows "wakes s t \<and> kfs.more t = kfs.more s \<and> (\<exists>i. p = Some i \<and> refs t = (refs s)[i := refs s ! i - 1])"
proof -
  obtain i where i: "p = Some i" using assms by (cases p) (auto simp: iput_def null_deref_def)
  define m where "m = (if i_ref (inodes s ! i) = 1 \<and> i_valid (inodes s ! i) \<and> i_nlink (inodes s ! i) = 0 then
      if i_busy (inodes s ! i) then Panic ''iput busy''
      else mbind (itrunc i (updi i (\<lambda>ip. ip\<lparr>i_busy := True\<rparr>) s)) (\<lambda>_ s.
        mbind (iupdate i (updi i (\<lambda>ip. ip\<lparr>i_type := 0\<rparr>) s)) (\<lambda>_ s.
        Ok () (wakeup (ChanInode i) (updi i (\<lambda>ip. ip\<lparr>i_busy := False, i_valid := False\<rparr>) s))))
    else Ok () s)"
  have m: "calm_only s m" unfolding m_def by (auto intro!: calm_only_mbind calming calm_after_wakeup)
  obtain u where u: "m = Ok () u" "t = updi i (\<lambda>ip. ip\<lparr>i_ref := i_ref ip - 1\<rparr>) u"
    using assms unfolding i iput_def option.case Let_def m_def [symmetric] by (auto elim: mbind_OkE)
  note c = calmD [OF m u(1)]
  have "refs t = (refs u)[i := refs u ! i - 1]"
    unfolding u(2) refs_updi by (cases "i < length (inodes u)") (simp_all add: refs_def list_update_beyond)
  moreover have "wakes s t" "kfs.more t = kfs.more u" using c by (simp_all add: u(2) updi_def wakes_def)
  ultimately show ?thesis using c i by simp
qed

section \<open>Closing files\<close>

lemma kfs_more_files:
  fixes s t :: "'a kfile_scheme"
  assumes "kfs.more t = kfs.more s"
  shows "ftable t = ftable s" "pipes t = pipes s"
  using assms by (cases s; cases t; simp)+

lemma kfree_calm: "calm_only s (kfree v s)"
  by (simp add: kfree_def Let_def calm_def refs_def wakes_def list_all2_same woken_def)

lemma pipeclose_effect:
  assumes "pipeclose p w s = Ok x t"
  shows "wakes s t \<and> refs t = refs s \<and> ftable t = ftable s \<and>
    pipes t = (pipes s)(p := (if w then (pipes s p)\<lparr>pi_writeopen := False\<rparr> else (pipes s p)\<lparr>pi_readopen := False\<rparr>))"
proof -
  define u where "u = (if w then wakeup (ChanPipeRead p) (updpipe p (\<lambda>q. q\<lparr>pi_writeopen := False\<rparr>) s)
    else wakeup (ChanPipeWrite p) (updpipe p (\<lambda>q. q\<lparr>pi_readopen := False\<rparr>) s))"
  have "t = u \<or> kfree p u = Ok x t" using assms unfolding pipeclose_def Let_def u_def [symmetric] by (auto split: if_splits)
  then have "wakes u t \<and> refs t = refs u \<and> kfs.more t = kfs.more u" using calmD [OF kfree_calm] by auto
  then have t: "wakes u t" "refs t = refs u" "ftable t = ftable u" "pipes t = pipes u" using kfs_more_files by blast+
  have "wakes (updpipe p h s) (wakeup ch (updpipe p h s))" for ch h by (rule wakes_wakeup)
  then have "wakes s (wakeup ch (updpipe p h s))" for ch h by (simp add: wakes_def updpipe_def)
  then have "wakes s u" by (simp add: u_def)
  moreover have "refs u = refs s" "ftable u = ftable s"
    "pipes u = (pipes s)(p := (if w then (pipes s p)\<lparr>pi_writeopen := False\<rparr> else (pipes s p)\<lparr>pi_readopen := False\<rparr>))"
    by (simp_all add: u_def refs_def wakeup_def wakeup1_def Let_def updpipe_def)
  ultimately show ?thesis using t by (auto intro: wakes_trans)
qed

text \<open>
  What a process lets go of. \<open>dying\<close>: the open files of which its descriptors \<open>ofs\<close> are all the references there are.
  \<open>released\<close>: every file has lost as many references as the process had descriptors for it, and those that
  have none left are free; the ends of pipes among them are closed, and the inodes among them, like the working directory
  \<open>dir\<close>, have lost a reference.
\<close>

definition dying :: "nat option list \<Rightarrow> file_s list \<Rightarrow> nat set" where
  "dying ofs fs = {k \<in> {..<length fs}. 0 < count_list ofs (Some k) \<and> f_ref (fs ! k) = int (count_list ofs (Some k))}"

definition end_closed :: "nat set \<Rightarrow> bool \<Rightarrow> uint32 \<Rightarrow> file_s list \<Rightarrow> bool" where
  "end_closed D w p fs \<longleftrightarrow> (\<exists>k\<in>D. f_type (fs ! k) = FD_PIPE \<and> f_pipe (fs ! k) = p \<and> f_writable (fs ! k) = w)"

definition inode_files :: "nat set \<Rightarrow> nat \<Rightarrow> file_s list \<Rightarrow> nat set" where
  "inode_files D j fs = {k \<in> D. f_type (fs ! k) = FD_INODE \<and> f_ip (fs ! k) = Some j}"

definition released :: "nat option list \<Rightarrow> nat option \<Rightarrow> 'a kfile_scheme \<Rightarrow> 'a kfile_scheme \<Rightarrow> bool" where
  "released ofs dir s t \<longleftrightarrow> (let D = dying ofs (ftable s) in
    length (ftable t) = length (ftable s) \<and>
    (\<forall>k<length (ftable s). ftable t ! k = (ftable s ! k)\<lparr>f_ref := f_ref (ftable s ! k) - int (count_list ofs (Some k)),
      f_type := (if k \<in> D then FD_NONE else f_type (ftable s ! k))\<rparr>) \<and>
    (\<forall>p. pi_readopen (pipes t p) = (pi_readopen (pipes s p) \<and> \<not> end_closed D False p (ftable s))) \<and>
    (\<forall>p. pi_writeopen (pipes t p) = (pi_writeopen (pipes s p) \<and> \<not> end_closed D True p (ftable s))) \<and>
    length (inodes t) = length (inodes s) \<and>
    (\<forall>j<length (inodes s). i_ref (inodes t ! j) =
      i_ref (inodes s ! j) - int (card (inode_files D j (ftable s))) - (if dir = Some j then 1 else 0)))"

lemma dying_one: "f < length fs \<Longrightarrow> dying [Some f] fs = (if f_ref (fs ! f) = 1 then {f} else {})"
  by (auto simp: dying_def)

lemma refs_nth: "j < length (inodes s) \<Longrightarrow> refs s ! j = i_ref (inodes s ! j)" "length (refs s) = length (inodes s)"
  by (simp_all add: refs_def)

lemma released_none: "refs t = refs s \<Longrightarrow> ftable t = ftable s \<Longrightarrow> pipes t = pipes s \<Longrightarrow> released [] None s t"
  using refs_nth(2) [of s] refs_nth(2) [of t] refs_nth(1) [of _ s] refs_nth(1) [of _ t]
  by (auto simp: released_def dying_def end_closed_def inode_files_def Let_def)

lemma fileclose_effect:
  assumes "fileclose f s = Ok x t" "f < length (ftable s)"
  shows "1 \<le> f_ref (ftable s ! f) \<and> wakes s t \<and> released [Some f] None s t"
proof -
  let ?f = "ftable s ! f"
  have ref: "1 \<le> f_ref ?f" using assms(1) by (auto simp: fileclose_def Let_def split: if_splits)
  show ?thesis
  proof (cases "f_ref ?f = 1")
    case False
    then have t: "t = updf f (\<lambda>f. f\<lparr>f_ref := f_ref f - 1\<rparr>) s" using assms(1) ref by (simp add: fileclose_def Let_def)
    show ?thesis using False ref assms(2)
      by (auto simp: t released_def dying_one end_closed_def inode_files_def wakes_def list_all2_same woken_def updf_def nth_upd Let_def)
  next
    case True
    define u where "u = updf f (\<lambda>f. f\<lparr>f_ref := 0, f_type := FD_NONE\<rparr>) s"
    have u: "ftable u = (ftable s)[f := ?f\<lparr>f_ref := 0, f_type := FD_NONE\<rparr>]" "pipes u = pipes s" "refs u = refs s" "inodes u = inodes s"
        "wakes s u"
      by (simp_all add: u_def updf_def refs_def wakes_def list_all2_same woken_def)
    have D: "dying [Some f] (ftable s) = {f}" using True assms(2) by (simp add: dying_one)
    have rest: "wakes u t \<and> ftable t = ftable u \<and>
        pipes t = (if f_type ?f = FD_PIPE then (pipes s)(f_pipe ?f := (if f_writable ?f then (pipes s (f_pipe ?f))\<lparr>pi_writeopen := False\<rparr>
          else (pipes s (f_pipe ?f))\<lparr>pi_readopen := False\<rparr>)) else pipes s) \<and>
        (if f_type ?f = FD_INODE then \<exists>i. f_ip ?f = Some i \<and> refs t = (refs s)[i := refs s ! i - 1] else refs t = refs s)"
    proof (cases "f_type ?f")
      case FD_PIPE
      then have "pipeclose (f_pipe ?f) (f_writable ?f) u = Ok x t" using assms(1) True by (simp add: fileclose_def Let_def u_def)
      then show ?thesis using FD_PIPE pipeclose_effect u(2,3) by (metis fdtype.distinct(5))
    next
      case FD_INODE
      then obtain v w where vw: "begin_op u = Ok () v" "iput (f_ip ?f) v = Ok () w" "end_op w = Ok x t"
        using assms(1) True by (auto simp: fileclose_def Let_def u_def elim!: mbind_OkE)
      note e = calmD [OF begin_op_calm vw(1)] iput_effect [OF vw(2)] calmD [OF end_op_calm vw(3)]
      then have "kfs.more t = kfs.more u" by simp
      then show ?thesis using FD_INODE e u(2,3) kfs_more_files [of t u] by (auto intro: wakes_trans)
    next
      case FD_NONE
      then have "t = u" using assms(1) True by (simp add: fileclose_def Let_def u_def)
      then show ?thesis using FD_NONE u by simp
    qed
    have l: "length (inodes t) = length (inodes s)" using rest refs_nth(2) [of s] refs_nth(2) [of t] by (auto split: if_splits)
    have i: "i_ref (inodes t ! j) = i_ref (inodes s ! j) - int (card (inode_files {f} j (ftable s)))" if "j < length (inodes s)" for j
    proof -
      have "inode_files {f} j (ftable s) = (if f_type ?f = FD_INODE \<and> f_ip ?f = Some j then {f} else {})" by (auto simp: inode_files_def)
      then show ?thesis using rest that l refs_nth(1) [of j s] refs_nth(1) [of j t] by (auto simp: nth_upd refs_nth(2) split: if_splits)
    qed
    have "released [Some f] None s t"
      using rest l i assms(2) True unfolding released_def Let_def D u(1)
      by (auto simp: end_closed_def nth_upd split: if_splits)
    then show ?thesis using ref rest u(5) by (blast intro: wakes_trans)
  qed
qed

section \<open>Exit\<close>

text \<open>Changes of a process that do not depend on whether it sleeps.\<close>

lemma woken_upd: "woken p q \<Longrightarrow> woken (p\<lparr>p_ofile := h (p_ofile p)\<rparr>) (q\<lparr>p_ofile := h (p_ofile q)\<rparr>)"
  "woken p q \<Longrightarrow> woken (p\<lparr>p_parent := x\<rparr>) (q\<lparr>p_parent := x\<rparr>)" "woken p q \<Longrightarrow> woken (p\<lparr>p_cwd := y\<rparr>) (q\<lparr>p_cwd := y\<rparr>)"
  by (auto simp: woken_def)

lemma woken_fields:
  assumes "woken p q"
  shows "p_parent q = p_parent p" "p_ofile q = p_ofile p" "p_cwd q = p_cwd p" "p_pid q = p_pid p" "p_state p \<noteq> SLEEPING \<Longrightarrow> q = p"
    "p_chan q = p_chan p" "p_state q = SLEEPING \<Longrightarrow> p_state p = SLEEPING" "p_state q = ZOMBIE \<longleftrightarrow> p_state p = ZOMBIE"
  using assms by (auto simp: woken_def)

lemma wakesD:
  assumes "wakes s t"
  shows "length (procs t) = length (procs s)" "j < length (procs s) \<Longrightarrow> woken (procs s ! j) (procs t ! j)" "cur t = cur s"
    "initproc t = initproc s" "ticks t = ticks s"
  using assms by (auto simp: wakes_def dest: list_all2_lengthD intro: list_all2_nthD)

lemma wakes_updp:
  assumes "wakes s t" "\<And>p q. woken p q \<Longrightarrow> woken (g p) (g q)"
  shows "wakes (updp c g s) (updp c g t)"
proof -
  have l: "list_all2 woken (procs s) (procs t)" using assms(1) by (simp add: wakes_def)
  have "list_all2 woken ((procs s)[c := g (procs s ! c)]) ((procs t)[c := g (procs t ! c)])"
  proof (cases "c < length (procs s)")
    case True
    then show ?thesis using l assms(2) by (auto intro!: list_all2_update_cong dest: list_all2_nthD)
  next
    case False
    then show ?thesis using l list_all2_lengthD [OF l] by (simp add: list_update_beyond)
  qed
  then show ?thesis using assms(1) by (simp add: wakes_def updp_def)
qed

definition clear_fds :: "nat list \<Rightarrow> nat option list \<Rightarrow> nat option list" where
  "clear_fds is ofs = fold (\<lambda>i xs. xs[i := None]) is ofs"

lemma clear_fds_simps [simp]: "clear_fds [] ofs = ofs" "clear_fds (i # is) ofs = clear_fds is (ofs[i := None])"
  by (simp_all add: clear_fds_def)

lemma clear_fds_nth: "clear_fds is ofs ! j = (if j \<in> set is \<and> j < length ofs then None else ofs ! j)"
  by (induction "is" arbitrary: ofs) (auto simp: nth_upd)

lemma clear_fds_length [simp]: "length (clear_fds is ofs) = length ofs"
  by (induction "is" arbitrary: ofs) auto

lemma clear_fds_all: "length ofs = n \<Longrightarrow> clear_fds [0..<n] ofs = replicate n None"
  by (rule nth_equalityI) (auto simp: clear_fds_nth)

text \<open>One descriptor after the other.\<close>

definition held_by :: "nat option list \<Rightarrow> file_s list \<Rightarrow> bool" where
  "held_by ofs fs \<longleftrightarrow> (\<forall>k<length fs. 0 < count_list ofs (Some k) \<longrightarrow> int (count_list ofs (Some k)) \<le> f_ref (fs ! k))"

lemma dying_Cons:
  assumes su: "released [Some f] None s u" and f: "f < length (ftable s)" "1 \<le> f_ref (ftable s ! f)" and h: "held_by ofs (ftable u)"
  shows "dying (Some f # ofs) (ftable s) = dying [Some f] (ftable s) \<union> dying ofs (ftable u)"
    "dying [Some f] (ftable s) \<inter> dying ofs (ftable u) = {}" "held_by (Some f # ofs) (ftable s)"
    "\<And>k. k \<in> dying ofs (ftable u) \<Longrightarrow> \<exists>r. ftable u ! k = (ftable s ! k)\<lparr>f_ref := r\<rparr>"
proof -
  have u: "length (ftable u) = length (ftable s)"
    "\<And>k. k < length (ftable s) \<Longrightarrow> ftable u ! k = (ftable s ! k)\<lparr>f_ref := f_ref (ftable s ! k) - (if k = f then 1 else 0),
      f_type := (if k \<in> dying [Some f] (ftable s) then FD_NONE else f_type (ftable s ! k))\<rparr>"
    using su by (auto simp: released_def Let_def)
  have ref: "f_ref (ftable u ! k) = f_ref (ftable s ! k) - (if k = f then 1 else 0)" if "k < length (ftable s)" for k
    using u(2) [OF that] by simp
  have last: "count_list ofs (Some f) = 0" if "f_ref (ftable s ! f) = 1"
    using h f(1) ref [OF f(1)] that by (auto simp: held_by_def u(1))
  have c: "count_list (Some f # ofs) (Some k) = (if k = f then 1 else 0) + count_list ofs (Some k)" for k by simp
  show e: "dying (Some f # ofs) (ftable s) = dying [Some f] (ftable s) \<union> dying ofs (ftable u)"
    unfolding dying_one [OF f(1)] using last ref f
    by (auto simp: dying_def u(1) split: if_splits)
  show d: "dying [Some f] (ftable s) \<inter> dying ofs (ftable u) = {}"
    unfolding dying_one [OF f(1)] using last by (auto simp: dying_def)
  show "held_by (Some f # ofs) (ftable s)"
    unfolding held_by_def
  proof (intro allI impI)
    fix k assume k: "k < length (ftable s)" "0 < count_list (Some f # ofs) (Some k)"
    show "int (count_list (Some f # ofs) (Some k)) \<le> f_ref (ftable s ! k)"
    proof (cases "count_list ofs (Some k) = 0")
      case True
      then show ?thesis using k f(2) by (auto split: if_splits)
    next
      case False
      then have "int (count_list ofs (Some k)) \<le> f_ref (ftable u ! k)" using h k(1) by (simp add: held_by_def u(1))
      then show ?thesis using ref [OF k(1)] by (auto split: if_splits)
    qed
  qed
  show "\<exists>r. ftable u ! k = (ftable s ! k)\<lparr>f_ref := r\<rparr>" if "k \<in> dying ofs (ftable u)" for k
  proof -
    have "k \<notin> dying [Some f] (ftable s)" "k < length (ftable s)" using that d by (auto simp: dying_def u(1))
    then have "ftable u ! k = (ftable s ! k)\<lparr>f_ref := f_ref (ftable s ! k) - (if k = f then 1 else 0)\<rparr>" using u(2) [of k] by simp
    then show ?thesis by blast
  qed
qed

lemma released_Cons:
  assumes su: "released [Some f] None s u" and f: "f < length (ftable s)" "1 \<le> f_ref (ftable s ! f)" and h: "held_by ofs (ftable u)"
    and ut: "released ofs None u t"
  shows "released (Some f # ofs) None s t"
proof -
  let ?A = "dying [Some f] (ftable s)" and ?B = "dying ofs (ftable u)"
  note D = dying_Cons [OF su f h]
  have same: "f_type (ftable u ! k) = f_type (ftable s ! k)" "f_pipe (ftable u ! k) = f_pipe (ftable s ! k)"
    "f_writable (ftable u ! k) = f_writable (ftable s ! k)" "f_ip (ftable u ! k) = f_ip (ftable s ! k)" if "k \<in> ?B" for k
    using D(4) [OF that] by auto
  have e: "end_closed (?A \<union> ?B) w p (ftable s) \<longleftrightarrow> end_closed ?A w p (ftable s) \<or> end_closed ?B w p (ftable u)" for w p
    unfolding end_closed_def bex_Un by (simp add: same cong: bex_cong_simp)
  have fin: "finite ?A" "finite ?B" by (simp_all add: dying_def)
  have "inode_files (?A \<union> ?B) j (ftable s) = inode_files ?A j (ftable s) \<union> inode_files ?B j (ftable u)" for j
    using same by (auto simp: inode_files_def)
  moreover have "inode_files ?A j (ftable s) \<inter> inode_files ?B j (ftable u) = {}" "finite (inode_files ?A j (ftable s))"
    "finite (inode_files ?B j (ftable u))" for j using D(2) fin by (auto simp: inode_files_def)
  ultimately have n: "card (inode_files (?A \<union> ?B) j (ftable s)) = card (inode_files ?A j (ftable s)) + card (inode_files ?B j (ftable u))" for j
    by (simp add: card_Un_disjoint)
  have l: "length (ftable u) = length (ftable s)" "length (inodes u) = length (inodes s)"
    "length (ftable t) = length (ftable s)" "length (inodes t) = length (inodes s)" using su ut by (simp_all add: released_def Let_def)
  have "ftable t ! k = (ftable s ! k)\<lparr>f_ref := f_ref (ftable s ! k) - int (count_list (Some f # ofs) (Some k)),
      f_type := (if k \<in> ?A \<union> ?B then FD_NONE else f_type (ftable s ! k))\<rparr>" if "k < length (ftable s)" for k
  proof -
    have "ftable t ! k = (ftable u ! k)\<lparr>f_ref := f_ref (ftable u ! k) - int (count_list ofs (Some k)),
        f_type := (if k \<in> ?B then FD_NONE else f_type (ftable u ! k))\<rparr>" using ut that l(1) by (simp add: released_def Let_def)
    moreover have "ftable u ! k = (ftable s ! k)\<lparr>f_ref := f_ref (ftable s ! k) - int (count_list [Some f] (Some k)),
        f_type := (if k \<in> ?A then FD_NONE else f_type (ftable s ! k))\<rparr>" using su that by (simp add: released_def Let_def)
    ultimately show ?thesis by auto
  qed
  moreover have "i_ref (inodes t ! j) = i_ref (inodes s ! j) - int (card (inode_files (?A \<union> ?B) j (ftable s)))"
    if "j < length (inodes s)" for j using su ut that l(2) unfolding n released_def Let_def by simp
  moreover have "pi_readopen (pipes t p) = (pi_readopen (pipes s p) \<and> \<not> end_closed (?A \<union> ?B) False p (ftable s))"
    "pi_writeopen (pipes t p) = (pi_writeopen (pipes s p) \<and> \<not> end_closed (?A \<union> ?B) True p (ftable s))" for p
    using su ut unfolding e released_def Let_def by auto
  ultimately show ?thesis unfolding released_def Let_def D(1) using l(3,4) by simp
qed

lemma released_same:
  assumes "released ofs dir s t" "ftable s' = ftable s" "pipes s' = pipes s" "inodes s' = inodes s"
    and "ftable t' = ftable t" "pipes t' = pipes t" "inodes t' = inodes t"
  shows "released ofs dir s' t'"
  using assms by (simp add: released_def Let_def)

lemma released_None: "released (None # ofs) dir s t = released ofs dir s t" "held_by (None # ofs) fs = held_by ofs fs"
  by (simp_all add: released_def dying_def held_by_def)

lemma exit_files_releases:
  fixes s :: "'a kfile_scheme"
  assumes "exit_files is c s = Ok () t" "c < length (procs s)" "distinct is"
    and "\<forall>i\<in>set is. \<forall>f. p_ofile (procs s ! c) ! i = Some f \<longrightarrow> f < length (ftable s)"
  shows "wakes (updp c (\<lambda>p. p\<lparr>p_ofile := clear_fds is (p_ofile p)\<rparr>) s) t \<and>
    released (map (\<lambda>i. p_ofile (procs s ! c) ! i) is) None s t \<and> held_by (map (\<lambda>i. p_ofile (procs s ! c) ! i) is) (ftable s)"
  using assms
proof (induction "is" arbitrary: s)
  case Nil
  then show ?case by (simp add: updp_def released_none held_by_def)
next
  case (Cons i "is")
  show ?case
  proof (cases "p_ofile (procs s ! c) ! i")
    case None
    then have "(p_ofile (procs s ! c))[i := None] = p_ofile (procs s ! c)" by (metis list_update_id)
    then show ?thesis using Cons None by (simp add: updp_def released_None)
  next
    case (Some f)
    then obtain u where u: "fileclose f s = Ok () u"
        "exit_files is c (updp c (\<lambda>p. p\<lparr>p_ofile := (p_ofile p)[i := None]\<rparr>) u) = Ok () t"
      using Cons.prems(1) by (auto elim: mbind_OkE)
    let ?u = "updp c (\<lambda>p. p\<lparr>p_ofile := (p_ofile p)[i := None]\<rparr>) u"
    let ?ofs = "\<lambda>s :: 'a kfile_scheme. map (\<lambda>i. p_ofile (procs s ! c) ! i) is"
    have f: "f < length (ftable s)" using Cons.prems(4) Some by simp
    have fc: "1 \<le> f_ref (ftable s ! f)" "wakes s u" "released [Some f] None s u" using fileclose_effect [OF u(1) f] by simp_all
    have l: "c < length (procs u)" using wakesD(1) [OF fc(2)] Cons.prems(2) by simp
    have "p_ofile (procs u ! c) = p_ofile (procs s ! c)" using wakesD(2) [OF fc(2) Cons.prems(2)] by (rule woken_fields)
    then have ofs: "p_ofile (procs ?u ! c) ! j = p_ofile (procs s ! c) ! j" if "j \<in> set is" for j
      using l that Cons.prems(3) by (auto simp: nth_upd)
    have fu: "ftable ?u = ftable u" "pipes ?u = pipes u" "inodes ?u = inodes u" "length (ftable u) = length (ftable s)"
      using fc(3) by (simp_all add: updp_def released_def Let_def)
    have IH: "wakes (updp c (\<lambda>p. p\<lparr>p_ofile := clear_fds is (p_ofile p)\<rparr>) ?u) t" "released (?ofs ?u) None ?u t" "held_by (?ofs ?u) (ftable ?u)"
      using Cons.IH [OF u(2)] l Cons.prems(3,4) ofs fu(1,4) by simp_all
    have w: "updp c (\<lambda>p. p\<lparr>p_ofile := clear_fds is (p_ofile p)\<rparr>) ?u = updp c (\<lambda>p. p\<lparr>p_ofile := clear_fds (i # is) (p_ofile p)\<rparr>) u"
      using l by (simp add: updp_def)
    have "wakes (updp c (\<lambda>p. p\<lparr>p_ofile := clear_fds (i # is) (p_ofile p)\<rparr>) s) (updp c (\<lambda>p. p\<lparr>p_ofile := clear_fds (i # is) (p_ofile p)\<rparr>) u)"
      by (rule wakes_updp [OF fc(2)]) (rule woken_upd)
    from wakes_trans [OF this IH(1) [unfolded w]]
    have wt: "wakes (updp c (\<lambda>p. p\<lparr>p_ofile := clear_fds (i # is) (p_ofile p)\<rparr>) s) t" .
    have e: "?ofs ?u = ?ofs s" using ofs by simp
    have "released (?ofs s) None u t" "held_by (?ofs s) (ftable u)" using released_same [OF IH(2), of u t] IH(3) fu unfolding e by simp_all
    then have "released (Some f # ?ofs s) None s t" "held_by (Some f # ?ofs s) (ftable s)"
      using released_Cons [OF fc(3) f fc(1)] dying_Cons(3) [OF fc(3) f fc(1)] by blast+
    then show ?thesis using wt Some by simp
  qed
qed

lemma reparent_more: "kproc.more (reparent is c s) = kproc.more s"
proof (induction "is" arbitrary: s)
  case (Cons i "is")
  have "kproc.more (wakeup1_proc q u) = kproc.more u" for q and u :: "'a kproc_scheme"
    by (simp add: wakeup1_proc_def wakeup1_def Let_def split: option.splits)
  then show ?case using Cons by (simp add: Let_def) (simp add: updp_def)
qed simp

lemma kproc_more_files:
  fixes s t :: "'a kfile_scheme"
  assumes "kproc.more t = kproc.more s"
  shows "ftable t = ftable s" "pipes t = pipes s" "inodes t = inodes s"
  using assms by (cases s; cases t; simp)+

lemma released_cwd:
  assumes "released ofs None s t" "ftable u = ftable t" "pipes u = pipes t" "refs u = (refs t)[i := refs t ! i - 1]"
  shows "released ofs (Some i) s u"
proof -
  have l: "length (inodes u) = length (inodes t)" using assms(4) refs_nth(2) [of u] refs_nth(2) [of t] by simp
  have "i_ref (inodes u ! j) = i_ref (inodes t ! j) - (if i = j then 1 else 0)" if "j < length (inodes t)" for j
    using assms(4) that l refs_nth(1) [of j u] refs_nth(1) [of j t] by (auto simp: nth_upd refs_nth(2))
  then show ?thesis using assms(1-3) l by (simp add: released_def Let_def)
qed

text \<open>Nobody sleeps on a channel.\<close>

definition nobody_on :: "chan \<Rightarrow> 'a kproc_scheme \<Rightarrow> bool" where
  "nobody_on ch s \<longleftrightarrow> (\<forall>p\<in>set (procs s). \<not> (p_state p = SLEEPING \<and> p_chan p = Some ch))"

lemma nobody_on_wakes: "nobody_on ch s \<Longrightarrow> wakes s t \<Longrightarrow> nobody_on ch t"
  unfolding nobody_on_def
proof
  fix q assume a: "\<forall>p\<in>set (procs s). \<not> (p_state p = SLEEPING \<and> p_chan p = Some ch)" "wakes s t" "q \<in> set (procs t)"
  then obtain j where j: "j < length (procs s)" "q = procs t ! j" by (auto simp: in_set_conv_nth wakesD(1) [OF a(2)])
  then have "woken (procs s ! j) q" "procs s ! j \<in> set (procs s)" using wakesD(2) [OF a(2)] by auto
  then show "\<not> (p_state q = SLEEPING \<and> p_chan q = Some ch)" using a(1) woken_fields(6,7) [of "procs s ! j" q] by auto
qed

lemma nobody_on_wakeup1: "nobody_on ch (wakeup1 ch s)"
  by (auto simp: nobody_on_def wake_def)

lemma nobody_on_updp: "nobody_on ch s \<Longrightarrow> \<not> (p_state (g (procs s ! c)) = SLEEPING \<and> p_chan (g (procs s ! c)) = Some ch) \<Longrightarrow> nobody_on ch (updp c g s)"
  by (auto simp: nobody_on_def updp_def dest!: subsetD [OF set_update_subset_insert])

lemma wakes_wakeup1: "wakes s (wakeup1 ch s)"
  using wakes_wakeup [of s ch] by (simp add: wakeup_def)

text \<open>The loop over the children: each gets the new parent, and everything else that happens is that processes are woken.\<close>

definition adopt :: "nat \<Rightarrow> nat option \<Rightarrow> proc \<Rightarrow> proc" where
  "adopt c q p = (if p_parent p = Some c then p\<lparr>p_parent := q\<rparr> else p)"

lemma woken_adopt: "woken p q \<Longrightarrow> woken (adopt c r p) (adopt c r q)"
  by (auto simp: woken_def adopt_def)

lemma adopt_fields [simp]: "p_state (adopt c r p) = p_state p" "p_chan (adopt c r p) = p_chan p" "p_ofile (adopt c r p) = p_ofile p"
  "p_cwd (adopt c r p) = p_cwd p" "p_pid (adopt c r p) = p_pid p"
  by (simp_all add: adopt_def)

lemma reparent_adopts:
  assumes "initproc s = Some q" "q \<noteq> c" "distinct is" "set is \<subseteq> {..<length (procs s)}"
  shows "length (procs (reparent is c s)) = length (procs s) \<and> cur (reparent is c s) = cur s \<and> ticks (reparent is c s) = ticks s \<and>
    (\<forall>j<length (procs s). woken (if j \<in> set is then adopt c (Some q) (procs s ! j) else procs s ! j) (procs (reparent is c s) ! j)) \<and>
    (\<forall>ch. nobody_on ch s \<longrightarrow> nobody_on ch (reparent is c s)) \<and>
    ((\<exists>i\<in>set is. p_parent (procs s ! i) = Some c \<and> p_state (procs s ! i) = ZOMBIE) \<longrightarrow> nobody_on (ChanProc q) (reparent is c s))"
  using assms
proof (induction "is" arbitrary: s)
  case Nil
  then show ?case by (auto simp: woken_def)
next
  case (Cons i "is")
  have i: "i < length (procs s)" "i \<notin> set is" using Cons.prems by auto
  show ?case
  proof (cases "p_parent (procs s ! i) = Some c")
    case False
    then have a: "adopt c (Some q) (procs s ! i) = procs s ! i" by (simp add: adopt_def)
    have r: "reparent (i # is) c s = reparent is c s" using False by simp
    show ?thesis using Cons.IH [OF Cons.prems(1,2)] Cons.prems(3,4) a False i unfolding r by auto
  next
    case True
    define u where "u = updp i (\<lambda>p. p\<lparr>p_parent := Some q\<rparr>) s"
    define v where "v = (if p_state (procs s ! i) = ZOMBIE then wakeup1 (ChanProc q) u else u)"
    have r: "reparent (i # is) c s = reparent is c v"
      using True Cons.prems(1) i(1) by (simp add: u_def v_def Let_def wakeup1_proc_def updp_def)
    have w: "wakes u v" by (simp add: v_def wakes_wakeup1)
    have u: "procs u = (procs s)[i := adopt c (Some q) (procs s ! i)]" "cur u = cur s" "ticks u = ticks s" "initproc u = initproc s"
      using True by (simp_all add: u_def updp_def adopt_def)
    have nu: "nobody_on ch u" if "nobody_on ch s" for ch
      unfolding u_def using that nth_mem [OF i(1)] by (intro nobody_on_updp) (auto simp: nobody_on_def)
    have l: "length (procs v) = length (procs s)" using wakesD(1) [OF w] u(1) by simp
    have e: "initproc v = Some q" "cur v = cur s" "ticks v = ticks s" using wakesD(3-5) [OF w] u Cons.prems(1) by simp_all
    note IH = Cons.IH [OF e(1) Cons.prems(2)] 
    have pv: "woken (procs u ! j) (procs v ! j)" if "j < length (procs s)" for j using wakesD(2) [OF w, of j] that u(1) by simp
    have "woken (if j \<in> set (i # is) then adopt c (Some q) (procs s ! j) else procs s ! j) (procs (reparent is c v) ! j)"
      if "j < length (procs s)" for j
    proof -
      have "woken (if j \<in> set is then adopt c (Some q) (procs v ! j) else procs v ! j) (procs (reparent is c v) ! j)"
        using IH Cons.prems(3,4) that l by auto
      moreover have "woken (if j \<in> set (i # is) then adopt c (Some q) (procs s ! j) else procs s ! j)
          (if j \<in> set is then adopt c (Some q) (procs v ! j) else procs v ! j)"
        using pv [OF that] i woken_adopt by (auto simp: u(1) nth_upd)
      ultimately show ?thesis by (rule woken_trans [rotated])
    qed
    moreover have "nobody_on (ChanProc q) (reparent is c v)"
      if z: "\<exists>j\<in>set (i # is). p_parent (procs s ! j) = Some c \<and> p_state (procs s ! j) = ZOMBIE"
    proof (cases "p_state (procs s ! i) = ZOMBIE")
      case True
      then have "nobody_on (ChanProc q) v" by (simp add: v_def nobody_on_wakeup1)
      then show ?thesis using IH Cons.prems(3,4) l by auto
    next
      case False
      then obtain j where j: "j \<in> set is" "p_parent (procs s ! j) = Some c" "p_state (procs s ! j) = ZOMBIE" using z by auto
      then have "p_parent (procs v ! j) = Some c \<and> p_state (procs v ! j) = ZOMBIE"
        using pv [of j] i(2) Cons.prems(4) woken_fields(1,8) [of "procs u ! j" "procs v ! j"] by (auto simp: u(1) nth_upd)
      then show ?thesis using IH Cons.prems(3,4) l j(1) by auto
    qed
    ultimately show ?thesis using IH Cons.prems(3,4) l e nu nobody_on_wakes [OF _ w] unfolding r by simp
  qed
qed

lemma exit_releases:
  assumes "released ofs None s s1" "begin_op s1 = Ok () s2" "iput dir s2 = Ok () s3" "end_op s3 = Ok () s4" "kproc.more t = kproc.more s4"
  shows "released ofs dir s t"
proof -
  note e = calmD [OF begin_op_calm assms(2)] iput_effect [OF assms(3)] calmD [OF end_op_calm assms(4)]
  have m: "kfs.more s4 = kfs.more s1" using e by simp
  obtain i where i: "dir = Some i" "refs s4 = (refs s1)[i := refs s1 ! i - 1]" using e by auto
  show ?thesis unfolding i(1)
    by (rule released_same [OF released_cwd [OF assms(1) kfs_more_files [OF m] i(2)]]) (use kproc_more_files [OF assms(5)] in simp_all)
qed

text \<open>C12. When the operations it calls return, \<open>exit\<close> ends in the scheduler with a zombie that has the exit status, no open
files, no directory and no tickets. The references its descriptors were are gone from the file table; files that have none left
are free, the ends of pipes among them closed, and an inode has lost one reference for each of them and one if it was the directory. Its children belong to \<open>init\<close>, every other process keeps its parent; nobody sleeps any more
waiting for a child of the parent, nor for one of \<open>init\<close> if it was handed a zombie. Beyond that processes are only
woken up.\<close>

theorem exit_leaves_zombie:
  assumes c: "cur s = Some c" "c < length (procs s)" "p_state (procs s ! c) = RUNNING" "length (p_ofile (procs s ! c)) = NOFILE"
    and q: "initproc s = Some q" "q \<noteq> c" and pp: "p_parent (procs s ! c) = Some pp" "pp \<noteq> c"
    and fd: "\<forall>f. Some f \<in> set (p_ofile (procs s ! c)) \<longrightarrow> f < length (ftable s)"
    and run: "exit_files [0..<NOFILE] c s = Ok () s1" "begin_op s1 = Ok () s2" "iput (p_cwd (procs s2 ! c)) s2 = Ok () s3" "end_op s3 = Ok () s4"
  shows "\<exists>t. (exit status s :: (unit, 'a ksys_scheme) outcome) = Sleep ChanExit t \<and> length (procs t) = length (procs s) \<and>
    procs t ! c = (procs s ! c)\<lparr>p_ofile := replicate NOFILE None, p_cwd := None, p_ttime := sint (ticks s), p_state := ZOMBIE,
      p_status := status, p_ntickets := 0\<rparr> \<and>
    released (p_ofile (procs s ! c)) (p_cwd (procs s ! c)) s t \<and>
    (\<forall>j<length (procs s). j \<noteq> c \<longrightarrow> woken (adopt c (Some q) (procs s ! j)) (procs t ! j)) \<and>
    nobody_on (ChanProc pp) t \<and>
    ((\<exists>j<length (procs s). p_parent (procs s ! j) = Some c \<and> p_state (procs s ! j) = ZOMBIE) \<longrightarrow> nobody_on (ChanProc q) t)"
proof -
  define f where "f = (\<lambda>p :: proc. p\<lparr>p_ofile := replicate NOFILE None\<rparr>)"
  define s5 where "s5 = updp c (\<lambda>p. p\<lparr>p_cwd := None\<rparr>) s4"
  define s6 where "s6 = wakeup1 (ChanProc pp) s5"
  define s7 where "s7 = reparent [0..<length (procs s6)] c s6"
  define t where "t = updp c (\<lambda>p. p\<lparr>p_ttime := sint (ticks s7), p_state := ZOMBIE, p_status := status, p_ntickets := 0\<rparr>) s7"
  have "updp c (\<lambda>p. p\<lparr>p_ofile := clear_fds [0..<NOFILE] (p_ofile p)\<rparr>) s = updp c f s"
    using c(2,4) clear_fds_all [OF c(4)] by (simp add: updp_def f_def)
  moreover have ofs: "map (\<lambda>i. p_ofile (procs s ! c) ! i) [0..<NOFILE] = p_ofile (procs s ! c)" using c(4) map_nth by metis
  have "\<forall>i\<in>set [0..<NOFILE]. \<forall>f. p_ofile (procs s ! c) ! i = Some f \<longrightarrow> f < length (ftable s)" using fd c(4) by (metis atLeastLessThan_iff nth_mem set_upt)
  note closed = exit_files_releases [OF run(1) c(2) distinct_upt this, unfolded ofs]
  ultimately have "wakes (updp c f s) s1" by simp
  then have w4: "wakes (updp c f s) s4"
    using calmD [OF begin_op_calm run(2)] iput_effect [OF run(3)] calmD [OF end_op_calm run(4)] by (blast intro: wakes_trans)
  note d4 = wakesD [OF w4]
  have "wakes (updp c f s) s2" using calmD [OF begin_op_calm run(2)] \<open>wakes (updp c f s) s1\<close> by (blast intro: wakes_trans)
  then have w2: "p_cwd (procs s2 ! c) = p_cwd (procs s ! c)"
    using wakesD(2) [of "updp c f s" s2 c] c(2) woken_fields(3) by (fastforce simp: f_def)
  have p4: "length (procs s4) = length (procs s)" "procs s4 ! c = f (procs s ! c)"
    using d4(1) d4(2) [of c] c(2,3) woken_fields(5) [of "f (procs s ! c)"] by (auto simp: f_def)
  have o4: "woken (procs s ! j) (procs s4 ! j)" if "j < length (procs s)" "j \<noteq> c" for j using d4(2) [of j] that by simp
  have p5: "procs s5 ! c = (f (procs s ! c))\<lparr>p_cwd := None\<rparr>" "length (procs s5) = length (procs s)" using p4 c(2) by (simp_all add: s5_def)
  have pw: "wakeup1_proc (p_parent (procs s5 ! c)) s5 = s6" using p5(1) pp(1) by (simp add: wakeup1_proc_def s6_def f_def)
  have w6: "wakes s5 s6" unfolding s6_def by (rule wakes_wakeup1)
  note d6 = wakesD [OF w6]
  have p6: "procs s6 ! c = procs s5 ! c" "length (procs s6) = length (procs s)"
    using d6(1) d6(2) [of c] p5 c(2,3) woken_fields(5) [of "procs s5 ! c" "procs s6 ! c"] by (auto simp: f_def)
  have i6: "initproc s6 = Some q" "ticks s6 = ticks s" using d6(4,5) d4(4,5) q(1) by (simp_all add: s5_def updp_def)
  have sub: "set [0..<length (procs s6)] \<subseteq> {..<length (procs s6)}" by auto
  note r = reparent_adopts [OF i6(1) q(2) distinct_upt sub, folded s7_def]
  have p7: "length (procs s7) = length (procs s)" "ticks s7 = ticks s" using r p6(2) i6(2) by simp_all
  have own: "p_parent (procs s6 ! c) \<noteq> Some c" using p6(1) p5(1) pp by (simp add: f_def)
  have more: "kproc.more t = kproc.more s4" unfolding t_def s7_def
    by (simp add: updp_def reparent_more) (simp add: s6_def s5_def updp_def wakeup1_def Let_def)
  have "woken (procs s6 ! c) (procs s7 ! c)" using r p6(2) c(2) own by (auto simp: adopt_def)
  then have "procs s7 ! c = procs s6 ! c" using woken_fields(5) p6(1) p5(1) c(3) by (simp add: f_def)
  then have tc: "procs t ! c = (procs s ! c)\<lparr>p_ofile := replicate NOFILE None, p_cwd := None, p_ttime := sint (ticks s), p_state := ZOMBIE,
      p_status := status, p_ntickets := 0\<rparr>" using p7 c(2) p6(1) p5(1) by (simp add: t_def f_def)
  have o6: "woken (procs s ! j) (procs s6 ! j)" if "j < length (procs s)" "j \<noteq> c" for j
    using o4 [OF that] d6(2) [of j] p5(2) that by (auto simp: s5_def intro: woken_trans)
  have "woken (adopt c (Some q) (procs s ! j)) (procs t ! j)" if "j < length (procs s)" "j \<noteq> c" for j
  proof -
    have "woken (adopt c (Some q) (procs s6 ! j)) (procs s7 ! j)" using r that p6(2) by auto
    then show ?thesis using woken_adopt [OF o6 [OF that]] that by (auto simp: t_def intro: woken_trans)
  qed
  moreover have nb: "nobody_on ch t" if "nobody_on ch s7" for ch unfolding t_def using that by (rule nobody_on_updp) simp
  moreover have "nobody_on (ChanProc pp) s7" using r nobody_on_wakeup1 [of "ChanProc pp" s5] by (simp add: s6_def)
  moreover have "nobody_on (ChanProc q) s7" if z: "j < length (procs s)" "p_parent (procs s ! j) = Some c" "p_state (procs s ! j) = ZOMBIE" for j
  proof -
    have "j \<noteq> c" using z pp c(3) by auto
    then have "p_parent (procs s6 ! j) = Some c \<and> p_state (procs s6 ! j) = ZOMBIE"
      using woken_fields(1,8) [OF o6 [OF z(1)]] z by auto
    then show ?thesis using r z(1) p6(2) by auto
  qed
  moreover have "exit status s = Sleep ChanExit t"
    using c(1) q run pw
    by (simp add: exit_def mcur_def Let_def s5_def [symmetric] s7_def [symmetric] t_def del: updp_simps)
  moreover have "released (p_ofile (procs s ! c)) (p_cwd (procs s ! c)) s t"
    using exit_releases [OF conjunct1 [OF conjunct2 [OF closed]] run(2-4)] w2 more by simp
  ultimately show ?thesis using tc p7(1) by (auto simp: t_def)
qed

section \<open>Fork\<close>

text \<open>One more reference for every descriptor that refers to an open file.\<close>

fun share_files :: "nat option list \<Rightarrow> file_s list \<Rightarrow> file_s list" where
  "share_files [] fs = fs"
| "share_files (x # xs) fs = share_files xs (case x of None \<Rightarrow> fs | Some f \<Rightarrow> fs[f := (fs ! f)\<lparr>f_ref := f_ref (fs ! f) + 1\<rparr>])"

lemma share_files_length [simp]: "length (share_files xs fs) = length fs"
  by (induction xs arbitrary: fs) (auto split: option.splits)

lemma share_files_nth:
  "f < length fs \<Longrightarrow> share_files xs fs ! f = (fs ! f)\<lparr>f_ref := f_ref (fs ! f) + int (count_list xs (Some f))\<rparr>"
proof (induction xs arbitrary: fs)
  case (Cons x xs)
  then show ?case by (cases x) (auto simp: nth_upd)
qed simp

lemma share_files_beyond: "\<not> f < length fs \<Longrightarrow> share_files xs fs ! f = fs ! f"
proof (induction xs arbitrary: fs)
  case (Cons x xs)
  then show ?case by (cases x) (auto simp: nth_upd)
qed simp

lemma fork_files_shares:
  assumes "c \<noteq> np" "np < length (procs s)" "c < length (procs s)" "k + length xs = NOFILE" "drop k (p_ofile (procs s ! c)) = xs"
    and "length (p_ofile (procs s ! np)) = NOFILE" "\<forall>i\<ge>k. i < NOFILE \<longrightarrow> p_ofile (procs s ! np) ! i = None"
    and "\<forall>f. Some f \<in> set xs \<longrightarrow> 1 \<le> f_ref (ftable s ! f)"
  shows "fork_files [k..<NOFILE] c np s = Ok () (updp np (\<lambda>p. p\<lparr>p_ofile := take k (p_ofile p) @ xs\<rparr>) (s\<lparr>ftable := share_files xs (ftable s)\<rparr>))"
  using assms
proof (induction xs arbitrary: k s)
  case Nil
  then have "k = NOFILE" by simp
  then show ?case using Nil by (simp add: updp_def)
next
  case (Cons x xs)
  have k: "k < NOFILE" "[k..<NOFILE] = k # [Suc k..<NOFILE]" using Cons.prems(4) by (simp_all add: upt_conv_Cons)
  have lc: "k < length (p_ofile (procs s ! c))" using Cons.prems(5) by (metis drop_all list.discI not_le)
  have x: "p_ofile (procs s ! c) ! k = x" "drop (Suc k) (p_ofile (procs s ! c)) = xs"
    using Cons.prems(5) Cons_nth_drop_Suc [OF lc] by simp_all
  have tk: "take (Suc k) ys = take k ys @ [ys ! k]" if "length ys = NOFILE" for ys :: "nat option list"
    using that k(1) by (simp add: take_Suc_conv_app_nth)
  show ?case
  proof (cases x)
    case None
    have "fork_files [Suc k..<NOFILE] c np s = Ok () (updp np (\<lambda>p. p\<lparr>p_ofile := take (Suc k) (p_ofile p) @ xs\<rparr>) (s\<lparr>ftable := share_files xs (ftable s)\<rparr>))"
      using Cons.prems x(2) by (intro Cons.IH) auto
    moreover have "take (Suc k) (p_ofile (procs s ! np)) @ xs = take k (p_ofile (procs s ! np)) @ None # xs"
      using tk [OF Cons.prems(6)] Cons.prems(7) k(1) by simp
    ultimately show ?thesis unfolding k(2) using x(1) None by (simp add: updp_def)
  next
    case (Some f)
    define u where "u = updp np (\<lambda>p. p\<lparr>p_ofile := (p_ofile p)[k := Some f]\<rparr>) (updf f (\<lambda>f. f\<lparr>f_ref := f_ref f + 1\<rparr>) s)"
    have pu: "procs u = (procs s)[np := (procs s ! np)\<lparr>p_ofile := (p_ofile (procs s ! np))[k := Some f]\<rparr>]"
      "ftable u = (ftable s)[f := (ftable s ! f)\<lparr>f_ref := f_ref (ftable s ! f) + 1\<rparr>]" by (simp_all add: u_def updp_def updf_def)
    have r: "1 \<le> f_ref (ftable s ! f)" using Cons.prems(8) Some by simp
    have "fork_files [Suc k..<NOFILE] c np u = Ok () (updp np (\<lambda>p. p\<lparr>p_ofile := take (Suc k) (p_ofile p) @ xs\<rparr>) (u\<lparr>ftable := share_files xs (ftable u)\<rparr>))"
    proof (intro Cons.IH)
      show "\<forall>g. Some g \<in> set xs \<longrightarrow> 1 \<le> f_ref (ftable u ! g)" using Cons.prems(8) by (auto simp: pu nth_upd)
    qed (use Cons.prems x(2) in \<open>auto simp: pu\<close>)
    moreover have "fork_files [k..<NOFILE] c np s = fork_files [Suc k..<NOFILE] c np u"
      unfolding k(2) using x(1) Some r by (simp add: filedup_def u_def)
    moreover have "take (Suc k) ((p_ofile (procs s ! np))[k := Some f]) @ xs = take k (p_ofile (procs s ! np)) @ Some f # xs"
      using tk [of "(p_ofile (procs s ! np))[k := Some f]"] Cons.prems(6) k(1) by simp
    ultimately show ?thesis using Some Cons.prems(2) by (simp add: pu) (simp add: u_def updp_def updf_def)
  qed
qed

lemma allocproc_Some:
  assumes "allocproc s = Ok (Some i) t"
  shows "i < length (procs s)" "p_state (procs s ! i) = UNUSED" "freelist s \<noteq> 0"
    "procs t = (procs s)[i := (set_default_handlers ((procs s ! i)\<lparr>p_state := EMBRYO, p_pid := nextpid s\<rparr>))\<lparr>p_kstack := freelist s,
       p_context := \<lparr>c_edi = 0, c_esi = 0, c_ebx = 0, c_ebp = 0, c_eip = sym_forkret s\<rparr>\<rparr>]"
    "t = s\<lparr>procs := procs t, nextpid := nextpid s + 1, freelist := freelist t\<rparr>" "freelist t = get_u32 (mem s (freelist s)) 0"
proof -
  from assms obtain u where u: "alloc_slot s = Some (i, u)" by (auto simp: allocproc_def split: option.splits if_splits elim!: mbind_OkE)
  then have f: "ffind (\<lambda>p. p_state p = UNUSED) (procs s) = Some i"
      "u = updp i (\<lambda>p. set_default_handlers (p\<lparr>p_state := EMBRYO, p_pid := nextpid s\<rparr>)) (s\<lparr>nextpid := nextpid s + 1\<rparr>)"
    by (auto simp: alloc_slot_def split: option.splits)
  then show i: "i < length (procs s)" "p_state (procs s ! i) = UNUSED" unfolding ffind_Some by auto
  have e: "freelist u = freelist s" "sym_forkret u = sym_forkret s" by (simp_all add: f(2) updp_def)
  show fl: "freelist s \<noteq> 0" using assms u e by (auto simp: allocproc_def kalloc_def Let_def split: if_splits)
  then have t: "t = updp i (\<lambda>p. p\<lparr>p_kstack := freelist s, p_context := \<lparr>c_edi = 0, c_esi = 0, c_ebx = 0, c_ebp = 0, c_eip = sym_forkret s\<rparr>\<rparr>)
      (u\<lparr>freelist := get_u32 (mem u (freelist s)) 0\<rparr>)"
    using assms u e by (auto simp: allocproc_def kalloc_def Let_def updp_def)
  then show "procs t = (procs s)[i := (set_default_handlers ((procs s ! i)\<lparr>p_state := EMBRYO, p_pid := nextpid s\<rparr>))\<lparr>p_kstack := freelist s,
       p_context := \<lparr>c_edi = 0, c_esi = 0, c_ebx = 0, c_ebp = 0, c_eip = sym_forkret s\<rparr>\<rparr>]"
    using i(1) by (simp add: f(2) updp_def)
  show "t = s\<lparr>procs := procs t, nextpid := nextpid s + 1, freelist := freelist t\<rparr>"
    unfolding t f(2) by (simp add: updp_def)
  show "freelist t = get_u32 (mem s (freelist s)) 0" unfolding t f(2) by (simp add: updp_def)
qed

lemma allocproc_takes:
  assumes "ffind (\<lambda>p. p_state p = UNUSED) (procs s) = Some i" "freelist s \<noteq> 0"
  shows "\<exists>t. allocproc s = Ok (Some i) t"
  using assms by (simp add: allocproc_def alloc_slot_def kalloc_def Let_def updp_def)

text \<open>What \<open>fork\<close> makes of the slot \<open>e\<close> that \<open>allocproc\<close> set up, as a child of \<open>p\<close>.\<close>

definition forked :: "int \<Rightarrow> uint32 \<Rightarrow> nat \<Rightarrow> uint32 \<Rightarrow> proc \<Rightarrow> proc \<Rightarrow> proc" where
  "forked pol tk c d p e = (new_tickets pol (e\<lparr>p_pgdir := d, p_sz := p_sz p, p_parent := Some c, p_tf := (p_tf p)\<lparr>tf_eax := 0\<rparr>,
     p_ofile := p_ofile p, p_cwd := p_cwd p, p_name := safestrcpy (p_name e) (p_name p) 16\<rparr>))\<lparr>p_stime := 0, p_rutime := 0,
     p_retime := 0, p_state := RUNNABLE, p_ctime := sint tk\<rparr>"

lemma forked_fields: "p_state (forked pol tk c d p e) = RUNNABLE" "p_pid (forked pol tk c d p e) = p_pid e" "p_parent (forked pol tk c d p e) = Some c"
  "p_pgdir (forked pol tk c d p e) = d" "p_sz (forked pol tk c d p e) = p_sz p" "p_tf (forked pol tk c d p e) = (p_tf p)\<lparr>tf_eax := 0\<rparr>"
  "p_ofile (forked pol tk c d p e) = p_ofile p" "p_cwd (forked pol tk c d p e) = p_cwd p"
  "p_name (forked pol tk c d p e) = safestrcpy (p_name e) (p_name p) 16" "p_pending (forked pol tk c d p e) = p_pending e"
  "p_handlers_array (forked pol tk c d p e) = p_handlers_array e" "p_ret_add (forked pol tk c d p e) = p_ret_add e"
  "p_killed (forked pol tk c d p e) = p_killed e"
  by (simp_all add: forked_def new_tickets_def Let_def)

lemma fork_runs:
  fixes s :: "'a ksys_scheme"
  assumes a: "allocproc s = Ok (Some np) s1" "cur s1 = Some c" "np \<noteq> c" "np < length (procs s2)" "c < length (procs s2)" "procs s2 = procs s1"
    and v: "copyuvm (p_pgdir (procs s2 ! c)) (p_sz (procs s2 ! c)) s1 = Ok d s2" "d \<noteq> 0"
    and p: "length (p_ofile (procs s2 ! c)) = NOFILE" "p_cwd (procs s2 ! c) = Some dir" "p_ofile (procs s2 ! np) = replicate NOFILE None"
      "\<forall>f. Some f \<in> set (p_ofile (procs s2 ! c)) \<longrightarrow> 1 \<le> f_ref (ftable s2 ! f)"
  shows "fork s = Ok (p_pid (procs s2 ! np)) (updp np (forked (currentPolicy s2) (ticks s2) c d (procs s2 ! c))
    (updi dir (\<lambda>ip. ip\<lparr>i_ref := i_ref ip + 1\<rparr>) (s2\<lparr>ftable := share_files (p_ofile (procs s2 ! c)) (ftable s2)\<rparr>)))"
proof -
  let ?p = "procs s2 ! c" and ?e = "procs s2 ! np"
  define q where "q = ?e\<lparr>p_pgdir := d, p_sz := p_sz ?p, p_parent := Some c, p_tf := (p_tf ?p)\<lparr>tf_eax := 0\<rparr>\<rparr>"
  define s3 where "s3 = updp np (\<lambda>_. q) s2"
  define s4 where "s4 = updp np (\<lambda>p. p\<lparr>p_ofile := p_ofile ?p\<rparr>) (s3\<lparr>ftable := share_files (p_ofile ?p) (ftable s3)\<rparr>)"
  define s5 where "s5 = updi dir (\<lambda>ip. ip\<lparr>i_ref := i_ref ip + 1\<rparr>) s4"
  have p3: "procs s3 = (procs s2)[np := q]" "ftable s3 = ftable s2" by (simp_all add: s3_def updp_def)
  have ff: "fork_files [0..<NOFILE] c np s3 = Ok () s4"
    using fork_files_shares [of c np s3 0 "p_ofile ?p"] a(3-5) p by (simp add: p3 s4_def q_def)
  have p5: "procs s5 = (procs s2)[np := q\<lparr>p_ofile := p_ofile ?p\<rparr>]" using a(4) by (simp add: s5_def s4_def updi_def updp_def p3)
  have m5: "currentPolicy s5 = currentPolicy s2" "ticks s5 = ticks s2" "p_cwd (procs s4 ! c) = Some dir"
    using a(3,5) p(2) by (simp_all add: s5_def s4_def s3_def updi_def updp_def)
  have h: "procs (updp np (\<lambda>p. p\<lparr>p_pgdir := d\<rparr>) s2) ! c = ?p" "updp np (\<lambda>p. p\<lparr>p_sz := p_sz ?p, p_parent := Some c, p_tf := (p_tf ?p)\<lparr>tf_eax := 0\<rparr>\<rparr>)
      (updp np (\<lambda>p. p\<lparr>p_pgdir := d\<rparr>) s2) = s3"
    using a(3,4) by (simp_all add: s3_def q_def updp_def)
  have "fork s = mbind (idup dir s4) (\<lambda>d s.
      let s = updp np (\<lambda>p. p\<lparr>p_cwd := Some d, p_name := safestrcpy (p_name p) (p_name (procs s ! c)) 16\<rparr>) s;
          pid = p_pid (procs s ! np); s = updp np (\<lambda>p. new_tickets (currentPolicy s) p) s
      in Ok pid (updp np (\<lambda>p. p\<lparr>p_stime := 0, p_rutime := 0, p_retime := 0, p_state := RUNNABLE, p_ctime := sint (ticks s)\<rparr>) s))"
    using a(1,2,6) v ff m5(3) h by (simp add: fork_def mcur_def Let_def del: updp_simps)
  also have "\<dots> = Ok (p_pid ?e) (updp np (\<lambda>_. forked (currentPolicy s2) (ticks s2) c d ?p ?e) s5)"
    using p5 m5(1,2) a(3,4) p(2) by (simp add: idup_def s5_def [symmetric] Let_def updp_def forked_def q_def)
  finally show ?thesis using a(4) by (simp add: s5_def s4_def s3_def updi_def updp_def)
qed

text \<open>The same from the results of the callees.\<close>

lemma fork_child:
  fixes s :: "'a ksys_scheme"
  assumes c: "cur s = Some c" "c < length (procs s)" "p_state (procs s ! c) = RUNNING" "length (p_ofile (procs s ! c)) = NOFILE"
      "p_cwd (procs s ! c) = Some dir"
    and r: "\<forall>f. Some f \<in> set (p_ofile (procs s ! c)) \<longrightarrow> 1 \<le> f_ref (ftable s ! f)"
    and a: "allocproc s = Ok (Some np) s1" "p_ofile (procs s ! np) = replicate NOFILE None"
    and v: "copyuvm (p_pgdir (procs s ! c)) (p_sz (procs s ! c)) s1 = Ok d s2" "d \<noteq> 0"
  shows "\<exists>t. fork s = Ok (nextpid s) t \<and> mem t = mem s2 \<and> length (procs t) = length (procs s) \<and> (\<forall>j. j \<noteq> np \<longrightarrow> procs t ! j = procs s ! j) \<and>
    (let p = procs s ! c; q = procs t ! np in
      p_state q = RUNNABLE \<and> p_pid q = nextpid s \<and> p_parent q = Some c \<and> p_pgdir q = d \<and> p_sz q = p_sz p \<and>
      p_tf q = (p_tf p)\<lparr>tf_eax := 0\<rparr> \<and> p_ofile q = p_ofile p \<and> p_cwd q = p_cwd p \<and>
      p_name q = safestrcpy (p_name (procs s ! np)) (p_name p) 16 \<and> p_pending q = 0 \<and> p_handlers_array q = replicate 32 0xffffffff \<and>
      p_ret_add q = p_ret_add (procs s ! np) \<and> p_killed q = p_killed (procs s ! np)) \<and>
    (\<forall>f<length (ftable s). ftable t ! f = (ftable s ! f)\<lparr>f_ref := f_ref (ftable s ! f) + int (count_list (p_ofile (procs s ! c)) (Some f))\<rparr>) \<and>
    inodes t = (inodes s)[dir := (inodes s ! dir)\<lparr>i_ref := i_ref (inodes s ! dir) + 1\<rparr>]"
proof -
  let ?p = "procs s ! c"
  note al = allocproc_Some [OF a(1)]
  have np: "np \<noteq> c" using al(2) c(3) by auto
  have m1: "ftable s1 = ftable s" "inodes s1 = inodes s" "cur s1 = cur s" "currentPolicy s1 = currentPolicy s" "ticks s1 = ticks s"
    using arg_cong [OF al(5), of ftable] arg_cong [OF al(5), of inodes] arg_cong [OF al(5), of cur] arg_cong [OF al(5), of currentPolicy]
      arg_cong [OF al(5), of ticks] by simp_all
  have mo: "s2 = s1\<lparr>mem := mem s2, freelist := freelist s2\<rparr>" using mem_only_Ok [OF copyuvm_frame v(1)] by (simp only: mem_only_def)
  have m2: "ftable s2 = ftable s" "inodes s2 = inodes s" "cur s2 = cur s" "procs s2 = procs s1" "currentPolicy s2 = currentPolicy s" "ticks s2 = ticks s"
    using m1 arg_cong [OF mo, of ftable] arg_cong [OF mo, of inodes] arg_cong [OF mo, of cur] arg_cong [OF mo, of currentPolicy]
      arg_cong [OF mo, of ticks] arg_cong [OF mo, of procs] by simp_all
  have p1: "procs s1 ! c = ?p" "c < length (procs s1)" "np < length (procs s1)" using al(1,4) np c(2) by simp_all
  have e: "p_pid (procs s1 ! np) = nextpid s" "p_pending (procs s1 ! np) = 0" "p_handlers_array (procs s1 ! np) = replicate 32 0xffffffff"
      "p_ret_add (procs s1 ! np) = p_ret_add (procs s ! np)" "p_killed (procs s1 ! np) = p_killed (procs s ! np)"
      "p_name (procs s1 ! np) = p_name (procs s ! np)" "p_ofile (procs s1 ! np) = replicate NOFILE None"
    using al(1,4) a(2) by (simp_all add: set_default_handlers_def)
  define t where "t = updp np (forked (currentPolicy s) (ticks s) c d ?p)
      (updi dir (\<lambda>ip. ip\<lparr>i_ref := i_ref ip + 1\<rparr>) (s2\<lparr>ftable := share_files (p_ofile ?p) (ftable s)\<rparr>))"
  have "fork s = Ok (nextpid s) t"
    using fork_runs [OF a(1), of c s2 d dir] c(1,4,5) np v p1 e m1(3) m2 r by (simp add: t_def)
  moreover have "procs t = (procs s1)[np := forked (currentPolicy s) (ticks s) c d ?p (procs s1 ! np)]" by (simp add: t_def updp_def updi_def m2)
  then have "procs t = (procs s)[np := forked (currentPolicy s) (ticks s) c d ?p (procs s1 ! np)]" by (simp add: al(4))
  moreover have "ftable t = share_files (p_ofile ?p) (ftable s)"
      "inodes t = (inodes s)[dir := (inodes s ! dir)\<lparr>i_ref := i_ref (inodes s ! dir) + 1\<rparr>]" "mem t = mem s2" by (simp_all add: t_def updp_def updi_def m2)
  ultimately show ?thesis using al(1) by (intro exI [of _ t]) (simp add: forked_fields e share_files_nth)
qed

text \<open>C7. When there is an unused slot and memory enough, \<open>fork\<close> returns the next process number and the
child is runnable with a copy of its parent's memory in frames the parent does not have, with its parent's size, registers (but 0 as the result
of the call), files, directory and name, no pending signals and the default handlers. Every open file gets one more reference for each
descriptor, the directory one, and no other process changes. The address that signal handlers return to and the killed mark are those of the
slot's previous user.\<close>

theorem fork_copies_parent:
  fixes s :: "'a ksys_scheme"
  assumes c: "cur s = Some c" "c < length (procs s)" "p_state (procs s ! c) = RUNNING" "length (p_ofile (procs s ! c)) = NOFILE"
      "p_cwd (procs s ! c) = Some dir"
    and r: "\<forall>f. Some f \<in> set (p_ofile (procs s ! c)) \<longrightarrow> 1 \<le> f_ref (ftable s ! f)"
    and a: "ffind (\<lambda>p. p_state p = UNUSED) (procs s) = Some np" "p_ofile (procs s ! np) = replicate NOFILE None"
    and v: "can_copy s (p_pgdir (procs s ! c)) (p_sz (procs s ! c))" "1026 + npages (p_sz (procs s ! c)) \<le> card (free_pages s)"
  shows "\<exists>t. fork s = Ok (nextpid s) t \<and> length (procs t) = length (procs s) \<and> (\<forall>j. j \<noteq> np \<longrightarrow> procs t ! j = procs s ! j) \<and>
    (let p = procs s ! c; q = procs t ! np in
      p_state q = RUNNABLE \<and> p_pid q = nextpid s \<and> p_parent q = Some c \<and> p_sz q = p_sz p \<and>
      (\<forall>x. unat x < unat (p_sz p) \<longrightarrow> ubyte t (p_pgdir q) x = ubyte s (p_pgdir p) x \<and> ubyte t (p_pgdir p) x = ubyte s (p_pgdir p) x \<and>
        (\<forall>y. unat y < unat (p_sz p) \<longrightarrow> frame_of t (p_pgdir q) x \<noteq> frame_of t (p_pgdir p) y)) \<and>
      p_tf q = (p_tf p)\<lparr>tf_eax := 0\<rparr> \<and> p_ofile q = p_ofile p \<and> p_cwd q = p_cwd p \<and>
      p_name q = safestrcpy (p_name (procs s ! np)) (p_name p) 16 \<and> p_pending q = 0 \<and> p_handlers_array q = replicate 32 0xffffffff \<and>
      p_ret_add q = p_ret_add (procs s ! np) \<and> p_killed q = p_killed (procs s ! np)) \<and>
    (\<forall>f<length (ftable s). ftable t ! f = (ftable s ! f)\<lparr>f_ref := f_ref (ftable s ! f) + int (count_list (p_ofile (procs s ! c)) (Some f))\<rparr>) \<and>
    inodes t = (inodes s)[dir := (inodes s ! dir)\<lparr>i_ref := i_ref (inodes s ! dir) + 1\<rparr>]"
proof -
  let ?p = "procs s ! c"
  have "freelist s \<noteq> 0" by (rule can_copy_take(1) [OF v, of "s\<lparr>freelist := get_u32 (mem s (freelist s)) 0\<rparr>"]) simp_all
  then obtain s1 where s1: "allocproc s = Ok (Some np) s1" using allocproc_takes [OF a(1)] by blast
  note al = allocproc_Some [OF s1]
  have m1: "mem s1 = mem s" "kend s1 = kend s" "kdata s1 = kdata s"
    using arg_cong [OF al(5), of mem] arg_cong [OF al(5), of kend] arg_cong [OF al(5), of kdata] by simp_all
  have "can_copy s1 (p_pgdir ?p) (p_sz ?p)" by (rule can_copy_take(2) [OF v m1(1) al(6) m1(2,3)])
  from copyuvm_bytes [OF this] obtain d s2 where s2: "copyuvm (p_pgdir ?p) (p_sz ?p) s1 = Ok d s2" "d \<noteq> 0"
    "\<forall>x. unat x < unat (p_sz ?p) \<longrightarrow> ubyte s2 d x = ubyte s1 (p_pgdir ?p) x"
    "\<forall>x. unat x < unat (p_sz ?p) \<longrightarrow> ubyte s2 (p_pgdir ?p) x = ubyte s1 (p_pgdir ?p) x"
    "\<forall>x y. unat x < unat (p_sz ?p) \<and> unat y < unat (p_sz ?p) \<longrightarrow> frame_of s2 d x \<noteq> frame_of s2 (p_pgdir ?p) y" by auto
  note f = fork_child [OF c r s1 a(2) s2(1,2)]
  then obtain t where t: "mem t = mem s2" "fork s = Ok (nextpid s) t" "p_pgdir (procs t ! np) = d" by (auto simp: Let_def)
  have e: "ubyte t pg x = ubyte s2 pg x" "frame_of t pg x = frame_of s2 pg x" "ubyte s1 pg x = ubyte s pg x" for pg x
    using ubyte_cong [OF t(1), of pg x] ubyte_cong [OF m1(1), of pg x] by (simp_all add: frame_of_def)
  show ?thesis using f t(2) s2(3,4,5) e t(3) by (simp add: Let_def)
qed

section \<open>A machine with a parent and a child\<close>

definition life_wit :: ksys where
  "life_wit = (kfile.extend kfile0 (ksys.fields False [] (replicate 7 (SEG 0 0 0 0)) 0 0))
     \<lparr>mem := pool_mem, freelist := 0x80500000, kend := 0x80400000, kdata := 0x80108000, nextpid := 3, initproc := Some 0, cur := Some 1,
      procs := [proc0\<lparr>p_state := SLEEPING, p_pid := 1, p_chan := Some (ChanProc 0)\<rparr>,
        proc0\<lparr>p_state := RUNNING, p_pid := 2, p_parent := Some 0, p_cwd := Some 0, p_pgdir := 0x80400000, p_sz := 0x10\<rparr>, proc0],
      outstanding := 0, committing := False, lh_n := 0, inodes := [inode0\<lparr>i_ref := 2\<rparr>]\<rparr>"

lemma life_wit_fields:
  "mem life_wit = pool_mem" "freelist life_wit = 0x80500000" "kend life_wit = 0x80400000" "kdata life_wit = 0x80108000" "nextpid life_wit = 3"
  "initproc life_wit = Some 0" "cur life_wit = Some 1" "outstanding life_wit = 0" "\<not> committing life_wit" "lh_n life_wit = 0"
  "inodes life_wit = [inode0\<lparr>i_ref := 2\<rparr>]"
  "procs life_wit = [proc0\<lparr>p_state := SLEEPING, p_pid := 1, p_chan := Some (ChanProc 0)\<rparr>,
     proc0\<lparr>p_state := RUNNING, p_pid := 2, p_parent := Some 0, p_cwd := Some 0, p_pgdir := 0x80400000, p_sz := 0x10\<rparr>, proc0]"
  by (simp_all add: life_wit_def kfile.defs ksys.defs)

text \<open>The child exits with two descriptors for the write end of a pipe and one for a file that others have open too.\<close>

definition exit_wit :: ksys where
  "exit_wit = life_wit\<lparr>
     ftable := [file0\<lparr>f_type := FD_PIPE, f_ref := 2, f_writable := True, f_pipe := 7\<rparr>,
       file0\<lparr>f_type := FD_INODE, f_ref := 3, f_readable := True, f_ip := Some 0\<rparr>],
     procs := [proc0\<lparr>p_state := SLEEPING, p_pid := 1, p_chan := Some (ChanProc 0)\<rparr>,
       proc0\<lparr>p_state := RUNNING, p_pid := 2, p_parent := Some 0, p_cwd := Some 0,
         p_ofile := [Some 0, Some 0, Some 1] @ replicate 13 None\<rparr>]\<rparr>"

lemma exit_files_none: "\<forall>i\<in>set is. p_ofile (procs s ! c) ! i = None \<Longrightarrow> exit_files is c s = Ok () s"
  by (induction "is") auto

lemma exit_files_some: "p_ofile (procs s ! c) ! i = Some f \<Longrightarrow> fileclose f s = Ok () u \<Longrightarrow>
    exit_files (i # is) c s = exit_files is c (updp c (\<lambda>p. p\<lparr>p_ofile := (p_ofile p)[i := None]\<rparr>) u)"
  by simp

lemma exit_wit_fields:
  "ftable exit_wit = [file0\<lparr>f_type := FD_PIPE, f_ref := 2, f_writable := True, f_pipe := 7\<rparr>,
     file0\<lparr>f_type := FD_INODE, f_ref := 3, f_readable := True, f_ip := Some 0\<rparr>]"
  "procs exit_wit = [proc0\<lparr>p_state := SLEEPING, p_pid := 1, p_chan := Some (ChanProc 0)\<rparr>,
     proc0\<lparr>p_state := RUNNING, p_pid := 2, p_parent := Some 0, p_cwd := Some 0, p_ofile := [Some 0, Some 0, Some 1] @ replicate 13 None\<rparr>]"
  "pipes exit_wit = (\<lambda>_. pipe0)" "cur exit_wit = Some 1" "initproc exit_wit = Some 0" "inodes exit_wit = [inode0\<lparr>i_ref := 2\<rparr>]"
  "outstanding exit_wit = 0" "\<not> committing exit_wit" "lh_n exit_wit = 0"
  by (simp_all add: exit_wit_def life_wit_fields) (simp add: life_wit_def kfile0_fields kfile.defs ksys.defs kfile0_def kcons.defs)

lemma exit_wit_closes:
  obtains t where "exit_files [0..<NOFILE] 1 exit_wit = Ok () t" "outstanding t = 0" "\<not> committing t" "lh_n t = 0"
    "inodes t = [inode0\<lparr>i_ref := 2\<rparr>]" "p_cwd (procs t ! 1) = Some 0"
proof -
  have l: "[0..<NOFILE] = 0 # 1 # 2 # [3..<NOFILE]" by (simp add: upt_rec)
  define a where "a = updp 1 (\<lambda>p. p\<lparr>p_ofile := (p_ofile p)[0 := None]\<rparr>) (updf 0 (\<lambda>f. f\<lparr>f_ref := 1\<rparr>) exit_wit)"
  define b where "b = wakeup (ChanPipeRead 7) (updpipe 7 (\<lambda>q. q\<lparr>pi_writeopen := False\<rparr>) (updf 0 (\<lambda>f. f\<lparr>f_ref := 0, f_type := FD_NONE\<rparr>) a))"
  define d where "d = updp 1 (\<lambda>p. p\<lparr>p_ofile := (p_ofile p)[1 := None]\<rparr>) b"
  define e where "e = updp 1 (\<lambda>p. p\<lparr>p_ofile := (p_ofile p)[2 := None]\<rparr>) (updf 1 (\<lambda>f. f\<lparr>f_ref := 2\<rparr>) d)"
  have a: "fileclose 0 exit_wit = Ok () (updf 0 (\<lambda>f. f\<lparr>f_ref := 1\<rparr>) exit_wit)"
    by (simp add: fileclose_def Let_def exit_wit_fields updf_def)
  have b: "fileclose 0 a = Ok () b"
    by (simp add: fileclose_def Let_def a_def b_def exit_wit_fields updf_def updp_def pipeclose_def updpipe_def pipe0_def)
  have "ftable d = ftable (updf 0 (\<lambda>f. f\<lparr>f_ref := 0, f_type := FD_NONE\<rparr>) a)"
    by (simp add: d_def b_def updp_def updpipe_def wakeup_def wakeup1_def Let_def)
  then have "f_ref (ftable d ! 1) = 3" by (simp add: a_def exit_wit_fields updp_def)
  then have d: "fileclose 1 d = Ok () (updf 1 (\<lambda>f. f\<lparr>f_ref := 2\<rparr>) d)"
    by (simp add: fileclose_def Let_def updf_def)
  have p: "p_ofile (procs exit_wit ! 1) = [Some 0, Some 0, Some 1] @ replicate 13 None" by (simp add: exit_wit_fields)
  have pa: "p_ofile (procs a ! 1) = [None, Some 0, Some 1] @ replicate 13 None" by (simp add: a_def exit_wit_fields updp_def updf_def)
  have pb: "p_ofile (procs d ! 1) = [None, None, Some 1] @ replicate 13 None"
    by (simp add: d_def b_def a_def exit_wit_fields updp_def updf_def updpipe_def wake_def)
  have pe: "procs e ! 1 = proc0\<lparr>p_state := RUNNING, p_pid := 2, p_parent := Some 0, p_cwd := Some 0, p_ofile := replicate 16 None\<rparr>"
    by (simp add: e_def d_def b_def a_def exit_wit_fields updp_def updf_def updpipe_def wake_def numeral_eq_Suc)
  have "exit_files [3..<NOFILE] 1 e = Ok () e" by (rule exit_files_none) (use pe in simp)
  moreover have "exit_files (0 # 1 # 2 # [3..<NOFILE]) 1 exit_wit = exit_files (1 # 2 # [3..<NOFILE]) 1 a"
    unfolding a_def by (rule exit_files_some [OF _ a]) (use p in simp)
  moreover have "exit_files (1 # 2 # [3..<NOFILE]) 1 a = exit_files (2 # [3..<NOFILE]) 1 d"
    unfolding d_def by (rule exit_files_some [OF _ b]) (use pa in simp)
  moreover have "exit_files (2 # [3..<NOFILE]) 1 d = exit_files [3..<NOFILE] 1 e"
    unfolding e_def by (rule exit_files_some [OF _ d]) (use pb in simp)
  ultimately have "exit_files [0..<NOFILE] 1 exit_wit = Ok () e" unfolding l by (simp only:)
  moreover have "outstanding e = 0" "\<not> committing e" "lh_n e = 0" "inodes e = [inode0\<lparr>i_ref := 2\<rparr>]"
    by (simp_all add: e_def d_def b_def a_def exit_wit_fields updp_def updf_def updpipe_def wakeup_def wakeup1_def Let_def)
  ultimately show thesis using that pe by simp
qed

lemma exit_leaves_zombie_witness:
  "\<exists>t. (exit 5 exit_wit :: (unit, ksys) outcome) = Sleep ChanExit t \<and> p_state (procs t ! 1) = ZOMBIE \<and> p_status (procs t ! 1) = 5 \<and>
    nobody_on (ChanProc 0) t \<and> map f_ref (ftable t) = [0, 2] \<and> f_type (ftable t ! 0) = FD_NONE \<and>
    \<not> pi_writeopen (pipes t 7) \<and> pi_readopen (pipes t 7) \<and> i_ref (inodes t ! 0) = 1"
proof -
  obtain s1 where x: "exit_files [0..<NOFILE] 1 exit_wit = Ok () s1" "outstanding s1 = 0" "\<not> committing s1" "lh_n s1 = 0"
    "inodes s1 = [inode0\<lparr>i_ref := 2\<rparr>]" "p_cwd (procs s1 ! 1) = Some 0" by (rule exit_wit_closes)
  define s2 where "s2 = s1\<lparr>outstanding := 1\<rparr>"
  define s3 where "s3 = updi 0 (\<lambda>ip. ip\<lparr>i_ref := 1\<rparr>) s2"
  have b: "begin_op s1 = Ok () s2" using x by (simp add: begin_op_def s2_def)
  have i: "iput (p_cwd (procs s2 ! 1)) s2 = Ok () s3" using x by (simp add: s2_def s3_def iput_def updi_def)
  obtain s4 where e: "end_op s3 = Ok () s4" using that x by (simp add: end_op_def commit_def s3_def s2_def updi_def)
  have fd: "\<forall>f. Some f \<in> set (p_ofile (procs exit_wit ! 1)) \<longrightarrow> f < length (ftable exit_wit)" by (auto simp: exit_wit_fields)
  let ?ofs = "[Some 0, Some 0, Some 1] @ replicate 13 None :: nat option list"
  obtain t where t: "(exit 5 exit_wit :: (unit, ksys) outcome) = Sleep ChanExit t" "p_state (procs t ! 1) = ZOMBIE" "p_status (procs t ! 1) = 5"
      "nobody_on (ChanProc 0) t" "released ?ofs (Some 0) exit_wit t"
    using exit_leaves_zombie [OF _ _ _ _ _ _ _ _ fd x(1) b i e, of 0 0 5] by (auto simp: exit_wit_fields)
  have cnt: "count_list ?ofs (Some 0) = 2" "count_list ?ofs (Some (Suc 0)) = 1" by (simp_all add: numeral_eq_Suc)
  have D: "dying ?ofs (ftable exit_wit) = {0}"
    unfolding dying_def exit_wit_fields by (auto simp: less_Suc_eq)
  have I: "inode_files {0} 0 (ftable exit_wit) = {}" by (auto simp: inode_files_def exit_wit_fields)
  have r: "length (ftable t) = 2" "f_ref (ftable t ! 0) = 0" "f_ref (ftable t ! 1) = 2" "f_type (ftable t ! 0) = FD_NONE"
      "pi_readopen (pipes t 7)" "\<not> pi_writeopen (pipes t 7)" "i_ref (inodes t ! 0) = 1"
    using t(5) cnt unfolding released_def Let_def D
    by (simp_all add: exit_wit_fields end_closed_def I [unfolded exit_wit_fields] pipe0_def inode0_def)
  have "map f_ref (ftable t) = [0, 2]" by (rule nth_equalityI) (use r(1-3) in \<open>auto simp: less_2_cases_iff\<close>)
  then show ?thesis using t(1-4) r by (intro exI [of _ t]) simp
qed

lemma fork_copies_parent_witness:
  "\<exists>t. fork life_wit = Ok 3 t \<and> p_state (procs t ! 2) = RUNNABLE \<and> p_parent (procs t ! 2) = Some 1 \<and>
    ubyte t (p_pgdir (procs t ! 2)) 4 = ubyte life_wit 0x80400000 4"
proof -
  have v: "can_copy life_wit 0x80400000 0x10" by (rule pool_can_copy) (simp_all add: life_wit_fields)
  have n: "card (free_pages life_wit) = 1100" by (rule pool_view) (simp_all add: life_wit_fields)
  show ?thesis
    using fork_copies_parent [of life_wit 1 0 2] v n by (auto simp: life_wit_fields proc0_def npages_def Let_def)
qed

end
