(* ===== verification/Shell.thy ===== *)
theory Shell
  imports CString
begin

text \<open>
  The shell (\<open>sh.c\<close>): the tokenizer and the recursive-descent parser over the command line, with tokens as pairs of positions in
  it, the pass that ends every token with a NUL, and the system calls a parsed command makes.
\<close>

abbreviation (input) MAXARGS :: nat where "MAXARGS \<equiv> 10"
abbreviation (input) O_RDONLY :: int where "O_RDONLY \<equiv> 0"
abbreviation (input) O_WRONLY :: int where "O_WRONLY \<equiv> 1"
abbreviation (input) O_RDWR :: int where "O_RDWR \<equiv> 2"
abbreviation (input) O_CREATE :: int where "O_CREATE \<equiv> 0x200"

section \<open>Commands\<close>

text \<open>
  A parsed command. An argument or a file name is the pair of the position where it starts and the position behind it, which are
  pointers into the line. The array \<open>argv\<close> ends at its null pointer, where the list ends.
\<close>

datatype cmd =
    EXEC "(nat \<times> nat) list"
  | REDIR cmd nat nat int int
  | PIPE cmd cmd
  | LIST cmd cmd
  | BACK cmd

section \<open>Tokens\<close>

definition ch :: "uchar list \<Rightarrow> nat \<Rightarrow> uchar" where
  "ch b s = (if s < length b then b ! s else 0)"

definition is_ws :: "uchar \<Rightarrow> bool" where
  "is_ws c \<longleftrightarrow> strchr [32, 9, 13, 10, 11] c \<noteq> None"

definition is_symbol :: "uchar \<Rightarrow> bool" where
  "is_symbol c \<longleftrightarrow> strchr [60, 124, 62, 38, 59, 40, 41] c \<noteq> None"

function skip_ws :: "uchar list \<Rightarrow> nat \<Rightarrow> nat \<Rightarrow> nat" where
  "skip_ws b es s = (if s < es \<and> is_ws (ch b s) then skip_ws b es (Suc s) else s)"
  by auto
termination by (relation "measure (\<lambda>(b, es, s). es - s)") auto

function skip_word :: "uchar list \<Rightarrow> nat \<Rightarrow> nat \<Rightarrow> nat" where
  "skip_word b es s = (if s < es \<and> \<not> is_ws (ch b s) \<and> \<not> is_symbol (ch b s) then skip_word b es (Suc s) else s)"
  by auto
termination by (relation "measure (\<lambda>(b, es, s). es - s)") auto

declare skip_ws.simps [simp del] skip_word.simps [simp del]

text \<open>The token, where it starts and ends, and where the next one may start.\<close>

definition gettoken :: "uchar list \<Rightarrow> nat \<Rightarrow> nat \<Rightarrow> uchar \<times> nat \<times> nat \<times> nat" where
  "gettoken b es s =
    (let q = skip_ws b es s; c = ch b q;
         (ret, eq) = (if c = 0 then (0, q)
           else if c = 124 \<or> c = 40 \<or> c = 41 \<or> c = 59 \<or> c = 38 \<or> c = 60 then (c, Suc q)
           else if c = 62 then if ch b (Suc q) = 62 then (43, Suc (Suc q)) else (62, Suc q)
           else (97, skip_word b es q))
     in (ret, q, eq, skip_ws b es eq))"

definition peek :: "uchar list \<Rightarrow> nat \<Rightarrow> nat \<Rightarrow> uchar list \<Rightarrow> bool \<times> nat" where
  "peek b es s toks = (let s = skip_ws b es s in (ch b s \<noteq> 0 \<and> strchr toks (ch b s) \<noteq> None, s))"

lemma skip_ws_le: "s \<le> skip_ws b es s"
  by (induction b es s rule: skip_ws.induct) (metis (no_types, lifting) Suc_leD order_refl skip_ws.simps)

lemma skip_word_le: "s \<le> skip_word b es s"
  by (induction b es s rule: skip_word.induct) (metis (no_types, lifting) Suc_leD order_refl skip_word.simps)

lemma peekD: "peek b es s toks = (True, s') \<Longrightarrow> s \<le> s' \<and> s' < length b"
  using skip_ws_le [of s b es] by (auto simp: peek_def Let_def ch_def split: if_splits)

lemma gettoken_le: "gettoken b es s = (t, q, eq, s') \<Longrightarrow> s \<le> q \<and> q \<le> eq \<and> eq \<le> s'"
  using skip_ws_le [of s b es] skip_ws_le [of eq b es] skip_word_le [of "skip_ws b es s" b es]
  by (auto simp: gettoken_def Let_def split: if_splits)

lemma skip_ws_stop: "skip_ws b es s < es \<Longrightarrow> \<not> is_ws (ch b (skip_ws b es s))"
  by (induction b es s rule: skip_ws.induct) (metis (no_types, lifting) skip_ws.simps)

lemma skip_ws_idem [simp]: "skip_ws b es (skip_ws b es s) = skip_ws b es s"
  using skip_ws_stop [of b es s] by (subst (1) skip_ws.simps) auto

text \<open>A symbol is always consumed.\<close>

lemma gettoken_symbol:
  assumes "gettoken b es s = (t, q, eq, s')" "ch b (skip_ws b es s) \<in> {124, 40, 41, 59, 38, 60, 62}"
  shows "s < s'"
  using assms skip_ws_le [of s b es] skip_ws_le [of eq b es] by (auto simp: gettoken_def Let_def split: if_splits)

lemma peek_symbol:
  assumes "peek b es s toks = (True, s1)" "set toks \<subseteq> {124, 40, 41, 59, 38, 60, 62}" "gettoken b es s1 = (t, q, eq, s2)"
  shows "s \<le> s1" "s1 < length b" "s1 < s2"
proof -
  have c: "strchr toks c \<noteq> None \<Longrightarrow> c \<in> set toks" for c by (induction toks) (auto split: if_splits)
  have s1: "s1 = skip_ws b es s" "ch b s1 \<in> set toks" using assms(1) c by (auto simp: peek_def Let_def)
  then show "s1 < s2" using gettoken_symbol [OF assms(3)] assms(2) by auto
  show "s \<le> s1" "s1 < length b" using peekD [OF assms(1)] by simp_all
qed

lemma redir_progress:
  assumes "peek b es s [60, 62] = (True, s1)" "gettoken b es s1 = (tok, q, eq, s2)" "gettoken b es s2 = (t, q', eq', s3)"
  shows "length b - s3 < length b - s"
  using peek_symbol [OF assms(1) _ assms(2)] gettoken_le [OF assms(3)] by auto

section \<open>Parsing\<close>

text \<open>
  The position \<open>*ps\<close> is the state. Mutually recursive routines take fuel; \<open>None\<close> is running out of it. The shell's own \<open>panic\<close> is
  the \<open>Panic\<close> outcome.
\<close>

fun pbind :: "('a, 's) outcome option \<Rightarrow> ('a \<Rightarrow> 's \<Rightarrow> ('b, 's) outcome option) \<Rightarrow> ('b, 's) outcome option" where
  "pbind (Some (Ok x s)) f = f x s"
| "pbind (Some (Panic m)) f = Some (Panic m)"
| "pbind (Some (Sleep c s)) f = Some (Sleep c s)"
| "pbind None f = None"

lemma pbind_cong [fundef_cong]:
  "m = m' \<Longrightarrow> (\<And>x s. m' = Some (Ok x s) \<Longrightarrow> f x s = g x s) \<Longrightarrow> pbind m f = pbind m' g"
  by (cases "(m', g)" rule: pbind.cases) auto

function parseredirs :: "uchar list \<Rightarrow> nat \<Rightarrow> cmd \<Rightarrow> nat \<Rightarrow> (cmd, nat) outcome" where
  "parseredirs b es cmd s =
    (let (p, s1) = peek b es s [60, 62] in
     if \<not> p then Ok cmd s1
     else let (tok, _, _, s2) = gettoken b es s1; (t, q, eq, s3) = gettoken b es s2 in
       if t \<noteq> 97 then Panic ''missing file for redirection''
       else parseredirs b es (if tok = 60 then REDIR cmd q eq O_RDONLY 0
              else if tok = 62 then REDIR cmd q eq (O_WRONLY + O_CREATE) 1
              else if tok = 43 then REDIR cmd q eq (O_WRONLY + O_CREATE) 1
              else cmd) s3)"
  by pat_completeness auto
termination
  by (relation "measure (\<lambda>(b, es, cmd, s). length b - s)") (auto intro: redir_progress dest: sym)

declare parseredirs.simps [simp del]

text \<open>\<open>cmd->argv[argc] = q\<close>: the \<open>EXEC\<close> node is changed where it stands, inside the redirections put around it.\<close>

fun add_arg :: "nat \<times> nat \<Rightarrow> cmd \<Rightarrow> cmd" where
  "add_arg a (EXEC as) = EXEC (as @ [a])"
| "add_arg a (REDIR c q eq m fd) = REDIR (add_arg a c) q eq m fd"
| "add_arg a c = c"

function parse_args :: "uchar list \<Rightarrow> nat \<Rightarrow> nat \<Rightarrow> cmd \<Rightarrow> nat \<Rightarrow> (cmd, nat) outcome" where
  "parse_args b es argc ret s =
    (let (p, s) = peek b es s [124, 41, 38, 59] in
     if p then Ok ret s
     else let (tok, q, eq, s) = gettoken b es s in
       if tok = 0 then Ok ret s
       else if tok \<noteq> 97 then Panic ''syntax''
       else if argc + 1 \<ge> MAXARGS then Panic ''too many args''
       else mbind (parseredirs b es (add_arg (q, eq) ret) s) (\<lambda>ret s. parse_args b es (argc + 1) ret s))"
  by pat_completeness auto
termination by (relation "measure (\<lambda>(b, es, argc, ret, s). MAXARGS - argc)") auto

declare parse_args.simps [simp del]

function back_loop :: "uchar list \<Rightarrow> nat \<Rightarrow> cmd \<Rightarrow> nat \<Rightarrow> cmd \<times> nat" where
  "back_loop b es cmd s =
    (let (p, s1) = peek b es s [38] in
     if p then let (_, _, _, s2) = gettoken b es s1 in back_loop b es (BACK cmd) s2 else (cmd, s1))"
  by pat_completeness auto
termination
proof (relation "measure (\<lambda>(b, es, cmd, s). length b - s)")
  fix b :: "uchar list" and es s :: nat and x xa y xb xc ya xd yb xe yc
  assume "x = peek b es s [38]" "(xa, y) = x" "xa" "xb = gettoken b es y" "(xc, ya) = xb" "(xd, yb) = ya" "(xe, yc) = yb"
  then have "peek b es s [38] = (True, y)" "gettoken b es y = (xc, xd, xe, yc)" by simp_all
  then show "((b, es, BACK cmd, yc), b, es, cmd, s) \<in> measure (\<lambda>(b, es, cmd, s). length b - s)" for cmd
    using peek_symbol [of b es s "[38]" y xc xd xe yc] by simp
qed simp

declare back_loop.simps [simp del]

function (sequential) parseline :: "nat \<Rightarrow> uchar list \<Rightarrow> nat \<Rightarrow> nat \<Rightarrow> (cmd, nat) outcome option"
  and parsepipe :: "nat \<Rightarrow> uchar list \<Rightarrow> nat \<Rightarrow> nat \<Rightarrow> (cmd, nat) outcome option"
  and parseexec :: "nat \<Rightarrow> uchar list \<Rightarrow> nat \<Rightarrow> nat \<Rightarrow> (cmd, nat) outcome option"
  and parseblock :: "nat \<Rightarrow> uchar list \<Rightarrow> nat \<Rightarrow> nat \<Rightarrow> (cmd, nat) outcome option" where
  "parseline 0 b es s = None"
| "parseline (Suc n) b es s = pbind (parsepipe n b es s) (\<lambda>cmd s.
     let (cmd, s) = back_loop b es cmd s; (p, s) = peek b es s [59] in
     if p then let (_, _, _, s) = gettoken b es s in pbind (parseline n b es s) (\<lambda>r s. Some (Ok (LIST cmd r) s))
     else Some (Ok cmd s))"
| "parsepipe 0 b es s = None"
| "parsepipe (Suc n) b es s = pbind (parseexec n b es s) (\<lambda>cmd s.
     let (p, s) = peek b es s [124] in
     if p then let (_, _, _, s) = gettoken b es s in pbind (parsepipe n b es s) (\<lambda>r s. Some (Ok (PIPE cmd r) s))
     else Some (Ok cmd s))"
| "parseexec 0 b es s = None"
| "parseexec (Suc n) b es s =
    (let (p, s) = peek b es s [40] in
     if p then parseblock n b es s
     else Some (mbind (parseredirs b es (EXEC []) s) (\<lambda>ret s. parse_args b es 0 ret s)))"
| "parseblock 0 b es s = None"
| "parseblock (Suc n) b es s =
    (let (p, s) = peek b es s [40] in
     if \<not> p then Some (Panic ''parseblock'')
     else let (_, _, _, s) = gettoken b es s in
       pbind (parseline n b es s) (\<lambda>cmd s.
         let (p, s) = peek b es s [41] in
         if \<not> p then Some (Panic ''syntax - missing )'')
         else let (_, _, _, s) = gettoken b es s in Some (parseredirs b es cmd s)))"
  by pat_completeness auto
termination
  by (relation "measure (case_sum (case_sum fst fst) (case_sum fst fst))") simp_all

text \<open>Ending every counted string with a NUL, in the line itself.\<close>

fun nulterminate :: "cmd \<Rightarrow> uchar list \<Rightarrow> uchar list" where
  "nulterminate (EXEC as) b = fold (\<lambda>(q, eq) b. b[eq := 0]) as b"
| "nulterminate (REDIR c q eq m fd) b = (nulterminate c b)[eq := 0]"
| "nulterminate (PIPE l r) b = nulterminate r (nulterminate l b)"
| "nulterminate (LIST l r) b = nulterminate r (nulterminate l b)"
| "nulterminate (BACK c) b = nulterminate c b"

text \<open>The result state is the line.\<close>

definition parsecmd :: "nat \<Rightarrow> uchar list \<Rightarrow> (cmd, uchar list) outcome option" where
  "parsecmd n b =
    (let es = strlen b in
     case parseline n b es 0 of
       None \<Rightarrow> None
     | Some (Ok cmd s) \<Rightarrow>
         let (_, s) = peek b es s [] in
         if s \<noteq> es then Some (Panic ''syntax'') else Some (Ok cmd (nulterminate cmd b))
     | Some (Panic m) \<Rightarrow> Some (Panic m)
     | Some (Sleep c s) \<Rightarrow> Some (Sleep c b))"

section \<open>The parser returns well-formed commands\<close>

text \<open>The line ends at \<open>es\<close>: its terminating NUL.\<close>

definition ends_at :: "uchar list \<Rightarrow> nat \<Rightarrow> bool" where
  "ends_at b es \<longleftrightarrow> ch b es = 0 \<and> (\<forall>i<es. ch b i \<noteq> 0)"

lemma ends_at_strlen: "ends_at b (strlen b)"
proof (induction b)
  case (Cons x b)
  then show ?case by (auto simp: ends_at_def ch_def less_Suc_eq_0_disj)
qed (simp add: ends_at_def ch_def)

lemma ends_at_less: "ends_at b es \<Longrightarrow> i \<le> es \<Longrightarrow> ch b i \<noteq> 0 \<Longrightarrow> i < es"
  by (metis ends_at_def le_neq_implies_less)

lemma not_ws_0 [simp]: "\<not> is_ws 0" and not_symbol_0 [simp]: "\<not> is_symbol 0"
  by (simp_all add: is_ws_def is_symbol_def)

lemma skip_ws_bound: "s \<le> es \<Longrightarrow> skip_ws b es s \<le> es"
  by (induction b es s rule: skip_ws.induct) (metis (no_types, lifting) Suc_leI skip_ws.simps)

lemma skip_word_bound: "s \<le> es \<Longrightarrow> skip_word b es s \<le> es"
  by (induction b es s rule: skip_word.induct) (metis (no_types, lifting) Suc_leI skip_word.simps)

lemma skip_word_stop: "skip_word b es s < es \<Longrightarrow> is_ws (ch b (skip_word b es s)) \<or> is_symbol (ch b (skip_word b es s))"
  by (induction b es s rule: skip_word.induct) (metis (no_types, lifting) skip_word.simps)

lemma skip_word_inside: "s \<le> i \<Longrightarrow> i < skip_word b es s \<Longrightarrow> \<not> is_ws (ch b i) \<and> \<not> is_symbol (ch b i) \<and> i < es"
proof (induction b es s rule: skip_word.induct)
  case (1 b es s)
  show ?case
  proof (cases "s < es \<and> \<not> is_ws (ch b s) \<and> \<not> is_symbol (ch b s)")
    case True
    then show ?thesis using 1 skip_word.simps [of b es s] by (cases "i = s") auto
  qed (use 1(2,3) skip_word.simps [of b es s] in auto)
qed

text \<open>A word of the line: as long as possible, free of blanks and symbols.\<close>

definition word_at :: "uchar list \<Rightarrow> nat \<Rightarrow> nat \<Rightarrow> nat \<Rightarrow> bool" where
  "word_at b es q eq \<longleftrightarrow> q < eq \<and> eq \<le> es \<and> list_all (\<lambda>i. \<not> is_ws (ch b i) \<and> \<not> is_symbol (ch b i)) [q..<eq] \<and>
     (eq = es \<or> is_ws (ch b eq) \<or> is_symbol (ch b eq))"

lemma is_symbol_iff: "is_symbol c \<longleftrightarrow> c \<in> {60, 124, 62, 38, 59, 40, 41}"
  by (auto simp: is_symbol_def strchr_None)

lemma gettoken_word:
  assumes e: "ends_at b es" and s: "s \<le> es" and g: "gettoken b es s = (97, q, eq, s')"
  shows "word_at b es q eq"
proof -
  define p where "p = skip_ws b es s"
  have q: "q = p" "ch b p \<noteq> 0" "ch b p \<notin> {124, 40, 41, 59, 38, 60, 62}" "eq = skip_word b es p"
    using g by (auto simp: gettoken_def Let_def p_def split: if_splits)
  have p: "p < es" using ends_at_less [OF e] skip_ws_bound [OF s, of b] q(2) by (simp add: p_def)
  have "\<not> is_ws (ch b p)" using skip_ws_stop p by (simp add: p_def)
  moreover have "\<not> is_symbol (ch b p)" using q(3) by (simp add: is_symbol_iff)
  ultimately have "skip_word b es p = skip_word b es (Suc p)" using p by (subst skip_word.simps) simp
  then have "p < eq" using skip_word_le [of "Suc p" b es] q(4) by simp
  moreover have "eq \<le> es" using skip_word_bound p q(4) by simp
  moreover have "eq = es \<or> is_ws (ch b eq) \<or> is_symbol (ch b eq)"
    using skip_word_stop [of b es p] \<open>eq \<le> es\<close> q(4) by auto
  ultimately show ?thesis using skip_word_inside [of p _ b es] q(1,4) by (auto simp: word_at_def list_all_iff)
qed

lemma peek_bound:
  assumes "ends_at b es" "s \<le> es" "peek b es s toks = (p, s')"
  shows "s \<le> s'" "s' \<le> es" "p \<Longrightarrow> s' < es" "p \<Longrightarrow> ch b s' \<in> set toks"
proof -
  have s': "s' = skip_ws b es s" using assms(3) by (simp add: peek_def Let_def)
  then show "s \<le> s'" "s' \<le> es" using skip_ws_le skip_ws_bound [OF assms(2)] by simp_all
  then show "s' < es" if p using that ends_at_less [OF assms(1)] assms(3) by (auto simp: peek_def Let_def)
  show "ch b s' \<in> set toks" if p
    using that assms(3) by (auto simp: peek_def Let_def strchr_None dest: in_set_takeD)
qed

lemma gettoken_bound:
  assumes e: "ends_at b es" and s: "s \<le> es" and g: "gettoken b es s = (t, q, eq, s')"
  shows "s \<le> s'" "s' \<le> es"
proof -
  define p where "p = skip_ws b es s"
  show "s \<le> s'" using gettoken_le [OF g] by simp
  have p: "p \<le> es" using skip_ws_bound [OF s] by (simp add: p_def)
  note lt = ends_at_less [OF e]
  have "eq \<le> es"
    using g lt [of p] lt [of "Suc p"] p skip_word_bound [of p es b]
    by (auto simp: gettoken_def Let_def p_def [symmetric] Suc_le_eq split: if_splits)
  moreover have "s' = skip_ws b es eq" using g by (auto simp: gettoken_def Let_def split: prod.splits)
  ultimately show "s' \<le> es" using skip_ws_bound by simp
qed

fun cmd_ok :: "uchar list \<Rightarrow> nat \<Rightarrow> cmd \<Rightarrow> bool" where
  "cmd_ok b es (EXEC as) \<longleftrightarrow> length as < MAXARGS \<and> list_all (\<lambda>(q, eq). word_at b es q eq) as"
| "cmd_ok b es (REDIR c q eq m fd) \<longleftrightarrow>
     cmd_ok b es c \<and> word_at b es q eq \<and> (m = O_RDONLY \<and> fd = 0 \<or> m = O_WRONLY + O_CREATE \<and> fd = 1)"
| "cmd_ok b es (PIPE l r) \<longleftrightarrow> cmd_ok b es l \<and> cmd_ok b es r"
| "cmd_ok b es (LIST l r) \<longleftrightarrow> cmd_ok b es l \<and> cmd_ok b es r"
| "cmd_ok b es (BACK c) \<longleftrightarrow> cmd_ok b es c"

fun nargs :: "cmd \<Rightarrow> nat option" where
  "nargs (EXEC as) = Some (length as)"
| "nargs (REDIR c q eq m fd) = nargs c"
| "nargs c = None"

lemma add_arg_ok:
  "cmd_ok b es c \<Longrightarrow> nargs c = Some n \<Longrightarrow> Suc n < MAXARGS \<Longrightarrow> word_at b es q eq \<Longrightarrow>
   cmd_ok b es (add_arg (q, eq) c) \<and> nargs (add_arg (q, eq) c) = Some (Suc n)"
  by (induction c) auto

text \<open>A result at or behind where the parse started, inside the line.\<close>

definition res_ok :: "uchar list \<Rightarrow> nat \<Rightarrow> nat \<Rightarrow> (cmd, nat) outcome \<Rightarrow> bool" where
  "res_ok b es s r \<longleftrightarrow> (case r of Ok c s' \<Rightarrow> s \<le> s' \<and> s' \<le> es \<and> cmd_ok b es c | Panic m \<Rightarrow> True | Sleep c t \<Rightarrow> False)"

lemma res_ok_simps [simp]:
  "res_ok b es s (Ok c s') \<longleftrightarrow> s \<le> s' \<and> s' \<le> es \<and> cmd_ok b es c"
  "res_ok b es s (Panic m)" "\<not> res_ok b es s (Sleep k t)"
  by (simp_all add: res_ok_def)

lemma res_ok_mono: "res_ok b es s' r \<Longrightarrow> s \<le> s' \<Longrightarrow> res_ok b es s r"
  by (auto simp: res_ok_def split: outcome.splits)

lemma parseredirs_ok:
  assumes "ends_at b es" "s \<le> es" "cmd_ok b es cmd"
  shows "res_ok b es s (parseredirs b es cmd s) \<and>
    (\<forall>c s'. parseredirs b es cmd s = Ok c s' \<longrightarrow> nargs c = nargs cmd)"
  using assms
proof (induction b es cmd s rule: parseredirs.induct)
  case (1 b es cmd s)
  obtain p s1 where pk: "peek b es s [60, 62] = (p, s1)" by fastforce
  obtain tok q0 eq0 s2 where g: "gettoken b es s1 = (tok, q0, eq0, s2)" by (metis prod_cases4)
  obtain t q eq s3 where h: "gettoken b es s2 = (t, q, eq, s3)" by (metis prod_cases4)
  note P = peek_bound(1,2) [OF 1(2,3) pk]
  note G = gettoken_bound [OF 1(2) P(2) g]
  note H = gettoken_bound [OF 1(2) G(2) h]
  show ?case
  proof (cases "p \<and> t = 97")
    case True
    define c' where "c' = (if tok = 60 then REDIR cmd q eq O_RDONLY 0
              else if tok = 62 then REDIR cmd q eq (O_WRONLY + O_CREATE) 1
              else if tok = 43 then REDIR cmd q eq (O_WRONLY + O_CREATE) 1
              else cmd)"
    have w: "word_at b es q eq" using gettoken_word [OF 1(2) G(2)] h True by simp
    have u: "parseredirs b es cmd s = parseredirs b es c' s3"
      using True pk g h by (subst parseredirs.simps) (simp add: c'_def Let_def)
    have "cmd_ok b es c'" "nargs c' = nargs cmd" using w 1(4) by (simp_all add: c'_def)
    moreover have "res_ok b es s3 (parseredirs b es c' s3) \<and>
      (\<forall>c s'. parseredirs b es c' s3 = Ok c s' \<longrightarrow> nargs c = nargs c')"
      using 1(1) [OF pk [symmetric] refl _ g [symmetric] refl refl refl h [symmetric] refl refl refl] True
        calculation(1) 1(2) H(2) by (simp add: c'_def)
    ultimately show ?thesis using u res_ok_mono [of b es s3 _ s] P(1) G(1) H(1) by simp
  next
    case False
    then have "parseredirs b es cmd s = (if p then Panic ''missing file for redirection'' else Ok cmd s1)"
      using pk g h by (subst parseredirs.simps) (simp add: Let_def)
    then show ?thesis using P 1(4) by simp
  qed
qed

lemma parse_args_ok:
  assumes "ends_at b es" "s \<le> es" "cmd_ok b es ret" "nargs ret = Some argc"
  shows "res_ok b es s (parse_args b es argc ret s)"
  using assms
proof (induction b es argc ret s rule: parse_args.induct)
  case (1 b es argc ret s)
  obtain p s1 where pk: "peek b es s [124, 41, 38, 59] = (p, s1)" by fastforce
  obtain t q eq s2 where g: "gettoken b es s1 = (t, q, eq, s2)" by (metis prod_cases4)
  note P = peek_bound(1,2) [OF 1(2,3) pk]
  note G = gettoken_bound [OF 1(2) P(2) g]
  show ?case
  proof (cases "\<not> p \<and> t = 97 \<and> Suc argc < MAXARGS")
    case True
    let ?r = "add_arg (q, eq) ret"
    have w: "word_at b es q eq" using gettoken_word [OF 1(2) P(2)] g True by simp
    have a: "cmd_ok b es ?r" "nargs ?r = Some (Suc argc)"
      using add_arg_ok [OF 1(4,5)] True w by simp_all
    have u: "parse_args b es argc ret s =
      mbind (parseredirs b es ?r s2) (\<lambda>ret s. parse_args b es (argc + 1) ret s)"
      using True pk g by (subst parse_args.simps) (simp add: Let_def)
    show ?thesis
    proof (cases "parseredirs b es ?r s2")
      case (Ok r s3)
      then have R: "s2 \<le> s3" "s3 \<le> es" "cmd_ok b es r" "nargs r = Some (Suc argc)"
        using parseredirs_ok [OF 1(2) G(2) a(1)] a(2) by auto
      have "res_ok b es s3 (parse_args b es (argc + 1) r s3)"
        using 1(1) [OF pk [symmetric] refl _ g [symmetric] refl refl refl, of r s3] True Ok R 1(2) by simp
      then show ?thesis using u Ok res_ok_mono [of b es s3 _ s] P(1) G(1) R(1) by simp
    qed (use u parseredirs_ok [OF 1(2) G(2) a(1)] in auto)
  next
    case False
    then have "parse_args b es argc ret s = Ok ret s1 \<or> parse_args b es argc ret s = Ok ret s2 \<or>
       (\<exists>m. parse_args b es argc ret s = Panic m)"
      using pk g by (subst (1 2 3) parse_args.simps) (auto simp: Let_def)
    then show ?thesis using P G 1(4) by auto
  qed
qed

lemma back_loop_ok:
  assumes "ends_at b es" "s \<le> es" "cmd_ok b es cmd" "back_loop b es cmd s = (c, s')"
  shows "s \<le> s' \<and> s' \<le> es \<and> cmd_ok b es c"
  using assms
proof (induction b es cmd s rule: back_loop.induct)
  case (1 b es cmd s)
  obtain p s1 where pk: "peek b es s [38] = (p, s1)" by fastforce
  obtain t q eq s2 where g: "gettoken b es s1 = (t, q, eq, s2)" by (metis prod_cases4)
  note P = peek_bound(1,2) [OF 1(2,3) pk]
  note G = gettoken_bound [OF 1(2) P(2) g]
  show ?case
  proof (cases p)
    case True
    then have "back_loop b es (BACK cmd) s2 = (c, s')" using 1(5) pk g by (subst (asm) back_loop.simps) (simp add: Let_def)
    then have "s2 \<le> s' \<and> s' \<le> es \<and> cmd_ok b es c"
      using 1(1) [OF pk [symmetric] refl True g [symmetric] refl refl refl] 1(2,4) G(2) by simp
    then show ?thesis using P(1) G(1) by simp
  qed (use 1(4,5) pk P in \<open>simp add: back_loop.simps [of b es cmd s]\<close>)
qed

text \<open>A result, or too little fuel: \<open>4\<close> calls can go by before a character is consumed.\<close>

definition good :: "uchar list \<Rightarrow> nat \<Rightarrow> nat \<Rightarrow> nat \<Rightarrow> nat \<Rightarrow> (cmd, nat) outcome option \<Rightarrow> bool" where
  "good b es n k s r \<longleftrightarrow> (case r of Some x \<Rightarrow> res_ok b es s x | None \<Rightarrow> n < 4 * (es - s) + k)"

lemma good_Some [simp]: "good b es n k s (Some x) \<longleftrightarrow> res_ok b es s x"
  by (simp add: good_def)

lemma good_bind:
  assumes "good b es n k s m"
    and "\<And>c t. s \<le> t \<Longrightarrow> t \<le> es \<Longrightarrow> cmd_ok b es c \<Longrightarrow> good b es n k s (f c t)"
  shows "good b es n k s (pbind m f)"
  using assms by (cases "(m, f)" rule: pbind.cases) (auto simp: good_def)

lemma good_call: "good b es n k s r \<Longrightarrow> good b es (Suc n) (Suc k) s r"
  by (auto simp: good_def split: option.splits)

lemma good_step: "good b es n k s2 r \<Longrightarrow> s < s2 \<Longrightarrow> s2 \<le> es \<Longrightarrow> k \<le> k' + 3 \<Longrightarrow> good b es (Suc n) k' s r"
  using res_ok_mono [of b es s2 _ s] by (auto simp: good_def split: option.splits)

lemma symbol_step:
  assumes "ends_at b es" "s \<le> es" "peek b es s toks = (True, s1)" "set toks \<subseteq> {124, 40, 41, 59, 38, 60, 62}"
    "gettoken b es s1 = (t, q, eq, s2)"
  shows "s < s2" "s2 \<le> es"
  using peek_symbol [OF assms(3-5)] gettoken_bound [OF assms(1) peek_bound(2) [OF assms(1-3)] assms(5)] by simp_all

lemma list_tail_good:
  assumes e: "ends_at b es" and s: "s \<le> es" and c: "cmd_ok b es c"
    and toks: "set toks \<subseteq> {124, 40, 41, 59, 38, 60, 62}" and k: "k \<le> k' + 3"
    and F: "\<And>r. cmd_ok b es r \<Longrightarrow> cmd_ok b es (F r)"
    and rec: "\<And>s. s \<le> es \<Longrightarrow> good b es n k s (rest s)"
  shows "good b es (Suc n) k' s (let (p, s) = peek b es s toks in
     if p then let (_, _, _, s) = gettoken b es s in pbind (rest s) (\<lambda>r s. Some (Ok (F r) s)) else Some (Ok c s))"
proof -
  obtain p s1 where pk: "peek b es s toks = (p, s1)" by fastforce
  obtain t q eq s2 where g: "gettoken b es s1 = (t, q, eq, s2)" by (metis prod_cases4)
  show ?thesis
  proof (cases p)
    case True
    note S = symbol_step [OF e s _ toks g]
    have "good b es n k s2 (pbind (rest s2) (\<lambda>r s. Some (Ok (F r) s)))"
      using rec S(2) pk True F by (intro good_bind) simp_all
    then show ?thesis using good_step [OF _ S k] pk g True by simp
  qed (use pk peek_bound(1,2) [OF e s pk] c in simp)
qed

lemma good_from: "good b es n k t r \<Longrightarrow> s \<le> t \<Longrightarrow> t \<le> es \<Longrightarrow> good b es n k s r"
  using res_ok_mono [of b es t _ s] by (auto simp: good_def split: option.splits)

lemma parsers_good:
  assumes e: "ends_at b es"
  shows "s \<le> es \<Longrightarrow> good b es n 4 s (parseline n b es s)"
    and "s \<le> es \<Longrightarrow> good b es n 3 s (parsepipe n b es s)"
    and "s \<le> es \<Longrightarrow> good b es n 2 s (parseexec n b es s)"
    and "s \<le> es \<Longrightarrow> good b es n 1 s (parseblock n b es s)"
proof (induction n arbitrary: s)
  case 0
  { case 1 then show ?case by (simp add: good_def) next
    case 2 then show ?case by (simp add: good_def) next
    case 3 then show ?case by (simp add: good_def) next
    case 4 then show ?case by (simp add: good_def) }
next
  case (Suc n)
  { case 1
    have "good b es (Suc n) 4 s (parsepipe n b es s)" using good_call [OF Suc.IH(2) [OF 1]] by simp
    moreover have "good b es (Suc n) 4 s (let (cmd, s) = back_loop b es cmd t; (p, s) = peek b es s [59] in
       if p then let (_, _, _, s) = gettoken b es s in pbind (parseline n b es s) (\<lambda>r s. Some (Ok (LIST cmd r) s))
       else Some (Ok cmd s))"
      if t: "s \<le> t" "t \<le> es" "cmd_ok b es cmd" for cmd t
    proof -
      obtain c u where bl: "back_loop b es cmd t = (c, u)" by fastforce
      note B = back_loop_ok [OF e t(2,3) bl]
      show ?thesis
        using good_from [OF list_tail_good [OF e _ _ _ _ _ Suc.IH(1), of u c "[59]" 4 "LIST c"], of s] B t bl by simp
    qed
    ultimately show ?case unfolding parseline.simps by (intro good_bind)
  next
    case 2
    have "good b es (Suc n) 3 s (parseexec n b es s)" using good_call [OF Suc.IH(3) [OF 2]] by simp
    moreover have "good b es (Suc n) 3 s (let (p, s) = peek b es t [124] in
       if p then let (_, _, _, s) = gettoken b es s in pbind (parsepipe n b es s) (\<lambda>r s. Some (Ok (PIPE cmd r) s))
       else Some (Ok cmd s))"
      if t: "s \<le> t" "t \<le> es" "cmd_ok b es cmd" for cmd t
      using good_from [OF list_tail_good [OF e _ _ _ _ _ Suc.IH(2), of t cmd "[124]" 3 "PIPE cmd"], of s] t by simp
    ultimately show ?case unfolding parsepipe.simps by (intro good_bind)
  next
    case 3
    obtain p s1 where pk: "peek b es s [40] = (p, s1)" by fastforce
    note P = peek_bound(1,2) [OF e 3 pk]
    have "res_ok b es s1 (mbind (parseredirs b es (EXEC []) s1) (\<lambda>ret s. parse_args b es 0 ret s))"
    proof (cases "parseredirs b es (EXEC []) s1")
      case (Ok r t)
      then show ?thesis
        using parseredirs_ok [OF e P(2), of "EXEC []"] res_ok_mono [OF parse_args_ok [OF e, of t r 0], of s1] by simp
    qed (use parseredirs_ok [OF e P(2), of "EXEC []"] in auto)
    then show ?case
      using pk good_from [OF good_call [OF Suc.IH(4) [OF P(2)]] P] res_ok_mono [OF _ P(1)]
      by (simp add: numeral_2_eq_2)
  next
    case 4
    obtain p s1 where pk: "peek b es s [40] = (p, s1)" by fastforce
    obtain t q eq s2 where g: "gettoken b es s1 = (t, q, eq, s2)" by (metis prod_cases4)
    show ?case
    proof (cases p)
      case True
      note S = symbol_step [OF e 4 _ _ g, of "[40]"]
      have "good b es n 4 s2 (pbind (parseline n b es s2) (\<lambda>cmd s.
         let (p, s) = peek b es s [41] in
         if \<not> p then Some (Panic ''syntax - missing )'')
         else let (_, _, _, s) = gettoken b es s in Some (parseredirs b es cmd s)))"
      proof (intro good_bind Suc.IH(1))
        show "s2 \<le> es" using S pk True by simp
        fix c t assume t: "s2 \<le> t" "t \<le> es" "cmd_ok b es c"
        obtain p' t1 where pk': "peek b es t [41] = (p', t1)" by fastforce
        obtain x q' eq' t2 where g': "gettoken b es t1 = (x, q', eq', t2)" by (metis prod_cases4)
        note P' = peek_bound(1,2) [OF e t(2) pk']
        note G' = gettoken_bound [OF e P'(2) g']
        have "res_ok b es s2 (parseredirs b es c t2)"
          using parseredirs_ok [OF e G'(2) t(3)] res_ok_mono [of b es t2 _ s2] P'(1) G'(1) t(1) by simp
        then show "good b es n 4 s2 (let (p, s) = peek b es t [41] in
          if \<not> p then Some (Panic ''syntax - missing )'')
          else let (_, _, _, s) = gettoken b es s in Some (parseredirs b es c s))"
          using pk' g' by simp
      qed
      then show ?thesis using good_step [of b es n 4 s2 _ s 1] S pk g True by simp
    qed (use pk in simp)
  }
qed

section \<open>Fuel\<close>

lemma pbind_SomeE:
  assumes "pbind m f = Some x" "\<And>y. m = Some y \<Longrightarrow> m' = Some y" "\<And>c s. f c s = Some x \<Longrightarrow> f' c s = Some x"
  shows "pbind m' f' = Some x"
  using assms by (cases "(m, f)" rule: pbind.cases) auto

lemma parsers_more_fuel:
  "parseline n b es s = Some x \<Longrightarrow> parseline (Suc n) b es s = Some x"
  "parsepipe n b es s = Some x \<Longrightarrow> parsepipe (Suc n) b es s = Some x"
  "parseexec n b es s = Some x \<Longrightarrow> parseexec (Suc n) b es s = Some x"
  "parseblock n b es s = Some x \<Longrightarrow> parseblock (Suc n) b es s = Some x"
proof (induction n arbitrary: s x)
  case 0
  { case 1 then show ?case by simp next case 2 then show ?case by simp next
    case 3 then show ?case by simp next case 4 then show ?case by simp }
next
  case (Suc n)
  { case 1
    show ?case
      unfolding parseline.simps(2) [of "Suc n"]
      by (rule pbind_SomeE [OF 1 [unfolded parseline.simps(2) [of n]] Suc.IH(2)])
        (auto simp del: parseline.simps parsepipe.simps simp: Let_def split: prod.splits if_splits intro: pbind_SomeE [OF _ Suc.IH(1)])
  next
    case 2
    show ?case
      unfolding parsepipe.simps(2) [of "Suc n"]
      by (rule pbind_SomeE [OF 2 [unfolded parsepipe.simps(2) [of n]] Suc.IH(3)])
        (auto simp del: parseline.simps parsepipe.simps simp: Let_def split: prod.splits if_splits intro: pbind_SomeE [OF _ Suc.IH(2)])
  next
    case 3
    then show ?case unfolding parseexec.simps by (auto simp del: parseblock.simps intro: Suc.IH(4) split: prod.splits if_splits)
  next
    case 4
    then show ?case unfolding parseblock.simps
      by (auto simp del: parseline.simps split: prod.splits if_splits intro: pbind_SomeE [OF _ Suc.IH(1)])
  }
qed

lemma parseline_more_fuel: "parseline n b es s = Some x \<Longrightarrow> parseline (n + k) b es s = Some x"
  by (induction k) (simp_all add: parsers_more_fuel(1) del: parseline.simps)

lemma parseline_returns:
  "\<exists>x. parseline (4 * strlen b + 4) b (strlen b) 0 = Some x \<and> res_ok b (strlen b) 0 x"
  using parsers_good(1) [OF ends_at_strlen [of b], of 0 "4 * strlen b + 4"]
  by (cases "parseline (4 * strlen b + 4) b (strlen b) 0") (simp_all add: good_def del: parseline.simps)

section \<open>Strings of a parsed command\<close>

fun tokens :: "cmd \<Rightarrow> (nat \<times> nat) list" where
  "tokens (EXEC as) = as"
| "tokens (REDIR c q eq m fd) = tokens c @ [(q, eq)]"
| "tokens (PIPE l r) = tokens l @ tokens r"
| "tokens (LIST l r) = tokens l @ tokens r"
| "tokens (BACK c) = tokens c"

lemma cmd_ok_tokens: "cmd_ok b es c \<Longrightarrow> (q, eq) \<in> set (tokens c) \<Longrightarrow> word_at b es q eq"
  by (induction c) (auto simp: list_all_iff)

lemma ch_update: "ch (b[e := 0]) i = (if i = e then 0 else ch b i)"
  by (auto simp: ch_def nth_list_update)

lemma nulterminate_length [simp]: "length (nulterminate c b) = length b"
proof (induction c arbitrary: b)
  case (EXEC as)
  have "length (fold (\<lambda>(q, eq) b. b[eq := 0]) as b) = length b" by (induction as arbitrary: b) (auto split: prod.splits)
  then show ?case by simp
qed simp_all

lemma nulterminate_ch: "ch (nulterminate c b) i = (if i \<in> snd ` set (tokens c) then 0 else ch b i)"
proof (induction c arbitrary: b)
  case (EXEC as)
  have "ch (fold (\<lambda>(q, eq) b. b[eq := 0]) as b) i = (if i \<in> snd ` set as then 0 else ch b i)"
    by (induction as arbitrary: b) (auto simp: ch_update split: prod.splits)
  then show ?case by simp
qed (auto simp: ch_update image_Un)

text \<open>The C string at a position.\<close>

definition string_at :: "uchar list \<Rightarrow> nat \<Rightarrow> uchar list" where
  "string_at b q = takeWhile (\<lambda>c. c \<noteq> 0) (drop q b)"

lemma string_atI:
  assumes "q \<le> e" "e \<le> length b" "\<And>i. q \<le> i \<Longrightarrow> i < e \<Longrightarrow> ch b i \<noteq> 0" "ch b e = 0"
  shows "string_at b q = take (e - q) (drop q b)"
  unfolding string_at_def
proof (rule takeWhile_eq_take_P_nth)
  show "drop q b ! i \<noteq> 0" if "i < e - q" "i < length (drop q b)" for i
  proof -
    have "q + i < e" "q + i < length b" using that by simp_all
    then show ?thesis using assms(3) [of "q + i"] by (simp add: ch_def)
  qed
  show "\<not> drop q b ! (e - q) \<noteq> 0" if "e - q < length (drop q b)"
    using assms(1,4) that by (auto simp: ch_def split: if_splits)
qed

lemma strlen_le: "strlen b \<le> length b"
  by (simp add: strlen_takeWhile length_takeWhile_le)

lemma nulterminate_strings:
  assumes c: "cmd_ok b (strlen b) c" and t: "(q, eq) \<in> set (tokens c)"
  shows "string_at (nulterminate c b) q = take (eq - q) (drop q b)"
proof -
  note w = cmd_ok_tokens [OF c t, unfolded word_at_def]
  have in_word: "q \<le> i \<Longrightarrow> i < eq \<Longrightarrow> \<not> is_ws (ch b i) \<and> \<not> is_symbol (ch b i) \<and> i < strlen b" for i
    using w by (auto simp: list_all_iff)
  have not_end: "i \<notin> snd ` set (tokens c)" if i: "q \<le> i" "i < eq" for i
  proof
    assume "i \<in> snd ` set (tokens c)"
    then obtain q' where "word_at b (strlen b) q' i" using cmd_ok_tokens [OF c] by force
    then show False using in_word [OF i] by (simp add: word_at_def)
  qed
  have z: "ch (nulterminate c b) i \<noteq> 0" if "q \<le> i" "i < eq" for i
    using not_end [OF that] in_word [OF that] ends_at_strlen [of b] by (simp add: nulterminate_ch ends_at_def)
  have "string_at (nulterminate c b) q = take (eq - q) (drop q (nulterminate c b))"
    using w z t strlen_le [of b] by (intro string_atI) (auto simp: nulterminate_ch image_iff intro: bexI [of _ "(q, eq)"])
  also have "\<dots> = take (eq - q) (drop q b)"
  proof (intro nth_equalityI)
    show "length (take (eq - q) (drop q (nulterminate c b))) = length (take (eq - q) (drop q b))" by simp
    fix j assume "j < length (take (eq - q) (drop q (nulterminate c b)))"
    then have "j < eq - q" "q + j < length b" by auto
    then show "take (eq - q) (drop q (nulterminate c b)) ! j = take (eq - q) (drop q b) ! j"
      using nulterminate_ch [of c b "q + j"] not_end [of "q + j"] by (simp add: ch_def)
  qed
  finally show ?thesis .
qed

lemma parsecmd_ok:
  assumes "parsecmd n b = Some (Ok c b')"
  shows "cmd_ok b (strlen b) c" "b' = nulterminate c b"
proof -
  obtain s where l: "parseline n b (strlen b) 0 = Some (Ok c s)" and b': "b' = nulterminate c b"
    using assms by (auto simp: parsecmd_def Let_def split: option.splits outcome.splits prod.splits if_splits)
  show "b' = nulterminate c b" by (rule b')
  show "cmd_ok b (strlen b) c" using parsers_good(1) [OF ends_at_strlen [of b], of 0 n] l by simp
qed

section \<open>Properties of the parser\<close>

lemma parsecmd_fuel:
  "\<exists>r. \<forall>k. parsecmd (4 * strlen b + 4 + k) b = Some r"
proof -
  obtain x where x: "parseline (4 * strlen b + 4) b (strlen b) 0 = Some x" using parseline_returns by blast
  have "parseline (4 * strlen b + 4 + k) b (strlen b) 0 = Some x" for k by (rule parseline_more_fuel [OF x])
  then show ?thesis unfolding parsecmd_def
    by (cases x) (simp_all add: Let_def del: parseline.simps split: prod.splits)
qed

text \<open>
  C24. The parser returns on every line: \<open>parseline\<close>, \<open>parsepipe\<close>, \<open>parseexec\<close> and \<open>parseblock\<close> call one another, and calls
  four per character of the line and four more are always enough, whatever is added to them; the result does not depend on how many more there are.
\<close>

theorem parsecmd_returns: "\<exists>r. \<forall>k. parsecmd (4 * strlen b + 4 + k) b = Some r"
  by (rule parsecmd_fuel)

text \<open>
  C25. What \<open>parsecmd\<close> returns is well formed: every argument and file name is a maximal word inside the line, free of blanks and symbols,
  an \<open>EXEC\<close> node leaves room for the null pointer behind its arguments, and a redirection is descriptor 0 opened for reading
  or descriptor 1 opened for writing and created.
\<close>

theorem parsecmd_well_formed:
  "parsecmd n b = Some (Ok c b') \<Longrightarrow> cmd_ok b (strlen b) c"
  by (rule parsecmd_ok)

text \<open>The line \<open>ls<a|wc;x&\<close>.\<close>

definition line1 :: "uchar list" where
  "line1 = [108, 115, 60, 97, 124, 119, 99, 59, 120, 38, 10, 0, 0]"

definition cmd1 :: cmd where
  "cmd1 = LIST (PIPE (REDIR (EXEC [(0, 2)]) 3 4 O_RDONLY 0) (EXEC [(5, 7)])) (BACK (EXEC [(8, 9)]))"

lemma line1_parses:
  "parsecmd 48 line1 = Some (Ok cmd1 [108, 115, 0, 97, 0, 119, 99, 0, 120, 0, 10, 0, 0])"
  by code_simp

theorem parsecmd_well_formed_witness: "cmd_ok line1 (strlen line1) cmd1"
  by (rule parsecmd_well_formed [OF line1_parses])

end
