(* ===== verification/ShellText.thy ===== *)
theory ShellText
  imports Shell
begin

text \<open>
  The language the shell's parser accepts (\<open>sh.c\<close>): commands over strings, a printer that puts parentheses where the
  precedence of \<open>|\<close>, \<open>&\<close> and \<open>;\<close> needs them, and the proof that the parser reads back what the printer wrote.
\<close>

section \<open>Commands over strings\<close>

datatype scmd =
    SExec "uchar list list"
  | SRedir scmd "uchar list" bool
  | SPipe scmd scmd
  | SList scmd scmd
  | SBack scmd

definition sub :: "uchar list \<Rightarrow> nat \<Rightarrow> nat \<Rightarrow> uchar list" where
  "sub b q eq = map (ch b) [q..<eq]"

text \<open>The command that a parsed one means, over the line before the NULs are written.\<close>

fun meaning :: "uchar list \<Rightarrow> cmd \<Rightarrow> scmd" where
  "meaning b (EXEC as) = SExec (map (\<lambda>(q, eq). sub b q eq) as)"
| "meaning b (REDIR c q eq m fd) = SRedir (meaning b c) (sub b q eq) (fd = 0)"
| "meaning b (PIPE l r) = SPipe (meaning b l) (meaning b r)"
| "meaning b (LIST l r) = SList (meaning b l) (meaning b r)"
| "meaning b (BACK c) = SBack (meaning b c)"

definition paren :: "bool \<Rightarrow> uchar list \<Rightarrow> uchar list" where
  "paren p xs = (if p then [40] @ xs @ [41] else xs)"

primrec render :: "nat \<Rightarrow> scmd \<Rightarrow> uchar list" where
  "render p (SExec ws) = concat (map (\<lambda>w. w @ [32]) ws)"
| "render p (SRedir t f inp) = render 3 t @ [if inp then 60 else 62] @ f @ [32]"
| "render p (SPipe l r) = paren (p > 2) (render 3 l @ [124] @ render 2 r)"
| "render p (SBack t) = paren (p > 1) (render 1 t @ [38])"
| "render p (SList l r) = paren (p > 0) (render 1 l @ [59] @ render 0 r)"

definition word_ok :: "uchar list \<Rightarrow> bool" where
  "word_ok w \<longleftrightarrow> w \<noteq> [] \<and> list_all (\<lambda>c. c \<noteq> 0 \<and> \<not> is_ws c \<and> \<not> is_symbol c) w"

primrec scmd_ok :: "scmd \<Rightarrow> bool" where
  "scmd_ok (SExec ws) \<longleftrightarrow> length ws < MAXARGS \<and> list_all word_ok ws"
| "scmd_ok (SRedir t f inp) \<longleftrightarrow> scmd_ok t \<and> word_ok f"
| "scmd_ok (SPipe l r) \<longleftrightarrow> scmd_ok l \<and> scmd_ok r"
| "scmd_ok (SList l r) \<longleftrightarrow> scmd_ok l \<and> scmd_ok r"
| "scmd_ok (SBack t) \<longleftrightarrow> scmd_ok t"

section \<open>Text in the line\<close>

fun occ :: "uchar list \<Rightarrow> nat \<Rightarrow> nat \<Rightarrow> uchar list \<Rightarrow> bool" where
  "occ b es s [] \<longleftrightarrow> s \<le> es"
| "occ b es s (x # xs) \<longleftrightarrow> s < es \<and> ch b s = x \<and> occ b es (Suc s) xs"

lemma occ_append [simp]: "occ b es s (xs @ ys) \<longleftrightarrow> occ b es s xs \<and> occ b es (s + length xs) ys"
proof (induction xs arbitrary: s)
  case Nil
  have "occ b es s ys \<Longrightarrow> s \<le> es" by (cases ys) auto
  then show ?case by auto
qed auto

lemma occ_nth: "occ b es s xs \<Longrightarrow> i < length xs \<Longrightarrow> ch b (s + i) = xs ! i"
proof (induction xs arbitrary: s i)
  case (Cons x xs)
  then show ?case using Cons.IH [of "Suc s" "i - 1"] by (cases i) auto
qed simp

lemma occ_bound: "occ b es s xs \<Longrightarrow> s + length xs \<le> es"
proof (induction xs arbitrary: s)
  case (Cons x xs)
  then show ?case using Cons.IH [of "Suc s"] by simp
qed simp

lemma occ_sub: "occ b es s xs \<Longrightarrow> sub b s (s + length xs) = xs"
  by (rule nth_equalityI) (simp_all add: sub_def occ_nth)

lemma skip_ws_nonblank [simp]: "\<not> is_ws (ch b s) \<Longrightarrow> skip_ws b es s = s"
  by (subst skip_ws.simps) simp

lemma skip_ws_blank: "s < es \<Longrightarrow> is_ws (ch b s) \<Longrightarrow> skip_ws b es s = skip_ws b es (Suc s)"
  by (subst skip_ws.simps) simp

lemma is_ws_iff: "is_ws c \<longleftrightarrow> c \<in> {32, 9, 13, 10, 11}"
  by (auto simp: is_ws_def strchr_None)

lemma skip_word_end: "is_ws (ch b s) \<or> is_symbol (ch b s) \<Longrightarrow> skip_word b es s = s"
  by (subst skip_word.simps) auto

lemma skip_word_word:
  "occ b es s w \<Longrightarrow> list_all (\<lambda>c. \<not> is_ws c \<and> \<not> is_symbol c) w \<Longrightarrow> skip_word b es s = skip_word b es (s + length w)"
proof (induction w arbitrary: s)
  case (Cons x w)
  then have "skip_word b es s = skip_word b es (Suc s)" by (subst skip_word.simps) simp
  then show ?case using Cons by simp
qed simp

text \<open>Reading a word that a blank ends, and a symbol.\<close>

lemma gettoken_reads_word:
  assumes o: "occ b es s (w @ [32])" and w: "word_ok w"
  shows "gettoken b es s = (97, s, s + length w, skip_ws b es (s + length w + 1))"
proof -
  obtain x w' where w': "w = x # w'" using w by (cases w) (auto simp: word_ok_def)
  have x: "ch b s = x" "x \<noteq> 0" "\<not> is_ws x" "\<not> is_symbol x" using o w by (simp_all add: w' word_ok_def)
  have blank: "is_ws (ch b (s + length w))" "s + length w < es" using o by (simp_all add: is_ws_iff)
  have "skip_word b es s = s + length w"
    using skip_word_word [of b es s w] skip_word_end [of b "s + length w" es] blank o w
    by (simp add: word_ok_def list_all_iff)
  moreover have "skip_ws b es (s + length w) = skip_ws b es (s + length w + 1)"
    using skip_ws_blank [OF blank(2,1)] by simp
  moreover have "x \<notin> {60, 124, 62, 38, 59, 40, 41}" using x(4) by (simp add: is_symbol_iff)
  ultimately show ?thesis using x by (simp add: gettoken_def Let_def)
qed

lemma gettoken_reads_symbol:
  assumes "ch b s = x" "x \<in> {60, 124, 62, 38, 59, 40, 41}" "x = 62 \<Longrightarrow> ch b (Suc s) \<noteq> 62"
  shows "gettoken b es s = (x, s, Suc s, skip_ws b es (Suc s))"
proof -
  have "\<not> is_ws x" using assms(2) by (auto simp: is_ws_iff)
  then show ?thesis using assms by (auto simp: gettoken_def Let_def)
qed

section \<open>Blanks make no difference\<close>

definition nxt :: "uchar list \<Rightarrow> nat \<Rightarrow> nat \<Rightarrow> uchar" where
  "nxt b es s = ch b (skip_ws b es s)"

lemma nxt_nonblank [simp]: "\<not> is_ws (ch b s) \<Longrightarrow> nxt b es s = ch b s"
  by (simp add: nxt_def)

lemma peek_nxt:
  assumes "0 \<notin> set toks"
  shows "peek b es s toks = (nxt b es s \<in> set toks, skip_ws b es s)"
proof -
  have "strlen toks = length toks" using assms by (induction toks) auto
  then show ?thesis using assms by (auto simp: peek_def Let_def nxt_def strchr_None)
qed

lemma peek_skip: "peek b es (skip_ws b es s) toks = peek b es s toks"
  by (simp add: peek_def)

lemma parseredirs_skip: "parseredirs b es c (skip_ws b es s) = parseredirs b es c s"
  by (subst (1 2) parseredirs.simps) (simp add: peek_skip)

lemma parse_args_skip: "parse_args b es k c (skip_ws b es s) = parse_args b es k c s"
  by (subst (1 2) parse_args.simps) (simp add: peek_skip)

lemma back_loop_skip: "back_loop b es c (skip_ws b es s) = back_loop b es c s"
  by (subst (1 2) back_loop.simps) (simp add: peek_skip)

lemma parseexec_skip: "parseexec n b es (skip_ws b es s) = parseexec n b es s"
  by (cases n) (simp_all add: peek_skip)

lemma parsepipe_skip: "parsepipe n b es (skip_ws b es s) = parsepipe n b es s"
  by (cases n) (simp_all add: parseexec_skip)

lemma parseline_skip: "parseline n b es (skip_ws b es s) = parseline n b es s"
  by (cases n) (simp_all add: parsepipe_skip)

lemmas skips = parseredirs_skip parse_args_skip back_loop_skip parseexec_skip parsepipe_skip parseline_skip

section \<open>Reading the parts of a simple command\<close>

lemma parseredirs_stop: "nxt b es s \<notin> {60, 62} \<Longrightarrow> parseredirs b es c s = Ok c (skip_ws b es s)"
  by (subst parseredirs.simps) (simp add: peek_nxt)

lemma parse_args_stop: "nxt b es s \<in> {0, 124, 41, 38, 59} \<Longrightarrow> parse_args b es k c s = Ok c (skip_ws b es s)"
  by (subst parse_args.simps) (auto simp: peek_nxt nxt_def gettoken_def Let_def)

lemma parseredirs_step:
  assumes o: "occ b es s ([if inp then 60 else 62] @ f @ [32])" and f: "word_ok f"
  shows "parseredirs b es c s =
    parseredirs b es (REDIR c (Suc s) (Suc s + length f) (if inp then O_RDONLY else O_WRONLY + O_CREATE) (if inp then 0 else 1))
      (s + length f + 2)"
proof -
  define x :: uchar where "x = (if inp then 60 else 62)"
  obtain y f' where f': "f = y # f'" using f by (cases f) (auto simp: word_ok_def)
  have y: "ch b (Suc s) = y" "\<not> is_ws y" "\<not> is_symbol y" using o f by (simp_all add: f' word_ok_def)
  have x: "ch b s = x" "x \<in> {60, 62}" using o by (simp_all add: x_def)
  have pk: "peek b es s [60, 62] = (True, s)" using x by (auto simp: peek_nxt is_ws_iff)
  have g: "gettoken b es s = (x, s, Suc s, Suc s)"
    using gettoken_reads_symbol [of b s x es] x y by (auto simp: is_symbol_iff)
  have h: "gettoken b es (Suc s) = (97, Suc s, Suc s + length f, skip_ws b es (s + length f + 2))"
    using gettoken_reads_word [OF _ f, of b es "Suc s"] o by simp
  show ?thesis
    by (subst parseredirs.simps) (simp add: pk g h skips, simp add: x_def)
qed

lemma parse_args_step:
  assumes o: "occ b es s (w @ [32])" and w: "word_ok w" and k: "Suc k < MAXARGS"
  shows "parse_args b es k c s =
    mbind (parseredirs b es (add_arg (s, s + length w) c) (s + length w + 1)) (\<lambda>ret s. parse_args b es (k + 1) ret s)"
proof -
  obtain y w' where w': "w = y # w'" using w by (cases w) (auto simp: word_ok_def)
  have y: "ch b s = y" "\<not> is_ws y" "\<not> is_symbol y" using o w by (simp_all add: w' word_ok_def)
  have pk: "peek b es s [124, 41, 38, 59] = (False, s)" using y by (auto simp: peek_nxt is_symbol_iff)
  show ?thesis
    using k by (subst parse_args.simps) (simp add: pk gettoken_reads_word [OF o w] skips)
qed

lemma exec_words:
  assumes "occ b es s (concat (map (\<lambda>w. w @ [32]) ws))" "list_all word_ok ws" "k + length ws < MAXARGS"
  shows "\<exists>as. mbind (parseredirs b es (EXEC as0) s) (\<lambda>ret s. parse_args b es k ret s) =
     mbind (parseredirs b es (EXEC (as0 @ as)) (s + length (concat (map (\<lambda>w. w @ [32]) ws))))
       (\<lambda>ret s. parse_args b es (k + length ws) ret s) \<and> map (\<lambda>(q, eq). sub b q eq) as = ws"
  using assms
proof (induction ws arbitrary: s k as0)
  case (Cons w ws)
  have o: "occ b es s (w @ [32])" and w: "word_ok w" and k: "Suc k < MAXARGS" using Cons.prems by simp_all
  obtain y w' where w': "w = y # w'" using w by (cases w) (auto simp: word_ok_def)
  have "ch b s = y" "\<not> is_ws y" "\<not> is_symbol y" using o w by (simp_all add: w' word_ok_def)
  then have "mbind (parseredirs b es (EXEC as0) s) (\<lambda>ret s. parse_args b es k ret s) = parse_args b es k (EXEC as0) s"
    by (subst parseredirs_stop) (auto simp: is_symbol_iff skips)
  also have "\<dots> = mbind (parseredirs b es (EXEC (as0 @ [(s, s + length w)])) (s + length w + 1))
      (\<lambda>ret s. parse_args b es (k + 1) ret s)"
    using parse_args_step [OF o w k] by simp
  finally have step: "mbind (parseredirs b es (EXEC as0) s) (\<lambda>ret s. parse_args b es k ret s) = \<dots>" .
  obtain as where as: "mbind (parseredirs b es (EXEC (as0 @ [(s, s + length w)])) (s + length w + 1)) (\<lambda>ret s. parse_args b es (k + 1) ret s) =
     mbind (parseredirs b es (EXEC ((as0 @ [(s, s + length w)]) @ as)) (s + length w + 1 + length (concat (map (\<lambda>w. w @ [32]) ws))))
       (\<lambda>ret s. parse_args b es (k + 1 + length ws) ret s)" "map (\<lambda>(q, eq). sub b q eq) as = ws"
    using Cons.IH [of "s + length w + 1" "k + 1" "as0 @ [(s, s + length w)]"] Cons.prems by auto
  have "sub b s (s + length w) = w" using o occ_sub [of b es s w] by simp
  then show ?case using step as by (intro exI [of _ "(s, s + length w) # as"]) (simp add: ac_simps)
qed (auto intro: exI [of _ "[]"])

section \<open>Enough fuel\<close>

definition ev :: "(nat \<Rightarrow> 'a option) \<Rightarrow> 'a \<Rightarrow> bool" where
  "ev f x \<longleftrightarrow> (\<exists>N. \<forall>n\<ge>N. f n = Some x)"

lemma ev_const [simp]: "ev (\<lambda>n. Some x) x"
  by (simp add: ev_def)

lemma ev_Suc: "ev (\<lambda>n. f (Suc n)) x \<Longrightarrow> ev f x"
  unfolding ev_def by (metis Suc_le_D Suc_le_mono)

lemma ev_pbind:
  assumes "ev m (Ok c s)" "ev (\<lambda>n. f n c s) x"
  shows "ev (\<lambda>n. pbind (m n) (f n)) x"
proof -
  obtain N M where "\<forall>n\<ge>N. m n = Some (Ok c s)" "\<forall>n\<ge>M. f n c s = Some x" using assms by (auto simp: ev_def)
  then have "\<forall>n\<ge>max N M. pbind (m n) (f n) = Some x" by simp
  then show ?thesis unfolding ev_def by blast
qed

section \<open>Reading back the text of a command\<close>

text \<open>
  What each level of the parser makes of a text \<open>xs\<close> that stands at \<open>s\<close>, given the character behind it. After a simple
  command or a block the parser is before more redirections; behind a simple command more arguments could follow.
\<close>

fun more_args :: "uchar list \<Rightarrow> nat \<Rightarrow> nat option \<Rightarrow> cmd \<Rightarrow> nat \<Rightarrow> (cmd, nat) outcome" where
  "more_args b es None c s = Ok c s"
| "more_args b es (Some k) c s = parse_args b es k c s"

definition reads_exec :: "uchar list \<Rightarrow> nat \<Rightarrow> uchar list \<Rightarrow> scmd \<Rightarrow> bool" where
  "reads_exec b es xs t \<longleftrightarrow> (\<forall>s. occ b es s xs \<longrightarrow> nxt b es (s + length xs) \<in> {0, 124, 41, 38, 59, 60, 62} \<longrightarrow>
     (\<exists>c k. ev (\<lambda>n. parseexec n b es s) (mbind (parseredirs b es c (s + length xs)) (\<lambda>c s. more_args b es k c s)) \<and>
       meaning b c = t))"

definition reads_pipe :: "uchar list \<Rightarrow> nat \<Rightarrow> uchar list \<Rightarrow> scmd \<Rightarrow> bool" where
  "reads_pipe b es xs t \<longleftrightarrow> (\<forall>s. occ b es s xs \<longrightarrow> nxt b es (s + length xs) \<in> {0, 41, 38, 59} \<longrightarrow>
     (\<exists>c. ev (\<lambda>n. parsepipe n b es s) (Ok c (skip_ws b es (s + length xs))) \<and> meaning b c = t))"

definition reads_back :: "uchar list \<Rightarrow> nat \<Rightarrow> uchar list \<Rightarrow> scmd \<Rightarrow> bool" where
  "reads_back b es xs t \<longleftrightarrow> (\<forall>s. occ b es s xs \<longrightarrow> nxt b es (s + length xs) \<in> {0, 41, 38, 59} \<longrightarrow>
     (\<exists>c c0 s0. ev (\<lambda>n. parsepipe n b es s) (Ok c0 s0) \<and> back_loop b es c0 s0 = back_loop b es c (s + length xs) \<and>
       meaning b c = t))"

definition reads_line :: "uchar list \<Rightarrow> nat \<Rightarrow> uchar list \<Rightarrow> scmd \<Rightarrow> bool" where
  "reads_line b es xs t \<longleftrightarrow> (\<forall>s. occ b es s xs \<longrightarrow> nxt b es (s + length xs) \<in> {0, 41} \<longrightarrow>
     (\<exists>c. ev (\<lambda>n. parseline n b es s) (Ok c (skip_ws b es (s + length xs))) \<and> meaning b c = t))"

lemma exec_stop:
  assumes "nxt b es s \<in> {0, 124, 41, 38, 59}"
  shows "mbind (parseredirs b es c s) (\<lambda>c s. more_args b es k c s) = Ok c (skip_ws b es s)"
proof -
  have "parseredirs b es c s = Ok c (skip_ws b es s)" using assms by (intro parseredirs_stop) auto
  moreover have "parse_args b es i c s = Ok c (skip_ws b es s)" for i by (rule parse_args_stop [OF assms])
  ultimately show ?thesis by (cases k) (simp_all add: skips)
qed

lemma reads_exec_stop:
  assumes "reads_exec b es xs t" "occ b es s xs" "nxt b es (s + length xs) \<in> {0, 124, 41, 38, 59}"
  shows "\<exists>c. ev (\<lambda>n. parseexec n b es s) (Ok c (skip_ws b es (s + length xs))) \<and> meaning b c = t"
proof -
  have "nxt b es (s + length xs) \<in> {0, 124, 41, 38, 59, 60, 62}" using assms(3) by auto
  then obtain c k where "ev (\<lambda>n. parseexec n b es s) (mbind (parseredirs b es c (s + length xs)) (\<lambda>c s. more_args b es k c s))"
    "meaning b c = t" using assms(1,2) unfolding reads_exec_def by blast
  then show ?thesis using exec_stop [OF assms(3)] by auto
qed

lemma symbol_here:
  assumes "ch b s = x" "x \<in> {124, 38, 59, 40, 41, 60}"
  shows "peek b es s [y] = (x = y \<and> y \<noteq> 0, s)" "gettoken b es s = (x, s, Suc s, skip_ws b es (Suc s))" "nxt b es s = x"
proof -
  have n: "\<not> is_ws (ch b s)" using assms by (auto simp: is_ws_iff)
  have "x \<in> {60, 124, 62, 38, 59, 40, 41}" "x \<noteq> 62" using assms(2) by auto
  then show "gettoken b es s = (x, s, Suc s, skip_ws b es (Suc s))" using gettoken_reads_symbol [OF assms(1)] by simp
  show "nxt b es s = x" using n assms(1) by simp
  then show "peek b es s [y] = (x = y \<and> y \<noteq> 0, s)"
    using n assms by (auto simp: peek_def Let_def nxt_def)
qed

lemma reads_exec_pipe: assumes "reads_exec b es xs t" shows "reads_pipe b es xs t"
  unfolding reads_pipe_def
proof (intro allI impI)
  fix s assume s: "occ b es s xs" "nxt b es (s + length xs) \<in> {0, 41, 38, 59}"
  define e where "e = skip_ws b es (s + length xs)"
  obtain c where c: "ev (\<lambda>n. parseexec n b es s) (Ok c e)" "meaning b c = t"
    using reads_exec_stop [OF assms s(1)] s(2) by (auto simp: e_def)
  have "peek b es e [124] = (False, e)" using s(2) by (auto simp: e_def peek_skip peek_nxt)
  then have "ev (\<lambda>n. parsepipe (Suc n) b es s) (Ok c e)" by (auto intro!: ev_pbind [OF c(1)])
  then show "\<exists>c. ev (\<lambda>n. parsepipe n b es s) (Ok c (skip_ws b es (s + length xs))) \<and> meaning b c = t"
    using ev_Suc [of "\<lambda>n. parsepipe n b es s"] c(2) unfolding e_def by blast
qed

lemma reads_pipe_back: "reads_pipe b es xs t \<Longrightarrow> reads_back b es xs t"
  unfolding reads_pipe_def reads_back_def by (metis back_loop_skip)

lemma back_loop_stop: "nxt b es s \<noteq> 38 \<Longrightarrow> back_loop b es c s = (c, skip_ws b es s)"
  by (subst back_loop.simps) (simp add: peek_nxt)

lemma reads_back_line: assumes "reads_back b es xs t" shows "reads_line b es xs t"
  unfolding reads_line_def
proof (intro allI impI)
  fix s assume s: "occ b es s xs" "nxt b es (s + length xs) \<in> {0, 41}"
  define e where "e = skip_ws b es (s + length xs)"
  have "nxt b es (s + length xs) \<in> {0, 41, 38, 59}" using s(2) by auto
  then obtain c c0 s0 where c: "ev (\<lambda>n. parsepipe n b es s) (Ok c0 s0)" "meaning b c = t"
    "back_loop b es c0 s0 = back_loop b es c (s + length xs)"
    using assms s(1) unfolding reads_back_def by blast
  have "back_loop b es c0 s0 = (c, e)" using c(3) back_loop_stop [of b es "s + length xs" c] s(2) by (auto simp: e_def)
  moreover have "peek b es e [59] = (False, e)" using s(2) by (auto simp: e_def peek_skip peek_nxt)
  ultimately have "ev (\<lambda>n. parseline (Suc n) b es s) (Ok c e)" by (auto intro!: ev_pbind [OF c(1)])
  then show "\<exists>c. ev (\<lambda>n. parseline n b es s) (Ok c (skip_ws b es (s + length xs))) \<and> meaning b c = t"
    using ev_Suc [of "\<lambda>n. parseline n b es s"] c(2) unfolding e_def by blast
qed

lemma reads_block: assumes "reads_line b es xs t" shows "reads_exec b es ([40] @ xs @ [41]) t"
  unfolding reads_exec_def
proof (intro allI impI)
  fix s assume s: "occ b es s ([40] @ xs @ [41])"
  define e where "e = Suc s + length xs"
  have o: "ch b s = 40" "occ b es (Suc s) xs" "ch b e = 41" using s by (simp_all add: e_def)
  note open_ = symbol_here [OF o(1), of es] and close_ = symbol_here [OF o(3), of es]
  obtain c where c: "ev (\<lambda>n. parseline n b es (Suc s)) (Ok c e)" "meaning b c = t"
    using assms o(2,3) close_(3) unfolding reads_line_def by (auto simp: e_def is_ws_iff)
  have "ev (\<lambda>n. parseblock (Suc n) b es s) (parseredirs b es c (Suc e))"
    using open_ close_ c(1) by (auto simp: skips intro!: ev_pbind [OF c(1)])
  from ev_Suc [of "\<lambda>n. parseblock n b es s", OF this]
  have "ev (\<lambda>n. parseexec (Suc n) b es s) (parseredirs b es c (Suc e))" using open_ by simp
  from ev_Suc [of "\<lambda>n. parseexec n b es s", OF this]
  have "ev (\<lambda>n. parseexec n b es s) (mbind (parseredirs b es c (s + length ([40] @ xs @ [41]))) (\<lambda>c s. more_args b es None c s))"
    by (cases "parseredirs b es c (Suc e)") (simp_all add: e_def)
  then show "\<exists>c k. ev (\<lambda>n. parseexec n b es s) (mbind (parseredirs b es c (s + length ([40] @ xs @ [41]))) (\<lambda>c s. more_args b es k c s)) \<and>
       meaning b c = t" using c(2) by blast
qed

lemma reads_pipe_step:
  assumes l: "reads_exec b es xs t" and r: "reads_pipe b es ys u"
  shows "reads_pipe b es (xs @ [124] @ ys) (SPipe t u)"
  unfolding reads_pipe_def
proof (intro allI impI)
  fix s assume s: "occ b es s (xs @ [124] @ ys)" "nxt b es (s + length (xs @ [124] @ ys)) \<in> {0, 41, 38, 59}"
  define m where "m = s + length xs"
  have o: "occ b es s xs" "ch b m = 124" "occ b es (Suc m) ys" using s(1) by (simp_all add: m_def)
  note bar = symbol_here [OF o(2), of es]
  obtain c where c: "ev (\<lambda>n. parseexec n b es s) (Ok c m)" "meaning b c = t"
    using reads_exec_stop [OF l o(1)] bar(3) o(2) by (auto simp: m_def is_ws_iff)
  have "s + length (xs @ [124] @ ys) = Suc m + length ys" by (simp add: m_def)
  then obtain d where d: "ev (\<lambda>n. parsepipe n b es (Suc m)) (Ok d (skip_ws b es (s + length (xs @ [124] @ ys))))" "meaning b d = u"
    using r o(3) s(2) unfolding reads_pipe_def by metis
  have "ev (\<lambda>n. parsepipe (Suc n) b es s) (Ok (PIPE c d) (skip_ws b es (s + length (xs @ [124] @ ys))))"
    using bar(1,2) by (auto simp del: length_append simp: skips intro!: ev_pbind [OF c(1)] ev_pbind [OF d(1)])
  from ev_Suc [of "\<lambda>n. parsepipe n b es s", OF this]
  show "\<exists>c. ev (\<lambda>n. parsepipe n b es s) (Ok c (skip_ws b es (s + length (xs @ [124] @ ys)))) \<and> meaning b c = SPipe t u"
    using c(2) d(2) by (intro exI [of _ "PIPE c d"]) simp
qed

lemma reads_back_step:
  assumes "reads_back b es xs t"
  shows "reads_back b es (xs @ [38]) (SBack t)"
  unfolding reads_back_def
proof (intro allI impI)
  fix s assume s: "occ b es s (xs @ [38])"
  define m where "m = s + length xs"
  have o: "occ b es s xs" "ch b m = 38" using s by (simp_all add: m_def)
  note amp = symbol_here [OF o(2), of es]
  obtain c c0 s0 where c: "ev (\<lambda>n. parsepipe n b es s) (Ok c0 s0)" "back_loop b es c0 s0 = back_loop b es c m" "meaning b c = t"
    using assms o(1) amp(3) unfolding reads_back_def m_def by (metis insertCI)
  have "back_loop b es c m = back_loop b es (BACK c) (Suc m)"
    using amp(1,2) by (subst back_loop.simps) (simp add: skips)
  then show "\<exists>c c0 s0. ev (\<lambda>n. parsepipe n b es s) (Ok c0 s0) \<and>
      back_loop b es c0 s0 = back_loop b es c (s + length (xs @ [38])) \<and> meaning b c = SBack t"
    using c by (intro exI [of _ "BACK c"] exI [of _ c0] exI [of _ s0]) (simp add: m_def)
qed

lemma reads_list_step:
  assumes l: "reads_back b es xs t" and r: "reads_line b es ys u"
  shows "reads_line b es (xs @ [59] @ ys) (SList t u)"
  unfolding reads_line_def
proof (intro allI impI)
  fix s assume s: "occ b es s (xs @ [59] @ ys)" "nxt b es (s + length (xs @ [59] @ ys)) \<in> {0, 41}"
  define m where "m = s + length xs"
  have o: "occ b es s xs" "ch b m = 59" "occ b es (Suc m) ys" using s(1) by (simp_all add: m_def)
  note semi = symbol_here [OF o(2), of es]
  obtain c c0 s0 where c: "ev (\<lambda>n. parsepipe n b es s) (Ok c0 s0)" "back_loop b es c0 s0 = back_loop b es c m" "meaning b c = t"
    using l o(1) semi(3) unfolding reads_back_def m_def by (metis insertCI)
  have bl: "back_loop b es c0 s0 = (c, m)" using c(2) back_loop_stop [of b es m c] semi(3) o(2) by (simp add: is_ws_iff)
  have "s + length (xs @ [59] @ ys) = Suc m + length ys" by (simp add: m_def)
  then obtain d where d: "ev (\<lambda>n. parseline n b es (Suc m)) (Ok d (skip_ws b es (s + length (xs @ [59] @ ys))))" "meaning b d = u"
    using r o(3) s(2) unfolding reads_line_def by metis
  have "ev (\<lambda>n. parseline (Suc n) b es s) (Ok (LIST c d) (skip_ws b es (s + length (xs @ [59] @ ys))))"
    using semi(1,2) bl by (auto simp del: length_append simp: skips intro!: ev_pbind [OF c(1)] ev_pbind [OF d(1)])
  from ev_Suc [of "\<lambda>n. parseline n b es s", OF this]
  show "\<exists>c. ev (\<lambda>n. parseline n b es s) (Ok c (skip_ws b es (s + length (xs @ [59] @ ys)))) \<and> meaning b c = SList t u"
    using c(3) d(2) by (intro exI [of _ "LIST c d"]) simp
qed

lemma reads_words:
  assumes "length ws < MAXARGS" "list_all word_ok ws"
  shows "reads_exec b es (concat (map (\<lambda>w. w @ [32]) ws)) (SExec ws)"
  unfolding reads_exec_def
proof (intro allI impI)
  let ?xs = "concat (map (\<lambda>w. w @ [32]) ws)"
  fix s assume s: "occ b es s ?xs" "nxt b es (s + length ?xs) \<in> {0, 124, 41, 38, 59, 60, 62}"
  have "nxt b es s \<noteq> 40"
  proof (cases ws)
    case (Cons w ws')
    then obtain y w' where "w = y # w'" "\<not> is_ws y" "\<not> is_symbol y" using assms(2) by (cases w) (auto simp: word_ok_def)
    then show ?thesis using s(1) Cons by (auto simp: is_symbol_iff)
  qed (use s(2) in auto)
  then have "parseexec (Suc n) b es s = Some (mbind (parseredirs b es (EXEC []) s) (\<lambda>ret s. parse_args b es 0 ret s))" for n
    by (simp add: peek_nxt skips)
  moreover obtain as where as: "mbind (parseredirs b es (EXEC []) s) (\<lambda>ret s. parse_args b es 0 ret s) =
     mbind (parseredirs b es (EXEC as) (s + length ?xs)) (\<lambda>ret s. parse_args b es (length ws) ret s)"
     "map (\<lambda>(q, eq). sub b q eq) as = ws"
    using exec_words [OF s(1) assms(2), of 0 "[]"] assms(1) by auto
  ultimately have "ev (\<lambda>n. parseexec (Suc n) b es s)
     (mbind (parseredirs b es (EXEC as) (s + length ?xs)) (\<lambda>c s. more_args b es (Some (length ws)) c s))"
    by (simp del: parseexec.simps)
  from ev_Suc [of "\<lambda>n. parseexec n b es s", OF this] as(2)
  show "\<exists>c k. ev (\<lambda>n. parseexec n b es s) (mbind (parseredirs b es c (s + length ?xs)) (\<lambda>c s. more_args b es k c s)) \<and>
     meaning b c = SExec ws" by (intro exI [of _ "EXEC as"] exI [of _ "Some (length ws)"]) simp
qed

lemma reads_redir:
  assumes r: "reads_exec b es xs t" and f: "word_ok f"
  shows "reads_exec b es (xs @ [if inp then 60 else 62] @ f @ [32]) (SRedir t f inp)"
  unfolding reads_exec_def
proof (intro allI impI)
  let ?ys = "[if inp then 60 else 62] @ f @ [32]"
  fix s assume "occ b es s (xs @ ?ys)"
  then have o: "occ b es s xs" "occ b es (s + length xs) ?ys" by (simp_all only: occ_append)
  have "nxt b es (s + length xs) = (if inp then 60 else 62)" using o(2) by (auto simp: is_ws_iff)
  then have n: "nxt b es (s + length xs) \<in> {0, 124, 41, 38, 59, 60, 62}" by simp
  obtain c k where c: "ev (\<lambda>n. parseexec n b es s) (mbind (parseredirs b es c (s + length xs)) (\<lambda>c s. more_args b es k c s))"
    "meaning b c = t" using r o(1) n unfolding reads_exec_def by blast
  define d where "d = REDIR c (Suc (s + length xs)) (Suc (s + length xs) + length f)
    (if inp then O_RDONLY else O_WRONLY + O_CREATE) (if inp then 0 else 1)"
  have "occ b es (Suc (s + length xs)) f" using o(2) by simp
  from occ_sub [OF this] have "meaning b d = SRedir t f inp" using c(2) by (simp add: d_def)
  moreover have "parseredirs b es c (s + length xs) = parseredirs b es d (s + length (xs @ ?ys))"
    using parseredirs_step [OF o(2) f, of c] by (simp add: d_def ac_simps)
  ultimately show "\<exists>c k. ev (\<lambda>n. parseexec n b es s)
      (mbind (parseredirs b es c (s + length (xs @ ?ys))) (\<lambda>c s. more_args b es k c s)) \<and> meaning b c = SRedir t f inp"
    using c(1) by metis
qed

lemma reads_levels:
  "reads_exec b es xs t \<Longrightarrow> reads_pipe b es xs t \<and> reads_back b es xs t \<and> reads_line b es xs t"
  "reads_pipe b es xs t \<Longrightarrow> reads_back b es xs t \<and> reads_line b es xs t"
  by (simp_all add: reads_exec_pipe reads_pipe_back reads_back_line)

lemma reads_render:
  "scmd_ok t \<Longrightarrow> reads_exec b es (render 3 t) t \<and> reads_pipe b es (render 2 t) t \<and>
     reads_back b es (render 1 t) t \<and> reads_line b es (render 0 t) t"
proof (induction t)
  case (SExec ws)
  then have "reads_exec b es (render 3 (SExec ws)) (SExec ws)" using reads_words by simp
  from this reads_levels(1) [OF this] show ?case by simp
next
  case (SRedir t f inp)
  then have "reads_exec b es (render 3 (SRedir t f inp)) (SRedir t f inp)" using reads_redir by simp
  from this reads_levels(1) [OF this] show ?case by simp
next
  case (SPipe l r)
  then have "reads_pipe b es (render 2 (SPipe l r)) (SPipe l r)" using reads_pipe_step by (simp add: paren_def)
  from this reads_levels(2) [OF this] show ?case using reads_block [of b es "render 0 (SPipe l r)" "SPipe l r"] by (simp add: paren_def)
next
  case (SList l r)
  then have "reads_line b es (render 0 (SList l r)) (SList l r)" using reads_list_step by (simp add: paren_def)
  from this reads_levels(1) [OF reads_block [OF this]] reads_block [OF this] show ?case by (simp add: paren_def)
next
  case (SBack t)
  then have "reads_back b es (render 1 (SBack t)) (SBack t)" using reads_back_step by (simp add: paren_def)
  moreover from this have "reads_line b es (render 0 (SBack t)) (SBack t)" using reads_back_line by (simp add: paren_def)
  ultimately show ?case using reads_block [of b es "render 0 (SBack t)" "SBack t"]
      reads_levels(1) [of b es "[40] @ render 0 (SBack t) @ [41]" "SBack t"] by (simp add: paren_def)
qed

section \<open>The round trip\<close>

text \<open>The command as it is run: its strings end at the NULs that \<open>nulterminate\<close> wrote.\<close>

fun strings :: "uchar list \<Rightarrow> cmd \<Rightarrow> scmd" where
  "strings b (EXEC as) = SExec (map (\<lambda>(q, eq). string_at b q) as)"
| "strings b (REDIR c q eq m fd) = SRedir (strings b c) (string_at b q) (fd = 0)"
| "strings b (PIPE l r) = SPipe (strings b l) (strings b r)"
| "strings b (LIST l r) = SList (strings b l) (strings b r)"
| "strings b (BACK c) = SBack (strings b c)"

lemma sub_take: "eq \<le> length b \<Longrightarrow> sub b q eq = take (eq - q) (drop q b)"
  by (rule nth_equalityI) (auto simp: sub_def ch_def)

lemma strings_tokens:
  "(\<And>q eq. (q, eq) \<in> set (tokens c) \<Longrightarrow> string_at b' q = sub b q eq) \<Longrightarrow> strings b' c = meaning b c"
  by (induction c) auto

lemma strings_nulterminate:
  assumes "cmd_ok b (strlen b) c"
  shows "strings (nulterminate c b) c = meaning b c"
proof (rule strings_tokens)
  fix q eq assume t: "(q, eq) \<in> set (tokens c)"
  then have "eq \<le> length b" using cmd_ok_tokens [OF assms t] strlen_le [of b] by (simp add: word_at_def)
  then show "string_at (nulterminate c b) q = sub b q eq" using nulterminate_strings [OF assms t] sub_take by simp
qed

lemma render_nonzero: "scmd_ok t \<Longrightarrow> 0 \<notin> set (render p t)"
  by (induction t arbitrary: p) (auto simp: paren_def word_ok_def list_all_iff)

lemma occ_prefix: "occ (pre @ xs @ ys) es (length pre) xs \<longleftrightarrow> length pre + length xs \<le> es"
proof (induction xs arbitrary: pre)
  case (Cons x xs)
  show ?case using Cons.IH [of "pre @ [x]"] by (auto simp: ch_def nth_append)
qed simp

lemma strlen_append: "0 \<notin> set xs \<Longrightarrow> strlen (xs @ 0 # ys) = length xs"
  by (induction xs) auto

lemma parse_render:
  assumes t: "scmd_ok t"
  shows "\<exists>c b'. parsecmd (4 * length (render 0 t) + 8) (render 0 t @ [10] @ 0 # zs) = Some (Ok c b') \<and> strings b' c = t"
proof -
  define xs where "xs = render 0 t"
  define b where "b = xs @ [10] @ 0 # zs"
  define es where "es = Suc (length xs)"
  have es: "strlen b = es" using strlen_append [of "xs @ [10]" zs] render_nonzero [OF t, of 0] by (simp add: b_def xs_def es_def)
  have o: "occ b es 0 xs" using occ_prefix [of "[]" xs "[10] @ 0 # zs" es] by (simp add: b_def es_def)
  have "ch b (length xs) = 10" "ch b es = 0" by (simp_all add: b_def es_def ch_def nth_append)
  then have e: "skip_ws b es (length xs) = es" "nxt b es (length xs) = 0"
    using skip_ws_blank [of "length xs" es b] by (simp_all add: es_def is_ws_iff nxt_def)
  obtain c N where c: "\<And>n. N \<le> n \<Longrightarrow> parseline n b es 0 = Some (Ok c es)" "meaning b c = t"
  proof -
    have "reads_line b es xs t" using reads_render [OF t, of b es] by (simp add: xs_def)
    from this [unfolded reads_line_def ev_def, rule_format, OF o] e that show thesis by auto
  qed
  obtain x where "parseline (4 * es + 4) b es 0 = Some x" using parseline_returns [of b] es by auto
  then have "parseline (4 * es + 4) b es 0 = Some (Ok c es)"
    using parseline_more_fuel [of "4 * es + 4" b es 0 x N] c(1) [of "4 * es + 4 + N"] by simp
  moreover have "peek b es es [] = (False, es)" using \<open>ch b es = 0\<close> by (simp add: peek_def)
  ultimately have p: "parsecmd (4 * es + 4) b = Some (Ok c (nulterminate c b))"
    by (simp add: parsecmd_def es del: parseline.simps)
  have "strings (nulterminate c b) c = t" using strings_nulterminate parsecmd_ok(1) [OF p] c(2) by simp
  moreover have "4 * es + 4 = 4 * length xs + 8" by (simp add: es_def)
  ultimately show ?thesis using p unfolding b_def xs_def by metis
qed

text \<open>
  C3. The parser reads back every command: printed as a line with the parentheses that the precedences need and typed with a
  newline, a command of at most nine arguments per program parses to a tree of the same shape, in which each argument and
  file name is the C string that was printed, ended by the NUL that \<open>nulterminate\<close> put over the character behind it. So \<open>|\<close>
  binds tighter than \<open>&\<close> and \<open>&\<close> tighter than \<open>;\<close>, redirections wrap the command they follow in the order they are written,
  and fuel of four calls per character and eight more is enough.
\<close>

theorem parsecmd_reads_back:
  assumes "scmd_ok t"
  shows "\<exists>c b'. parsecmd (4 * length (render 0 t) + 8) (render 0 t @ [10] @ 0 # zs) = Some (Ok c b') \<and> strings b' c = t"
  by (rule parse_render [OF assms])

text \<open>\<open>((ls | wc > a; x &) &) | y z\<close>\<close>

definition scmd1 :: scmd where
  "scmd1 = SPipe (SBack (SList (SPipe (SExec [[108, 115]]) (SRedir (SExec [[119, 99]]) [97] False)) (SBack (SExec [[120]]))))
     (SExec [[121], [122]])"

theorem parsecmd_reads_back_witness:
  "\<exists>c b'. parsecmd (4 * length (render 0 scmd1) + 8) (render 0 scmd1 @ [10] @ 0 # [0]) = Some (Ok c b') \<and> strings b' c = scmd1"
proof (rule parsecmd_reads_back)
  show "scmd_ok scmd1" by code_simp
qed

end
