(* ===== verification/ShellRun.thy ===== *)
theory ShellRun
  imports Shell
begin

text \<open>
  Running a command (\<open>sh.c\<close>): the system calls that \<open>runcmd\<close> and \<open>main\<close> make, as a tree that branches on their results, and the
  proof that the descriptors end up where the command says.
\<close>

section \<open>System calls of a process\<close>

text \<open>
  Each node is a call; the subtree that follows depends on what the call returns. A failed \<open>exec\<close> goes on in the subtree.
  A \<open>pipe\<close> returns its status and the two descriptors, and \<open>fork\<close> returns \<open>0\<close> in the child. \<open>Printf\<close> has the format without
  its newline and the argument for its \<open>%s\<close>. \<open>OutOfFuel\<close> is the loop that opens the console, not yet ended.
\<close>

datatype prog =
    SysExit int
  | SysExec "uchar list" "uchar list list" prog
  | SysClose int prog
  | SysOpen "uchar list" int "int \<Rightarrow> prog"
  | SysDup int "int \<Rightarrow> prog"
  | SysPipe "int \<Rightarrow> int \<Rightarrow> int \<Rightarrow> prog"
  | SysFork "int \<Rightarrow> prog"
  | SysWait prog
  | SysChdir "uchar list" "int \<Rightarrow> prog"
  | Printf int string "uchar list" prog
  | OutOfFuel

definition panic :: "string \<Rightarrow> prog" where
  "panic m = Printf 2 m [] (SysExit 0)"

definition fork1 :: "(int \<Rightarrow> prog) \<Rightarrow> prog" where
  "fork1 k = SysFork (\<lambda>pid. if pid = - 1 then panic ''fork'' else k pid)"

text \<open>\<open>b\<close> is the line, with its NULs written. A case that breaks off the switch goes to the \<open>exit(0)\<close> behind it.\<close>

primrec runcmd :: "uchar list \<Rightarrow> cmd \<Rightarrow> prog" where
  "runcmd b (EXEC as) =
    (case as of [] \<Rightarrow> SysExit 0
     | a # _ \<Rightarrow> SysExec (string_at b (fst a)) (map (\<lambda>(q, eq). string_at b q) as)
         (Printf 2 ''exec %s failed'' (string_at b (fst a)) (SysExit 0)))"
| "runcmd b (REDIR c q eq mode fd) =
    SysClose fd (SysOpen (string_at b q) mode (\<lambda>r.
      if r < 0 then Printf 2 ''open %s failed'' (string_at b q) (SysExit 0) else runcmd b c))"
| "runcmd b (LIST l r) = fork1 (\<lambda>pid. if pid = 0 then runcmd b l else SysWait (runcmd b r))"
| "runcmd b (PIPE l r) =
    SysPipe (\<lambda>st p0 p1. if st < 0 then panic ''pipe''
      else fork1 (\<lambda>pid. if pid = 0 then
          SysClose 1 (SysDup p1 (\<lambda>_. SysClose p0 (SysClose p1 (runcmd b l))))
        else fork1 (\<lambda>pid. if pid = 0 then
          SysClose 0 (SysDup p0 (\<lambda>_. SysClose p0 (SysClose p1 (runcmd b r))))
        else SysClose p0 (SysClose p1 (SysWait (SysWait (SysExit 0)))))))"
| "runcmd b (BACK c) = fork1 (\<lambda>pid. if pid = 0 then runcmd b c else SysExit 0)"

section \<open>The main loop\<close>

text \<open>\<open>gets\<close> of \<open>ulib.c\<close>: \<open>inp\<close> holds the bytes that the reads of descriptor 0 return, up to the end of the input.\<close>

fun gets_loop :: "uchar list \<Rightarrow> nat \<Rightarrow> nat \<Rightarrow> uchar list \<Rightarrow> uchar list \<times> nat \<times> uchar list" where
  "gets_loop buf mx i [] = (buf, i, [])"
| "gets_loop buf mx i (c # inp) =
    (if i + 1 < mx
     then if c = 10 \<or> c = 13 then (buf[i := c], i + 1, inp) else gets_loop (buf[i := c]) mx (i + 1) inp
     else (buf, i, c # inp))"

definition gets :: "uchar list \<Rightarrow> nat \<Rightarrow> uchar list \<Rightarrow> uchar list \<times> uchar list" where
  "gets buf mx inp = (let (buf, i, inp) = gets_loop buf mx 0 inp in (buf[i := 0], inp))"

text \<open>The line, or \<open>None\<close> for the result \<open>-1\<close>, and the input that is left. The prompt is not modelled.\<close>

definition getcmd :: "nat \<Rightarrow> uchar list \<Rightarrow> uchar list option \<times> uchar list" where
  "getcmd nbuf inp =
    (let buf = replicate nbuf 0; (buf, inp) = gets buf nbuf inp
     in (if ch buf 0 = 0 then None else Some buf, inp))"

lemma gets_loop_rest: "gets_loop buf mx i inp = (buf', j, inp') \<Longrightarrow> length inp' \<le> length inp \<and> (j = i \<and> buf' = buf \<or> length inp' < length inp)"
  by (induction buf mx i inp arbitrary: buf' j inp' rule: gets_loop.induct) (auto split: if_splits)

lemma getcmd_rest:
  assumes "getcmd nbuf inp = (Some buf, inp')"
  shows "length inp' < length inp"
proof -
  obtain buf1 j where g: "gets_loop (replicate nbuf 0) nbuf 0 inp = (buf1, j, inp')"
    and z: "ch (buf1[j := 0]) 0 \<noteq> 0"
    using assms by (auto simp: getcmd_def gets_def Let_def split: prod.splits if_splits)
  have "ch ((replicate nbuf 0)[0 := 0]) 0 = 0" by (simp add: ch_update)
  then show ?thesis using gets_loop_rest [OF g] z by auto
qed

definition console_name :: "uchar list" where
  "console_name = [99, 111, 110, 115, 111, 108, 101]"

fun main_open :: "nat \<Rightarrow> prog \<Rightarrow> prog" where
  "main_open 0 k = OutOfFuel"
| "main_open (Suc n) k = SysOpen console_name O_RDWR (\<lambda>fd. if fd < 0 then k else if fd \<ge> 3 then SysClose fd k else main_open n k)"

text \<open>What the child does with a line. The parser has enough fuel, so the last two cases do not occur.\<close>

definition run_line :: "uchar list \<Rightarrow> prog" where
  "run_line buf = (case parsecmd (4 * strlen buf + 4) buf of
     Some (Ok c b) \<Rightarrow> runcmd b c
   | Some (Panic m) \<Rightarrow> panic m
   | Some (Sleep c b) \<Rightarrow> OutOfFuel
   | None \<Rightarrow> OutOfFuel)"

function main_loop :: "uchar list \<Rightarrow> prog" where
  "main_loop inp =
    (case getcmd 100 inp of
       (None, inp) \<Rightarrow> SysExit 0
     | (Some buf, inp) \<Rightarrow>
         if ch buf 0 = 99 \<and> ch buf 1 = 100 \<and> ch buf 2 = 32
         then let buf = buf[strlen buf - 1 := 0] in
           SysChdir (string_at buf 3) (\<lambda>r. if r < 0 then Printf 2 ''cannot cd %s'' (string_at buf 3) (main_loop inp) else main_loop inp)
         else fork1 (\<lambda>pid. if pid = 0 then run_line buf else SysWait (main_loop inp)))"
  by auto
termination by (relation "measure length") (auto dest: getcmd_rest [OF sym])

declare main_loop.simps [simp del]

definition main :: "nat \<Rightarrow> uchar list \<Rightarrow> prog" where
  "main n inp = main_open n (main_loop inp)"

section \<open>What the calls do to descriptors\<close>

text \<open>
  An open file is a file by name and mode, an end of a pipe, or one that was open before. A pipe is named by the process that
  made it and a number; a process is named by the numbers of the forks that lead to it.
\<close>

datatype fobj = Given nat | Opened "uchar list" int | PipeR "nat list" | PipeW "nat list"

type_synonym fds = "fobj option list"

datatype event =
    Runs "uchar list" "uchar list list" fds
  | Forks "event list"
  | Waits
  | Exits int
  | Says string "uchar list"
  | Chdirs "uchar list"
  | Stuck

text \<open>
  The events of a process and, nested, of its children, where \<open>fork\<close>, \<open>exec\<close> and \<open>chdir\<close> succeed and \<open>can f m\<close> says which files
  open. A new descriptor is the first free one, which is how \<open>fdalloc\<close> chooses it.
\<close>

definition newfd :: "fobj \<Rightarrow> fds \<Rightarrow> int \<times> fds" where
  "newfd f fds = (case ffind (\<lambda>x. x = None) fds of None \<Rightarrow> (- 1, fds) | Some i \<Rightarrow> (int i, fds[i := Some f]))"

definition closefd :: "int \<Rightarrow> fds \<Rightarrow> fds" where
  "closefd fd fds = (if fd < 0 then fds else fds[nat fd := None])"

definition dupfd :: "int \<Rightarrow> fds \<Rightarrow> int \<times> fds" where
  "dupfd fd fds = (if fd < 0 \<or> fd \<ge> int (length fds) then (- 1, fds)
     else case fds ! nat fd of None \<Rightarrow> (- 1, fds) | Some f \<Rightarrow> newfd f fds)"

definition pipefd :: "nat list \<Rightarrow> fds \<Rightarrow> int \<times> int \<times> int \<times> fds" where
  "pipefd p fds = (let (fd0, fds1) = newfd (PipeR p) fds; (fd1, fds2) = newfd (PipeW p) fds1 in
     if fd0 < 0 \<or> fd1 < 0 then (- 1, 0, 0, fds) else (0, fd0, fd1, fds2))"

primrec run :: "(uchar list \<Rightarrow> int \<Rightarrow> bool) \<Rightarrow> prog \<Rightarrow> nat list \<Rightarrow> nat \<Rightarrow> fds \<Rightarrow> event list" where
  "run can (SysExit st) = (\<lambda>p n fds. [Exits st])"
| "run can (SysExec f argv k) = (\<lambda>p n fds. [Runs f argv fds])"
| "run can (SysClose fd k) = (\<lambda>p n fds. run can k p n (closefd fd fds))"
| "run can (SysOpen f m k) = (\<lambda>p n fds.
     if can f m then let (fd, fds) = newfd (Opened f m) fds in run can (k fd) p n fds else run can (k (- 1)) p n fds)"
| "run can (SysDup fd k) = (\<lambda>p n fds. let (fd, fds) = dupfd fd fds in run can (k fd) p n fds)"
| "run can (SysPipe k) = (\<lambda>p n fds. let (r, fd0, fd1, fds) = pipefd (p @ [n]) fds in run can (k r fd0 fd1) p (Suc n) fds)"
| "run can (SysFork k) = (\<lambda>p n fds. Forks (run can (k 0) (p @ [n]) 0 fds) # run can (k 1) p (Suc n) fds)"
| "run can (SysWait k) = (\<lambda>p n fds. Waits # run can k p n fds)"
| "run can (SysChdir f k) = (\<lambda>p n fds. Chdirs f # run can (k 0) p n fds)"
| "run can (Printf fd m a k) = (\<lambda>p n fds. Says m a # run can k p n fds)"
| "run can OutOfFuel = (\<lambda>p n fds. [Stuck])"

section \<open>Where the descriptors of a command go\<close>

text \<open>Exactly the descriptors 0, 1 and 2 are open, of \<open>NOFILE\<close>.\<close>

definition stdio :: "fds \<Rightarrow> bool" where
  "stdio fds \<longleftrightarrow> (case fds of Some _ # Some _ # Some _ # r \<Rightarrow> r = replicate 13 None | _ \<Rightarrow> False)"

text \<open>
  What a command means: a program runs on the three descriptors it is given; a redirection changes one of them; a pipe is
  descriptor 1 of the left and descriptor 0 of the right side, which run at the same time; a list waits between its sides.
\<close>

primrec wired :: "(uchar list \<Rightarrow> int \<Rightarrow> bool) \<Rightarrow> uchar list \<Rightarrow> cmd \<Rightarrow> nat list \<Rightarrow> nat \<Rightarrow> fds \<Rightarrow> event list" where
  "wired can b (EXEC as) = (\<lambda>p n fds. if as = [] then [Exits 0]
     else let argv = map (\<lambda>(q, eq). string_at b q) as in [Runs (hd argv) argv fds])"
| "wired can b (REDIR c q eq m fd) = (\<lambda>p n fds. if can (string_at b q) m
     then wired can b c p n (fds[nat fd := Some (Opened (string_at b q) m)])
     else [Says ''open %s failed'' (string_at b q), Exits 0])"
| "wired can b (PIPE l r) = (\<lambda>p n fds.
     [Forks (wired can b l (p @ [Suc n]) 0 (fds[1 := Some (PipeW (p @ [n]))])),
      Forks (wired can b r (p @ [Suc (Suc n)]) 0 (fds[0 := Some (PipeR (p @ [n]))])),
      Waits, Waits, Exits 0])"
| "wired can b (LIST l r) = (\<lambda>p n fds.
     Forks (wired can b l (p @ [n]) 0 fds) # Waits # wired can b r p (Suc n) fds)"
| "wired can b (BACK c) = (\<lambda>p n fds. [Forks (wired can b c (p @ [n]) 0 fds), Exits 0])"

lemma stdioE:
  assumes "stdio fds"
  obtains x y z where "fds = Some x # Some y # Some z # None # None # replicate 11 None"
  using assms by (auto simp: stdio_def numeral_eq_Suc split: list.splits option.splits)

lemma stdio_update: "stdio fds \<Longrightarrow> i < 3 \<Longrightarrow> stdio (fds[i := Some f])"
  by (erule stdioE) (auto simp: stdio_def numeral_eq_Suc less_Suc_eq)

lemma reopen:
  assumes "stdio fds" "fd = 0 \<or> fd = 1"
  shows "newfd f (closefd fd fds) = (fd, fds[nat fd := Some f])"
  using assms(2) by (rule disjE; use assms(1) in \<open>elim stdioE\<close>) (simp_all add: newfd_def closefd_def)

lemma pipe_ends:
  assumes "stdio fds"
  obtains fds2 where "pipefd p fds = (0, 3, 4, fds2)" "closefd 4 (closefd 3 fds2) = fds"
    "closefd 4 (closefd 3 (snd (dupfd 4 (closefd 1 fds2)))) = fds[1 := Some (PipeW p)]"
    "closefd 4 (closefd 3 (snd (dupfd 3 (closefd 0 fds2)))) = fds[0 := Some (PipeR p)]"
  using assms by (elim stdioE) (simp add: pipefd_def newfd_def closefd_def dupfd_def)

lemma runcmd_wired:
  "cmd_ok b0 es c \<Longrightarrow> stdio fds \<Longrightarrow> run can (runcmd b c) p n fds = wired can b c p n fds"
proof (induction c arbitrary: p n fds)
  case (EXEC as)
  then show ?case by (cases as) (auto simp: Let_def split: prod.splits)
next
  case (REDIR c q eq m fd)
  have fd: "fd = 0 \<or> fd = 1" using REDIR.prems(1) by auto
  then have "stdio (fds[nat fd := Some (Opened (string_at b q) m)])" using stdio_update [OF REDIR.prems(2)] by auto
  then show ?case using REDIR reopen [OF REDIR.prems(2) fd] fd by auto
next
  case (PIPE l r)
  obtain fds2 where P: "pipefd (p @ [n]) fds = (0, 3, 4, fds2)"
    "closefd 4 (closefd 3 (snd (dupfd 4 (closefd 1 fds2)))) = fds[1 := Some (PipeW (p @ [n]))]"
    "closefd 4 (closefd 3 (snd (dupfd 3 (closefd 0 fds2)))) = fds[0 := Some (PipeR (p @ [n]))]"
    using pipe_ends [OF PIPE.prems(2)] by metis
  show ?case using PIPE P stdio_update [OF PIPE.prems(2)] by (simp add: fork1_def case_prod_unfold)
qed (simp_all add: fork1_def)

section \<open>The shell\<close>

definition line_events :: "(uchar list \<Rightarrow> int \<Rightarrow> bool) \<Rightarrow> uchar list \<Rightarrow> nat list \<Rightarrow> fds \<Rightarrow> event list" where
  "line_events can buf p fds = (case parsecmd (4 * strlen buf + 4) buf of
     Some (Ok c b) \<Rightarrow> wired can b c p 0 fds
   | Some (Panic m) \<Rightarrow> [Says m [], Exits 0]
   | _ \<Rightarrow> [])"

text \<open>A session: each line of the input in turn, in a child that is waited for; \<open>cd\<close> is done by the shell itself.\<close>

function session :: "(uchar list \<Rightarrow> int \<Rightarrow> bool) \<Rightarrow> uchar list \<Rightarrow> nat list \<Rightarrow> nat \<Rightarrow> fds \<Rightarrow> event list" where
  "session can inp p n fds =
    (case getcmd 100 inp of
       (None, inp) \<Rightarrow> [Exits 0]
     | (Some buf, inp) \<Rightarrow>
         if take 3 buf = [99, 100, 32] then Chdirs (string_at (buf[strlen buf - 1 := 0]) 3) # session can inp p n fds
         else Forks (line_events can buf (p @ [n]) fds) # Waits # session can inp p (Suc n) fds)"
  by pat_completeness auto
termination by (relation "measure (\<lambda>(can, inp, p, n, fds). length inp)") (auto dest: getcmd_rest [OF sym])

declare session.simps [simp del]

lemma run_line_events:
  assumes "stdio fds"
  shows "run can (run_line buf) p 0 fds = line_events can buf p fds"
proof -
  obtain r where r: "parsecmd (4 * strlen buf + 4) buf = Some r" using parsecmd_fuel [of buf] by (metis add_0_right)
  show ?thesis
  proof (cases r)
    case (Ok c b)
    then show ?thesis using runcmd_wired [OF parsecmd_ok(1) assms] r by (simp add: run_line_def line_events_def)
  next
    case (Sleep k b)
    have "\<not> (\<exists>k s. parseline (4 * strlen buf + 4) buf (strlen buf) 0 = Some (Sleep k s))" using parseline_returns [of buf] by auto
    then have False using r Sleep
      by (auto simp: parsecmd_def Let_def simp del: parseline.simps split: option.splits outcome.splits if_splits prod.splits)
    then show ?thesis ..
  qed (simp add: r run_line_def line_events_def panic_def)
qed

lemma starts_cd: "length buf \<ge> 3 \<Longrightarrow> take 3 buf = [99, 100, 32] \<longleftrightarrow> ch buf 0 = 99 \<and> ch buf 1 = 100 \<and> ch buf 2 = 32"
  by (auto simp: numeral_eq_Suc Suc_le_length_iff ch_def)

lemma gets_loop_length: "gets_loop buf mx i inp = (buf', j, inp') \<Longrightarrow> length buf' = length buf"
  by (induction buf mx i inp arbitrary: buf' j inp' rule: gets_loop.induct) (auto split: if_splits)

lemma getcmd_length: "getcmd nbuf inp = (Some buf, inp') \<Longrightarrow> length buf = nbuf"
  by (auto simp: getcmd_def gets_def Let_def dest!: gets_loop_length split: prod.splits if_splits)

lemma main_loop_session:
  assumes "stdio fds"
  shows "run can (main_loop inp) p n fds = session can inp p n fds"
proof (induction inp arbitrary: n rule: measure_induct_rule [of length])
  case (less inp)
  obtain r inp' where g: "getcmd 100 inp = (r, inp')" by fastforce
  show ?case
  proof (cases r)
    case (Some buf)
    note g = g [unfolded Some]
    have cd: "take 3 buf = [99, 100, 32] \<longleftrightarrow> ch buf 0 = 99 \<and> ch buf 1 = 100 \<and> ch buf 2 = 32"
      by (rule starts_cd) (simp add: getcmd_length [OF g])
    note IH = less [OF getcmd_rest [OF g]]
    show ?thesis
      by (subst main_loop.simps, subst session.simps)
        (simp add: g cd IH Let_def fork1_def run_line_events [OF assms])
  qed (simp add: g main_loop.simps [of inp] session.simps [of _ inp])
qed

text \<open>The descriptors once the shell has opened the console on those of the first three that were closed.\<close>

definition with_console :: "fds \<Rightarrow> fds" where
  "with_console fds = map (\<lambda>x. case x of None \<Rightarrow> Some (Opened console_name O_RDWR) | Some f \<Rightarrow> Some f) (take 3 fds) @ drop 3 fds"

lemma main_open_console:
  assumes "can console_name O_RDWR" "length fds = 16" "drop 3 fds = replicate 13 None"
  shows "stdio (with_console fds)" "run can (main_open 4 k) p n fds = run can k p n (with_console fds)"
proof -
  have "fds = take 3 fds @ replicate 13 None" using assms(3) append_take_drop_id [of 3 fds] by simp
  moreover have "length (take 3 fds) = 3" using assms(2) by simp
  then obtain x y z where "take 3 fds = [x, y, z]" by (auto simp: numeral_eq_Suc length_Suc_conv simp del: length_take)
  ultimately have fds: "fds = x # y # z # None # replicate 12 None" by (simp add: numeral_eq_Suc)
  show "stdio (with_console fds)"
    by (simp add: fds with_console_def stdio_def numeral_eq_Suc split: option.splits)
  show "run can (main_open 4 k) p n fds = run can k p n (with_console fds)"
    using assms(1) by (cases x; cases y; cases z) (simp_all add: fds with_console_def newfd_def closefd_def numeral_eq_Suc)
qed

text \<open>
  C11. The shell does what its input says. Started with any of the descriptors 0, 1 and 2 open and no others, where the
  console can be opened, it opens the console on those that are closed, and then runs the session: every line of the
  input in a child of its own that it waits for, with every program of the line run on exactly the three descriptors that
  the redirections and pipes of the line call for; no end of a pipe stays open in a program that is not at it. A line that does not
  parse runs nothing, and the loop that opens the console has ended after four rounds.
\<close>

theorem shell_runs_session:
  assumes "can console_name O_RDWR" "length fds = 16" "drop 3 fds = replicate 13 None"
  shows "run can (main 4 inp) p n fds = session can inp p n (with_console fds)"
  unfolding main_def
  using main_open_console(2) [of can, OF assms] main_loop_session [OF main_open_console(1) [of can, OF assms]] by simp

text \<open>The input \<open>ls<a|wc;x&\<close>, from a shell with only its descriptor 0 open.\<close>

definition input1 :: "uchar list" where
  "input1 = [108, 115, 60, 97, 124, 119, 99, 59, 120, 38, 10]"

definition fds1 :: fds where
  "fds1 = Some (Given 7) # replicate 15 None"

lemma session1:
  "session (\<lambda>f m. True) input1 [] 0 (with_console fds1) =
    (let con = Some (Opened console_name 2); none = replicate 13 None; ls = [108, 115]; wc = [119, 99]; x = [120] in
     [Forks
       [Forks [Forks [Runs ls [ls] (Some (Opened [97] 0) # Some (PipeW [0, 0, 0]) # con # none)],
               Forks [Runs wc [wc] (Some (PipeR [0, 0, 0]) # con # con # none)],
               Waits, Waits, Exits 0],
        Waits,
        Forks [Runs x [x] (Some (Given 7) # con # con # none)],
        Exits 0],
      Waits, Exits 0])"
  by code_simp

theorem shell_runs_session_witness:
  "run (\<lambda>f m. True) (main 4 input1) [] 0 fds1 =
    (let con = Some (Opened console_name 2); none = replicate 13 None; ls = [108, 115]; wc = [119, 99]; x = [120] in
     [Forks
       [Forks [Forks [Runs ls [ls] (Some (Opened [97] 0) # Some (PipeW [0, 0, 0]) # con # none)],
               Forks [Runs wc [wc] (Some (PipeR [0, 0, 0]) # con # con # none)],
               Waits, Waits, Exits 0],
        Waits,
        Forks [Runs x [x] (Some (Given 7) # con # con # none)],
        Exits 0],
      Waits, Exits 0])"
  using shell_runs_session [of "\<lambda>f m. True" fds1 input1 "[]" 0] session1 by (simp add: fds1_def del: replicate_Suc)

end
