(* ===== verification/Spinlock.thy ===== *)
theory Spinlock
  imports Prelude
begin

text \<open>
  Spin locks (\<open>spinlock.c\<close>): the matched disabling of interrupts, and \<open>acquire\<close> and \<open>release\<close> as sequences of accesses to shared
  memory that the processors interleave. Every other theory takes the code between \<open>acquire\<close> and \<open>release\<close> as one step;
  here is why it may.
\<close>

section \<open>Processors and locks\<close>

text \<open>
  A lock, with the processor that \<open>cpu\<close> points to. The fields of a processor are those of \<open>struct cpu\<close> that matter here and
  the interrupt flag; \<open>c_todo\<close> is what is left of the call it executes, and \<open>c_held\<close> and \<open>c_push\<close> record, for
  the statements below, the locks it has taken and its calls of \<open>pushcli\<close> that have no \<open>popcli\<close> yet.
\<close>

record spinlock =
  lk_locked :: bool
  lk_name :: string
  lk_cpu :: "nat option"
  lk_pcs :: "uint32 list"

text \<open>The accesses to shared memory. \<open>holding\<close> reads \<open>locked\<close> and then, if it is set, \<open>cpu\<close>.\<close>

datatype instr =
    Pushcli
  | SkipUnlessLocked nat
  | PanicIfMine nat
  | Xchg nat
  | SetCpu nat
  | SetPcs nat
  | PanicUnlessLocked nat
  | PanicUnlessMine nat
  | ClearPcs nat
  | ClearCpu nat
  | Unlock nat
  | Popcli

record cpu =
  c_ncli :: int
  c_intena :: bool
  c_if :: bool
  c_todo :: "instr list"
  c_held :: "nat list"
  c_push :: nat
  c_panic :: "string option"

record smp =
  cpus :: "cpu list"
  locks :: "spinlock list"

definition initlock :: "string \<Rightarrow> spinlock \<Rightarrow> spinlock" where
  "initlock name lk = lk\<lparr>lk_name := name, lk_locked := False, lk_cpu := None\<rparr>"

definition pushcli :: "cpu \<Rightarrow> cpu" where
  "pushcli c = (let eflags = c_if c; c = c\<lparr>c_if := False\<rparr>; n = c_ncli c; c = c\<lparr>c_ncli := n + 1\<rparr>
     in if n = 0 then c\<lparr>c_intena := eflags\<rparr> else c)"

definition popcli :: "cpu \<Rightarrow> cpu" where
  "popcli c = (if c_if c then c\<lparr>c_panic := Some ''popcli - interruptible''\<rparr>
     else let c = c\<lparr>c_ncli := c_ncli c - 1\<rparr> in
       if c_ncli c < 0 then c\<lparr>c_panic := Some ''popcli''\<rparr>
       else if c_ncli c = 0 \<and> c_intena c then c\<lparr>c_if := True\<rparr> else c)"

definition holding :: "nat \<Rightarrow> spinlock \<Rightarrow> bool" where
  "holding me lk \<longleftrightarrow> lk_locked lk \<and> lk_cpu lk = Some me"

definition acquire :: "nat \<Rightarrow> instr list" where
  "acquire lk = [Pushcli, SkipUnlessLocked lk, PanicIfMine lk, Xchg lk, SetCpu lk, SetPcs lk]"

definition release :: "nat \<Rightarrow> instr list" where
  "release lk = [PanicUnlessLocked lk, PanicUnlessMine lk, ClearPcs lk, ClearCpu lk, Unlock lk, Popcli]"

section \<open>Steps\<close>

definition updc :: "nat \<Rightarrow> (cpu \<Rightarrow> cpu) \<Rightarrow> smp \<Rightarrow> smp" where
  "updc me f s = s\<lparr>cpus := (cpus s)[me := f (cpus s ! me)]\<rparr>"

definition updl :: "nat \<Rightarrow> (spinlock \<Rightarrow> spinlock) \<Rightarrow> smp \<Rightarrow> smp" where
  "updl i f s = s\<lparr>locks := (locks s)[i := f (locks s ! i)]\<rparr>"

definition panic_cpu :: "string \<Rightarrow> cpu \<Rightarrow> cpu" where
  "panic_cpu m c = c\<lparr>c_panic := Some m\<rparr>"

text \<open>
  One access by processor \<open>me\<close>, with the rest of its call as a continuation. An exchange that finds the lock taken is tried again. \<open>SetPcs\<close> writes
  some return addresses \<open>pcs\<close>.
\<close>

fun exec_instr :: "uint32 list \<Rightarrow> nat \<Rightarrow> instr \<Rightarrow> instr list \<Rightarrow> smp \<Rightarrow> smp" where
  "exec_instr pcs me Pushcli r s = updc me (\<lambda>c. (pushcli c)\<lparr>c_todo := r\<rparr>) s"
| "exec_instr pcs me (SkipUnlessLocked i) r s = updc me (\<lambda>c. c\<lparr>c_todo := if lk_locked (locks s ! i) then r else tl r\<rparr>) s"
| "exec_instr pcs me (PanicIfMine i) r s =
     (if lk_cpu (locks s ! i) = Some me then updc me (panic_cpu ''acquire'') s else updc me (\<lambda>c. c\<lparr>c_todo := r\<rparr>) s)"
| "exec_instr pcs me (Xchg i) r s =
     (if lk_locked (locks s ! i) then s
      else updc me (\<lambda>c. c\<lparr>c_todo := r, c_held := i # c_held c\<rparr>) (updl i (\<lambda>l. l\<lparr>lk_locked := True\<rparr>) s))"
| "exec_instr pcs me (SetCpu i) r s = updc me (\<lambda>c. c\<lparr>c_todo := r\<rparr>) (updl i (\<lambda>l. l\<lparr>lk_cpu := Some me\<rparr>) s)"
| "exec_instr pcs me (SetPcs i) r s = updc me (\<lambda>c. c\<lparr>c_todo := r\<rparr>) (updl i (\<lambda>l. l\<lparr>lk_pcs := pcs\<rparr>) s)"
| "exec_instr pcs me (PanicUnlessLocked i) r s =
     (if lk_locked (locks s ! i) then updc me (\<lambda>c. c\<lparr>c_todo := r\<rparr>) s else updc me (panic_cpu ''release'') s)"
| "exec_instr pcs me (PanicUnlessMine i) r s =
     (if lk_cpu (locks s ! i) = Some me then updc me (\<lambda>c. c\<lparr>c_todo := r\<rparr>) s else updc me (panic_cpu ''release'') s)"
| "exec_instr pcs me (ClearPcs i) r s = updc me (\<lambda>c. c\<lparr>c_todo := r\<rparr>) (updl i (\<lambda>l. l\<lparr>lk_pcs := (lk_pcs l)[0 := 0]\<rparr>) s)"
| "exec_instr pcs me (ClearCpu i) r s = updc me (\<lambda>c. c\<lparr>c_todo := r\<rparr>) (updl i (\<lambda>l. l\<lparr>lk_cpu := None\<rparr>) s)"
| "exec_instr pcs me (Unlock i) r s =
     updc me (\<lambda>c. c\<lparr>c_todo := r, c_held := remove1 i (c_held c)\<rparr>) (updl i (\<lambda>l. l\<lparr>lk_locked := False\<rparr>) s)"
| "exec_instr pcs me Popcli r s = updc me (\<lambda>c. (popcli c)\<lparr>c_todo := r\<rparr>) s"

text \<open>
  The machine. A processor that is in none of the calls may start one, for any lock, held or not; may call \<open>pushcli\<close>, and \<open>popcli\<close> to undo
  a \<open>pushcli\<close> of its own; and, outside all of them, may turn interrupts on or off.
\<close>

inductive smp_step :: "smp \<Rightarrow> smp \<Rightarrow> bool" where
  call_acquire: "me < length (cpus s) \<Longrightarrow> i < length (locks s) \<Longrightarrow> c_todo (cpus s ! me) = [] \<Longrightarrow> c_panic (cpus s ! me) = None \<Longrightarrow>
    smp_step s (updc me (\<lambda>c. c\<lparr>c_todo := acquire i\<rparr>) s)"
| call_release: "me < length (cpus s) \<Longrightarrow> i < length (locks s) \<Longrightarrow> c_todo (cpus s ! me) = [] \<Longrightarrow> c_panic (cpus s ! me) = None \<Longrightarrow>
    smp_step s (updc me (\<lambda>c. c\<lparr>c_todo := release i\<rparr>) s)"
| call_pushcli: "me < length (cpus s) \<Longrightarrow> c_todo (cpus s ! me) = [] \<Longrightarrow> c_panic (cpus s ! me) = None \<Longrightarrow>
    smp_step s (updc me (\<lambda>c. (pushcli c)\<lparr>c_push := Suc (c_push c)\<rparr>) s)"
| call_popcli: "me < length (cpus s) \<Longrightarrow> c_todo (cpus s ! me) = [] \<Longrightarrow> c_panic (cpus s ! me) = None \<Longrightarrow> c_push (cpus s ! me) = Suc n \<Longrightarrow>
    smp_step s (updc me (\<lambda>c. (popcli c)\<lparr>c_push := n\<rparr>) s)"
| set_if: "me < length (cpus s) \<Longrightarrow> c_todo (cpus s ! me) = [] \<Longrightarrow> c_panic (cpus s ! me) = None \<Longrightarrow> c_ncli (cpus s ! me) = 0 \<Longrightarrow>
    smp_step s (updc me (\<lambda>c. c\<lparr>c_if := b\<rparr>) s)"
| instr: "me < length (cpus s) \<Longrightarrow> c_panic (cpus s ! me) = None \<Longrightarrow> c_todo (cpus s ! me) = x # r \<Longrightarrow>
    smp_step s (exec_instr pcs me x r s)"

text \<open>The start: no processor is in a call, nothing is locked.\<close>

definition smp0 :: "nat \<Rightarrow> nat \<Rightarrow> smp" where
  "smp0 n m = \<lparr>cpus = replicate n \<lparr>c_ncli = 0, c_intena = False, c_if = False, c_todo = [], c_held = [], c_push = 0, c_panic = None\<rparr>,
     locks = replicate m (initlock ''lock'' \<lparr>lk_locked = True, lk_name = '''', lk_cpu = None, lk_pcs = replicate 10 0\<rparr>)\<rparr>"

section \<open>The invariant\<close>

text \<open>
  Where a processor is in a call, which locks it has then, and how much \<open>ncli\<close> exceeds the locks it has and its own \<open>pushcli\<close> calls.
\<close>

definition phase :: "nat \<Rightarrow> cpu \<Rightarrow> nat \<Rightarrow> bool" where
  "phase m c k \<longleftrightarrow> c_todo c = [] \<and> k = 0 \<or>
    (\<exists>i<m. c_todo c = acquire i \<and> k = 0 \<or>
      (c_todo c = drop 1 (acquire i) \<or> c_todo c = drop 2 (acquire i)) \<and> k = 1 \<or>
      c_todo c = drop 3 (acquire i) \<and> k = 1 \<and> i \<notin> set (c_held c) \<or>
      (c_todo c = drop 4 (acquire i) \<or> c_todo c = drop 5 (acquire i)) \<and> k = 0 \<and> i \<in> set (c_held c) \<or>
      (c_todo c = release i \<or> c_todo c = drop 1 (release i)) \<and> k = 0 \<or>
      (c_todo c = drop 2 (release i) \<or> c_todo c = drop 3 (release i) \<or> c_todo c = drop 4 (release i)) \<and> k = 0 \<and> i \<in> set (c_held c) \<or>
      c_todo c = drop 5 (release i) \<and> k = 1)"

text \<open>The processor has the lock but \<open>lk->cpu\<close> does not say so, right behind one and right before the other exchange.\<close>

definition untagged :: "cpu \<Rightarrow> nat \<Rightarrow> bool" where
  "untagged c i \<longleftrightarrow> (case c_todo c of SetCpu j # _ \<Rightarrow> j = i | Unlock j # _ \<Rightarrow> j = i | _ \<Rightarrow> False)"

definition cpu_ok :: "nat \<Rightarrow> cpu \<Rightarrow> bool" where
  "cpu_ok m c \<longleftrightarrow> distinct (c_held c) \<and>
     (\<exists>k. phase m c k \<and> c_ncli c = int (length (c_held c) + c_push c + k)) \<and> (c_ncli c > 0 \<longrightarrow> \<not> c_if c)"

definition smp_inv :: "smp \<Rightarrow> bool" where
  "smp_inv s \<longleftrightarrow> (\<forall>c\<in>set (cpus s). cpu_ok (length (locks s)) c) \<and>
    (\<forall>i<length (locks s). \<forall>me. lk_cpu (locks s ! i) = Some me \<longleftrightarrow>
       me < length (cpus s) \<and> i \<in> set (c_held (cpus s ! me)) \<and> \<not> untagged (cpus s ! me) i) \<and>
    (\<forall>i<length (locks s). lk_locked (locks s ! i) \<longleftrightarrow> (\<exists>me<length (cpus s). i \<in> set (c_held (cpus s ! me)))) \<and>
    (\<forall>me<length (cpus s). \<forall>me'<length (cpus s). \<forall>i. i \<in> set (c_held (cpus s ! me)) \<longrightarrow> i \<in> set (c_held (cpus s ! me')) \<longrightarrow> me = me')"

lemma smp_invD:
  assumes "smp_inv s"
  shows "me < length (cpus s) \<Longrightarrow> cpu_ok (length (locks s)) (cpus s ! me)"
    and "i < length (locks s) \<Longrightarrow> lk_cpu (locks s ! i) = Some me \<longleftrightarrow>
       me < length (cpus s) \<and> i \<in> set (c_held (cpus s ! me)) \<and> \<not> untagged (cpus s ! me) i"
    and "i < length (locks s) \<Longrightarrow> lk_locked (locks s ! i) \<longleftrightarrow> (\<exists>me<length (cpus s). i \<in> set (c_held (cpus s ! me)))"
    and "me < length (cpus s) \<Longrightarrow> me' < length (cpus s) \<Longrightarrow> i \<in> set (c_held (cpus s ! me)) \<Longrightarrow> i \<in> set (c_held (cpus s ! me')) \<Longrightarrow> me = me'"
  using assms by (simp_all add: smp_inv_def)

lemma updc_simps [simp]:
  "length (cpus (updc me f s)) = length (cpus s)" "locks (updc me f s) = locks s"
  "cpus (updl i g s) = cpus s" "length (locks (updl i g s)) = length (locks s)"
  by (simp_all add: updc_def updl_def)

lemma updc_nth: "j < length (cpus s) \<Longrightarrow> cpus (updc me f s) ! j = (if j = me then f (cpus s ! me) else cpus s ! j)"
  by (simp add: updc_def nth_list_update)

lemma updl_nth: "j < length (locks s) \<Longrightarrow> locks (updl i g s) ! j = (if j = i then g (locks s ! i) else locks s ! j)"
  by (simp add: updl_def nth_list_update)

text \<open>A step of one processor that touches at most one lock.\<close>

lemma smp_inv_update:
  assumes inv: "smp_inv s" and me: "me < length (cpus s)" and i: "i < length (locks s)"
    and c: "c = cpus s ! me" "cpu_ok (length (locks s)) (f c)"
    and others: "\<And>j. j \<noteq> i \<Longrightarrow> j \<in> set (c_held (f c)) \<longleftrightarrow> j \<in> set (c_held c)"
      "\<And>j. j \<noteq> i \<Longrightarrow> j \<in> set (c_held c) \<Longrightarrow> untagged (f c) j \<longleftrightarrow> untagged c j"
    and l: "l = locks s ! i" "lk_locked (g l) \<longleftrightarrow> i \<in> set (c_held (f c)) \<or> i \<notin> set (c_held c) \<and> lk_locked l"
      "lk_cpu (g l) = (if i \<in> set (c_held (f c)) \<and> \<not> untagged (f c) i then Some me else if lk_cpu l = Some me then None else lk_cpu l)"
    and free: "i \<in> set (c_held (f c)) \<Longrightarrow> i \<in> set (c_held c) \<or> \<not> lk_locked l"
  shows "smp_inv (updc me f (updl i g s))"
proof -
  note D = smp_invD [OF inv]
  let ?n = "length (cpus s)" and ?m = "length (locks s)" and ?t = "updc me f (updl i g s)"
  have cpus: "cpus ?t ! j = (if j = me then f c else cpus s ! j)" if "j < ?n" for j
    using that by (simp add: updc_nth c)
  have locks: "locks (updl i g s) ! j = (if j = i then g l else locks s ! j)" if "j < ?m" for j
    using that by (simp add: updl_nth l)
  have alone: "j \<noteq> me \<Longrightarrow> j < ?n \<Longrightarrow> i \<in> set (c_held (f c)) \<Longrightarrow> i \<notin> set (c_held (cpus s ! j))" for j
    using free D(3) [OF i] D(4) [OF me, of j i] me c(1) l(1) by blast
  have same: "j \<noteq> i \<Longrightarrow> x < ?n \<Longrightarrow> j \<in> set (c_held (cpus ?t ! x)) \<longleftrightarrow> j \<in> set (c_held (cpus s ! x))" for j x
    using others(1) c(1) by (simp add: cpus)
  have 1: "\<forall>x\<in>set (cpus ?t). cpu_ok ?m x" using D(1) c(2) by (auto simp: in_set_conv_nth cpus)
  have 2: "lk_cpu (locks ?t ! j) = Some p \<longleftrightarrow> p < ?n \<and> j \<in> set (c_held (cpus ?t ! p)) \<and> \<not> untagged (cpus ?t ! p) j"
    if j: "j < ?m" for j p
  proof (cases "j = i")
    case True
    show ?thesis
    proof (cases "p = me")
      case True
      then show ?thesis using \<open>j = i\<close> j me l(3) by (simp add: locks cpus)
    next
      case False
      have "lk_cpu (g l) = Some p \<longleftrightarrow> \<not> (i \<in> set (c_held (f c)) \<and> \<not> untagged (f c) i) \<and> lk_cpu l = Some p"
        using False l(3) by simp
      also have "\<dots> \<longleftrightarrow> p < ?n \<and> i \<in> set (c_held (cpus s ! p)) \<and> \<not> untagged (cpus s ! p) i"
        using D(2) [OF i, of p] alone [OF False] l(1) by auto
      finally show ?thesis using \<open>j = i\<close> False i by (simp add: locks cpus cong: conj_cong)
    qed
  next
    case False
    then show ?thesis using D(2) [OF j, of p] others [OF False] me c(1) j by (cases "p = me") (auto simp: locks cpus)
  qed
  have 3: "lk_locked (locks ?t ! j) \<longleftrightarrow> (\<exists>p<?n. j \<in> set (c_held (cpus ?t ! p)))" if j: "j < ?m" for j
  proof (cases "j = i")
    case True
    have "(\<exists>p<?n. i \<in> set (c_held (cpus ?t ! p))) \<longleftrightarrow> i \<in> set (c_held (f c)) \<or> (\<exists>p<?n. p \<noteq> me \<and> i \<in> set (c_held (cpus s ! p)))"
      using me by (auto simp: cpus split: if_splits)
    moreover have "(\<exists>p<?n. p \<noteq> me \<and> i \<in> set (c_held (cpus s ! p))) \<longleftrightarrow> i \<notin> set (c_held c) \<and> lk_locked l"
      using D(3) [OF i] D(4) [OF me, of _ i] me c(1) l(1) by blast
    ultimately show ?thesis using True l(2) j by (simp add: locks)
  next
    case False
    have "(\<exists>p<?n. j \<in> set (c_held (cpus ?t ! p))) \<longleftrightarrow> (\<exists>p<?n. j \<in> set (c_held (cpus s ! p)))"
      using same [OF False] by blast
    then show ?thesis using D(3) [OF j] False j by (simp add: locks)
  qed
  have 4: "p = q" if "p < ?n" "q < ?n" "j \<in> set (c_held (cpus ?t ! p))" "j \<in> set (c_held (cpus ?t ! q))" for p q j
  proof (cases "j = i")
    case True
    then show ?thesis using that alone D(4) by (auto simp: cpus split: if_splits)
  next
    case False
    then show ?thesis using that D(4) same by blast
  qed
  show ?thesis using 1 2 3 4 by (simp add: smp_inv_def)
qed

lemma smp_inv_cpu:
  assumes inv: "smp_inv s" and me: "me < length (cpus s)" and c: "cpu_ok (length (locks s)) (f (cpus s ! me))"
    and same: "c_held (f (cpus s ! me)) = c_held (cpus s ! me)"
      "\<And>j. j \<in> set (c_held (cpus s ! me)) \<Longrightarrow> untagged (f (cpus s ! me)) j \<longleftrightarrow> untagged (cpus s ! me) j"
  shows "smp_inv (updc me f s)"
proof -
  note D = smp_invD [OF inv]
  let ?n = "length (cpus s)"
  have held: "x < ?n \<Longrightarrow> c_held (cpus (updc me f s) ! x) = c_held (cpus s ! x)" for x
    by (simp add: updc_nth same)
  have tag: "x < ?n \<Longrightarrow> j \<in> set (c_held (cpus s ! x)) \<Longrightarrow> untagged (cpus (updc me f s) ! x) j \<longleftrightarrow> untagged (cpus s ! x) j" for x j
    by (auto simp: updc_nth same(2))
  have "\<forall>x\<in>set (cpus (updc me f s)). cpu_ok (length (locks s)) x" using D(1) c by (auto simp: in_set_conv_nth updc_nth)
  then show ?thesis using D(2,3,4) by (auto simp: smp_inv_def held tag)
qed

lemma pushcli_simps [simp]:
  "c_held (pushcli c) = c_held c" "c_push (pushcli c) = c_push c" "c_ncli (pushcli c) = c_ncli c + 1" "\<not> c_if (pushcli c)"
  "c_todo (pushcli c) = c_todo c" "c_panic (pushcli c) = c_panic c"
  by (simp_all add: pushcli_def Let_def)

lemma popcli_simps:
  assumes "\<not> c_if c" "c_ncli c > 0"
  shows "c_held (popcli c) = c_held c" "c_push (popcli c) = c_push c" "c_ncli (popcli c) = c_ncli c - 1"
    "c_ncli c \<noteq> 1 \<Longrightarrow> \<not> c_if (popcli c)" "c_todo (popcli c) = c_todo c" "c_panic (popcli c) = c_panic c"
  using assms by (auto simp: popcli_def Let_def)

lemmas code_defs = acquire_def release_def

text \<open>What a processor before an instruction is in the middle of.\<close>

lemma phase_cases:
  assumes "phase m c k" "c_todo c = x # r"
  obtains
    (push) i where "i < m" "k = 0" "x = Pushcli" "r = drop 1 (acquire i)"
  | (skip) i where "i < m" "k = 1" "x = SkipUnlessLocked i" "r = drop 2 (acquire i)"
  | (mine) i where "i < m" "k = 1" "x = PanicIfMine i" "r = drop 3 (acquire i)"
  | (xchg) i where "i < m" "k = 1" "x = Xchg i" "r = drop 4 (acquire i)" "i \<notin> set (c_held c)"
  | (setcpu) i where "i < m" "k = 0" "x = SetCpu i" "r = drop 5 (acquire i)" "i \<in> set (c_held c)"
  | (setpcs) i where "i < m" "k = 0" "x = SetPcs i" "r = []" "i \<in> set (c_held c)"
  | (unlocked) i where "i < m" "k = 0" "x = PanicUnlessLocked i" "r = drop 1 (release i)"
  | (notmine) i where "i < m" "k = 0" "x = PanicUnlessMine i" "r = drop 2 (release i)"
  | (clearpcs) i where "i < m" "k = 0" "x = ClearPcs i" "r = drop 3 (release i)" "i \<in> set (c_held c)"
  | (clearcpu) i where "i < m" "k = 0" "x = ClearCpu i" "r = drop 4 (release i)" "i \<in> set (c_held c)"
  | (unlock) i where "i < m" "k = 0" "x = Unlock i" "r = drop 5 (release i)" "i \<in> set (c_held c)"
  | (pop) "k = 1" "x = Popcli" "r = []"
  using assms unfolding phase_def code_defs by auto

lemma phaseI:
  "c_todo c = [] \<Longrightarrow> phase m c 0"
  "i < m \<Longrightarrow> c_todo c = acquire i \<or> c_todo c = release i \<or> c_todo c = drop 1 (release i) \<Longrightarrow> phase m c 0"
  "i < m \<Longrightarrow> c_todo c = drop 1 (acquire i) \<or> c_todo c = drop 2 (acquire i) \<Longrightarrow> phase m c 1"
  "i < m \<Longrightarrow> i \<notin> set (c_held c) \<Longrightarrow> c_todo c = drop 3 (acquire i) \<Longrightarrow> phase m c 1"
  "i < m \<Longrightarrow> i \<in> set (c_held c) \<Longrightarrow> c_todo c = drop 4 (acquire i) \<or> c_todo c = drop 5 (acquire i) \<or>
     c_todo c = drop 2 (release i) \<or> c_todo c = drop 3 (release i) \<or> c_todo c = drop 4 (release i) \<Longrightarrow> phase m c 0"
  "i < m \<Longrightarrow> c_todo c = drop 5 (release i) \<Longrightarrow> phase m c 1"
  unfolding phase_def by blast+

lemma cpu_okI:
  "distinct (c_held c) \<Longrightarrow> phase m c k \<Longrightarrow> c_ncli c = int (length (c_held c) + c_push c + k) \<Longrightarrow>
   (c_ncli c > 0 \<Longrightarrow> \<not> c_if c) \<Longrightarrow> cpu_ok m c"
  by (auto simp: cpu_ok_def)

lemma instr_preserves:
  assumes inv: "smp_inv s" and me: "me < length (cpus s)" and todo: "c_todo (cpus s ! me) = x # r"
  shows "smp_inv (exec_instr pcs me x r s)"
proof -
  let ?m = "length (locks s)"
  define c where "c = cpus s ! me"
  note D = smp_invD [OF inv]
  have ok: "cpu_ok ?m c" using D(1) [OF me] by (simp add: c_def)
  then obtain k where ph: "phase ?m c k" and n: "c_ncli c = int (length (c_held c) + c_push c + k)" by (auto simp: cpu_ok_def)
  have d: "distinct (c_held c)" and f: "c_ncli c > 0 \<Longrightarrow> \<not> c_if c" using ok by (auto simp: cpu_ok_def)
  have todo': "c_todo c = x # r" using todo by (simp add: c_def)
  note cpu_rule = smp_inv_cpu [OF inv me, folded c_def]
  note lock_rule = smp_inv_update [OF inv me _ c_def _ _ _ refl]
  have panic: "smp_inv (updc me (panic_cpu m) s)" for m
    by (rule cpu_rule) (use ok in \<open>auto simp: panic_cpu_def cpu_ok_def phase_def untagged_def\<close>)
  have locked: "i < ?m \<Longrightarrow> i \<in> set (c_held c) \<Longrightarrow> lk_locked (locks s ! i)" for i
    using D(3) [of i] me by (auto simp: c_def)
  have tagged: "i < ?m \<Longrightarrow> i \<in> set (c_held c) \<Longrightarrow> \<not> untagged c i \<Longrightarrow> lk_cpu (locks s ! i) = Some me" for i
    using D(2) [of i me] me by (simp add: c_def)
  from ph todo' show ?thesis
  proof (cases rule: phase_cases)
    case (push i)
    have "cpu_ok ?m ((pushcli c)\<lparr>c_todo := r\<rparr>)"
      using push n d by (intro cpu_okI [OF _ phaseI(3)]) auto
    then show ?thesis unfolding push(3) exec_instr.simps
      by (rule cpu_rule) (use todo' push in \<open>simp_all add: untagged_def code_defs\<close>)
  next
    case (skip i)
    let ?r = "if lk_locked (locks s ! i) then r else tl r"
    have "i \<notin> set (c_held c)" if "\<not> lk_locked (locks s ! i)" using D(3) [OF skip(1)] me that by (auto simp: c_def)
    then have "phase ?m (c\<lparr>c_todo := ?r\<rparr>) 1"
      using skip(1,4) phaseI(3,4) [of i ?m "c\<lparr>c_todo := ?r\<rparr>"] by (cases "lk_locked (locks s ! i)") (simp_all add: code_defs)
    then have "cpu_ok ?m (c\<lparr>c_todo := ?r\<rparr>)" using skip n d f by (intro cpu_okI) auto
    then show ?thesis unfolding skip(3) exec_instr.simps
      by (rule cpu_rule) (use todo' skip in \<open>simp_all add: untagged_def code_defs\<close>)
  next
    case (mine i)
    have held: "lk_cpu (locks s ! i) = Some me \<longleftrightarrow> i \<in> set (c_held c)"
      using D(2) [OF mine(1), of me] me todo' mine by (simp add: untagged_def c_def)
    show ?thesis
    proof (cases "lk_cpu (locks s ! i) = Some me")
      case False
      then have "cpu_ok ?m (c\<lparr>c_todo := r\<rparr>)" using mine n d f held by (intro cpu_okI [OF _ phaseI(4)]) auto
      then have "smp_inv (updc me (\<lambda>c. c\<lparr>c_todo := r\<rparr>) s)"
        by (rule cpu_rule) (use todo' mine in \<open>simp_all add: untagged_def code_defs\<close>)
      then show ?thesis using mine False by simp
    qed (use mine panic in simp)
  next
    case (xchg i)
    have cpu: "lk_cpu (locks s ! i) \<noteq> Some me" using D(2) [OF xchg(1), of me] xchg(5) by (simp add: c_def)
    show ?thesis
    proof (cases "lk_locked (locks s ! i)")
      case False
      have "cpu_ok ?m (c\<lparr>c_todo := r, c_held := i # c_held c\<rparr>)" using xchg n d f by (intro cpu_okI [OF _ phaseI(5) [of i]]) auto
      then have "smp_inv (updc me (\<lambda>c. c\<lparr>c_todo := r, c_held := i # c_held c\<rparr>) (updl i (\<lambda>l. l\<lparr>lk_locked := True\<rparr>) s))"
        by (rule lock_rule [OF xchg(1)]) (use todo' xchg False cpu in \<open>simp_all add: untagged_def code_defs\<close>)
      then show ?thesis using xchg False by simp
    qed (use xchg inv in simp)
  next
    case (setcpu i)
    have "cpu_ok ?m (c\<lparr>c_todo := r\<rparr>)" using setcpu n d f by (intro cpu_okI [OF _ phaseI(5) [of i]]) auto
    then show ?thesis unfolding setcpu(3) exec_instr.simps
      by (rule lock_rule [OF setcpu(1)]) (use todo' setcpu locked in \<open>simp_all add: untagged_def code_defs\<close>)
  next
    case (setpcs i)
    have "cpu_ok ?m (c\<lparr>c_todo := r\<rparr>)" using setpcs n d f by (intro cpu_okI [OF _ phaseI(1)]) auto
    then show ?thesis unfolding setpcs(3) exec_instr.simps
      by (rule lock_rule [OF setpcs(1)]) (use todo' setpcs locked tagged in \<open>simp_all add: untagged_def code_defs\<close>)
  next
    case (unlocked i)
    have "cpu_ok ?m (c\<lparr>c_todo := r\<rparr>)" using unlocked n d f by (intro cpu_okI [OF _ phaseI(2)]) auto
    then have "smp_inv (updc me (\<lambda>c. c\<lparr>c_todo := r\<rparr>) s)"
      by (rule cpu_rule) (use todo' unlocked in \<open>simp_all add: untagged_def code_defs\<close>)
    then show ?thesis using unlocked panic by simp
  next
    case (notmine i)
    have held: "lk_cpu (locks s ! i) = Some me \<longleftrightarrow> i \<in> set (c_held c)"
      using D(2) [OF notmine(1), of me] me todo' notmine by (simp add: untagged_def c_def)
    show ?thesis
    proof (cases "lk_cpu (locks s ! i) = Some me")
      case True
      then have "cpu_ok ?m (c\<lparr>c_todo := r\<rparr>)" using notmine n d f held by (intro cpu_okI [OF _ phaseI(5) [of i]]) auto
      then have "smp_inv (updc me (\<lambda>c. c\<lparr>c_todo := r\<rparr>) s)"
        by (rule cpu_rule) (use todo' notmine in \<open>simp_all add: untagged_def code_defs\<close>)
      then show ?thesis using notmine True by simp
    qed (use notmine panic in simp)
  next
    case (clearpcs i)
    have "cpu_ok ?m (c\<lparr>c_todo := r\<rparr>)" using clearpcs n d f by (intro cpu_okI [OF _ phaseI(5) [of i]]) auto
    then show ?thesis unfolding clearpcs(3) exec_instr.simps
      by (rule lock_rule [OF clearpcs(1)]) (use todo' clearpcs locked tagged in \<open>simp_all add: untagged_def code_defs\<close>)
  next
    case (clearcpu i)
    have "cpu_ok ?m (c\<lparr>c_todo := r\<rparr>)" using clearcpu n d f by (intro cpu_okI [OF _ phaseI(5) [of i]]) auto
    then show ?thesis unfolding clearcpu(3) exec_instr.simps
      by (rule lock_rule [OF clearcpu(1)]) (use todo' clearcpu locked tagged in \<open>simp_all add: untagged_def code_defs\<close>)
  next
    case (unlock i)
    have cpu: "lk_cpu (locks s ! i) \<noteq> Some me" using D(2) [OF unlock(1), of me] todo' unlock(3) by (simp add: c_def untagged_def)
    have "length (c_held c) = Suc (length (remove1 i (c_held c)))"
      using length_pos_if_in_set [OF unlock(5)] unlock(5) by (simp add: length_remove1)
    then have "cpu_ok ?m (c\<lparr>c_todo := r, c_held := remove1 i (c_held c)\<rparr>)"
      using unlock n d f by (intro cpu_okI [OF _ phaseI(6) [of i]]) auto
    then show ?thesis unfolding unlock(3) exec_instr.simps
      by (rule lock_rule [OF unlock(1)]) (use todo' unlock d cpu in \<open>simp_all add: untagged_def code_defs\<close>)
  next
    case pop
    have p: "\<not> c_if c" "c_ncli c > 0" using n f pop(1) by auto
    have "cpu_ok ?m ((popcli c)\<lparr>c_todo := r\<rparr>)"
      using pop n d popcli_simps [OF p] by (intro cpu_okI [OF _ phaseI(1)]) auto
    then show ?thesis unfolding pop(2) exec_instr.simps
      by (rule cpu_rule) (use todo' pop popcli_simps [OF p] in \<open>simp_all add: untagged_def\<close>)
  qed
qed

lemma step_preserves: "smp_step s t \<Longrightarrow> smp_inv s \<Longrightarrow> smp_inv t"
proof (induction rule: smp_step.induct)
  case (call_acquire me s i)
  then show ?case using smp_invD(1) [of s me]
    by (intro smp_inv_cpu) (auto simp: cpu_ok_def phase_def untagged_def code_defs)
next
  case (call_release me s i)
  then show ?case using smp_invD(1) [of s me]
    by (intro smp_inv_cpu) (auto simp: cpu_ok_def phase_def untagged_def code_defs)
next
  case (call_pushcli me s)
  then show ?case using smp_invD(1) [of s me]
    by (intro smp_inv_cpu) (auto simp: cpu_ok_def phase_def untagged_def code_defs)
next
  case (call_popcli me s n)
  have k: "cpu_ok (length (locks s)) (cpus s ! me)" using call_popcli smp_invD(1) by simp
  have n: "c_ncli (cpus s ! me) > 0" and f: "\<not> c_if (cpus s ! me)" using k call_popcli(4) by (auto simp: cpu_ok_def)
  show ?case using call_popcli k popcli_simps [OF f n]
    by (intro smp_inv_cpu) (auto simp: cpu_ok_def phase_def untagged_def code_defs)
next
  case (set_if me s b)
  then show ?case using smp_invD(1) [of s me]
    by (intro smp_inv_cpu) (auto simp: cpu_ok_def phase_def untagged_def)
next
  case (instr me s x r pcs)
  then show ?case by (intro instr_preserves)
qed

lemma smp_inv_init: "smp_inv (smp0 n m)"
  by (auto simp: smp_inv_def smp0_def initlock_def cpu_ok_def phase_def)

lemma reachable_inv: "smp_step\<^sup>*\<^sup>* (smp0 n m) s \<Longrightarrow> smp_inv s"
  by (induction rule: rtranclp_induct) (auto intro: step_preserves smp_inv_init)

section \<open>What the locks promise\<close>

text \<open>
  C5. Mutual exclusion, however the processors interleave the memory accesses of \<open>acquire\<close> and \<open>release\<close>, nest locks and
  call for locks they have or have not: no two processors have the same lock at once.
\<close>

theorem spinlock_mutual_exclusion:
  assumes "smp_step\<^sup>*\<^sup>* (smp0 n m) s" "p < length (cpus s)" "q < length (cpus s)"
    and "i \<in> set (c_held (cpus s ! p))" "i \<in> set (c_held (cpus s ! q))"
  shows "p = q"
  by (rule smp_invD(4) [OF reachable_inv [OF assms(1)] assms(2-5)])

text \<open>
  C17. \<open>holding\<close> is exact for the processor that asks, although it reads the two fields without the lock: for a processor that is
  not inside one of the two calls it is true exactly of the locks the processor has, and while it has any its
  interrupts are off.
\<close>

theorem holding_exact:
  assumes "smp_step\<^sup>*\<^sup>* (smp0 n m) s" "p < length (cpus s)" "i < length (locks s)" "c_todo (cpus s ! p) = []"
  shows "(holding p (locks s ! i) \<longleftrightarrow> i \<in> set (c_held (cpus s ! p))) \<and> (c_held (cpus s ! p) \<noteq> [] \<longrightarrow> \<not> c_if (cpus s ! p))"
proof
  note D = smp_invD [OF reachable_inv [OF assms(1)]]
  show "holding p (locks s ! i) \<longleftrightarrow> i \<in> set (c_held (cpus s ! p))"
    using D(2) [OF assms(3), of p] D(3) [OF assms(3)] assms(2,4) by (auto simp: holding_def untagged_def)
  show "c_held (cpus s ! p) \<noteq> [] \<longrightarrow> \<not> c_if (cpus s ! p)"
    using D(1) [OF assms(2)] by (cases "c_held (cpus s ! p)") (auto simp: cpu_ok_def)
qed

text \<open>Two processors: the first has taken the lock and the second is about to ask for it.\<close>

primrec advance :: "nat \<Rightarrow> nat \<Rightarrow> smp \<Rightarrow> smp" where
  "advance me 0 s = s"
| "advance me (Suc k) s = (let t = advance me k s; todo = c_todo (cpus t ! me) in exec_instr [7] me (hd todo) (tl todo) t)"

lemma advance_reaches:
  "list_all (\<lambda>j. let c = cpus (advance me j s) ! me in me < length (cpus (advance me j s)) \<and> c_panic c = None \<and> c_todo c \<noteq> []) [0..<k] \<Longrightarrow>
   smp_step\<^sup>*\<^sup>* s (advance me k s)"
proof (induction k)
  case (Suc k)
  let ?t = "advance me k s"
  have "smp_step\<^sup>*\<^sup>* s ?t" using Suc by simp
  moreover have "smp_step ?t (advance me (Suc k) s)"
    using Suc.prems instr [of me ?t _ _ "[7]"] by (auto simp: Let_def neq_Nil_conv)
  ultimately show ?case by simp
qed simp

definition smp1 :: smp where
  "smp1 = updc 1 (\<lambda>c. c\<lparr>c_todo := acquire 0\<rparr>) (advance 0 5 (updc 0 (\<lambda>c. c\<lparr>c_todo := acquire 0\<rparr>) (smp0 2 1)))"

lemma smp1_reachable: "smp_step\<^sup>*\<^sup>* (smp0 2 1) smp1"
proof -
  let ?a = "updc 0 (\<lambda>c. c\<lparr>c_todo := acquire 0\<rparr>) (smp0 2 1)"
  have "smp_step (smp0 2 1) ?a" by (rule call_acquire) (simp_all add: smp0_def numeral_2_eq_2)
  moreover have "smp_step\<^sup>*\<^sup>* ?a (advance 0 5 ?a)" by (rule advance_reaches) code_simp
  moreover have "smp_step (advance 0 5 ?a) smp1"
    unfolding smp1_def by (rule call_acquire) code_simp+
  ultimately show ?thesis by (meson converse_rtranclp_into_rtranclp rtranclp.rtrancl_into_rtrancl)
qed

lemma smp1_state:
  "length (cpus smp1) = 2 \<and> length (locks smp1) = 1 \<and> c_held (cpus smp1 ! 0) = [0] \<and> c_todo (cpus smp1 ! 0) = []"
  by code_simp

theorem spinlock_mutual_exclusion_witness: "0 \<in> set (c_held (cpus smp1 ! 0)) \<and> 0 \<notin> set (c_held (cpus smp1 ! 1))"
  using spinlock_mutual_exclusion [OF smp1_reachable, of 0 1 0] smp1_state by auto

theorem holding_exact_witness: "holding 0 (locks smp1 ! 0) \<and> \<not> c_if (cpus smp1 ! 0)"
  using holding_exact [OF smp1_reachable, of 0 0] smp1_state by simp

end
