(* ===== verification/Grep.thy ===== *)
theory Grep
  imports CString
begin

text \<open>
  The program \<open>grep\<close> (\<open>grep.c\<close>): the pattern matcher, and the loop that cuts a file read in pieces into lines. A pattern or a text is
  the list of the characters before its NUL.
\<close>

section \<open>The matcher\<close>

text \<open>Characters: \<open>^\<close> is 94, \<open>$\<close> is 36, \<open>.\<close> is 46 and \<open>*\<close> is 42.\<close>

function (sequential) matchhere :: "uchar list \<Rightarrow> uchar list \<Rightarrow> bool"
  and matchstar :: "uchar \<Rightarrow> uchar list \<Rightarrow> uchar list \<Rightarrow> bool" where
  "matchhere [] text = True"
| "matchhere (r # re) text =
    (if re \<noteq> [] \<and> hd re = 42 then matchstar r (tl re) text
     else if r = 36 \<and> re = [] then text = []
     else if text \<noteq> [] \<and> (r = 46 \<or> r = hd text) then matchhere re (tl text)
     else False)"
| "matchstar c re text =
    (if matchhere re text then True
     else if text \<noteq> [] \<and> (hd text = c \<or> c = 46) then matchstar c re (tl text)
     else False)"
  by pat_completeness auto
termination
  by (relation "measure (case_sum (\<lambda>(re, text). 2 * length re + length text) (\<lambda>(c, re, text). 2 * length re + length text + 1))")
    (auto simp: neq_Nil_conv)

fun match_from :: "uchar list \<Rightarrow> uchar list \<Rightarrow> bool" where
  "match_from re [] = matchhere re []"
| "match_from re (t # text) = (if matchhere re (t # text) then True else match_from re text)"

definition match :: "uchar list \<Rightarrow> uchar list \<Rightarrow> bool" where
  "match re text = (if re \<noteq> [] \<and> hd re = 94 then matchhere (tl re) text else match_from re text)"

section \<open>What a pattern means\<close>

text \<open>A pattern is a sequence of characters to match, each possibly starred, and may be tied to the end of the text.\<close>

datatype item = One uchar | Star uchar

definition fits :: "uchar \<Rightarrow> uchar \<Rightarrow> bool" where
  "fits r c \<longleftrightarrow> r = 46 \<or> r = c"

fun items :: "uchar list \<Rightarrow> item list \<times> bool" where
  "items [] = ([], False)"
| "items [r] = (if r = 36 then ([], True) else ([One r], False))"
| "items (r # r' # re) =
    (if r' = 42 then let (is, e) = items re in (Star r # is, e)
     else let (is, e) = items (r' # re) in (One r # is, e))"

text \<open>The texts that a sequence of items describes.\<close>

fun lang :: "item list \<Rightarrow> uchar list set" where
  "lang [] = {[]}"
| "lang (One r # is) = {c # u |c u. fits r c \<and> u \<in> lang is}"
| "lang (Star r # is) = {v @ u |v u. list_all (fits r) v \<and> u \<in> lang is}"

text \<open>A match at the start of a text: some prefix is described, the whole text if the pattern is tied to its end.\<close>

definition prefix_match :: "item list \<times> bool \<Rightarrow> uchar list \<Rightarrow> bool" where
  "prefix_match p text \<longleftrightarrow> (\<exists>u v. text = u @ v \<and> u \<in> lang (fst p) \<and> (snd p \<longrightarrow> v = []))"

lemma prefix_matchI: "u \<in> lang is \<Longrightarrow> (e \<Longrightarrow> v = []) \<Longrightarrow> prefix_match (is, e) (u @ v)"
  by (auto simp: prefix_match_def)

lemma prefix_matchE:
  assumes "prefix_match (is, e) text"
  obtains u v where "text = u @ v" "u \<in> lang is" "e \<longrightarrow> v = []"
  using assms unfolding prefix_match_def fst_conv snd_conv by blast

lemma prefix_match_Nil: "prefix_match ([], e) text \<longleftrightarrow> \<not> e \<or> text = []"
  by (auto simp: prefix_match_def)

lemma prefix_match_One:
  "prefix_match (One r # is, e) text \<longleftrightarrow> (\<exists>c t. text = c # t \<and> fits r c \<and> prefix_match (is, e) t)"
proof
  assume "prefix_match (One r # is, e) text"
  then show "\<exists>c t. text = c # t \<and> fits r c \<and> prefix_match (is, e) t"
  proof (rule prefix_matchE)
    fix x v assume x: "text = x @ v" "x \<in> lang (One r # is)" "e \<longrightarrow> v = []"
    then obtain c u where "x = c # u" "fits r c" "u \<in> lang is" by auto
    then show ?thesis using x prefix_matchI [of u "is" e v] by auto
  qed
next
  assume "\<exists>c t. text = c # t \<and> fits r c \<and> prefix_match (is, e) t"
  then obtain c t where c: "text = c # t" "fits r c" "prefix_match (is, e) t" by blast
  obtain u v where "t = u @ v" "u \<in> lang is" "e \<longrightarrow> v = []" using c(3) by (rule prefix_matchE)
  then show "prefix_match (One r # is, e) text" using prefix_matchI [of "c # u" "One r # is" e v] c(1,2) by simp
qed

lemma prefix_match_StarI:
  assumes "list_all (fits r) w" "prefix_match (is, e) t"
  shows "prefix_match (Star r # is, e) (w @ t)"
proof -
  obtain u v where "t = u @ v" "u \<in> lang is" "e \<longrightarrow> v = []" using assms(2) by (rule prefix_matchE)
  then show ?thesis using prefix_matchI [of "w @ u" "Star r # is" e v] assms(1) by auto
qed

lemma prefix_match_StarE:
  assumes "prefix_match (Star r # is, e) text"
  obtains w t where "text = w @ t" "list_all (fits r) w" "prefix_match (is, e) t"
proof -
  obtain x v where x: "text = x @ v" "x \<in> lang (Star r # is)" "e \<longrightarrow> v = []" using assms by (rule prefix_matchE)
  then obtain w u where "x = w @ u" "list_all (fits r) w" "u \<in> lang is" by auto
  then show thesis using x prefix_matchI [of u "is" e v] by (intro that [of w "u @ v"]) auto
qed

lemma prefix_match_Star:
  "prefix_match (Star r # is, e) text \<longleftrightarrow>
     prefix_match (is, e) text \<or> (\<exists>c t. text = c # t \<and> fits r c \<and> prefix_match (Star r # is, e) t)"
proof
  assume "prefix_match (Star r # is, e) text"
  then show "prefix_match (is, e) text \<or> (\<exists>c t. text = c # t \<and> fits r c \<and> prefix_match (Star r # is, e) t)"
  proof (rule prefix_match_StarE)
    fix w t assume "text = w @ t" "list_all (fits r) w" "prefix_match (is, e) t"
    then show ?thesis by (cases w) (auto intro: prefix_match_StarI)
  qed
next
  assume "prefix_match (is, e) text \<or> (\<exists>c t. text = c # t \<and> fits r c \<and> prefix_match (Star r # is, e) t)"
  then show "prefix_match (Star r # is, e) text"
  proof
    assume "prefix_match (is, e) text"
    then show ?thesis using prefix_match_StarI [of r "[]"] by simp
  next
    assume "\<exists>c t. text = c # t \<and> fits r c \<and> prefix_match (Star r # is, e) t"
    then obtain c t where c: "text = c # t" "fits r c" "prefix_match (Star r # is, e) t" by blast
    obtain w t' where "t = w @ t'" "list_all (fits r) w" "prefix_match (is, e) t'" using c(3) by (rule prefix_match_StarE)
    then show ?thesis using prefix_match_StarI [of r "c # w" "is" e t'] c(1,2) by simp
  qed
qed

lemma matchhere_prefix:
  "matchhere re text \<longleftrightarrow> prefix_match (items re) text"
  "matchstar c re text \<longleftrightarrow> prefix_match (Star c # fst (items re), snd (items re)) text"
proof (induction re "text" and c re "text" rule: matchhere_matchstar.induct)
  case (2 r re "text")
  show ?case
  proof (cases re)
    case Nil
    then show ?thesis using 2
      by (auto simp: prefix_match_Nil prefix_match_One fits_def neq_Nil_conv)
  next
    case (Cons r' re')
    then show ?thesis using 2
      by (cases "text") (auto simp: prefix_match_One fits_def case_prod_unfold Let_def)
  qed
next
  case (3 c re "text")
  then show ?case
    by (subst matchstar.simps, subst prefix_match_Star) (cases "text", auto simp: fits_def)
qed (auto simp: prefix_match_Nil)

lemma match_from_suffix: "match_from re text \<longleftrightarrow> (\<exists>x t. text = x @ t \<and> matchhere re t)"
proof (induction "text")
  case (Cons c "text")
  have "(\<exists>x t. c # text = x @ t \<and> matchhere re t) \<longleftrightarrow> matchhere re (c # text) \<or> (\<exists>x t. text = x @ t \<and> matchhere re t)"
    by (metis append_Cons append_Nil append_eq_Cons_conv)
  then show ?case using Cons by simp
qed simp

text \<open>
  C18. The matcher decides exactly what a pattern means: a pattern that starts with \<open>^\<close> matches a text if a prefix of the text is in
  the language of the rest of the pattern, any other pattern if some part of the text is in its language, and with \<open>$\<close> at the end that part
  has to reach the end of the text. A character followed by \<open>*\<close> stands for any number of it, and \<open>.\<close> for any character.
\<close>

theorem match_decides:
  "match re text \<longleftrightarrow> (if re \<noteq> [] \<and> hd re = 94 then prefix_match (items (tl re)) text
     else \<exists>x t. text = x @ t \<and> prefix_match (items re) t)"
  by (simp add: match_def match_from_suffix matchhere_prefix(1))

section \<open>The lines of a file\<close>

text \<open>
  \<open>grep\<close> over the bytes \<open>inp\<close> of a file, with what it writes as the result. \<open>left\<close> is the start of the buffer, the first \<open>m\<close> bytes, that a read
  left over; the limits in \<open>ks\<close> are those of reads that return fewer bytes than asked for, as a pipe's do, and the reads behind them
  are complete. A line is matched in the buffer with its newline replaced by a NUL.
\<close>

function grep_lines :: "uchar list \<Rightarrow> uchar list \<Rightarrow> uchar list \<times> uchar list" where
  "grep_lines pat p =
    (case strchr p 10 of
       None \<Rightarrow> (p, [])
     | Some i \<Rightarrow> let (rest, out) = grep_lines pat (drop (i + 1) p) in
         (rest, (if match pat (take i p) then take (i + 1) p else []) @ out))"
  by auto
termination
proof (relation "measure (\<lambda>(pat, p). length p)")
  fix pat p i assume "strchr p 10 = Some i"
  then show "((pat, drop (i + 1) p), pat, p) \<in> measure (\<lambda>(pat, p). length p)" by (cases p) auto
qed simp

declare grep_lines.simps [simp del]

function grep_loop :: "uchar list \<Rightarrow> uchar list \<Rightarrow> nat list \<Rightarrow> uchar list \<Rightarrow> uchar list" where
  "grep_loop pat left ks inp =
    (let k = 1024 - length left - 1;
         n = min (length inp) (if ks = [] then k else min k (hd ks)) in
     if n = 0 then []
     else let b = left @ take n inp; (p, out) = grep_lines pat b
          in out @ grep_loop pat (if length p = length b then [] else p) (tl ks) (drop n inp))"
  by pat_completeness auto
termination by (relation "measure (\<lambda>(pat, left, ks, inp). length inp)") auto

declare grep_loop.simps [simp del]

definition grep :: "uchar list \<Rightarrow> nat list \<Rightarrow> uchar list \<Rightarrow> uchar list" where
  "grep pat ks inp = grep_loop pat [] ks inp"

text \<open>The complete lines of a text, and what is behind the last of them.\<close>

fun lines :: "uchar list \<Rightarrow> uchar list list" where
  "lines [] = []"
| "lines (c # cs) = (if c = 10 then [] # lines cs
     else if 10 \<in> set cs then (c # hd (lines cs)) # tl (lines cs) else [])"

fun last_part :: "uchar list \<Rightarrow> uchar list" where
  "last_part [] = []"
| "last_part (c # cs) = (if 10 \<in> set (c # cs) then last_part cs else c # cs)"

definition printed :: "uchar list \<Rightarrow> uchar list list \<Rightarrow> uchar list" where
  "printed pat ls = concat (map (\<lambda>l. l @ [10]) (filter (match pat) ls))"

lemma lines_none: "10 \<notin> set cs \<Longrightarrow> lines cs = []" "10 \<notin> set cs \<Longrightarrow> last_part cs = cs"
  by (induction cs) auto

lemma lines_first: "10 \<notin> set l \<Longrightarrow> lines (l @ 10 # cs) = l # lines cs"
  by (induction l) auto

lemma last_part_first: "10 \<notin> set l \<Longrightarrow> last_part (l @ 10 # cs) = last_part cs"
  by (induction l) (auto simp: lines_none(2))

lemma first_line:
  assumes "10 \<in> set cs"
  obtains l cs' where "cs = l @ 10 # cs'" "10 \<notin> set l"
  using split_list_first [OF assms] by blast

lemma lines_append: "lines (b @ c) = lines b @ lines (last_part b @ c)"
proof (induction b rule: measure_induct_rule [of length])
  case (less b)
  show ?case
  proof (cases "10 \<in> set b")
    case True
    then obtain l b' where b: "b = l @ 10 # b'" "10 \<notin> set l" by (rule first_line)
    then show ?thesis using less [of b'] by (simp add: lines_first last_part_first)
  qed (simp add: lines_none)
qed

lemma last_part_less: "10 \<in> set b \<Longrightarrow> length (last_part b) < length b"
proof (induction b rule: measure_induct_rule [of length])
  case (less b)
  then obtain l b' where b: "b = l @ 10 # b'" "10 \<notin> set l" by (metis first_line)
  show ?case
  proof (cases "10 \<in> set b'")
    case True
    then show ?thesis using less(1) [of b'] b by (simp add: last_part_first)
  qed (simp add: b last_part_first lines_none)
qed

lemma last_part_set: "set (last_part b) \<subseteq> set b" "10 \<notin> set (last_part b)"
  by (induction b) auto

lemma strchr_first: "0 \<notin> set l \<Longrightarrow> 10 \<notin> set l \<Longrightarrow> strchr (l @ 10 # cs) 10 = Some (length l)"
  by (induction l) auto

lemma grep_lines_correct:
  "0 \<notin> set b \<Longrightarrow> grep_lines pat b = (last_part b, printed pat (lines b))"
proof (induction b rule: measure_induct_rule [of length])
  case (less b)
  show ?case
  proof (cases "10 \<in> set b")
    case True
    then obtain l b' where b: "b = l @ 10 # b'" "10 \<notin> set l" by (rule first_line)
    have "strchr b 10 = Some (length l)" using strchr_first [of l b'] less.prems b by simp
    then show ?thesis using less.IH [of b'] less.prems b
      by (subst grep_lines.simps) (simp add: printed_def lines_first last_part_first)
  next
    case False
    then have "strchr b 10 = None" by (auto simp: strchr_None dest: in_set_takeD)
    then show ?thesis using False by (subst grep_lines.simps) (simp add: lines_none printed_def)
  qed
qed

text \<open>A text of more than \<open>k\<close> characters without a newline is not the start of a line of at most \<open>k\<close> characters.\<close>

lemma long_start:
  assumes "10 \<notin> set b" "list_all (\<lambda>l. length l \<le> k) (lines (b @ c))" "k < length b"
  shows "10 \<notin> set c"
proof
  assume "10 \<in> set c"
  then obtain l c' where "c = l @ 10 # c'" "10 \<notin> set l" by (rule first_line)
  then have "lines (b @ c) = (b @ l) # lines c'" using lines_first [of "b @ l" c'] assms(1) by simp
  then show False using assms(2,3) by simp
qed

lemma grep_loop_step:
  assumes "min (length inp) (1024 - length left - 1) = n" "0 < n" "left @ take n inp = b" "grep_lines pat b = (p, out)"
  shows "grep_loop pat left [] inp = out @ grep_loop pat (if length p = length b then [] else p) [] (drop n inp)"
  using assms(2) by (subst grep_loop.simps) (simp only: Let_def if_True assms(1,3,4) list.sel prod.case HOL.simp_thms, simp)

lemma grep_loop_correct:
  assumes "0 \<notin> set left" "0 \<notin> set inp" "10 \<notin> set left" "length left < 1023" "list_all (\<lambda>l. length l < 1023) (lines (left @ inp))"
  shows "grep_loop pat left [] inp = printed pat (lines (left @ inp))"
  using assms
proof (induction inp arbitrary: left rule: measure_induct_rule [of length])
  case (less inp)
  define n where "n = min (length inp) (1023 - length left)"
  define b where "b = left @ take n inp"
  define left' where "left' = (if length (last_part b) = length b then [] else last_part b)"
  show ?case
  proof (cases "inp = []")
    case True
    then show ?thesis using less.prems(3) by (subst grep_loop.simps) (simp add: lines_none printed_def)
  next
    case False
    have n: "n > 0" using False less.prems(4) by (simp add: n_def)
    have b0: "0 \<notin> set b" using less.prems(1,2) by (auto simp: b_def dest: in_set_takeD)
    have split: "left @ inp = b @ drop n inp" by (simp add: b_def)
    have u: "grep_loop pat left [] inp = printed pat (lines b) @ grep_loop pat left' [] (drop n inp)"
      using grep_loop_step [OF _ n b_def [symmetric] grep_lines_correct [OF b0]] by (simp add: n_def left'_def)
    have same: "lines (left' @ drop n inp) = lines (last_part b @ drop n inp)"
    proof (cases "10 \<in> set b")
      case True
      then show ?thesis using last_part_less [of b] by (simp add: left'_def)
    next
      case False
      then have l: "last_part b = b" "left' = []" by (simp_all add: lines_none left'_def)
      have "10 \<notin> set (drop n inp)"
      proof (cases "n = length inp")
        case False
        then have "length b = 1023" using less.prems(4) by (simp add: b_def n_def)
        moreover have "list_all (\<lambda>l. length l \<le> 1022) (lines (b @ drop n inp))"
          using less.prems(5) unfolding split by (simp add: less_Suc_eq_le flip: Suc_le_eq)
        ultimately show ?thesis using long_start [OF \<open>10 \<notin> set b\<close>] by simp
      qed simp
      then show ?thesis using l False by (simp add: lines_none)
    qed
    have lb: "length b \<le> 1023" using less.prems(4) by (simp add: b_def n_def)
    have "grep_loop pat left' [] (drop n inp) = printed pat (lines (left' @ drop n inp))"
    proof (rule less.IH)
      show "length (drop n inp) < length inp" using n False by simp
      show "0 \<notin> set left'" "10 \<notin> set left'" using last_part_set [of b] b0 by (auto simp: left'_def)
      show "0 \<notin> set (drop n inp)" using less.prems(2) by (auto dest: in_set_dropD)
      show "length left' < 1023" using last_part_less [of b] lines_none(2) [of b] lb by (cases "10 \<in> set b") (simp_all add: left'_def)
      show "list_all (\<lambda>l. length l < 1023) (lines (left' @ drop n inp))"
        using less.prems(5) unfolding same split lines_append [of b] by simp
    qed
    then show ?thesis unfolding u split lines_append [of b] by (simp add: same printed_def)
  qed
qed

text \<open>
  C19. \<open>grep\<close> prints exactly the lines of a file that match, whole and in their order, although it reads the file in pieces
  and lines straddle them: for a file without NULs whose lines are shorter than its buffer, read to the end by reads that return all they are asked for. What stands behind the last
  newline is not looked at.
\<close>

theorem grep_prints_matching_lines:
  assumes "0 \<notin> set inp" "list_all (\<lambda>l. length l < 1023) (lines inp)"
  shows "grep pat [] inp = printed pat (lines inp)"
  using grep_loop_correct [of "[]" inp pat] assms by (simp add: grep_def)

text \<open>The pattern \<open>b*a$\<close> and the lines \<open>ab\<close>, \<open>bba\<close> and \<open>c\<close>.\<close>

theorem grep_prints_matching_lines_witness:
  "grep [98, 42, 97, 36] [] [97, 98, 10, 98, 98, 97, 10, 99, 10, 97] = [98, 98, 97, 10]"
proof -
  have "printed [98, 42, 97, 36] (lines [97, 98, 10, 98, 98, 97, 10, 99, 10, 97]) = [98, 98, 97, 10]" by code_simp
  then show ?thesis using grep_prints_matching_lines [of "[97, 98, 10, 98, 98, 97, 10, 99, 10, 97]" "[98, 42, 97, 36]"] by simp
qed

text \<open>
  A line that arrives in two reads of which the first holds no newline is lost: a buffer without a newline is thrown away even when it is
  not full.
\<close>

theorem grep_loses_short_reads: "grep [97] [1] [97, 98, 10] = [] \<and> grep [97] [] [97, 98, 10] = [97, 98, 10]"
  by code_simp

end
