(* ===== verification/Umalloc.thy ===== *)
theory Umalloc
  imports Prelude
begin

text \<open>
  The allocator of user programs (\<open>umalloc.c\<close>): a ring of free blocks in the order of their addresses, searched from where the
  last search ended, with neighbouring blocks joined when they are freed.
\<close>

section \<open>Blocks\<close>

text \<open>
  Addresses are bytes and sizes count headers of 8 bytes. A header is the pair of \<open>u_ptr\<close> and \<open>u_size\<close> at its address; \<open>u_base\<close> is the address of
  the static header \<open>base\<close>, and \<open>u_freep = 0\<close> before the first call. The heap ends at \<open>u_brk\<close>, and \<open>u_max\<close> is as far as
  the kernel lets it grow.
\<close>

record uheap =
  u_ptr :: "nat \<Rightarrow> nat"
  u_size :: "nat \<Rightarrow> nat"
  u_freep :: nat
  u_base :: nat
  u_brk :: nat
  u_max :: nat

definition set_ptr :: "nat \<Rightarrow> nat \<Rightarrow> uheap \<Rightarrow> uheap" where
  "set_ptr a p s = s\<lparr>u_ptr := (u_ptr s)(a := p)\<rparr>"

definition set_size :: "nat \<Rightarrow> nat \<Rightarrow> uheap \<Rightarrow> uheap" where
  "set_size a n s = s\<lparr>u_size := (u_size s)(a := n)\<rparr>"

text \<open>The search of \<open>free\<close> for the place of a block; it may not end on a ring that is not in order.\<close>

partial_function (option) free_scan :: "uheap \<Rightarrow> nat \<Rightarrow> nat \<Rightarrow> nat option" where
  "free_scan s bp p =
    (if bp > p \<and> bp < u_ptr s p then Some p
     else if p \<ge> u_ptr s p \<and> (bp > p \<or> bp < u_ptr s p) then Some p
     else free_scan s bp (u_ptr s p))"

declare free_scan.simps [code]

definition link_block :: "nat \<Rightarrow> nat \<Rightarrow> uheap \<Rightarrow> uheap" where
  "link_block bp p s =
    (let s = (if bp + 8 * u_size s bp = u_ptr s p
              then let s = set_size bp (u_size s bp + u_size s (u_ptr s p)) s in set_ptr bp (u_ptr s (u_ptr s p)) s
              else set_ptr bp (u_ptr s p) s);
         s = (if p + 8 * u_size s p = bp
              then let s = set_size p (u_size s p + u_size s bp) s in set_ptr p (u_ptr s bp) s
              else set_ptr p bp s)
     in s\<lparr>u_freep := p\<rparr>)"

definition free :: "nat \<Rightarrow> uheap \<Rightarrow> uheap option" where
  "free ap s = (let bp = ap - 8 in map_option (\<lambda>p. link_block bp p s) (free_scan s bp (u_freep s)))"

text \<open>\<open>sbrk\<close> returns the old end of the heap, or \<open>None\<close> for \<open>-1\<close>; a negative argument shrinks the heap.\<close>

definition sbrk :: "int \<Rightarrow> uheap \<Rightarrow> nat option \<times> uheap" where
  "sbrk n s = (if int (u_brk s) + n < 0 \<or> int (u_brk s) + n > int (u_max s) then (None, s)
     else (Some (u_brk s), s\<lparr>u_brk := nat (int (u_brk s) + n)\<rparr>))"

text \<open>The new \<open>freep\<close>, or \<open>0\<close>.\<close>

definition morecore :: "uint32 \<Rightarrow> uheap \<Rightarrow> (nat \<times> uheap) option" where
  "morecore nu s =
    (let nu = (if nu < 4096 then 4096 else nu) in
     case sbrk (sint (nu * 8)) s of
       (None, s) \<Rightarrow> Some (0, s)
     | (Some hp, s) \<Rightarrow> map_option (\<lambda>s. (u_freep s, s)) (free (hp + 8) (set_size hp (unat nu) s)))"

text \<open>Taking \<open>n\<close> headers from the block \<open>p\<close>, from its end.\<close>

definition take_block :: "nat \<Rightarrow> nat \<Rightarrow> nat \<Rightarrow> uheap \<Rightarrow> nat \<times> uheap" where
  "take_block n prevp p s =
    (if u_size s p = n then (p + 8, (set_ptr prevp (u_ptr s p) s)\<lparr>u_freep := prevp\<rparr>)
     else let s = set_size p (u_size s p - n) s; q = p + 8 * u_size s p
          in (q + 8, (set_size q n s)\<lparr>u_freep := prevp\<rparr>))"

partial_function (option) malloc_scan :: "uint32 \<Rightarrow> nat \<Rightarrow> nat \<Rightarrow> uheap \<Rightarrow> (nat \<times> uheap) option" where
  "malloc_scan nunits prevp p s =
    (if u_size s p \<ge> unat nunits then Some (take_block (unat nunits) prevp p s)
     else if p = u_freep s then Option.bind (morecore nunits s) (\<lambda>(p, s). if p = 0 then Some (0, s) else malloc_scan nunits p (u_ptr s p) s)
     else malloc_scan nunits p (u_ptr s p) s)"

declare malloc_scan.simps [code]

definition init_ring :: "uheap \<Rightarrow> uheap" where
  "init_ring s = (if u_freep s = 0 then (set_size (u_base s) 0 (set_ptr (u_base s) (u_base s) s))\<lparr>u_freep := u_base s\<rparr> else s)"

definition nunits_of :: "uint32 \<Rightarrow> uint32" where
  "nunits_of nbytes = (nbytes + 8 - 1) div 8 + 1"

definition malloc :: "uint32 \<Rightarrow> uheap \<Rightarrow> (nat \<times> uheap) option" where
  "malloc nbytes s = (let nunits = nunits_of nbytes; s = init_ring s; prevp = u_freep s
     in malloc_scan nunits prevp (u_ptr s prevp) s)"

section \<open>The ring\<close>

definition succ_of :: "nat set \<Rightarrow> nat \<Rightarrow> nat \<Rightarrow> bool" where
  "succ_of N a b \<longleftrightarrow> b \<in> N \<and> (a < b \<and> (\<forall>x\<in>N. x \<le> a \<or> b \<le> x) \<or> b \<le> a \<and> (\<forall>x\<in>N. b \<le> x \<and> x \<le> a))"

definition ring :: "nat set \<Rightarrow> (nat \<Rightarrow> nat) \<Rightarrow> bool" where
  "ring N ptr \<longleftrightarrow> (\<forall>a\<in>N. succ_of N a (ptr a))"

text \<open>The node before an address that is not below all nodes.\<close>

definition pred_of :: "nat set \<Rightarrow> nat \<Rightarrow> nat \<Rightarrow> bool" where
  "pred_of N b p \<longleftrightarrow> p \<in> N \<and> p < b \<and> (\<forall>x\<in>N. x \<le> p \<or> b < x)"

lemma ring_ptr: "ring N ptr \<Longrightarrow> a \<in> N \<Longrightarrow> ptr a \<in> N"
  by (simp add: ring_def succ_of_def)

lemma card_above:
  fixes N :: "nat set"
  assumes "finite N" "q \<in> N" "p < q" "P q"
  shows "card {y \<in> N. q < y \<and> P y} < card {y \<in> N. p < y \<and> P y}"
proof (rule psubset_card_mono)
  have "{y \<in> N. q < y \<and> P y} \<subseteq> {y \<in> N. p < y \<and> P y}" using assms(3) by auto
  moreover have "q \<in> {y \<in> N. p < y \<and> P y} - {y \<in> N. q < y \<and> P y}" using assms by simp
  ultimately show "{y \<in> N. q < y \<and> P y} \<subset> {y \<in> N. p < y \<and> P y}" by blast
qed (use assms in simp)

lemma free_scan_finds:
  assumes r: "ring N (u_ptr s)" and fin: "finite N" and low: "b0 \<in> N" "b0 < bp" and new: "bp \<notin> N" and p: "p \<in> N"
  shows "\<exists>q. free_scan s bp p = Some q \<and> pred_of N bp q"
proof -
  have step: "free_scan s bp p = (if pred_of N bp p then Some p else free_scan s bp (u_ptr s p))" if p: "p \<in> N" for p
  proof -
    have "succ_of N p (u_ptr s p)" using r p by (simp add: ring_def)
    then have "(bp > p \<and> bp < u_ptr s p \<or> p \<ge> u_ptr s p \<and> (bp > p \<or> bp < u_ptr s p)) \<longleftrightarrow> pred_of N bp p"
      using p low new unfolding succ_of_def pred_of_def by (metis leD le_less_trans less_le_not_le linorder_le_less_linear nat_less_le)
    then show ?thesis by (subst free_scan.simps) auto
  qed
  have below: "\<exists>q. free_scan s bp p = Some q \<and> pred_of N bp q" if "p \<in> N" "p < bp" for p
    using that
  proof (induction "card {x \<in> N. p < x \<and> x < bp}" arbitrary: p rule: less_induct)
    case less
    show ?case
    proof (cases "pred_of N bp p")
      case False
      then obtain x where x: "x \<in> N" "p < x" "x < bp" using less.prems new unfolding pred_of_def by (metis linorder_neqE_nat not_le)
      have sp: "succ_of N p (u_ptr s p)" using r less.prems by (simp add: ring_def)
      then have u: "u_ptr s p \<in> N" "p < u_ptr s p" "u_ptr s p \<le> x" using x unfolding succ_of_def by (auto dest: bspec [of _ _ x])
      have "card {y \<in> N. u_ptr s p < y \<and> y < bp} < card {y \<in> N. p < y \<and> y < bp}"
        using u x by (intro card_above [OF fin]) simp_all
      then show ?thesis using less.hyps [of "u_ptr s p"] u x step [OF less.prems(1)] False by simp
    qed (use step [OF less.prems(1)] in simp)
  qed
  show ?thesis
    using p
  proof (induction "card {x \<in> N. p < x}" arbitrary: p rule: less_induct)
    case less
    show ?case
    proof (cases "p < bp")
      case False
      then have np: "\<not> pred_of N bp p" by (simp add: pred_of_def)
      have sp: "succ_of N p (u_ptr s p)" using r less.prems by (simp add: ring_def)
      show ?thesis
      proof (cases "p < u_ptr s p")
        case True
        have "card {y \<in> N. u_ptr s p < y} < card {y \<in> N. p < y}"
          using card_above [OF fin _ True, of "\<lambda>_. True"] sp by (simp add: succ_of_def)
        then show ?thesis using less.hyps [of "u_ptr s p"] sp step [OF less.prems] np by (simp add: succ_of_def)
      next
        case False
        then have "u_ptr s p \<in> N" "u_ptr s p \<le> b0" using sp low by (auto simp: succ_of_def)
        then show ?thesis using below [of "u_ptr s p"] low step [OF less.prems] np by simp
      qed
    qed (use below less.prems in blast)
  qed
qed

lemma succ_cases:
  assumes "succ_of N a b"
  obtains (up) "b \<in> N" "a < b" "\<forall>x\<in>N. x \<le> a \<or> b \<le> x" | (wrap) "b \<in> N" "b \<le> a" "\<forall>x\<in>N. b \<le> x \<and> x \<le> a"
  using assms unfolding succ_of_def by blast

lemma succ_upI: "b \<in> N \<Longrightarrow> a < b \<Longrightarrow> \<forall>x\<in>N. x \<le> a \<or> b \<le> x \<Longrightarrow> succ_of N a b"
  and succ_wrapI: "b \<in> N \<Longrightarrow> b \<le> a \<Longrightarrow> \<forall>x\<in>N. b \<le> x \<and> x \<le> a \<Longrightarrow> succ_of N a b"
  unfolding succ_of_def by blast+

lemma ring_insert:
  assumes r: "ring N ptr" and p: "pred_of N b p" and b: "b \<notin> N"
  shows "ring (insert b N) (ptr(b := ptr p, p := b))"
  unfolding ring_def
proof
  fix a assume a: "a \<in> insert b N"
  have pN: "p \<in> N" "p < b" "\<forall>x\<in>N. x \<le> p \<or> b < x" using p by (auto simp: pred_of_def)
  have sp: "succ_of N p (ptr p)" using r pN by (simp add: ring_def)
  consider "a = p" | "a = b" | "a \<noteq> p" "a \<noteq> b" by blast
  then show "succ_of (insert b N) a ((ptr(b := ptr p, p := b)) a)"
  proof cases
    case 1
    have "succ_of (insert b N) p b" using pN(2,3) by (intro succ_upI) auto
    then show ?thesis using 1 by simp
  next
    case 2
    have "succ_of (insert b N) b (ptr p)" using sp
    proof (cases rule: succ_cases)
      case up
      have "b < ptr p" using pN(3) up(1,2) by fastforce
      moreover have "\<forall>x\<in>N. x \<le> b \<or> ptr p \<le> x" using up(3) pN(2) by fastforce
      ultimately show ?thesis using up(1) by (intro succ_upI) auto
    next
      case wrap
      then show ?thesis using pN(2) by (intro succ_wrapI) fastforce+
    qed
    then show ?thesis using 2 pN(2) by simp
  next
    case 3
    then have aN: "a \<in> N" using a by simp
    have pa: "a < p \<or> b < a" using pN(3) aN 3 by fastforce
    have "succ_of N a (ptr a)" using aN r by (simp add: ring_def)
    then have "succ_of (insert b N) a (ptr a)"
    proof (cases rule: succ_cases)
      case up
      have "p \<le> a \<or> ptr a \<le> p" using up(3) pN(1) by blast
      then have "b \<le> a \<or> ptr a \<le> b" using pa pN(2) by linarith
      then show ?thesis using up by (intro succ_upI) auto
    next
      case wrap
      have "ptr a \<le> p" "p \<le> a" using wrap(3) pN(1) by blast+
      then have "ptr a \<le> b" "b \<le> a" using pa pN(2) by linarith+
      then show ?thesis using wrap by (intro succ_wrapI) auto
    qed
    then show ?thesis using 3 by simp
  qed
qed

lemma ring_pred_unique:
  assumes "succ_of N p a" "succ_of N c a" "p \<in> N" "c \<in> N"
  shows "c = p"
  using assms(1)
proof (cases rule: succ_cases)
  case up
  from assms(2) show ?thesis
  proof (cases rule: succ_cases)
    case up': up
    have "c \<le> p" "p \<le> c" using up(2,3) up'(2,3) assms(3,4) by force+
    then show ?thesis by simp
  qed (use up assms(3) in force)
next
  case wrap
  from assms(2) show ?thesis
  proof (cases rule: succ_cases)
    case wrap': wrap
    have "c \<le> p" "p \<le> c" using wrap(3) wrap'(3) assms(3,4) by blast+
    then show ?thesis by simp
  qed (use wrap assms(4) in force)
qed

lemma ring_delete:
  assumes r: "ring N ptr" and p: "p \<in> N" "ptr p = a" and a: "a \<noteq> p"
  shows "ring (N - {a}) (ptr(p := ptr a))"
  unfolding ring_def
proof
  fix c assume c: "c \<in> N - {a}"
  have sp: "succ_of N p a" using r p by (auto simp: ring_def)
  then have aN: "a \<in> N" by (simp add: succ_of_def)
  then have sa: "succ_of N a (ptr a)" using r by (simp add: ring_def)
  show "succ_of (N - {a}) c ((ptr(p := ptr a)) c)"
  proof (cases "c = p")
    case True
    from sp have "succ_of (N - {a}) p (ptr a)"
    proof (cases rule: succ_cases)
      case up
      from sa show ?thesis
      proof (cases rule: succ_cases)
        case up': up
        have "\<forall>x\<in>N - {a}. x \<le> p \<or> ptr a \<le> x" using up(3) up'(3) by force
        then show ?thesis using up(2) up'(1,2) by (intro succ_upI) auto
      next
        case wrap
        have "ptr a \<le> p" using wrap(3) p(1) by blast
        moreover have "\<forall>x\<in>N - {a}. ptr a \<le> x \<and> x \<le> p" using up(3) wrap(3) by force
        ultimately show ?thesis using up(2) wrap(1) by (intro succ_wrapI) auto
      qed
    next
      case wrap
      from sa show ?thesis
      proof (cases rule: succ_cases)
        case up
        have "\<forall>x\<in>N - {a}. ptr a \<le> x \<and> x \<le> p" using up(3) wrap(3) by force
        then show ?thesis using wrap(3) up(1,2) by (intro succ_wrapI) auto
      next
        case wrap': wrap
        have "p \<le> a" "a \<le> p" using wrap'(3) wrap(3) p(1) aN by blast+
        then show ?thesis using a by simp
      qed
    qed
    then show ?thesis using True by simp
  next
    case False
    then have sc: "succ_of N c (ptr c)" using c r by (simp add: ring_def)
    have "ptr c \<noteq> a" using ring_pred_unique [OF sp _ p(1)] sc c False by auto
    then have "succ_of (N - {a}) c (ptr c)" using sc by (auto simp: succ_of_def)
    then show ?thesis using False by simp
  qed
qed

section \<open>Blocks and the space they take\<close>

definition blocks :: "(nat \<Rightarrow> nat) \<Rightarrow> nat set \<Rightarrow> bool" where
  "blocks sz A \<longleftrightarrow> (\<forall>a\<in>A. 0 < sz a \<and> (\<forall>b\<in>A. a < b \<longrightarrow> a + 8 * sz a \<le> b))"

definition space :: "(nat \<Rightarrow> nat) \<Rightarrow> nat set \<Rightarrow> nat set" where
  "space sz A = (\<Union>a\<in>A. {a..<a + 8 * sz a})"

lemma space_Un: "space sz (A \<union> B) = space sz A \<union> space sz B" by (auto simp: space_def)

lemma space_cong: "(\<And>a. a \<in> A \<Longrightarrow> sz a = sz' a) \<Longrightarrow> space sz A = space sz' A" by (simp add: space_def)

lemma blocks_merge:
  assumes b: "blocks sz A" "a \<in> A" "c \<in> A" "a + 8 * sz a = c"
  shows "blocks (sz(a := sz a + sz c)) (A - {c})"
proof -
  have "x \<in> A \<Longrightarrow> a < x \<Longrightarrow> x \<noteq> c \<Longrightarrow> a + 8 * (sz a + sz c) \<le> x" for x
    using b unfolding blocks_def by (metis add.assoc add_leD1 add_mult_distrib2 le_neq_implies_less le_antisym)
  then show ?thesis using b unfolding blocks_def by auto
qed

lemma space_merge:
  assumes "a \<in> A" "a + 8 * sz a = c" "c \<in> B" "c \<notin> A" "a \<notin> B"
  shows "space (sz(a := sz a + sz c)) A = space sz A \<union> {c..<c + 8 * sz c}"
proof -
  have "{a..<a + 8 * (sz a + sz c)} = {a..<a + 8 * sz a} \<union> {c..<c + 8 * sz c}" using assms(2) by auto
  moreover have "space sz' A = space sz' (A - {a}) \<union> {a..<a + 8 * sz' a}" for sz' using assms(1) by (auto simp: space_def)
  moreover have "space (sz(a := sz a + sz c)) (A - {a}) = space sz (A - {a})" by (rule space_cong) auto
  ultimately show ?thesis by auto
qed

lemma blocks_split:
  assumes b: "blocks sz A" "a \<in> A" "0 < n" "n < sz a" and q: "q = a + 8 * (sz a - n)"
  shows "q \<notin> A" "blocks (sz(a := sz a - n, q := n)) (insert q A)"
proof -
  have e: "q + 8 * n = a + 8 * sz a" "a < q" using b(3,4) q by auto
  have up: "x \<in> A \<Longrightarrow> a < x \<Longrightarrow> q + 8 * n \<le> x" for x using b(1,2) e(1) by (auto simp: blocks_def)
  show nq: "q \<notin> A" using up [of q] e(2) b(3) by auto
  have down: "x \<in> A \<Longrightarrow> x < q \<Longrightarrow> x \<noteq> a \<Longrightarrow> x < a \<and> x + 8 * sz x \<le> q" for x
    using up [of x] b(1,2) e(2) b(3) unfolding blocks_def by (metis le_add1 le_trans less_imp_le linorder_less_linear not_le)
  have above: "x \<in> A \<Longrightarrow> q < x \<Longrightarrow> q + 8 * n \<le> x" for x using up [of x] e(2) by simp
  have pos: "x \<in> A \<Longrightarrow> 0 < sz x" "x \<in> A \<Longrightarrow> y \<in> A \<Longrightarrow> x < y \<Longrightarrow> x + 8 * sz x \<le> y" for x y using b(1) by (auto simp: blocks_def)
  show "blocks (sz(a := sz a - n, q := n)) (insert q A)"
    unfolding blocks_def
  proof (intro ballI conjI impI)
    let ?sz = "sz(a := sz a - n, q := n)"
    fix x assume x: "x \<in> insert q A"
    show "0 < ?sz x" using x b(3,4) pos(1) by auto
    fix y assume y: "y \<in> insert q A" and l: "x < y"
    consider "x = q" | "x = a" "x \<noteq> q" | "x \<noteq> a" "x \<noteq> q" by blast
    then show "x + 8 * ?sz x \<le> y"
    proof cases
      case 1
      then show ?thesis using y l above by auto
    next
      case 2
      then show ?thesis using y l up [of y] q e by auto
    next
      case 3
      then show ?thesis using x y l down pos(2) by auto
    qed
  qed
qed

lemma blocks_space_disjoint:
  assumes "blocks sz (A \<union> B)" "A \<inter> B = {}"
  shows "space sz A \<inter> space sz B = {}"
proof -
  have "{a..<a + 8 * sz a} \<inter> {b..<b + 8 * sz b} = {}" if "a \<in> A" "b \<in> B" for a b
  proof -
    have "a < b \<or> b < a" using that assms(2) by (metis IntI emptyE linorder_neqE_nat)
    then show ?thesis using assms(1) that unfolding blocks_def by fastforce
  qed
  then show ?thesis unfolding space_def by blast
qed

section \<open>The invariant of the allocator\<close>

text \<open>
  \<open>F\<close> are the free blocks and \<open>U\<close> those handed out. They tile the heap from \<open>lo\<close> to its end; the ring goes through the free ones and
  \<open>base\<close>, which lies below the heap; and no two free blocks touch.
\<close>

definition heap_inv :: "nat \<Rightarrow> uheap \<Rightarrow> nat set \<Rightarrow> nat set \<Rightarrow> bool" where
  "heap_inv lo s F U \<longleftrightarrow> finite F \<and> finite U \<and> F \<inter> U = {} \<and> blocks (u_size s) (F \<union> U) \<and> space (u_size s) (F \<union> U) = {lo..<u_brk s} \<and>
     0 < u_base s \<and> u_base s < lo \<and> u_size s (u_base s) = 0 \<and> lo \<le> u_brk s \<and> (\<forall>a\<in>F \<union> U. lo \<le> a) \<and>
     ring (insert (u_base s) F) (u_ptr s) \<and> u_freep s \<in> insert (u_base s) F \<and>
     (\<forall>a\<in>F. a + 8 * u_size s a \<notin> F)"

lemma set_simps [simp]:
  "u_ptr (set_ptr a p s) = (u_ptr s)(a := p)" "u_size (set_ptr a p s) = u_size s" "u_base (set_ptr a p s) = u_base s"
  "u_brk (set_ptr a p s) = u_brk s" "u_freep (set_ptr a p s) = u_freep s" "u_max (set_ptr a p s) = u_max s"
  "u_size (set_size a n s) = (u_size s)(a := n)" "u_ptr (set_size a n s) = u_ptr s" "u_base (set_size a n s) = u_base s"
  "u_brk (set_size a n s) = u_brk s" "u_freep (set_size a n s) = u_freep s" "u_max (set_size a n s) = u_max s"
  by (simp_all add: set_ptr_def set_size_def)

text \<open>Freeing, in the order of its three parts: the block enters the ring, takes in the block behind it, and goes into the block before it.\<close>

definition enter :: "nat \<Rightarrow> nat \<Rightarrow> uheap \<Rightarrow> uheap" where
  "enter bp p s = (set_ptr p bp (set_ptr bp (u_ptr s p) s))\<lparr>u_freep := p\<rparr>"

definition join :: "nat \<Rightarrow> uheap \<Rightarrow> uheap" where
  "join a s = (if a + 8 * u_size s a = u_ptr s a
     then set_ptr a (u_ptr s (u_ptr s a)) (set_size a (u_size s a + u_size s (u_ptr s a)) s) else s)"

lemma link_block_parts:
  assumes "p < bp" "u_ptr s p \<noteq> p \<or> bp + 8 * u_size s bp \<noteq> u_ptr s p" "u_ptr s p \<noteq> bp"
  shows "link_block bp p s = join p (join bp (enter bp p s))"
  using assms unfolding link_block_def enter_def join_def set_ptr_def set_size_def Let_def
  by (auto simp: fun_eq_iff intro!: uheap.equality)

definition heap_pre :: "nat \<Rightarrow> uheap \<Rightarrow> nat set \<Rightarrow> nat set \<Rightarrow> bool" where
  "heap_pre lo s F U \<longleftrightarrow> finite F \<and> finite U \<and> F \<inter> U = {} \<and> blocks (u_size s) (F \<union> U) \<and> space (u_size s) (F \<union> U) = {lo..<u_brk s} \<and>
     0 < u_base s \<and> u_base s < lo \<and> u_size s (u_base s) = 0 \<and> lo \<le> u_brk s \<and> (\<forall>a\<in>F \<union> U. lo \<le> a) \<and>
     ring (insert (u_base s) F) (u_ptr s) \<and> u_freep s \<in> insert (u_base s) F"

definition touching :: "uheap \<Rightarrow> nat set \<Rightarrow> nat set" where
  "touching s F = {a \<in> F. a + 8 * u_size s a \<in> F}"

lemma heap_inv_pre: "heap_inv lo s F U \<longleftrightarrow> heap_pre lo s F U \<and> touching s F = {}"
  by (auto simp: heap_inv_def heap_pre_def touching_def)

lemma heap_base: "heap_pre lo s F U \<Longrightarrow> a \<in> F \<or> a \<in> U \<Longrightarrow> u_base s < a"
  unfolding heap_pre_def by (metis UnI1 UnI2 le_trans less_le_not_le linorder_not_le)

lemma enter_ok:
  assumes h: "heap_pre lo s F U" and bp: "bp \<in> U" and p: "pred_of (insert (u_base s) F) bp p"
  shows "heap_pre lo (enter bp p s) (insert bp F) (U - {bp})"
proof -
  have new: "bp \<notin> insert (u_base s) F" using h bp heap_base [OF h, of bp] by (auto simp: heap_pre_def)
  have A: "insert bp F \<union> (U - {bp}) = F \<union> U" using bp by blast
  have "ring (insert bp (insert (u_base s) F)) ((u_ptr s)(bp := u_ptr s p, p := bp))"
    using ring_insert [OF _ p new] h by (simp add: heap_pre_def)
  moreover have "p \<in> insert (u_base s) F" using p by (simp add: pred_of_def)
  ultimately show ?thesis using h new unfolding heap_pre_def A by (auto simp: enter_def insert_commute)
qed

lemma next_touch:
  assumes h: "heap_pre lo s F U" and a: "a \<in> touching s F"
  shows "u_ptr s a = a + 8 * u_size s a"
proof -
  let ?e = "a + 8 * u_size s a" and ?N = "insert (u_base s) F"
  have F: "a \<in> F" "?e \<in> F" using a by (auto simp: touching_def)
  have b: "blocks (u_size s) (F \<union> U)" and base: "u_base s < a" using h heap_base [OF h] F by (auto simp: heap_pre_def)
  have e: "a < ?e" using b F(1) by (auto simp: blocks_def)
  have "succ_of ?N a (u_ptr s a)" using h F(1) by (auto simp: heap_pre_def ring_def)
  then show ?thesis
  proof (cases rule: succ_cases)
    case up
    then have "u_ptr s a \<in> F" using base by auto
    then have "?e \<le> u_ptr s a" using b F(1) up(2) by (auto simp: blocks_def)
    moreover have "u_ptr s a \<le> ?e" using up(3) F(2) e by auto
    ultimately show ?thesis by simp
  next
    case wrap
    then have "?e \<le> a" using F(2) by blast
    then show ?thesis using e by simp
  qed
qed

lemma space_join:
  assumes a: "a \<in> A" "c \<in> A" "a \<noteq> c" "a + 8 * sz a = c"
  shows "space (sz(a := sz a + sz c)) (A - {c}) = space sz A"
proof -
  have "space sz A = space sz (A - {c}) \<union> {c..<c + 8 * sz c}" using a(2) by (auto simp: space_def)
  then show ?thesis using space_merge [of a "A - {c}" sz c "{c}"] a by simp
qed

lemma join_idle: "a + 8 * u_size s a \<noteq> u_ptr s a \<Longrightarrow> join a s = s"
  by (simp add: join_def)

lemma join_ok:
  assumes h: "heap_pre lo s F U" and a: "a \<in> touching s F" and f: "u_freep s \<noteq> a + 8 * u_size s a"
  shows "heap_pre lo (join a s) (F - {a + 8 * u_size s a}) U"
    "u_size (join a s) = (u_size s)(a := u_size s a + u_size s (a + 8 * u_size s a))"
proof -
  let ?e = "a + 8 * u_size s a"
  have F: "a \<in> F" "?e \<in> F" using a by (auto simp: touching_def)
  note p = next_touch [OF h a]
  have b: "blocks (u_size s) (F \<union> U)" "a \<noteq> u_base s" "?e \<noteq> u_base s" "F \<inter> U = {}"
    using h heap_base [OF h, of a] heap_base [OF h, of ?e] F by (auto simp: heap_pre_def)
  have ne: "a \<noteq> ?e" using b(1) F(1) by (auto simp: blocks_def)
  have j: "join a s = set_ptr a (u_ptr s ?e) (set_size a (u_size s a + u_size s ?e) s)" by (simp add: join_def p)
  then show "u_size (join a s) = (u_size s)(a := u_size s a + u_size s ?e)" by simp
  have A: "F - {?e} \<union> U = F \<union> U - {?e}" using b(4) F(2) by blast
  have N: "insert (u_base s) (F - {?e}) = insert (u_base s) F - {?e}" using b(3) by blast
  have "ring (insert (u_base s) (F - {?e})) ((u_ptr s)(a := u_ptr s ?e))"
    unfolding N using ring_delete [of "insert (u_base s) F" "u_ptr s" a ?e] h F(1) p ne by (simp add: heap_pre_def)
  moreover have "blocks ((u_size s)(a := u_size s a + u_size s ?e)) (F \<union> U - {?e})"
    using blocks_merge [OF b(1), of a ?e] F by simp
  moreover have "space ((u_size s)(a := u_size s a + u_size s ?e)) (F \<union> U - {?e}) = space (u_size s) (F \<union> U)"
    using space_join [of a "F \<union> U" ?e "u_size s"] F ne by simp
  ultimately show "heap_pre lo (join a s) (F - {?e}) U" using h b(2) f unfolding heap_pre_def j A by auto
qed

text \<open>Joining in general: a block that touches the next takes it in; what is behind that is not free.\<close>

definition joined :: "nat \<Rightarrow> uheap \<Rightarrow> nat set \<Rightarrow> nat set" where
  "joined a s F = (if a \<in> touching s F then F - {a + 8 * u_size s a} else F)"

lemma join_step:
  assumes h: "heap_pre lo s F U" and a: "a \<in> F" and f: "u_freep s \<noteq> a + 8 * u_size s a"
    and t: "touching s F \<subseteq> insert a S" and e: "a + 8 * u_size s a \<notin> touching s F"
  shows "heap_pre lo (join a s) (joined a s F) U" "touching (join a s) (joined a s F) \<subseteq> S" "a \<in> joined a s F"
    "x \<noteq> a \<Longrightarrow> u_size (join a s) x = u_size s x" "u_size s a \<le> u_size (join a s) a"
    "space (u_size (join a s)) (joined a s F) = space (u_size s) F"
proof -
  let ?e = "a + 8 * u_size s a"
  have b: "blocks (u_size s) (F \<union> U)" using h by (simp add: heap_pre_def)
  have ne: "a \<noteq> ?e" using b a by (auto simp: blocks_def)
  have idle: "join a s = s" if n: "a \<notin> touching s F"
  proof (rule join_idle)
    have "ring (insert (u_base s) F) (u_ptr s)" using h by (simp add: heap_pre_def)
    then have "u_ptr s a = u_base s \<or> u_ptr s a \<in> F" using ring_ptr [of _ "u_ptr s" a] a by blast
    moreover have "u_base s < a" using heap_base [OF h] a by simp
    moreover have "?e \<notin> F" using n a by (simp add: touching_def)
    ultimately show "?e \<noteq> u_ptr s a" by (metis le_add1 not_le)
  qed
  note J = join_ok [OF h _ f]
  show "heap_pre lo (join a s) (joined a s F) U" using J(1) idle h by (cases "a \<in> touching s F") (simp_all add: joined_def)
  show "a \<in> joined a s F" using a ne by (simp add: joined_def)
  show "x \<noteq> a \<Longrightarrow> u_size (join a s) x = u_size s x" "u_size s a \<le> u_size (join a s) a"
    using J(2) idle by (cases "a \<in> touching s F"; simp)+
  show "space (u_size (join a s)) (joined a s F) = space (u_size s) F"
    using J(2) idle space_join [of a F ?e "u_size s"] a ne by (cases "a \<in> touching s F") (auto simp: joined_def touching_def)
  show "touching (join a s) (joined a s F) \<subseteq> S"
  proof (cases "a \<in> touching s F")
    case True
    have "x \<in> S" if x: "x \<in> touching (join a s) (F - {?e})" for x
    proof -
      have eF: "?e \<in> F" using True by (simp add: touching_def)
      have xF: "x \<in> F" "x + 8 * u_size (join a s) x \<in> F - {?e}" using x by (auto simp: touching_def)
      show ?thesis
      proof (cases "x = a")
        case True
        then have "?e + 8 * u_size s ?e \<in> F" using xF(2) J(2) \<open>a \<in> touching s F\<close> by (simp add: distrib_left add.assoc)
        then show ?thesis using e eF by (simp add: touching_def)
      next
        case False
        then have "x \<in> touching s F" using xF J(2) True by (simp add: touching_def)
        then show ?thesis using t False by auto
      qed
    qed
    then show ?thesis using True by (auto simp: joined_def)
  qed (use t idle in \<open>auto simp: joined_def\<close>)
qed

lemma join_fields [simp]:
  "u_brk (join a s) = u_brk s" "u_max (join a s) = u_max s" "u_base (join a s) = u_base s" "u_freep (join a s) = u_freep s"
  "x \<noteq> a \<Longrightarrow> u_ptr (join a s) x = u_ptr s x"
  by (simp_all add: join_def)

lemma enter_fields [simp]:
  "u_brk (enter a p s) = u_brk s" "u_max (enter a p s) = u_max s" "u_base (enter a p s) = u_base s" "u_freep (enter a p s) = p"
  "u_size (enter a p s) = u_size s" "u_ptr (enter a p s) p = a"
  by (simp_all add: enter_def)

text \<open>The second join, of the block before the freed one; \<open>base\<close> has size 0 and joins nothing.\<close>

lemma join_before:
  assumes h: "heap_pre lo s F U" and t: "touching s F \<subseteq> {p}" and p: "p \<in> insert (u_base s) F" "u_freep s = p" "p < bp" "u_ptr s p = bp"
    and bp: "bp \<in> F" "\<forall>x\<in>F. p + 8 * u_size s p = x \<longrightarrow> x = bp"
  shows "\<exists>F'. heap_inv lo (join p s) F' U \<and> (\<forall>a. a \<noteq> p \<longrightarrow> u_size (join p s) a = u_size s a) \<and>
    space (u_size (join p s)) F' = space (u_size s) F \<and> (\<exists>a\<in>F'. u_size s bp \<le> u_size (join p s) a)"
proof (cases "p = u_base s")
  case True
  have "u_size s p = 0" using h True by (simp add: heap_pre_def)
  then have "join p s = s" using p(3,4) by (intro join_idle) simp
  moreover have "p \<notin> F" using heap_base [OF h, of p] True by blast
  then have "touching s F = {}" using t by (auto simp: touching_def)
  ultimately show ?thesis using h bp(1) by (intro exI [of _ F]) (auto simp: heap_inv_pre)
next
  case False
  then have pF: "p \<in> F" using p(1) by simp
  have pos: "0 < u_size s p" using h pF by (auto simp: heap_pre_def blocks_def)
  have f: "u_freep s \<noteq> p + 8 * u_size s p" using p(2) pos by simp
  have e: "p + 8 * u_size s p \<notin> touching s F" using t pos by auto
  note J = join_step [OF h pF f _ e, of "{}"]
  have "\<exists>a\<in>joined p s F. u_size s bp \<le> u_size (join p s) a"
  proof (cases "p \<in> touching s F")
    case True
    then have "p + 8 * u_size s p = bp" using bp(2) by (auto simp: touching_def)
    then have "u_size s bp \<le> u_size (join p s) p" using join_ok(2) [OF h True f] by simp
    then show ?thesis using J(3) t by auto
  next
    case False
    then show ?thesis using bp(1) J(4) [of bp] p(3) t by (intro bexI [of _ bp]) (auto simp: joined_def)
  qed
  then show ?thesis using J t by (intro exI [of _ "joined p s F"]) (auto simp: heap_inv_pre)
qed

text \<open>Freeing a block that was handed out.\<close>

lemma free_ok:
  assumes h: "heap_inv lo s F U" and bp: "bp \<in> U"
  shows "\<exists>t F'. free (bp + 8) s = Some t \<and> heap_inv lo t F' (U - {bp}) \<and> (\<forall>a\<in>U - {bp}. u_size t a = u_size s a) \<and>
    u_brk t = u_brk s \<and> u_max t = u_max s \<and> u_base t = u_base s \<and> space (u_size t) F' = space (u_size s) F \<union> {bp..<bp + 8 * u_size s bp} \<and>
    (\<exists>a\<in>F'. u_size s bp \<le> u_size t a)"
proof -
  let ?N = "insert (u_base s) F" and ?e = "bp + 8 * u_size s bp"
  have hp: "heap_pre lo s F U" and nt: "touching s F = {}" using h by (auto simp: heap_inv_pre)
  have b: "blocks (u_size s) (F \<union> U)" and r: "ring ?N (u_ptr s)" and dis: "F \<inter> U = {}" using hp by (auto simp: heap_pre_def)
  have new: "bp \<notin> ?N" "u_base s < bp" using dis bp heap_base [OF hp, of bp] by auto
  obtain p where p: "free_scan s bp (u_freep s) = Some p" "pred_of ?N bp p"
    using free_scan_finds [OF r, of "u_base s" bp "u_freep s"] hp new by (auto simp: heap_pre_def)
  have pN: "p \<in> ?N" "p < bp" "\<forall>x\<in>?N. x \<le> p \<or> bp < x" using p(2) by (auto simp: pred_of_def)
  have pos: "a \<in> F \<or> a \<in> U \<Longrightarrow> 0 < u_size s a" for a using b by (auto simp: blocks_def)
  have before: "x = p" if "x \<in> F" "x + 8 * u_size s x = bp" for x
  proof -
    have "x \<le> p" using pN(3) that pos [of x] by auto
    moreover have "\<not> x < p"
    proof
      assume "x < p"
      then have "p \<in> F" using pN(1) heap_base [OF hp, of x] that(1) by auto
      then have "bp \<le> p" using b that \<open>x < p\<close> by (auto simp: blocks_def)
      then show False using pN(2) by simp
    qed
    ultimately show ?thesis by simp
  qed
  define s1 where "s1 = enter bp p s"
  define F1 where "F1 = insert bp F"
  have h1: "heap_pre lo s1 F1 (U - {bp})" using enter_ok [OF hp bp p(2)] by (simp add: s1_def F1_def)
  have sz1: "u_size s1 = u_size s" "u_freep s1 = p" "u_base s1 = u_base s" "u_ptr s1 p = bp" by (simp_all add: s1_def)
  have t1: "touching s1 F1 \<subseteq> insert bp {p}" using nt before by (auto simp: touching_def sz1 F1_def)
  have e1: "?e \<notin> touching s1 F1" "p \<noteq> ?e" using t1 pos [of bp] bp pN(2) by auto
  have "bp \<in> F1" "u_freep s1 \<noteq> bp + 8 * u_size s1 bp" "bp + 8 * u_size s1 bp \<notin> touching s1 F1"
    using e1 by (simp_all add: F1_def sz1)
  note J = join_step [OF h1 this(1,2) t1 this(3)]
  define s2 where "s2 = join bp s1"
  define F2 where "F2 = joined bp s1 F1"
  have sz2: "u_size s2 a = u_size s a" if "a \<noteq> bp" for a using J(4) [OF that] by (simp add: s2_def sz1)
  have F2: "F2 \<subseteq> insert bp F" "p \<in> F \<Longrightarrow> p \<in> F2" using e1(2) by (auto simp: F2_def joined_def F1_def sz1)
  have "p \<in> insert (u_base s2) F2" "u_freep s2 = p" "u_ptr s2 p = bp" using pN(1,2) F2(2) by (auto simp: s2_def sz1)
  moreover have "\<forall>x\<in>F2. p + 8 * u_size s2 p = x \<longrightarrow> x = bp"
  proof (intro ballI impI)
    fix x assume x: "x \<in> F2" "p + 8 * u_size s2 p = x"
    show "x = bp"
    proof (rule ccontr)
      assume "x \<noteq> bp"
      then have "x \<in> F" "p + 8 * u_size s p = x" using x F2(1) sz2 [of p] pN(2) by auto
      then show False using pN(1) nt hp heap_base [OF hp, of x] by (auto simp: touching_def heap_pre_def)
    qed
  qed
  ultimately obtain F' where F': "heap_inv lo (join p s2) F' (U - {bp})" "\<forall>a. a \<noteq> p \<longrightarrow> u_size (join p s2) a = u_size s2 a"
    "space (u_size (join p s2)) F' = space (u_size s2) F2" "\<exists>a\<in>F'. u_size s2 bp \<le> u_size (join p s2) a"
    using join_before [of lo s2 F2 "U - {bp}" p bp] J(1-3) pN(2) unfolding s2_def [symmetric] F2_def [symmetric] by blast
  have uN: "u_ptr s p \<in> ?N" using ring_ptr [OF r pN(1)] .
  have "link_block bp p s = join p s2"
    unfolding s2_def s1_def using pN(2) uN new(1) by (intro link_block_parts) auto
  then have fr: "free (bp + 8) s = Some (join p s2)" using p(1) by (simp add: free_def)
  have sp: "space (u_size s2) F2 = space (u_size s) F \<union> {bp..<?e}"
    using J(6) by (simp add: s2_def F2_def sz1) (simp add: F1_def space_def Un_commute)
  have "p \<notin> U" using pN(1) dis heap_base [OF hp, of p] by blast
  then have "\<forall>a\<in>U - {bp}. u_size (join p s2) a = u_size s a" using F'(2) sz2 by (metis Diff_iff singletonI)
  moreover have "u_size s bp \<le> u_size s2 bp" using J(5) by (simp add: s2_def sz1)
  then have "\<exists>a\<in>F'. u_size s bp \<le> u_size (join p s2) a" using F'(4) le_trans by blast
  ultimately show ?thesis using fr F'(1,3) sp by (intro exI [of _ "join p s2"] exI [of _ F']) (simp add: s2_def s1_def)
qed

section \<open>Allocating\<close>

lemma take_block_whole:
  assumes h: "heap_inv lo s F U" and a: "a \<in> F" and prev: "prevp \<in> insert (u_base s) F" "u_ptr s prevp = a"
  shows "heap_inv lo ((set_ptr prevp (u_ptr s a) s)\<lparr>u_freep := prevp\<rparr>) (F - {a}) (insert a U)"
proof -
  let ?N = "insert (u_base s) F"
  have hp: "heap_pre lo s F U" and nt: "touching s F = {}" using h by (auto simp: heap_inv_pre)
  have r: "ring ?N (u_ptr s)" and dis: "F \<inter> U = {}" using hp by (auto simp: heap_pre_def)
  have base: "u_base s < a" using heap_base [OF hp] a by simp
  have ne: "a \<noteq> prevp"
  proof
    assume "a = prevp"
    then have "succ_of ?N a a" using r prev by (auto simp: ring_def)
    then show False using base by (cases rule: succ_cases) auto
  qed
  have "ring (?N - {a}) ((u_ptr s)(prevp := u_ptr s a))" by (rule ring_delete [OF r prev ne])
  moreover have "?N - {a} = insert (u_base s) (F - {a})" using base by auto
  moreover have "F - {a} \<union> insert a U = F \<union> U" using a by blast
  moreover have "prevp \<in> insert (u_base s) (F - {a})" using prev(1) ne by auto
  ultimately show ?thesis using h unfolding heap_inv_def by auto
qed

lemma take_block_part:
  assumes h: "heap_inv lo s F U" and a: "a \<in> F" and prev: "prevp \<in> insert (u_base s) F" and n: "0 < n" "n < u_size s a"
    and q: "q = a + 8 * (u_size s a - n)"
  shows "heap_inv lo ((set_size q n (set_size a (u_size s a - n) s))\<lparr>u_freep := prevp\<rparr>) F (insert q U)" "q \<notin> F \<union> U"
proof -
  let ?sz = "(u_size s)(a := u_size s a - n, q := n)"
  have hp: "heap_pre lo s F U" and nt: "touching s F = {}" using h by (auto simp: heap_inv_pre)
  have b: "blocks (u_size s) (F \<union> U)" and dis: "F \<inter> U = {}" and sp: "space (u_size s) (F \<union> U) = {lo..<u_brk s}" using hp by (auto simp: heap_pre_def)
  have base: "u_base s < a" "lo \<le> a" using heap_base [OF hp] a hp by (auto simp: heap_pre_def)
  note S = blocks_split [OF b _ n q]
  show nq: "q \<notin> F \<union> U" using S(1) a by simp
  have aq: "a < q" "a + 8 * u_size s a = q + 8 * n" using n q by auto
  have "space ?sz (insert q (F \<union> U)) = space (u_size s) (F \<union> U)"
  proof -
    have "space ?sz (F \<union> U - {a}) = space (u_size s) (F \<union> U - {a})" using nq by (intro space_cong) auto
    moreover have "space sz A = space sz (A - {a}) \<union> {a..<a + 8 * sz a}" if "a \<in> A" for sz A using that by (auto simp: space_def)
    moreover have "insert q (F \<union> U) - {a} = insert q (F \<union> U - {a})" using aq by auto
    moreover have "space ?sz (insert q (F \<union> U - {a})) = {q..<q + 8 * n} \<union> space ?sz (F \<union> U - {a})" by (auto simp: space_def)
    moreover have "{a..<a + 8 * u_size s a} = {a..<a + 8 * ?sz a} \<union> {q..<q + 8 * n}" using aq q by auto
    ultimately show ?thesis using a by auto
  qed
  moreover have "blocks ?sz (insert q (F \<union> U))" using S(2) a by simp
  moreover have "\<forall>x\<in>F. x + 8 * ?sz x \<notin> F"
    using nt nq q by (auto simp: touching_def)
  ultimately show "heap_inv lo ((set_size q n (set_size a (u_size s a - n) s))\<lparr>u_freep := prevp\<rparr>) F (insert q U)"
    using hp nq sp prev base aq unfolding heap_inv_def heap_pre_def by auto
qed

text \<open>
  What an allocation does: the block \<open>q\<close> leaves the free space and is handed out.
\<close>

definition takes :: "nat \<Rightarrow> uheap \<Rightarrow> nat set \<Rightarrow> nat set \<Rightarrow> nat \<Rightarrow> nat \<Rightarrow> uheap \<Rightarrow> bool" where
  "takes lo s F U n q t \<longleftrightarrow> q \<notin> U \<and> u_size t q = n \<and> (\<forall>x\<in>U. u_size t x = u_size s x) \<and> u_brk t = u_brk s \<and> u_max t = u_max s \<and>
     u_base t = u_base s \<and> (\<exists>F'. heap_inv lo t F' (insert q U))"

lemma take_block_ok:
  assumes h: "heap_inv lo s F U" and a: "a \<in> F" "0 < n" "n \<le> u_size s a" and prev: "prevp \<in> insert (u_base s) F" "u_ptr s prevp = a"
  shows "\<exists>q t. take_block n prevp a s = (q + 8, t) \<and> takes lo s F U n q t"
proof (cases "u_size s a = n")
  case True
  have "a \<notin> U" using h a(1) by (auto simp: heap_inv_def)
  then show ?thesis using True take_block_whole [OF h a(1) prev] by (auto simp: take_block_def takes_def)
next
  case False
  let ?q = "a + 8 * (u_size s a - n)"
  have n: "n < u_size s a" using False a(3) by simp
  note P = take_block_part [OF h a(1) prev(1) a(2) n refl]
  have "a \<notin> U" "a \<noteq> ?q" using h a(1) n by (auto simp: heap_inv_def)
  then show ?thesis using False P by (auto simp: take_block_def takes_def Let_def)
qed

text \<open>The nodes from \<open>p\<close> on around the ring up to \<open>f\<close>.\<close>

definition from_to :: "nat set \<Rightarrow> nat \<Rightarrow> nat \<Rightarrow> nat set" where
  "from_to N f p = (if p \<le> f then {x \<in> N. p \<le> x \<and> x \<le> f} else {x \<in> N. p \<le> x \<or> x \<le> f})"

lemma from_to_step:
  assumes r: "ring N ptr" and p: "p \<in> N" "f \<in> N" "p \<noteq> f"
  shows "from_to N f (ptr p) = from_to N f p - {p}"
proof -
  have "succ_of N p (ptr p)" using r p by (simp add: ring_def)
  then show ?thesis
  proof (cases rule: succ_cases)
    case up
    show ?thesis
    proof (cases "p < f")
      case True
      have "ptr p \<le> f" using up(3) p(2) True by force
      moreover have "{x \<in> N. ptr p \<le> x \<and> x \<le> f} = {x \<in> N. p \<le> x \<and> x \<le> f} - {p}" using up(2,3) by force
      ultimately show ?thesis using True by (simp add: from_to_def)
    next
      case False
      then have "f < p" using p(3) by simp
      moreover have "{x \<in> N. ptr p \<le> x \<or> x \<le> f} = {x \<in> N. p \<le> x \<or> x \<le> f} - {p}" using up(2,3) \<open>f < p\<close> by force
      ultimately show ?thesis using up(2) by (simp add: from_to_def)
    qed
  next
    case wrap
    have "f < p" "ptr p \<le> f" using wrap(3) p by (auto simp: order.strict_iff_order)
    moreover have "{x \<in> N. ptr p \<le> x \<and> x \<le> f} = {x \<in> N. p \<le> x \<or> x \<le> f} - {p}" using wrap(3) \<open>f < p\<close> by force
    ultimately show ?thesis by (simp add: from_to_def)
  qed
qed

lemma from_to_less:
  assumes r: "ring N ptr" and fin: "finite N" and p: "p \<in> N" "f \<in> N" "p \<noteq> f"
  shows "card (from_to N f (ptr p)) < card (from_to N f p)"
proof -
  have "finite (from_to N f p)" "p \<in> from_to N f p" using fin p(1) by (auto simp: from_to_def)
  then show ?thesis unfolding from_to_step [OF r p] by (rule card_Diff1_less)
qed

lemma from_to_all:
  assumes r: "ring N ptr" and f: "f \<in> N"
  shows "from_to N f (ptr f) = N"
proof -
  have "succ_of N f (ptr f)" using r f by (simp add: ring_def)
  then show ?thesis by (cases rule: succ_cases) (auto simp: from_to_def)
qed

lemma malloc_scan_hit:
  assumes r: "ring N (u_ptr s)" and fin: "finite N" and f: "u_freep s \<in> N" and p: "prevp \<in> N" "u_ptr s prevp = p"
    and big: "\<exists>x\<in>from_to N (u_freep s) p. unat nu \<le> u_size s x"
  shows "\<exists>prevp' a. malloc_scan nu prevp p s = Some (take_block (unat nu) prevp' a s) \<and> prevp' \<in> N \<and> u_ptr s prevp' = a \<and> a \<in> N \<and>
    unat nu \<le> u_size s a"
  using p big
proof (induction "card (from_to N (u_freep s) p)" arbitrary: prevp p rule: less_induct)
  case less
  have pN: "p \<in> N" using ring_ptr [OF r less.prems(1)] less.prems(2) by simp
  show ?case
  proof (cases "unat nu \<le> u_size s p")
    case True
    then show ?thesis using less.prems(1,2) pN by (subst malloc_scan.simps) auto
  next
    case False
    have nf: "p \<noteq> u_freep s"
    proof
      assume "p = u_freep s"
      then have "from_to N (u_freep s) p = {p}" using pN by (auto simp: from_to_def)
      then show False using less.prems(3) False by simp
    qed
    note st = from_to_step [OF r pN f nf]
    note from_to_less [OF r fin pN f nf]
    moreover have "\<exists>x\<in>from_to N (u_freep s) (u_ptr s p). unat nu \<le> u_size s x" unfolding st using less.prems(3) False by auto
    ultimately show ?thesis using less.hyps [of "u_ptr s p" p] pN False nf by (subst malloc_scan.simps) simp
  qed
qed

lemma malloc_scan_miss:
  assumes r: "ring N (u_ptr s)" and fin: "finite N" and f: "u_freep s \<in> N" and p: "p \<in> N"
    and small: "\<forall>x\<in>N. u_size s x < unat nu"
  shows "malloc_scan nu prevp p s =
    Option.bind (morecore nu s) (\<lambda>(p, s). if p = 0 then Some (0, s) else malloc_scan nu p (u_ptr s p) s)"
  using p
proof (induction "card (from_to N (u_freep s) p)" arbitrary: prevp p rule: less_induct)
  case less
  have sz: "\<not> unat nu \<le> u_size s p" using small less.prems by (simp add: not_le)
  show ?case
  proof (cases "p = u_freep s")
    case True
    then show ?thesis using sz by (subst malloc_scan.simps) simp
  next
    case False
    then show ?thesis
      using less.hyps [OF from_to_less [OF r fin less.prems f False], of p] ring_ptr [OF r less.prems] sz by (subst malloc_scan.simps) simp
  qed
qed

text \<open>More memory from the kernel: the headers asked for, and 4096 at least.\<close>

definition core_units :: "uint32 \<Rightarrow> nat" where
  "core_units nu = max 4096 (unat nu)"

lemma sbrk_arg:
  assumes "unat nu < 2 ^ 28"
  shows "sint ((if nu < 4096 then 4096 else nu) * 8) = int (8 * core_units nu)" "unat (if nu < 4096 then 4096 else nu) = core_units nu"
proof -
  define w where "w = (if nu < 4096 then 4096 else nu)"
  show uw: "unat (if nu < 4096 then 4096 else nu) = core_units nu" by (auto simp: core_units_def word_less_nat_alt)
  then have uw: "unat w = core_units nu" by (simp add: w_def)
  have "w = of_nat (core_units nu)" unfolding uw [symmetric] by simp
  then have "w * 8 = of_nat (8 * core_units nu)" by simp
  moreover have "8 * core_units nu < 2 ^ 31" using assms by (simp add: core_units_def)
  ultimately show "sint ((if nu < 4096 then 4096 else nu) * 8) = int (8 * core_units nu)"
    unfolding w_def [symmetric] using sint_small by metis
qed

lemma block_end:
  assumes "heap_inv lo s F U" "a \<in> F \<union> U"
  shows "a < u_brk s" "a + 8 * u_size s a \<le> u_brk s"
proof -
  have b: "blocks (u_size s) (F \<union> U)" and sp: "space (u_size s) (F \<union> U) = {lo..<u_brk s}" using assms(1) by (simp_all add: heap_inv_def)
  have "0 < u_size s a" using b assms(2) by (simp add: blocks_def)
  moreover have "{a..<a + 8 * u_size s a} \<subseteq> {lo..<u_brk s}" unfolding sp [symmetric] space_def using assms(2) by blast
  ultimately show "a < u_brk s" "a + 8 * u_size s a \<le> u_brk s" by auto
qed

lemma grow_ok:
  assumes h: "heap_inv lo s F U" and n: "0 < n"
  shows "heap_inv lo (set_size (u_brk s) n (s\<lparr>u_brk := u_brk s + 8 * n\<rparr>)) F (insert (u_brk s) U)" "u_brk s \<notin> F \<union> U"
proof -
  let ?b = "u_brk s" and ?sz = "(u_size s)(u_brk s := n)"
  have e: "a < ?b" "a + 8 * u_size s a \<le> ?b" if "a \<in> F \<union> U" for a using block_end [OF h that] by simp_all
  show new: "?b \<notin> F \<union> U" using e(1) by blast
  have b: "blocks (u_size s) (F \<union> U)" and sp: "space (u_size s) (F \<union> U) = {lo..<?b}" and lo: "lo \<le> ?b" "u_base s < lo" using h by (auto simp: heap_inv_def)
  have "blocks ?sz (insert ?b (F \<union> U))"
    unfolding blocks_def
  proof (intro ballI conjI impI)
    fix x assume x: "x \<in> insert ?b (F \<union> U)"
    show "0 < ?sz x" using x n b new by (auto simp: blocks_def)
    fix y assume y: "y \<in> insert ?b (F \<union> U)" "x < y"
    then have "x \<noteq> ?b" using e(1) [of y] by auto
    then show "x + 8 * ?sz x \<le> y" using x y e(2) [of x] b by (auto simp: blocks_def)
  qed
  moreover have "space ?sz (F \<union> U) = {lo..<?b}" unfolding sp [symmetric] using new by (intro space_cong) auto
  then have "space ?sz (insert ?b (F \<union> U)) = {lo..<?b + 8 * n}" using lo(1) by (auto simp: space_def)
  moreover have "\<forall>a\<in>F. a + 8 * ?sz a \<notin> F" using h new by (auto simp: heap_inv_def)
  ultimately show "heap_inv lo (set_size ?b n (s\<lparr>u_brk := ?b + 8 * n\<rparr>)) F (insert ?b U)"
    using h new lo unfolding heap_inv_def by auto
qed

lemma morecore_ok:
  assumes h: "heap_inv lo s F U" and nu: "unat nu < 2 ^ 28"
  shows "if u_brk s + 8 * core_units nu \<le> u_max s
    then \<exists>t F'. morecore nu s = Some (u_freep t, t) \<and> heap_inv lo t F' U \<and> (\<forall>a\<in>U. u_size t a = u_size s a) \<and>
      u_brk t = u_brk s + 8 * core_units nu \<and> u_max t = u_max s \<and> u_base t = u_base s \<and> (\<exists>a\<in>F'. unat nu \<le> u_size t a)
    else morecore nu s = Some (0, s)"
proof -
  let ?n = "core_units nu" and ?b = "u_brk s"
  define s1 where "s1 = set_size ?b ?n (s\<lparr>u_brk := ?b + 8 * ?n\<rparr>)"
  have n: "0 < ?n" "unat nu \<le> ?n" by (simp_all add: core_units_def)
  note G = grow_ok [OF h n(1), folded s1_def]
  note m = morecore_def [of nu s, unfolded Let_def sbrk_arg [OF nu]]
  show ?thesis
  proof (cases "?b + 8 * ?n \<le> u_max s")
    case True
    have i: "nat (int ?b + int (8 * ?n)) = ?b + 8 * ?n" by simp
    have mc: "morecore nu s = map_option (\<lambda>s. (u_freep s, s)) (free (?b + 8) s1)"
      using True unfolding m sbrk_def i by (simp add: s1_def)
    obtain t F' where t: "free (?b + 8) s1 = Some t" "heap_inv lo t F' (insert ?b U - {?b})" "\<forall>a\<in>insert ?b U - {?b}. u_size t a = u_size s1 a"
      "u_brk t = u_brk s1" "u_max t = u_max s1" "u_base t = u_base s1" "\<exists>a\<in>F'. u_size s1 ?b \<le> u_size t a"
      using free_ok [OF G(1), of ?b] by auto
    have U: "insert ?b U - {?b} = U" using G(2) by auto
    have "u_size s1 ?b = ?n" "\<forall>a\<in>U. u_size s1 a = u_size s a" using G(2) by (auto simp: s1_def)
    moreover from this have "\<exists>a\<in>F'. unat nu \<le> u_size t a" using t(7) n(2) le_trans by force
    ultimately show ?thesis using True t U mc by (auto simp: s1_def)
  next
    case False
    then show ?thesis unfolding m sbrk_def by simp
  qed
qed

lemma nunits_of_unat:
  assumes "unat nbytes < 2 ^ 30"
  shows "unat (nunits_of nbytes) = (unat nbytes + 7) div 8 + 1"
proof -
  have "unat (nbytes + 7) = unat nbytes + 7" using assms by (subst unat_add_lem [THEN iffD1]) simp_all
  then have "unat ((nbytes + 7) div 8) = (unat nbytes + 7) div 8" by (simp add: unat_div)
  moreover have "(unat nbytes + 7) div 8 + 1 < 2 ^ 32" using assms by simp
  moreover have "nbytes + 8 - 1 = nbytes + 7" by simp
  ultimately show ?thesis unfolding nunits_of_def by (simp only: , subst unat_add_lem [THEN iffD1]) (simp_all only: unsigned_1, simp_all)
qed

definition hands_out :: "nat \<Rightarrow> uheap \<Rightarrow> nat set \<Rightarrow> nat \<Rightarrow> nat \<Rightarrow> uheap \<Rightarrow> bool" where
  "hands_out lo s U n q t \<longleftrightarrow> q \<notin> U \<and> u_size t q = n \<and> (\<forall>x\<in>U. u_size t x = u_size s x) \<and> (\<exists>F'. heap_inv lo t F' (insert q U))"

lemma malloc_round:
  assumes h: "heap_inv lo s F U" and nu: "0 < unat nu" and big: "\<exists>x\<in>F. unat nu \<le> u_size s x"
  shows "\<exists>q t. malloc_scan nu (u_freep s) (u_ptr s (u_freep s)) s = Some (q + 8, t) \<and> takes lo s F U (unat nu) q t"
proof -
  let ?N = "insert (u_base s) F"
  have r: "ring ?N (u_ptr s)" and fin: "finite ?N" and f: "u_freep s \<in> ?N" and z: "u_size s (u_base s) = 0" using h by (auto simp: heap_inv_def)
  have "\<exists>x\<in>from_to ?N (u_freep s) (u_ptr s (u_freep s)). unat nu \<le> u_size s x" unfolding from_to_all [OF r f] using big by blast
  from malloc_scan_hit [OF r fin f f refl this] obtain prevp a where m:
    "malloc_scan nu (u_freep s) (u_ptr s (u_freep s)) s = Some (take_block (unat nu) prevp a s)"
    "prevp \<in> ?N" "u_ptr s prevp = a" "a \<in> ?N" "unat nu \<le> u_size s a" by blast
  then have "a \<in> F" using z nu by auto
  then show ?thesis using take_block_ok [OF h _ nu m(5,2,3)] m(1) by auto
qed

lemma freep_not_0: "heap_inv lo s F U \<Longrightarrow> u_freep s \<noteq> 0"
  by (auto simp: heap_inv_def)

lemma malloc_ok:
  assumes h: "heap_inv lo s F U" and nb: "unat nbytes < 2 ^ 30"
  shows "(\<exists>q t. malloc nbytes s = Some (q + 8, t) \<and> hands_out lo s U ((unat nbytes + 7) div 8 + 1) q t) \<or> malloc nbytes s = Some (0, s)"
proof -
  let ?N = "insert (u_base s) F"
  define nu where "nu = nunits_of nbytes"
  have n: "unat nu = (unat nbytes + 7) div 8 + 1" using nunits_of_unat [OF nb] by (simp add: nu_def)
  then have pos: "0 < unat nu" and lim: "unat nu < 2 ^ 28" using nb by simp_all
  have m: "malloc nbytes s = malloc_scan nu (u_freep s) (u_ptr s (u_freep s)) s"
    using freep_not_0 [OF h] by (simp add: malloc_def init_ring_def nu_def Let_def)
  show ?thesis
  proof (cases "\<exists>x\<in>F. unat nu \<le> u_size s x")
    case True
    then show ?thesis using malloc_round [OF h pos] m by (auto simp: takes_def hands_out_def n)
  next
    case False
    have r: "ring ?N (u_ptr s)" and fin: "finite ?N" and f: "u_freep s \<in> ?N" and z: "u_size s (u_base s) = 0" using h by (auto simp: heap_inv_def)
    have "\<forall>x\<in>?N. u_size s x < unat nu" using False z pos by auto
    note miss = malloc_scan_miss [OF r fin f ring_ptr [OF r f] this, of "u_freep s"]
    note mc = morecore_ok [OF h lim]
    show ?thesis
    proof (cases "u_brk s + 8 * core_units nu \<le> u_max s")
      case True
      then obtain t F' where t: "morecore nu s = Some (u_freep t, t)" "heap_inv lo t F' U" "\<forall>a\<in>U. u_size t a = u_size s a"
        "\<exists>a\<in>F'. unat nu \<le> u_size t a" using mc by auto
      obtain q u where q: "malloc_scan nu (u_freep t) (u_ptr t (u_freep t)) t = Some (q + 8, u)" "takes lo t F' U (unat nu) q u"
        using malloc_round [OF t(2) pos t(4)] by blast
      have "malloc nbytes s = Some (q + 8, u)" using m miss t(1) q(1) freep_not_0 [OF t(2)] by simp
      then show ?thesis using q(2) t(3) by (auto simp: takes_def hands_out_def n)
    qed (use m miss mc in simp)
  qed
qed

section \<open>Histories\<close>

datatype uop = UMalloc uint32 | UFree nat

text \<open>A program that frees only what it was given; it remembers each pointer with the number of bytes it asked for.\<close>

fun urun :: "uop list \<Rightarrow> (nat \<times> uint32) list \<Rightarrow> uheap \<Rightarrow> ((nat \<times> uint32) list \<times> uheap) option" where
  "urun [] own s = Some (own, s)"
| "urun (UMalloc nb # ops) own s =
     Option.bind (malloc nb s) (\<lambda>(p, s). urun ops (if p = 0 then own else own @ [(p, nb)]) s)"
| "urun (UFree i # ops) own s = (if i < length own
     then Option.bind (free (fst (own ! i)) s) (\<lambda>s. urun ops (take i own @ drop (Suc i) own) s) else urun ops own s)"

definition owns :: "nat \<Rightarrow> uheap \<Rightarrow> (nat \<times> uint32) list \<Rightarrow> bool" where
  "owns lo s own \<longleftrightarrow> distinct (map fst own) \<and> (\<forall>(p, nb)\<in>set own. 8 \<le> p \<and> u_size s (p - 8) = (unat nb + 7) div 8 + 1) \<and>
     (\<exists>F. heap_inv lo s F ((\<lambda>(p, nb). p - 8) ` set own))"

definition small_op :: "uop \<Rightarrow> bool" where
  "small_op x = (case x of UMalloc nb \<Rightarrow> unat nb < 2 ^ 30 | UFree i \<Rightarrow> True)"

lemma owns_malloc:
  assumes o: "owns lo s own" and nb: "unat nb < 2 ^ 30"
  shows "\<exists>p t. malloc nb s = Some (p, t) \<and> owns lo t (if p = 0 then own else own @ [(p, nb)])"
proof -
  let ?U = "(\<lambda>(p, nb). p - 8) ` set own"
  obtain F where h: "heap_inv lo s F ?U" using o by (auto simp: owns_def)
  consider q t where "malloc nb s = Some (q + 8, t)" "hands_out lo s ?U ((unat nb + 7) div 8 + 1) q t" | "malloc nb s = Some (0, s)"
    using malloc_ok [OF h nb] by blast
  then show ?thesis
  proof cases
    case 1
    have "q + 8 \<notin> fst ` set own" using 1(2) by (force simp: hands_out_def)
    moreover have "\<forall>(p, nb)\<in>set own. 8 \<le> p \<and> u_size t (p - 8) = (unat nb + 7) div 8 + 1"
      using o 1(2) by (fastforce simp: owns_def hands_out_def)
    ultimately have "owns lo t (own @ [(q + 8, nb)])" using o 1(2) unfolding owns_def hands_out_def by simp
    then show ?thesis using 1(1) by auto
  qed (use o in auto)
qed

lemma owns_free:
  assumes o: "owns lo s own" and i: "i < length own"
  shows "\<exists>t. free (fst (own ! i)) s = Some t \<and> owns lo t (take i own @ drop (Suc i) own)"
proof -
  let ?h = "\<lambda>(p, nb). p - 8 :: nat"
  define own' where "own' = take i own @ drop (Suc i) own"
  obtain p nb where p: "own ! i = (p, nb)" by fastforce
  have all: "own = take i own @ (p, nb) # drop (Suc i) own" using id_take_nth_drop [OF i] p by simp
  have own: "set own = insert (p, nb) (set own')" by (subst all) (auto simp: own'_def)
  have "distinct (map fst (take i own @ (p, nb) # drop (Suc i) own))" using o all by (simp add: owns_def)
  then have d: "distinct (map fst own')" "p \<notin> fst ` set own'" by (auto simp: own'_def)
  have s8: "\<forall>(p, nb)\<in>set own. 8 \<le> p" using o by (auto simp: owns_def)
  have p8: "8 \<le> p" using s8 own by auto
  have "x - 8 \<noteq> p - 8" if x: "(x, m) \<in> set own'" for x m
  proof
    assume "x - 8 = p - 8"
    moreover have "8 \<le> x" using s8 x own by auto
    ultimately have "x = p" using p8 by simp
    then show False using d(2) x by force
  qed
  then have "p - 8 \<notin> ?h ` set own'" by fastforce
  then have U: "?h ` set own - {p - 8} = ?h ` set own'" unfolding own by auto
  obtain F where h: "heap_inv lo s F (?h ` set own)" using o by (auto simp: owns_def)
  have "p - 8 \<in> ?h ` set own" unfolding own by simp
  from free_ok [OF h this] obtain t F' where t: "free (p - 8 + 8) s = Some t" "heap_inv lo t F' (?h ` set own')"
    "\<forall>a\<in>?h ` set own'. u_size t a = u_size s a" unfolding U by blast
  have "owns lo t own'"
    unfolding owns_def
  proof (intro conjI)
    show "\<forall>(p, nb)\<in>set own'. 8 \<le> p \<and> u_size t (p - 8) = (unat nb + 7) div 8 + 1"
      using o t(3) own by (fastforce simp: owns_def)
  qed (use d(1) t(2) in blast)+
  then show ?thesis using t(1) p p8 by (auto simp: own'_def)
qed

lemma urun_owns:
  "owns lo s own \<Longrightarrow> list_all small_op ops \<Longrightarrow> \<exists>own' t. urun ops own s = Some (own', t) \<and> owns lo t own'"
proof (induction ops arbitrary: own s)
  case (Cons x ops)
  have ops: "list_all small_op ops" using Cons.prems(2) by simp
  show ?case
  proof (cases x)
    case (UMalloc nb)
    then have "unat nb < 2 ^ 30" using Cons.prems(2) by (simp add: small_op_def)
    from owns_malloc [OF Cons.prems(1) this] obtain p t where
      "malloc nb s = Some (p, t)" "owns lo t (if p = 0 then own else own @ [(p, nb)])" by blast
    then show ?thesis using Cons.IH [OF _ ops] UMalloc by simp
  next
    case (UFree i)
    show ?thesis
    proof (cases "i < length own")
      case True
      from owns_free [OF Cons.prems(1) this] obtain t where
        "free (fst (own ! i)) s = Some t" "owns lo t (take i own @ drop (Suc i) own)" by blast
      then show ?thesis using Cons.IH [OF _ ops] UFree True by simp
    next
      case False
      then show ?thesis using Cons.IH [OF Cons.prems(1) ops] UFree by simp
    qed
  qed
qed auto

text \<open>The first call of \<open>malloc\<close> makes the ring.\<close>

lemma malloc_init: "0 < u_base s \<Longrightarrow> malloc nb s = malloc nb (init_ring s)"
  by (simp add: malloc_def init_ring_def)

lemma owns_init:
  assumes "u_freep s = 0" "0 < u_base s" "u_base s < u_brk s"
  shows "owns (u_brk s) (init_ring s) []"
proof -
  have "heap_inv (u_brk s) (init_ring s) {} {}"
    using assms unfolding heap_inv_def init_ring_def by (simp add: blocks_def space_def ring_def succ_of_def)
  then show ?thesis unfolding owns_def by (intro conjI exI [of _ "{}"]) simp_all
qed

lemma urun_fresh:
  assumes f: "u_freep s = 0" "0 < u_base s" "u_base s < u_brk s"
  shows "list_all small_op ops \<Longrightarrow> \<exists>own t. urun ops [] s = Some (own, t) \<and> (own = [] \<and> t = s \<or> owns (u_brk s) t own)"
proof (induction ops)
  case (Cons x ops)
  show ?case
  proof (cases x)
    case (UMalloc nb)
    have "urun (x # ops) [] s = urun (x # ops) [] (init_ring s)" using UMalloc malloc_init [OF f(2)] by simp
    then show ?thesis using urun_owns [OF owns_init [OF f] Cons.prems] by auto
  qed (use Cons in simp)
qed simp

lemma owns_disjoint:
  assumes o: "owns lo s own" and x: "(p, nb) \<in> set own" "(q, mb) \<in> set own" "p \<noteq> q"
  shows "{p..<p + unat nb} \<inter> {q..<q + unat mb} = {}"
proof -
  let ?h = "\<lambda>(p, nb). p - 8 :: nat"
  obtain F where "heap_inv lo s F (?h ` set own)" using o by (auto simp: owns_def)
  then have b: "blocks (u_size s) (F \<union> ?h ` set own)" by (simp add: heap_inv_def)
  have in_block: "8 \<le> p \<and> p + unat nb \<le> (p - 8) + 8 * u_size s (p - 8)" if "(p, nb) \<in> set own" for p nb
  proof -
    have "8 \<le> p" "u_size s (p - 8) = (unat nb + 7) div 8 + 1" using o that by (auto simp: owns_def)
    then show ?thesis by simp
  qed
  have ends: "a + 8 * u_size s a \<le> c" if "a \<in> ?h ` set own" "c \<in> ?h ` set own" "a < c" for a c
    using b that by (auto simp: blocks_def)
  have h: "p - 8 \<in> ?h ` set own" "q - 8 \<in> ?h ` set own" using x by force+
  have p: "8 \<le> p" "p + unat nb \<le> (p - 8) + 8 * u_size s (p - 8)" using in_block [OF x(1)] by blast+
  have q: "8 \<le> q" "q + unat mb \<le> (q - 8) + 8 * u_size s (q - 8)" using in_block [OF x(2)] by blast+
  consider "p - 8 < q - 8" | "q - 8 < p - 8" using x(3) p(1) q(1) by linarith
  then show ?thesis
  proof cases
    case 1
    then have "p + unat nb \<le> q" using ends [OF h 1] p q(1) by linarith
    then show ?thesis by auto
  next
    case 2
    then have "q + unat mb \<le> p" using ends [OF h(2,1) 2] q p(1) by linarith
    then show ?thesis by auto
  qed
qed

lemma owns_inside:
  assumes o: "owns lo s own" and x: "(p, nb) \<in> set own"
  shows "lo < p \<and> p + unat nb \<le> u_brk s"
proof -
  let ?h = "\<lambda>(p, nb). p - 8 :: nat"
  obtain F where h: "heap_inv lo s F (?h ` set own)" using o by (auto simp: owns_def)
  have "p - 8 \<in> F \<union> ?h ` set own" using x by force
  then have "lo \<le> p - 8" "p - 8 + 8 * u_size s (p - 8) \<le> u_brk s" using h block_end(2) [OF h] by (auto simp: heap_inv_def)
  moreover have "8 \<le> p" "u_size s (p - 8) = (unat nb + 7) div 8 + 1" using o x by (auto simp: owns_def)
  moreover have "unat nb \<le> 8 * ((unat nb + 7) div 8)" by presburger
  ultimately show ?thesis by simp
qed

text \<open>With nothing handed out there is one free block: neighbours have been joined.\<close>

lemma all_free:
  assumes h: "heap_inv lo s F {}" and b: "lo < u_brk s"
  shows "u_ptr s (u_base s) = lo \<and> lo + 8 * u_size s lo = u_brk s"
proof -
  have bl: "blocks (u_size s) F" and sp: "space (u_size s) F = {lo..<u_brk s}" and ge: "\<forall>a\<in>F. lo \<le> a"
    and r: "ring (insert (u_base s) F) (u_ptr s)" and nt: "\<forall>a\<in>F. a + 8 * u_size s a \<notin> F" and base: "u_base s < lo"
    using h by (auto simp: heap_inv_def)
  have cover: "\<exists>a\<in>F. a \<le> x \<and> x < a + 8 * u_size s a" if "lo \<le> x" "x < u_brk s" for x
    using sp that by (auto simp: space_def set_eq_iff)
  have only: "a = lo" if a: "a \<in> F" for a
  proof (rule ccontr)
    assume "a \<noteq> lo"
    then have "lo < a" using ge a by (simp add: order.strict_iff_order)
    then have l: "lo \<le> a - 1" "a - 1 < a" by linarith+
    moreover have "a < u_brk s" using block_end(1) [OF h] a by simp
    ultimately obtain c where c: "c \<in> F" "c \<le> a - 1" "a - 1 < c + 8 * u_size s c" using cover [of "a - 1"] by auto
    then have "c + 8 * u_size s c \<le> a" using bl a l(2) by (auto simp: blocks_def)
    then have "c + 8 * u_size s c = a" using c(3) by linarith
    then show False using nt c(1) a by auto
  qed
  obtain a where "a \<in> F" using cover [of lo] b by auto
  then have F: "F = {lo}" using only by blast
  have "{lo..<lo + 8 * u_size s lo} = {lo..<u_brk s}" using sp by (simp add: F space_def)
  moreover have "0 < u_size s lo" using bl by (simp add: F blocks_def)
  ultimately have "lo + 8 * u_size s lo = u_brk s" using b by (simp add: atLeastLessThan_eq_iff)
  moreover have "succ_of {u_base s, lo} (u_base s) (u_ptr s (u_base s))" using r by (simp add: ring_def F)
  then have "u_ptr s (u_base s) = lo" using base by (cases rule: succ_cases) auto
  ultimately show ?thesis by simp
qed

text \<open>
  C4. However a program calls \<open>malloc\<close> and \<open>free\<close>, as long as it frees what it was given and asks for less than 2^30 bytes at a time, every call returns; the bytes
  it owns lie inside the heap and those of different blocks never overlap; and when it has freed everything the heap is
  one free block again.
\<close>

theorem umalloc_history:
  assumes "u_freep s = 0" "0 < u_base s" "u_base s < u_brk s" "list_all small_op ops"
  shows "\<exists>own t. urun ops [] s = Some (own, t) \<and> distinct (map fst own) \<and>
    (\<forall>(p, nb)\<in>set own. u_brk s < p \<and> p + unat nb \<le> u_brk t) \<and>
    (\<forall>(p, nb)\<in>set own. \<forall>(q, mb)\<in>set own. p \<noteq> q \<longrightarrow> {p..<p + unat nb} \<inter> {q..<q + unat mb} = {}) \<and>
    (own = [] \<and> u_brk s < u_brk t \<longrightarrow> u_ptr t (u_base t) = u_brk s \<and> u_brk s + 8 * u_size t (u_brk s) = u_brk t)"
proof -
  obtain own t where r: "urun ops [] s = Some (own, t)" and o: "own = [] \<and> t = s \<or> owns (u_brk s) t own"
    using urun_fresh [OF assms] by blast
  show ?thesis
  proof (cases "own = [] \<and> t = s")
    case False
    then have o: "owns (u_brk s) t own" using o by blast
    have "u_ptr t (u_base t) = u_brk s \<and> u_brk s + 8 * u_size t (u_brk s) = u_brk t" if "own = []" "u_brk s < u_brk t"
      using o that all_free by (auto simp: owns_def)
    moreover have "\<forall>(p, nb)\<in>set own. u_brk s < p \<and> p + unat nb \<le> u_brk t" using owns_inside [OF o] by blast
    moreover have "\<forall>(p, nb)\<in>set own. \<forall>(q, mb)\<in>set own. p \<noteq> q \<longrightarrow> {p..<p + unat nb} \<inter> {q..<q + unat mb} = {}"
      using owns_disjoint [OF o] by blast
    moreover have "distinct (map fst own)" using o by (simp add: owns_def)
    ultimately show ?thesis using r by blast
  qed (use r in simp)
qed

definition uheap0 :: uheap where
  "uheap0 = \<lparr>u_ptr = \<lambda>_. 0, u_size = \<lambda>_. 0, u_freep = 0, u_base = 2048, u_brk = 12288, u_max = 1000000\<rparr>"

theorem umalloc_history_witness:
  "\<exists>own t. urun [UMalloc 100, UMalloc 20, UFree 0] [] uheap0 = Some (own, t) \<and> distinct (map fst own) \<and>
    (\<forall>(p, nb)\<in>set own. 12288 < p \<and> p + unat nb \<le> u_brk t)"
proof -
  have "list_all small_op [UMalloc 100, UMalloc 20, UFree 0]" by (simp add: small_op_def)
  from umalloc_history [OF _ _ _ this, of uheap0] show ?thesis by (auto simp: uheap0_def)
qed

text \<open>
  A request whose size wraps around gets a block without room for anything: the sum in \<open>nunits\<close> overflows.
\<close>

theorem malloc_size_wraps: "unat (nunits_of (- 1)) = 1"
  by code_simp

end
