(* ===== verification/Spec2Isabelle.thy ===== *)
theory Spec2Isabelle
  imports FsWrite Trap Life Sysfile ShellText ShellRun Spinlock Grep Umalloc
begin

text \<open>
  A verification development of the xv6 kernel under \<open>src/\<close>, extended there with a lottery scheduler, signals and exit
  status, and of the shell, \<open>grep\<close> and the allocator that run on it. This theory imports all others; every property stands in the theory
  of its component.

  \<^bold>\<open>How the code is modelled.\<close> A C \<open>uint\<close> is a \<open>32 word\<close>, a \<open>uchar\<close> an \<open>8 word\<close>, an \<open>int\<close> a HOL \<open>int\<close>. The state of the kernel is a
  chain of extensible records, one per layer: \<open>kmem\<close> (pages and the free list), \<open>kvm\<close>, \<open>kproc\<close> (the process table), \<open>kbio\<close> (disk and buffers),
  \<open>klog\<close>, \<open>kfs\<close> (inode cache), \<open>kcons\<close>, \<open>kfile\<close> (files and pipes), \<open>ksys\<close>. A routine is a function from its arguments and the
  state to an \<open>outcome\<close>: a result and a state, a \<open>Panic\<close> with its message, or \<open>Sleep\<close> on a channel, which is where the process leaves the
  processor and from where the call starts again. Null dereferences, array accesses out of bounds and page faults of the kernel are panics. Pointers into tables are
  indices; page tables, free lists and disk blocks are bytes in pages, read and written as the code does. Code between \<open>acquire\<close> and
  \<open>release\<close> is one step; that this is allowed is the subject of \<open>Spinlock\<close>. Contents of uninitialised memory, device input and code
  that the build generates are parameters.

  \<^bold>\<open>Basis.\<close> \<open>Prelude\<close> has the types, the outcome and generic lemmas; \<open>Bytes\<close> little-endian fields of byte arrays; \<open>CString\<close> \<open>string.c\<close> and
  \<open>ulib.c\<close>; \<open>Layout\<close> the macros of \<open>mmu.h\<close>, \<open>memlayout.h\<close> and \<open>param.h\<close>.

  \<^bold>\<open>Memory.\<close> \<open>Kalloc\<close> (\<open>kalloc.c\<close>): over any history of calls no page is owned twice or lost; the interface \<open>page_pool\<close>.
  \<open>Vm\<close>, \<open>Umem\<close>, \<open>Uvm\<close>, \<open>Copy\<close> (\<open>vm.c\<close>): mapping, growing, copying out, and that \<open>freevm\<close> gives back exactly the pages of an address
  space and \<open>copyuvm\<close> makes an equal one in frames of its own.

  \<^bold>\<open>Processes.\<close> \<open>Proc\<close> (\<open>proc.c\<close>): the table, interface \<open>slot_table\<close>, sleeping, waking, signals, and the lottery: a process
  gets the share of its tickets. \<open>Reap\<close>: what \<open>wait\<close> leaves in the memory of
  the parent and gives back of the child. \<open>Process\<close> and \<open>Life\<close>: \<open>fork\<close>, \<open>exit\<close> with the references it drops, segments and gates. \<open>Syscall\<close> (\<open>syscall.c\<close>, \<open>sysproc.c\<close>): arguments are accepted exactly when they
  lie inside the process. \<open>Exec\<close> (\<open>exec.c\<close>), \<open>Trap\<close> (\<open>trap.c\<close>, \<open>trapasm.S\<close>): dispatch of traps and delivery of signals.

  \<^bold>\<open>Storage.\<close> \<open>Bio\<close> (\<open>bio.c\<close>, \<open>memide.c\<close>): the pointer ring refines a most-recently-used list; the interface \<open>block_cache\<close>. \<open>Log\<close> (\<open>log.c\<close>): a crash
  between any two disk writes of a commit is recovered to the old or the new contents. \<open>FsLog\<close> has the steps of an operation inside a
  transaction, from which \<open>Fs\<close>, \<open>FsAlloc\<close>, \<open>FsFile\<close> and \<open>FsWrite\<close> (\<open>fs.c\<close>) compose the proofs about blocks and files: \<open>balloc\<close> takes the first
  free block, \<open>readi\<close> returns the bytes of a file and what \<open>writei\<close> wrote. \<open>Dir\<close>: directories and paths. \<open>Pipe\<close> (\<open>pipe.c\<close>, \<open>file.c\<close>)
  and \<open>Console\<close> (\<open>console.c\<close>, \<open>kbd.c\<close>) share the ring buffers of \<open>Ring\<close> and the interface \<open>fifo\<close>. For runs of writes, reads, closes and kills on a pipe
  it is shown who can be asleep on it; the one wakeup that can be lost is that of a reader when a write gives up because its writer was killed or no
  read end is left. Output changes the screen as a 24-row terminal does, and a store outside screen memory would be a fault. \<open>Sysfile\<close> (\<open>sysfile.c\<close>): the calls
  on files.

  \<^bold>\<open>Locks.\<close> \<open>Spinlock\<close> (\<open>spinlock.c\<close>) has \<open>acquire\<close> and \<open>release\<close> as sequences of memory accesses and a step relation that interleaves the
  processors; by rule induction, mutual exclusion and that \<open>holding\<close> is exact.

  \<^bold>\<open>User programs.\<close> \<open>Shell\<close> (\<open>sh.c\<close>) is the parser over positions in the line: it returns on every line, and what it returns is well formed.
  \<open>ShellText\<close> prints commands with the parentheses they need and shows that the parser reads them back. \<open>ShellRun\<close> has \<open>runcmd\<close> and \<open>main\<close> as trees
  of system calls that branch on the results, and shows that every program runs on exactly the descriptors the
  line calls for. \<open>Grep\<close> (\<open>grep.c\<close>): the matcher decides the language of a pattern, and lines are found across reads. \<open>Umalloc\<close>
  (\<open>umalloc.c\<close>): the ring of free blocks, with the same kind of history as for pages.

  \<^bold>\<open>Bounds and fuel.\<close> The mutually recursive routines of the parser take fuel; four calls for each character of the line and four more are
  enough, and \<open>parsecmd_returns\<close> says that more change nothing. The loop in which the shell opens the console takes fuel 4: a new descriptor is the
  first free one, so the fourth is at least 3. The searches of \<open>Umalloc\<close> are partial functions with \<open>None\<close> for
  a search that does not end, and are shown to end. All other loops are recursive functions with a termination proof. Requests of \<open>malloc\<close> are below \<open>2 ^ 30\<close> bytes, because sizes wrap
  around beyond (\<open>malloc_size_wraps\<close>), and lines of \<open>grep\<close> shorter than its buffer, read by reads that are complete, because it drops a
  buffer without a newline (\<open>grep_loses_short_reads\<close>).

  \<^bold>\<open>Not modelled.\<close> The boot loader, entry code, context switch and the generated stubs are assembly. \<open>main.c\<close>, \<open>lapic.c\<close>, \<open>ioapic.c\<close>, \<open>picirq.c\<close>, \<open>timer.c\<close>, \<open>mp.c\<close>
  and \<open>ide.c\<close> write device registers; the interrupts they raise are inputs of \<open>trap\<close>, and the disk is that of \<open>memide.c\<close>, which has the
  interface of \<open>ide.c\<close>. \<open>mkfs.c\<close> runs on the host; the geometry it lays out is a hypothesis of the file-system theorems, which a concrete disk satisfies. The \<open>printf\<close> of
  user programs, the small programs around single system calls and the test programs are left out. Loading segment and page-table
  registers has no effect in the model, and the scheduler of the shell's children is not composed with that of
  the kernel: \<open>ShellRun\<close> takes the results of system calls as the kernel theories describe them.
\<close>

end
